(* ===== verification/Prelude.thy ===== *)
theory Prelude
  imports Complex_Main "HOL-Library.Word" "HOL-Library.Sublist" "HOL-Library.Char_ord"
    "HOL-Library.List_Lexorder" "HOL-Library.Product_Lexorder"
begin

text \<open>
  What the component theories share: the result type and its sequencing, insertion-ordered
  maps, byte strings with the Rust operations on them (characters, splitting, trimming,
  prefixes), and decimal numbers. A Rust \<open>str\<close> is its UTF-8 bytes, one \<^typ>\<open>char\<close> per
  byte; a Rust \<open>char\<close> is the byte string of one code point (see \<open>chars\<close>).
\<close>

named_theorems result_simps \<open>equations and inversions of result sequencing\<close>
named_theorems omap_simps \<open>lookup laws of insertion-ordered maps\<close>
named_theorems str_simps \<open>laws of byte strings\<close>

section \<open>Results\<close>

text \<open>\<open>Result<T, E>\<close> is \<^typ>\<open>'e + 'a\<close>, the error on the left; \<open>andthen\<close> is the \<open>?\<close>
  operator, \<open>then_do\<close> the same for operations that change a state, keeping the state reached
  when an operation fails.\<close>

definition andthen :: "'e + 'a \<Rightarrow> ('a \<Rightarrow> 'e + 'b) \<Rightarrow> 'e + 'b" where
  "andthen r f = (case r of Inl e \<Rightarrow> Inl e | Inr x \<Rightarrow> f x)"

definition map_err :: "('e \<Rightarrow> 'f) \<Rightarrow> 'e + 'a \<Rightarrow> 'f + 'a" where
  "map_err f r = (case r of Inl e \<Rightarrow> Inl (f e) | Inr x \<Rightarrow> Inr x)"

definition ok_or :: "'e \<Rightarrow> 'a option \<Rightarrow> 'e + 'a" where
  "ok_or e x = (case x of None \<Rightarrow> Inl e | Some y \<Rightarrow> Inr y)"

definition ok_of :: "'e + 'a \<Rightarrow> 'a option" where
  "ok_of r = (case r of Inl _ \<Rightarrow> None | Inr x \<Rightarrow> Some x)"

definition then_do :: "('s \<Rightarrow> ('e + 'a) \<times> 's) \<Rightarrow> ('a \<Rightarrow> 's \<Rightarrow> ('e + 'b) \<times> 's) \<Rightarrow> 's \<Rightarrow> ('e + 'b) \<times> 's" where
  "then_do m f s = (case m s of (Inl e, t) \<Rightarrow> (Inl e, t) | (Inr x, t) \<Rightarrow> f x t)"

definition lift_res :: "'e + 'a \<Rightarrow> 's \<Rightarrow> ('e + 'a) \<times> 's" where
  "lift_res r s = (r, s)"

definition query :: "('s \<Rightarrow> 'e + 'a) \<Rightarrow> 's \<Rightarrow> ('e + 'a) \<times> 's" where
  "query f s = (f s, s)"

text \<open>A loop that leaves at the first error.\<close>

fun for_each :: "('a \<Rightarrow> 'e + unit) \<Rightarrow> 'a list \<Rightarrow> 'e + unit" where
  "for_each f [] = Inr ()"
| "for_each f (x # xs) = andthen (f x) (\<lambda>_. for_each f xs)"

fun map_res :: "('a \<Rightarrow> 'e + 'b) \<Rightarrow> 'a list \<Rightarrow> 'e + 'b list" where
  "map_res f [] = Inr []"
| "map_res f (x # xs) = andthen (f x) (\<lambda>y. andthen (map_res f xs) (\<lambda>ys. Inr (y # ys)))"

definition guard_err :: "bool \<Rightarrow> 'e \<Rightarrow> 'e + unit" where
  "guard_err ok e = (if ok then Inr () else Inl e)"

lemma andthen_simps [simp, result_simps]:
  "andthen (Inl e) f = Inl e" "andthen (Inr x) f = f x"
  by (simp_all add: andthen_def)

lemma andthen_eq_Inr [result_simps]:
  "andthen r f = Inr y \<longleftrightarrow> (\<exists>x. r = Inr x \<and> f x = Inr y)"
  by (cases r) auto

lemma andthen_unit_Inr: "andthen r (\<lambda>_::unit. s) = Inr y \<longleftrightarrow> r = Inr () \<and> s = Inr y"
  by (cases r) auto

lemma andthen_eq_Inl [result_simps]:
  "andthen r f = Inl e \<longleftrightarrow> r = Inl e \<or> (\<exists>x. r = Inr x \<and> f x = Inl e)"
  by (cases r) auto

lemma for_each_Inr [result_simps]: "for_each f xs = Inr () \<longleftrightarrow> (\<forall>x \<in> set xs. f x = Inr ())"
  by (induction xs) (auto simp: andthen_eq_Inr)

lemma for_each_cong [fundef_cong]:
  "xs = ys \<Longrightarrow> (\<And>x. x \<in> set ys \<Longrightarrow> f x = g x) \<Longrightarrow> for_each f xs = for_each g ys"
  by (induction ys arbitrary: xs) auto

lemma map_res_Inr [result_simps]: "map_res f xs = Inr ys \<longleftrightarrow> list_all2 (\<lambda>x y. f x = Inr y) xs ys"
  by (induction xs arbitrary: ys) (auto simp: andthen_eq_Inr list_all2_Cons1)

lemma guard_err_Inr [simp, result_simps]: "guard_err ok e = Inr u \<longleftrightarrow> ok"
  by (simp add: guard_err_def)

lemma guard_err_Inl [result_simps]: "guard_err ok e = Inl d \<longleftrightarrow> \<not> ok \<and> d = e"
  by (auto simp: guard_err_def)

lemma map_err_simps [simp, result_simps]:
  "map_err f (Inl e) = Inl (f e)" "map_err f (Inr x) = Inr x"
  by (simp_all add: map_err_def)

lemma map_err_eq_Inr [simp, result_simps]: "map_err f r = Inr y \<longleftrightarrow> r = Inr y"
  by (cases r) auto

lemma map_err_eq_Inl [result_simps]: "map_err f r = Inl y \<longleftrightarrow> (\<exists>e. r = Inl e \<and> y = f e)"
  by (cases r) auto

lemma ok_or_simps [simp, result_simps]: "ok_or e None = Inl e" "ok_or e (Some x) = Inr x"
  by (simp_all add: ok_or_def)

lemma ok_or_eq [result_simps]:
  "ok_or e x = Inr y \<longleftrightarrow> x = Some y" "ok_or e x = Inl d \<longleftrightarrow> x = None \<and> d = e"
  by (cases x; auto)+

lemma ok_of_simps [simp, result_simps]: "ok_of (Inl e) = None" "ok_of (Inr x) = Some x"
  by (simp_all add: ok_of_def)

lemma then_do_Inr [result_simps]:
  "then_do m f s = (Inr y, u) \<longleftrightarrow> (\<exists>x t. m s = (Inr x, t) \<and> f x t = (Inr y, u))"
  by (auto simp: then_do_def split: prod.splits sum.splits)

lemma then_do_simps [simp]:
  "m s = (Inl e, t) \<Longrightarrow> then_do m f s = (Inl e, t)"
  "m s = (Inr x, t) \<Longrightarrow> then_do m f s = f x t"
  by (simp_all add: then_do_def)

lemma lift_query_simps [simp]: "lift_res r s = (r, s)" "query g s = (g s, s)"
  by (simp_all add: lift_res_def query_def)

lemma then_do_lift [simp]:
  "then_do (lift_res r) f s = (case r of Inl e \<Rightarrow> (Inl e, s) | Inr x \<Rightarrow> f x s)"
  "then_do (query g) f s = (case g s of Inl e \<Rightarrow> (Inl e, s) | Inr x \<Rightarrow> f x s)"
  by (simp_all add: then_do_def split: sum.splits)

section \<open>Insertion-ordered maps\<close>

text \<open>
  \<open>serde_json::Map\<close> with \<open>preserve_order\<close>: an association list with distinct keys in
  insertion order. \<open>oput\<close> is \<open>insert\<close> (the position of a key that is there is kept, a new key
  goes last), \<open>odel\<close> is \<open>shift_remove\<close> (the order of the rest is kept); lookup is
  \<^const>\<open>map_of\<close>. The same structure holds the nodes of a file system.
\<close>

type_synonym ('k, 'v) omap = "('k \<times> 'v) list"

fun oput :: "'k \<Rightarrow> 'v \<Rightarrow> ('k, 'v) omap \<Rightarrow> ('k, 'v) omap" where
  "oput k v [] = [(k, v)]"
| "oput k v ((k', v') # m) = (if k = k' then (k, v) # m else (k', v') # oput k v m)"

definition odel :: "'k \<Rightarrow> ('k, 'v) omap \<Rightarrow> ('k, 'v) omap" where
  "odel k m = filter (\<lambda>(k', _). k' \<noteq> k) m"

definition ohas :: "('k, 'v) omap \<Rightarrow> 'k \<Rightarrow> bool" where
  "ohas m k \<longleftrightarrow> map_of m k \<noteq> None"

definition okeys :: "('k, 'v) omap \<Rightarrow> 'k list" where
  "okeys m = map fst m"

abbreviation odistinct :: "('k, 'v) omap \<Rightarrow> bool" where
  "odistinct m \<equiv> distinct (map fst m)"

text \<open>The interface a map-like container promises its clients: the laws of lookup after insert
  and delete, and that both keep the container's invariant.\<close>

locale ordered_map =
  fixes get :: "'m \<Rightarrow> 'k \<Rightarrow> 'v option"
    and put :: "'k \<Rightarrow> 'v \<Rightarrow> 'm \<Rightarrow> 'm"
    and del :: "'k \<Rightarrow> 'm \<Rightarrow> 'm"
    and keys :: "'m \<Rightarrow> 'k list"
    and inv :: "'m \<Rightarrow> bool"
  assumes get_put: "get (put k v m) j = (if j = k then Some v else get m j)"
    and get_del: "get (del k m) j = (if j = k then None else get m j)"
    and keys_get: "k \<in> set (keys m) \<longleftrightarrow> get m k \<noteq> None"
    and inv_put: "inv m \<Longrightarrow> inv (put k v m)"
    and inv_del: "inv m \<Longrightarrow> inv (del k m)"
    and put_present_keys: "get m k \<noteq> None \<Longrightarrow> keys (put k v m) = keys m"
    and put_absent_keys: "get m k = None \<Longrightarrow> keys (put k v m) = keys m @ [k]"
    and keys_del: "keys (del k m) = filter (\<lambda>j. j \<noteq> k) (keys m)"
    and put_same: "get m k = Some v \<Longrightarrow> inv m \<Longrightarrow> put k v m = m"
    and del_absent: "get m k = None \<Longrightarrow> del k m = m"
begin

lemma get_put_same: "get (put k v m) k = Some v"
  by (simp add: get_put)

lemma get_put_other: "j \<noteq> k \<Longrightarrow> get (put k v m) j = get m j"
  by (simp add: get_put)

lemma get_del_same: "get (del k m) k = None"
  by (simp add: get_del)

lemma get_del_other: "j \<noteq> k \<Longrightarrow> get (del k m) j = get m j"
  by (simp add: get_del)

lemma keys_put: "set (keys (put k v m)) = insert k (set (keys m))"
  by (auto simp: keys_get get_put split: if_splits)

lemma get_put_del: "get (put k v (del k m)) = get (put k v m)"
  by (rule ext) (simp add: get_put get_del)

end

lemma map_of_oput: "map_of (oput k v m) j = (if j = k then Some v else map_of m j)"
  by (induction m) auto

lemma map_of_odel: "map_of (odel k m) j = (if j = k then None else map_of m j)"
  by (induction m) (auto simp: odel_def)

lemma fst_oput: "map fst (oput k v m) = (if k \<in> fst ` set m then map fst m else map fst m @ [k])"
  by (induction m) force+

lemma odistinct_oput: "odistinct m \<Longrightarrow> odistinct (oput k v m)"
  by (simp add: fst_oput)

lemma fst_odel: "map fst (odel k m) = filter (\<lambda>j. j \<noteq> k) (map fst m)"
  by (induction m) (auto simp: odel_def)

lemma odistinct_odel: "odistinct m \<Longrightarrow> odistinct (odel k m)"
  by (simp add: fst_odel)

lemma oput_same: "map_of m k = Some v \<Longrightarrow> oput k v m = m"
  by (induction m) (auto split: if_splits)

lemma odel_absent: "map_of m k = None \<Longrightarrow> odel k m = m"
  by (force simp: odel_def map_of_eq_None_iff filter_id_conv)

interpretation om: ordered_map map_of oput odel okeys "\<lambda>m. distinct (map fst m)"
proof (unfold_locales, goal_cases)
  case (3 k m)
  then show ?case by (simp add: okeys_def map_of_eq_None_iff)
qed (auto simp: map_of_oput map_of_odel odistinct_oput odistinct_odel okeys_def fst_oput fst_odel
  oput_same odel_absent map_of_eq_None_iff simp del: map_map)

lemmas omap_laws [simp, omap_simps] = om.get_put om.get_del

lemma ohas_iff: "ohas m k \<longleftrightarrow> k \<in> fst ` set m"
  by (auto simp: ohas_def map_of_eq_None_iff)

lemma ohas_laws [simp, omap_simps]:
  "ohas (oput k v m) j \<longleftrightarrow> j = k \<or> ohas m j"
  "ohas (odel k m) j \<longleftrightarrow> j \<noteq> k \<and> ohas m j"
  "ohas [] j \<longleftrightarrow> False"
  by (auto simp: ohas_def)

lemma map_of_None_ohas: "map_of m k = None \<longleftrightarrow> \<not> ohas m k"
  by (simp add: ohas_def)

lemma in_set_oput: "(j, w) \<in> set (oput k v m) \<Longrightarrow> (j, w) = (k, v) \<or> (j, w) \<in> set m"
  by (induction m) (auto split: if_splits)

lemma in_set_odel: "(j, w) \<in> set (odel k m) \<Longrightarrow> (j, w) \<in> set m"
  by (auto simp: odel_def)

lemma map_of_in_set: "odistinct m \<Longrightarrow> map_of m k = Some v \<longleftrightarrow> (k, v) \<in> set m"
  by (simp add: map_of_eq_Some_iff)

lemma omap_eqI:
  assumes "map fst m = map fst n" "odistinct m" "\<And>k. map_of m k = map_of n k"
  shows "m = n"
  using assms
proof (induction m arbitrary: n)
  case Nil
  then show ?case by simp
next
  case (Cons a m)
  then obtain b n' where n: "n = b # n'" and ab: "fst a = fst b" and mn: "map fst m = map fst n'"
    by (cases n) auto
  have "snd a = snd b"
    using Cons.prems(3) [of "fst a"] n ab by (cases a; cases b) auto
  with ab have "a = b" by (simp add: prod_eq_iff)
  moreover have "map_of m k = map_of n' k" for k
  proof (cases "k = fst a")
    case True
    with Cons.prems(2) mn ab n show ?thesis
      by (metis distinct.simps(2) list.simps(9) map_of_eq_None_iff set_map)
  next
    case False
    with Cons.prems(3) [of k] n ab show ?thesis by (cases a; cases b) auto
  qed
  ultimately show ?case using Cons.IH [OF mn] Cons.prems(2) n by simp
qed

section \<open>Byte strings\<close>

abbreviation code :: "char \<Rightarrow> nat" where
  "code c \<equiv> of_char c"

abbreviation nl :: char where
  "nl \<equiv> CHR 0x0A"

definition is_digit :: "char \<Rightarrow> bool" where
  "is_digit c \<longleftrightarrow> 48 \<le> code c \<and> code c \<le> 57"

definition is_upper :: "char \<Rightarrow> bool" where
  "is_upper c \<longleftrightarrow> 65 \<le> code c \<and> code c \<le> 90"

definition is_lower :: "char \<Rightarrow> bool" where
  "is_lower c \<longleftrightarrow> 97 \<le> code c \<and> code c \<le> 122"

definition is_alpha :: "char \<Rightarrow> bool" where
  "is_alpha c \<longleftrightarrow> is_upper c \<or> is_lower c"

definition is_alnum :: "char \<Rightarrow> bool" where
  "is_alnum c \<longleftrightarrow> is_alpha c \<or> is_digit c"

lemmas ascii_class_defs = is_digit_def is_upper_def is_lower_def is_alpha_def is_alnum_def

definition to_lower :: "char \<Rightarrow> char" where
  "to_lower c = (if is_upper c then char_of (code c + 32) else c)"

text \<open>The characters of a \<open>str\<close>: the lead byte of a UTF-8 sequence says how many
  continuation bytes belong to it. A character is the byte string of its encoding.\<close>

definition utf8_tail :: "char \<Rightarrow> nat" where
  "utf8_tail b = (if code b < 192 then 0 else if code b < 224 then 1 else if code b < 240 then 2 else 3)"

fun chars :: "string \<Rightarrow> string list" where
  "chars [] = []"
| "chars (b # bs) = (b # take (utf8_tail b) bs) # chars (drop (utf8_tail b) bs)"

definition is_ascii :: "string \<Rightarrow> bool" where
  "is_ascii s \<longleftrightarrow> (\<forall>c \<in> set s. code c < 128)"

lemma concat_chars [simp, str_simps]: "concat (chars s) = s"
  by (induction s rule: chars.induct) simp_all

lemma chars_nonempty: "c \<in> set (chars s) \<Longrightarrow> c \<noteq> []"
  by (induction s rule: chars.induct) auto

lemma chars_eq_Nil [simp]: "chars s = [] \<longleftrightarrow> s = []"
  by (cases s) auto

lemma chars_ascii: "is_ascii s \<Longrightarrow> chars s = map (\<lambda>c. [c]) s"
  by (induction s) (auto simp: is_ascii_def utf8_tail_def)

text \<open>Unicode \<open>White_Space\<close>, each code point as its UTF-8 bytes: U+0009 to U+000D, U+0020,
  U+0085, U+00A0, U+1680, U+2000 to U+200A, U+2028, U+2029, U+202F, U+205F, U+3000.\<close>

definition ws_chars :: "string list" where
  "ws_chars =
     [[CHR 0x09], [CHR 0x0A], [CHR 0x0B], [CHR 0x0C], [CHR 0x0D], [CHR 0x20],
      [CHR 0xC2, CHR 0x85], [CHR 0xC2, CHR 0xA0], [CHR 0xE1, CHR 0x9A, CHR 0x80],
      [CHR 0xE2, CHR 0x80, CHR 0x80], [CHR 0xE2, CHR 0x80, CHR 0x81], [CHR 0xE2, CHR 0x80, CHR 0x82],
      [CHR 0xE2, CHR 0x80, CHR 0x83], [CHR 0xE2, CHR 0x80, CHR 0x84], [CHR 0xE2, CHR 0x80, CHR 0x85],
      [CHR 0xE2, CHR 0x80, CHR 0x86], [CHR 0xE2, CHR 0x80, CHR 0x87], [CHR 0xE2, CHR 0x80, CHR 0x88],
      [CHR 0xE2, CHR 0x80, CHR 0x89], [CHR 0xE2, CHR 0x80, CHR 0x8A], [CHR 0xE2, CHR 0x80, CHR 0xA8],
      [CHR 0xE2, CHR 0x80, CHR 0xA9], [CHR 0xE2, CHR 0x80, CHR 0xAF], [CHR 0xE2, CHR 0x81, CHR 0x9F],
      [CHR 0xE3, CHR 0x80, CHR 0x80]]"

definition is_ws :: "string \<Rightarrow> bool" where
  "is_ws c \<longleftrightarrow> c \<in> set ws_chars"

definition drop_end :: "('a \<Rightarrow> bool) \<Rightarrow> 'a list \<Rightarrow> 'a list" where
  "drop_end P xs = rev (dropWhile P (rev xs))"

definition trim_end :: "string \<Rightarrow> string" where
  "trim_end s = concat (drop_end is_ws (chars s))"

definition trim_start :: "string \<Rightarrow> string" where
  "trim_start s = concat (dropWhile is_ws (chars s))"

definition trim :: "string \<Rightarrow> string" where
  "trim s = concat (drop_end is_ws (dropWhile is_ws (chars s)))"

definition trim_end_nl :: "string \<Rightarrow> string" where
  "trim_end_nl s = drop_end (\<lambda>c. c = nl) s"

lemma drop_end_Nil [simp]: "drop_end P [] = []"
  by (simp add: drop_end_def)

lemma drop_end_snoc [simp]: "drop_end P (xs @ [x]) = (if P x then drop_end P xs else xs @ [x])"
  by (simp add: drop_end_def)

lemma drop_end_decomp: "\<exists>ys. xs = drop_end P xs @ ys \<and> (\<forall>y \<in> set ys. P y)"
proof -
  have "rev xs = takeWhile P (rev xs) @ dropWhile P (rev xs)" by simp
  then have "xs = drop_end P xs @ rev (takeWhile P (rev xs))"
    by (metis drop_end_def rev_append rev_rev_ident)
  moreover have "\<forall>y \<in> set (rev (takeWhile P (rev xs))). P y"
    by (auto dest: set_takeWhileD)
  ultimately show ?thesis by blast
qed

lemma drop_end_last: "drop_end P xs \<noteq> [] \<Longrightarrow> \<not> P (last (drop_end P xs))"
  by (auto simp: drop_end_def last_rev hd_dropWhile)

lemma drop_end_idem [simp]: "drop_end P (drop_end P xs) = drop_end P xs"
  by (simp add: drop_end_def dropWhile_idem [of P])

lemma drop_end_id: "xs = [] \<or> \<not> P (last xs) \<Longrightarrow> drop_end P xs = xs"
  by (cases xs rule: rev_cases) auto

lemma length_drop_end: "length (drop_end P xs) \<le> length xs"
  using length_dropWhile_le [of P "rev xs"] by (simp add: drop_end_def)

lemma length_concat_drop_end: "length (concat (drop_end P xs)) \<le> length (concat xs)"
proof -
  from drop_end_decomp [of xs P] obtain ys where ys: "xs = drop_end P xs @ ys" by (elim exE conjE)
  have "length (concat xs) = length (concat (drop_end P xs)) + length (concat ys)"
    using arg_cong [OF ys, of "\<lambda>z. length (concat z)"] by (simp only: concat_append length_append)
  then show ?thesis by linarith
qed

lemma length_trim_end: "length (trim_end s) \<le> length s"
  using length_concat_drop_end [of is_ws "chars s"] by (simp add: trim_end_def)

lemma trim_end_nl_append_nl [simp]: "trim_end_nl (s @ [nl]) = trim_end_nl s"
  by (simp add: trim_end_nl_def)

section \<open>Splitting and joining\<close>

fun split_by :: "('a \<Rightarrow> bool) \<Rightarrow> 'a list \<Rightarrow> 'a list list" where
  "split_by P [] = [[]]"
| "split_by P (x # xs) =
     (if P x then [] # split_by P xs
      else (case split_by P xs of [] \<Rightarrow> [[x]] | y # ys \<Rightarrow> (x # y) # ys))"

definition split_on :: "char \<Rightarrow> string \<Rightarrow> string list" where
  "split_on c = split_by (\<lambda>x. x = c)"

fun join :: "'a list \<Rightarrow> 'a list list \<Rightarrow> 'a list" where
  "join sep [] = []"
| "join sep [x] = x"
| "join sep (x # y # ys) = x @ sep @ join sep (y # ys)"

definition strip_prefix :: "string \<Rightarrow> string \<Rightarrow> string option" where
  "strip_prefix p s = (if prefix p s then Some (drop (length p) s) else None)"

definition strip_suffix :: "string \<Rightarrow> string \<Rightarrow> string option" where
  "strip_suffix p s = (if suffix p s then Some (take (length s - length p) s) else None)"

definition split_once :: "char \<Rightarrow> string \<Rightarrow> (string \<times> string) option" where
  "split_once c s =
     (if c \<in> set s then Some (takeWhile (\<lambda>x. x \<noteq> c) s, tl (dropWhile (\<lambda>x. x \<noteq> c) s)) else None)"

definition rsplit_once :: "char \<Rightarrow> string \<Rightarrow> (string \<times> string) option" where
  "rsplit_once c s =
     (if c \<in> set s
      then Some (rev (tl (dropWhile (\<lambda>x. x \<noteq> c) (rev s))), rev (takeWhile (\<lambda>x. x \<noteq> c) (rev s)))
      else None)"

definition split_whitespace :: "string \<Rightarrow> string list" where
  "split_whitespace s = map concat (filter (\<lambda>w. w \<noteq> []) (split_by is_ws (chars s)))"

lemma split_by_nonempty [simp]: "split_by P xs \<noteq> []"
  by (induction xs) (auto split: list.splits)

lemma split_by_free: "ys \<in> set (split_by P xs) \<Longrightarrow> y \<in> set ys \<Longrightarrow> \<not> P y"
proof (induction xs arbitrary: ys)
  case Nil
  then show ?case by simp
next
  case (Cons x xs)
  obtain z zs where "split_by P xs = z # zs" by (meson neq_Nil_conv split_by_nonempty)
  with Cons show ?case by (cases "P x") (auto, blast)
qed

lemma split_by_elems: "ys \<in> set (split_by P xs) \<Longrightarrow> set ys \<subseteq> set xs"
proof (induction xs arbitrary: ys)
  case Nil
  then show ?case by simp
next
  case (Cons x xs)
  then show ?case by (fastforce split: if_splits list.splits)
qed

lemma split_by_none: "(\<And>x. x \<in> set xs \<Longrightarrow> \<not> P x) \<Longrightarrow> split_by P xs = [xs]"
  by (induction xs) auto

lemma split_by_append:
  assumes "\<And>x. x \<in> set xs \<Longrightarrow> \<not> P x" "P s"
  shows "split_by P (xs @ s # ys) = xs # split_by P ys"
  using assms by (induction xs) auto

lemma split_by_join:
  assumes "P s" "xs \<noteq> []" "\<And>x y. x \<in> set xs \<Longrightarrow> y \<in> set x \<Longrightarrow> \<not> P y"
  shows "split_by P (join [s] xs) = xs"
  using assms(2,3)
proof (induction xs rule: induct_list012)
  case (2 x)
  then show ?case by (simp add: split_by_none)
next
  case (3 x y zs)
  have "split_by P (join [s] (y # zs)) = y # zs"
    by (rule "3.IH"(2)) (use "3.prems" in auto)
  moreover have "split_by P (x @ s # join [s] (y # zs)) = x # split_by P (join [s] (y # zs))"
    using "3.prems" assms(1) by (intro split_by_append) auto
  ultimately show ?case by simp
qed simp

lemma split_on_join:
  assumes "xs \<noteq> []" "\<And>x. x \<in> set xs \<Longrightarrow> c \<notin> set x"
  shows "split_on c (join [c] xs) = xs"
  unfolding split_on_def using assms by (intro split_by_join) auto

lemma map_join: "map f (join sep xs) = join (map f sep) (map (map f) xs)"
  by (induction sep xs rule: join.induct) auto

lemma is_ascii_join: "is_ascii sep \<Longrightarrow> (\<And>x. x \<in> set xs \<Longrightarrow> is_ascii x) \<Longrightarrow> is_ascii (join sep xs)"
  by (induction sep xs rule: join.induct) (auto simp: is_ascii_def)

lemma join_split_on: "join [c] (split_on c s) = s"
proof (induction s)
  case Nil
  then show ?case by (simp add: split_on_def)
next
  case (Cons x s)
  obtain y ys where yy: "split_on c s = y # ys"
    by (metis split_on_def neq_Nil_conv split_by_nonempty)
  with Cons show ?case by (cases ys) (auto simp: split_on_def)
qed

lemma split_on_piece: "p \<in> set (split_on c s) \<Longrightarrow> c \<notin> set p"
  using split_by_free [of p "\<lambda>x. x = c" s] by (auto simp: split_on_def)

lemma split_on_nonempty [simp]: "split_on c s \<noteq> []"
  by (simp add: split_on_def)

lemma strip_prefix_Some [str_simps]: "strip_prefix p s = Some r \<longleftrightarrow> s = p @ r"
  by (auto simp: strip_prefix_def prefix_def)

lemma strip_prefix_append [simp]: "strip_prefix p (p @ r) = Some r"
  by (simp add: strip_prefix_Some)

lemma strip_suffix_Some [str_simps]: "strip_suffix p s = Some r \<longleftrightarrow> s = r @ p"
  by (auto simp: strip_suffix_def suffix_def)

lemma strip_suffix_append [simp]: "strip_suffix p (r @ p) = Some r"
  by (simp add: strip_suffix_Some)

lemma strip_suffix_None [str_simps]: "strip_suffix p s = None \<longleftrightarrow> \<not> suffix p s"
  by (simp add: strip_suffix_def)

lemma split_once_Some [str_simps]:
  "split_once c s = Some (a, b) \<longleftrightarrow> s = a @ c # b \<and> c \<notin> set a"
proof
  assume *: "split_once c s = Some (a, b)"
  then have c: "c \<in> set s" and a: "a = takeWhile (\<lambda>x. x \<noteq> c) s" and b: "b = tl (dropWhile (\<lambda>x. x \<noteq> c) s)"
    by (auto simp: split_once_def split: if_splits)
  from c have ne: "dropWhile (\<lambda>x. x \<noteq> c) s \<noteq> []" by (auto simp: dropWhile_eq_Nil_conv)
  with hd_dropWhile [OF ne] b have "dropWhile (\<lambda>x. x \<noteq> c) s = c # b"
    by (metis list.collapse)
  with a have "s = a @ c # b" by (metis takeWhile_dropWhile_id)
  moreover have "c \<notin> set a" using a by (auto dest: set_takeWhileD)
  ultimately show "s = a @ c # b \<and> c \<notin> set a" by simp
next
  assume "s = a @ c # b \<and> c \<notin> set a"
  then show "split_once c s = Some (a, b)"
    by (auto simp: split_once_def takeWhile_append dropWhile_append)
qed

lemma split_once_None [str_simps]: "split_once c s = None \<longleftrightarrow> c \<notin> set s"
  by (simp add: split_once_def)

lemma rsplit_once_split_once:
  "rsplit_once c s = map_option (\<lambda>(b, a). (rev a, rev b)) (split_once c (rev s))"
  by (simp add: rsplit_once_def split_once_def)

lemma rsplit_once_Some [str_simps]:
  "rsplit_once c s = Some (a, b) \<longleftrightarrow> s = a @ c # b \<and> c \<notin> set b"
proof -
  have "rsplit_once c s = Some (a, b) \<longleftrightarrow> split_once c (rev s) = Some (rev b, rev a)"
    by (auto simp: rsplit_once_split_once)
  also have "\<dots> \<longleftrightarrow> s = a @ c # b \<and> c \<notin> set b"
    by (auto simp: split_once_Some rev_swap)
  finally show ?thesis .
qed

section \<open>Decimal numbers\<close>

text \<open>\<open>show_nat\<close> is \<open>Display\<close> of an unsigned integer; \<open>parse_unsigned\<close> is \<open>FromStr\<close> of an
  unsigned type with the given exclusive bound: one optional \<open>+\<close>, at least one digit, nothing
  else, and no overflow.\<close>

definition digit_char :: "nat \<Rightarrow> char" where
  "digit_char d = char_of (48 + d)"

function show_nat :: "nat \<Rightarrow> string" where
  "show_nat n = (if n < 10 then [digit_char n] else show_nat (n div 10) @ [digit_char (n mod 10)])"
  by pat_completeness auto
termination
  by (relation "measure id") auto

declare show_nat.simps [simp del]

definition digits_value :: "string \<Rightarrow> nat" where
  "digits_value s = foldl (\<lambda>n c. 10 * n + (code c - 48)) 0 s"

definition parse_unsigned :: "nat \<Rightarrow> string \<Rightarrow> nat option" where
  "parse_unsigned bound s =
     (let ds = (case s of c # cs \<Rightarrow> if c = CHR ''+'' then cs else s | [] \<Rightarrow> []) in
      if ds \<noteq> [] \<and> list_all is_digit ds \<and> digits_value ds < bound then Some (digits_value ds) else None)"

lemma code_digit_char: "d < 10 \<Longrightarrow> code (digit_char d) = 48 + d"
  by (simp add: digit_char_def)

lemma is_digit_digit_char [simp]: "d < 10 \<Longrightarrow> is_digit (digit_char d)"
  by (simp add: is_digit_def code_digit_char)

lemma digits_value_snoc: "digits_value (s @ [c]) = 10 * digits_value s + (code c - 48)"
  by (simp add: digits_value_def)

lemma show_nat_digits: "list_all is_digit (show_nat n)"
proof (induction n rule: show_nat.induct)
  case (1 n)
  then show ?case by (subst show_nat.simps) auto
qed

lemma show_nat_nonempty [simp]: "show_nat n \<noteq> []"
  by (subst show_nat.simps) simp

lemma digits_value_show: "digits_value (show_nat n) = n"
proof (induction n rule: show_nat.induct)
  case (1 n)
  show ?case
  proof (cases "n < 10")
    case True
    then show ?thesis by (subst show_nat.simps) (simp add: digits_value_def code_digit_char)
  next
    case False
    with 1 show ?thesis by (subst show_nat.simps) (simp add: digits_value_snoc code_digit_char)
  qed
qed

lemma show_nat_inj: "show_nat m = show_nat n \<longleftrightarrow> m = n"
  by (metis digits_value_show)

lemma hd_show_nat: "is_digit (hd (show_nat n))"
  using show_nat_digits [of n] by (cases "show_nat n") auto

lemma parse_show_nat: "n < bound \<Longrightarrow> parse_unsigned bound (show_nat n) = Some n"
proof -
  assume n: "n < bound"
  obtain c cs where s: "show_nat n = c # cs" by (meson neq_Nil_conv show_nat_nonempty)
  have "c \<noteq> CHR ''+''" using hd_show_nat [of n] s by (auto simp: is_digit_def)
  with n s show ?thesis
    using show_nat_digits [of n] digits_value_show [of n] by (simp add: parse_unsigned_def)
qed

lemma parse_unsigned_bound: "parse_unsigned bound s = Some n \<Longrightarrow> n < bound"
  by (auto simp: parse_unsigned_def Let_def split: if_splits)

end
