(* ===== verification/Core_Types.thy ===== *)
theory Core_Types
  imports Prelude
begin

text \<open>
  The types every component shares: \<open>Format\<close> (format.rs), \<open>RegistryKind\<close> (registry.rs),
  \<open>DocId\<close> (store.rs), \<open>Lint\<close> (model.rs) and the crate's one error type with its messages
  (error.rs).
\<close>

section \<open>Formats\<close>

datatype format = Yaml | Json

fun ext :: "format \<Rightarrow> string" where
  "ext Yaml = ''yaml''"
| "ext Json = ''json''"

definition from_ext :: "string \<Rightarrow> format option" where
  "from_ext e =
     (let l = map to_lower e in
      if l = ''yaml'' \<or> l = ''yml'' then Some Yaml
      else if l = ''json'' then Some Json else None)"

lemma from_ext_ext [simp]: "from_ext (ext f) = Some f"
  by (cases f) (simp_all add: from_ext_def to_lower_def is_upper_def)

section \<open>Document ids\<close>

datatype registry_kind = PrefixDef

fun kind_as_str :: "registry_kind \<Rightarrow> string" where
  "kind_as_str PrefixDef = ''prefixes''"

fun kind_noun :: "registry_kind \<Rightarrow> string" where
  "kind_noun PrefixDef = ''prefix''"

type_synonym vmid = "32 word"

definition show_vmid :: "vmid \<Rightarrow> string" where
  "show_vmid v = show_nat (unat v)"

definition parse_u32 :: "string \<Rightarrow> vmid option" where
  "parse_u32 s = map_option of_nat (parse_unsigned (2 ^ 32) s)"

datatype doc_id = Guest vmid | Registry registry_kind string

fun base_name :: "doc_id \<Rightarrow> string" where
  "base_name (Guest v) = show_vmid v"
| "base_name (Registry k n) = n"

fun show_doc_id :: "doc_id \<Rightarrow> string" where
  "show_doc_id (Guest v) = show_vmid v"
| "show_doc_id (Registry k n) = kind_as_str k @ ''/'' @ n"

lemma parse_show_vmid [simp]: "parse_u32 (show_vmid v) = Some v"
proof -
  have "unat v < 2 ^ 32" using unsigned_less [of v] by simp
  then show ?thesis by (simp add: parse_u32_def show_vmid_def parse_show_nat)
qed

lemma show_vmid_inj: "show_vmid v = show_vmid w \<longleftrightarrow> v = w"
  by (metis option.inject parse_show_vmid)

lemma show_vmid_digits: "list_all is_digit (show_vmid v)"
  by (simp add: show_vmid_def show_nat_digits)

lemma show_vmid_nonempty [simp]: "show_vmid v \<noteq> []"
  by (simp add: show_vmid_def)

lemma digits_avoid: "list_all is_digit s \<Longrightarrow> \<not> is_digit c \<Longrightarrow> c \<notin> set s"
  by (auto simp: list_all_iff)

section \<open>Paths, lints and errors\<close>

type_synonym path = "string list"

record lint =
  lint_path :: path
  lint_msg :: string

record location =
  line :: nat
  column :: nat

datatype io_error = NotFound | IoOther string

text \<open>\<open>std::io::Error\<close>'s message for a missing file is the operating system's.\<close>

fun io_text :: "io_error \<Rightarrow> string" where
  "io_text NotFound = ''No such file or directory (os error 2)''"
| "io_text (IoOther m) = m"

datatype error =
    EParse format string "location option"
  | ELint "lint list"
  | EDigestMismatch string string
  | ENotFound doc_id
  | ETooLarge nat nat
  | EInvalidPath string
  | EInvalidName string
  | ERegistry string
  | EUnavailable string
  | EIo io_error
  | EOther string

text \<open>\<open>Display\<close> of a path is its dotted form; \<open>Display\<close> of a lint names the path unless it is
  the document root.\<close>

definition show_path :: "path \<Rightarrow> string" where
  "show_path p = join ''.'' p"

definition lint_text :: "lint \<Rightarrow> string" where
  "lint_text l = (if lint_path l = [] then lint_msg l else show_path (lint_path l) @ '': '' @ lint_msg l)"

fun error_text :: "error \<Rightarrow> string" where
  "error_text (EParse f m _) = ''failed to parse '' @ ext f @ '' document: '' @ m"
| "error_text (ELint ls) = ''document failed validation: '' @ join ''; '' (map lint_text ls)"
| "error_text (EDigestMismatch e a) = ''digest mismatch: expected '' @ e @ '', actual '' @ a"
| "error_text (ENotFound d) = ''not found: '' @ show_doc_id d"
| "error_text (ETooLarge s m) =
     ''document too large: '' @ show_nat s @ '' bytes (max '' @ show_nat m @ '' bytes)''"
| "error_text (EInvalidPath p) = ''invalid path: '' @ p"
| "error_text (EInvalidName n) = ''invalid name: '' @ n"
| "error_text (ERegistry m) = ''invalid registry file: '' @ m"
| "error_text (EUnavailable m) = ''cluster filesystem not available: '' @ m"
| "error_text (EIo e) = io_text e"
| "error_text (EOther m) = m"

end
