(* ===== verification/Paths.thy ===== *)
theory Paths
  imports Core_Types
begin

text \<open>
  Addressing into a document (path.rs): the segment charset, parsing of the dotted and slash
  forms, and path containment. The lemmas relate \<open>parse_path\<close> and \<^const>\<open>show_path\<close> as inverses
  on valid paths and containment to \<^const>\<open>prefix\<close>.
\<close>

section \<open>Segments\<close>

definition segment_char :: "string \<Rightarrow> bool" where
  "segment_char c \<longleftrightarrow>
     (case c of [b] \<Rightarrow> is_alnum b \<or> b = CHR ''_'' \<or> b = CHR ''-'' \<or> b = CHR ''@'' \<or> b = CHR ''!''
      | _ \<Rightarrow> False)"

definition invalid_char :: "string \<Rightarrow> string option" where
  "invalid_char s = find (\<lambda>c. \<not> segment_char c) (chars s)"

definition is_valid_segment :: "string \<Rightarrow> bool" where
  "is_valid_segment s \<longleftrightarrow> s \<noteq> [] \<and> invalid_char s = None"

section \<open>Paths\<close>

definition root :: path where
  "root = []"

definition parse_path :: "string \<Rightarrow> error + path" where
  "parse_path s =
     (let trimmed = (case strip_prefix ''/'' s of Some t \<Rightarrow> t | None \<Rightarrow> s) in
      if trimmed = [] then Inr root
      else let sep = (if CHR ''/'' \<in> set s then CHR ''/'' else CHR ''.'');
               segments = split_on sep trimmed
           in if list_all is_valid_segment segments then Inr segments else Inl (EInvalidPath s))"

definition is_root :: "path \<Rightarrow> bool" where
  "is_root p \<longleftrightarrow> p = []"

definition path_last :: "path \<Rightarrow> string option" where
  "path_last p = (if p = [] then None else Some (last p))"

definition parent :: "path \<Rightarrow> path option" where
  "parent p = (if p = [] then None else Some (butlast p))"

definition path_join :: "path \<Rightarrow> string \<Rightarrow> path" where
  "path_join p seg = p @ [seg]"

definition is_prefix_of :: "path \<Rightarrow> path \<Rightarrow> bool" where
  "is_prefix_of p q \<longleftrightarrow> length p \<le> length q \<and> list_all (\<lambda>(a, b). a = b) (zip p q)"

definition valid_path :: "path \<Rightarrow> bool" where
  "valid_path p \<longleftrightarrow> list_all is_valid_segment p"

section \<open>Laws\<close>

definition segment_byte :: "char \<Rightarrow> bool" where
  "segment_byte b \<longleftrightarrow> is_alnum b \<or> b = CHR ''_'' \<or> b = CHR ''-'' \<or> b = CHR ''@'' \<or> b = CHR ''!''"

lemma segment_char_single [simp]: "segment_char [b] = segment_byte b"
  by (simp add: segment_char_def segment_byte_def)

lemma segment_byte_ascii: "segment_byte b \<Longrightarrow> code b < 128"
  by (auto simp: segment_byte_def ascii_class_defs)

lemma segment_chars_bytes: "list_all segment_char (chars s) \<longleftrightarrow> list_all segment_byte s"
proof (induction s rule: chars.induct)
  case (2 b bs)
  show ?case
  proof (cases "code b < 192")
    case True
    with 2 show ?thesis by (simp add: utf8_tail_def)
  next
    case False
    then have "\<not> segment_byte b" by (auto dest: segment_byte_ascii)
    moreover have "\<not> segment_char (b # take (utf8_tail b) bs)"
      using \<open>\<not> segment_byte b\<close> by (cases "take (utf8_tail b) bs") (auto simp: segment_char_def segment_byte_def)
    ultimately show ?thesis by simp
  qed
qed simp

lemma find_None_list_all: "find P xs = None \<longleftrightarrow> list_all (\<lambda>x. \<not> P x) xs"
  by (auto simp: find_None_iff list_all_iff)

lemma is_valid_segment_bytes: "is_valid_segment s \<longleftrightarrow> s \<noteq> [] \<and> list_all segment_byte s"
  by (simp add: is_valid_segment_def invalid_char_def find_None_list_all flip: segment_chars_bytes)

lemma valid_segment_not_sep:
  "is_valid_segment s \<Longrightarrow> CHR ''.'' \<notin> set s \<and> CHR ''/'' \<notin> set s"
  by (auto simp: is_valid_segment_bytes list_all_iff segment_byte_def ascii_class_defs)

lemma valid_segment_nonempty: "is_valid_segment s \<Longrightarrow> s \<noteq> []"
  by (simp add: is_valid_segment_def)

lemma is_prefix_of_prefix [simp]: "is_prefix_of p q \<longleftrightarrow> prefix p q"
proof (induction p arbitrary: q)
  case Nil
  then show ?case by (simp add: is_prefix_of_def)
next
  case (Cons a p)
  then show ?case by (cases q) (auto simp: is_prefix_of_def)
qed

lemma path_parent_last: "parent p = Some q \<Longrightarrow> path_last p = Some k \<Longrightarrow> p = q @ [k]"
  by (auto simp: parent_def path_last_def split: if_splits)

lemma parse_path_valid: "parse_path s = Inr p \<Longrightarrow> valid_path p"
  by (auto simp: parse_path_def valid_path_def Let_def root_def split: if_splits)

lemma parse_path_error: "parse_path s = Inl e \<Longrightarrow> e = EInvalidPath s"
  by (auto simp: parse_path_def Let_def split: if_splits)

lemma set_join: "set (join sep xs) \<subseteq> set sep \<union> \<Union> (set ` set xs)"
  by (induction sep xs rule: join.induct) auto

lemma show_path_eq_Nil: "valid_path p \<Longrightarrow> show_path p = [] \<longleftrightarrow> p = []"
  by (cases p; cases "tl p") (auto simp: show_path_def valid_path_def valid_segment_nonempty)

lemma show_path_no_slash: "valid_path p \<Longrightarrow> CHR ''/'' \<notin> set (show_path p)"
  using set_join [of "''.''" p] valid_segment_not_sep
  by (auto simp: show_path_def valid_path_def list_all_iff)

lemma strip_slash_None: "CHR ''/'' \<notin> set s \<Longrightarrow> strip_prefix ''/'' s = None"
  by (auto simp: strip_prefix_def prefix_def)

lemma parse_show_path: "valid_path p \<Longrightarrow> parse_path (show_path p) = Inr p"
proof (cases "p = []")
  case True
  then show ?thesis by (simp add: show_path_def parse_path_def root_def strip_prefix_def)
next
  case False
  assume v: "valid_path p"
  have "split_on CHR ''.'' (show_path p) = p"
    unfolding show_path_def using False v valid_segment_not_sep
    by (intro split_on_join) (auto simp: valid_path_def list_all_iff)
  with False v show ?thesis
    using show_path_no_slash [OF v]
    by (simp add: parse_path_def show_path_eq_Nil strip_slash_None valid_path_def)
qed

lemma show_path_inj: "valid_path p \<Longrightarrow> valid_path q \<Longrightarrow> show_path p = show_path q \<longleftrightarrow> p = q"
  by (metis parse_show_path sum.inject(2))


section \<open>Properties\<close>

text \<open>Printing and parsing a path are inverse on exactly the valid paths, parsing accepts
  nothing but valid paths, and its one error carries the text it was given.\<close>

theorem path_print_parse:
  "(valid_path p \<longleftrightarrow> parse_path (show_path p) = Inr p)
   \<and> (case parse_path s of Inr q \<Rightarrow> valid_path q | Inl e \<Rightarrow> e = EInvalidPath s)"
  by (auto simp: parse_show_path parse_path_valid parse_path_error split: sum.splits)

end
