(* ===== verification/Documents.thy ===== *)
theory Documents
  imports Paths
begin

text \<open>
  The document model (model.rs): JSON values with insertion-ordered maps, comment keys, the one
  lint, and lookup by path. \<open>veq\<close> is the equality of \<open>serde_json::Value\<close>, in which the order
  of a map's entries is not part of its value. The lemmas show that the lint accepts exactly
  the documents of the declarative \<open>doc_ok\<close>, and that \<open>veq\<close> is an equivalence on well-formed
  values that lookup respects.
\<close>

section \<open>Values\<close>

text \<open>\<open>serde_json::Number\<close>: a non-negative integer in 64 bits, a negative one, or a finite
  double, which is given by the rational it denotes.\<close>

datatype num = PosInt "64 word" | NegInt "64 word" | Float rat

datatype json =
    VNull
  | VBool bool
  | VNum num
  | VStr string
  | VArr "json list"
  | VObj "(string \<times> json) list"

type_synonym vmap = "(string \<times> json) list"

text \<open>\<open>n as f64\<close> for an integer: the nearest double, ties to even; exact below \<open>2 ^ 53\<close>.\<close>

function f64_of_nat :: "nat \<Rightarrow> nat \<Rightarrow> nat" where
  "f64_of_nat n k =
     (if n div 2 ^ k < 2 ^ 53 then
        (if k = 0 then n
         else let q = n div 2 ^ k; r = n mod 2 ^ k; half = 2 ^ (k - 1)
              in (if r > half \<or> (r = half \<and> odd q) then q + 1 else q) * 2 ^ k)
      else f64_of_nat n (Suc k))"
  by pat_completeness auto
termination
proof (relation "measure (\<lambda>(n, k). n div 2 ^ k)", goal_cases)
  case (2 n k)
  have "n div 2 ^ Suc k = n div 2 ^ k div 2" by (simp add: mult.commute flip: div_mult2_eq)
  moreover have "0 < n div 2 ^ k" using 2 by simp
  ultimately show ?case by simp
qed simp

declare f64_of_nat.simps [simp del]

fun as_i64 :: "num \<Rightarrow> int option" where
  "as_i64 (PosInt n) = (if uint n < 2 ^ 63 then Some (uint n) else None)"
| "as_i64 (NegInt n) = Some (sint n)"
| "as_i64 (Float r) = None"

fun num_as_f64 :: "num \<Rightarrow> rat" where
  "num_as_f64 (PosInt n) = of_nat (f64_of_nat (unat n) 0)"
| "num_as_f64 (NegInt n) = - of_nat (f64_of_nat (nat (- sint n)) 0)"
| "num_as_f64 (Float r) = r"

definition as_f64 :: "json \<Rightarrow> rat option" where
  "as_f64 v = (case v of VNum n \<Rightarrow> Some (num_as_f64 n) | _ \<Rightarrow> None)"

definition is_object :: "json \<Rightarrow> bool" where
  "is_object v \<longleftrightarrow> (case v of VObj _ \<Rightarrow> True | _ \<Rightarrow> False)"

definition is_array :: "json \<Rightarrow> bool" where
  "is_array v \<longleftrightarrow> (case v of VArr _ \<Rightarrow> True | _ \<Rightarrow> False)"

definition is_string :: "json \<Rightarrow> bool" where
  "is_string v \<longleftrightarrow> (case v of VStr _ \<Rightarrow> True | _ \<Rightarrow> False)"

definition is_number :: "json \<Rightarrow> bool" where
  "is_number v \<longleftrightarrow> (case v of VNum _ \<Rightarrow> True | _ \<Rightarrow> False)"

definition is_boolean :: "json \<Rightarrow> bool" where
  "is_boolean v \<longleftrightarrow> (case v of VBool _ \<Rightarrow> True | _ \<Rightarrow> False)"

definition as_object :: "json \<Rightarrow> vmap option" where
  "as_object v = (case v of VObj m \<Rightarrow> Some m | _ \<Rightarrow> None)"

definition as_array :: "json \<Rightarrow> json list option" where
  "as_array v = (case v of VArr xs \<Rightarrow> Some xs | _ \<Rightarrow> None)"

definition as_str :: "json \<Rightarrow> string option" where
  "as_str v = (case v of VStr s \<Rightarrow> Some s | _ \<Rightarrow> None)"

text \<open>\<open>Value::get\<close> with a string index: a map's entry, nothing for any other value.\<close>

definition value_get :: "json \<Rightarrow> string \<Rightarrow> json option" where
  "value_get v k = (case v of VObj m \<Rightarrow> map_of m k | _ \<Rightarrow> None)"

lemmas value_kind_defs = is_object_def is_array_def is_string_def is_number_def is_boolean_def
  as_object_def as_array_def as_str_def value_get_def as_f64_def

lemma is_object_simps [simp]:
  "is_object (VObj m)" "\<not> is_object VNull" "\<not> is_object (VBool b)" "\<not> is_object (VNum n)"
  "\<not> is_object (VStr s)" "\<not> is_object (VArr xs)"
  by (simp_all add: is_object_def)

lemma is_object_iff: "is_object v \<longleftrightarrow> (\<exists>m. v = VObj m)"
  by (cases v) simp_all

section \<open>The lint\<close>

definition comment_suffix :: string where
  "comment_suffix = ''__''"

definition is_comment_key :: "string \<Rightarrow> bool" where
  "is_comment_key k \<longleftrightarrow> suffix comment_suffix k"

definition is_valid_key :: "string \<Rightarrow> bool" where
  "is_valid_key k \<longleftrightarrow> is_valid_segment k"

definition key_lint :: "string \<Rightarrow> string option" where
  "key_lint k =
     (if is_valid_key k then None
      else Some (''invalid key '' @ [CHR 0x27] @ k @ [CHR 0x27] @
        '': keys must match ^[A-Za-z0-9_@!-]+$ and contain no dots''))"

fun walk :: "json \<Rightarrow> path \<Rightarrow> lint list"
  and walk_items :: "json list \<Rightarrow> nat \<Rightarrow> path \<Rightarrow> lint list"
  and walk_entries :: "(string \<times> json) list \<Rightarrow> path \<Rightarrow> lint list" where
  "walk VNull p = [\<lparr>lint_path = p, lint_msg = ''null values are not allowed (omit the key instead)''\<rparr>]"
| "walk (VArr items) p = walk_items items 0 p"
| "walk (VObj m) p = walk_entries m p"
| "walk (VBool b) p = []"
| "walk (VNum n) p = []"
| "walk (VStr s) p = []"
| "walk_items [] i p = []"
| "walk_items (v # vs) i p = walk v (path_join p (show_nat i)) @ walk_items vs (Suc i) p"
| "walk_entries [] p = []"
| "walk_entries ((k, v) # m) p =
     (let child_path = path_join p k in
      (case key_lint k of Some msg \<Rightarrow> [\<lparr>lint_path = child_path, lint_msg = msg\<rparr>] | None \<Rightarrow> [])
      @ (if is_comment_key k \<and> \<not> is_string v
         then [\<lparr>lint_path = child_path, lint_msg = ''comment key value must be a string''\<rparr>] else [])
      @ walk v child_path @ walk_entries m p)"

definition lint :: "json \<Rightarrow> lint list" where
  "lint doc =
     (if \<not> is_object doc then [\<lparr>lint_path = root, lint_msg = ''top level must be an object''\<rparr>] else [])
     @ walk doc root"

section \<open>Lookup\<close>

definition parse_usize :: "string \<Rightarrow> nat option" where
  "parse_usize s = parse_unsigned (2 ^ 64) s"

fun get_path :: "json \<Rightarrow> path \<Rightarrow> json option" where
  "get_path v [] = Some v"
| "get_path v (seg # segs) =
     (case v of
        VObj m \<Rightarrow> (case map_of m seg of Some w \<Rightarrow> get_path w segs | None \<Rightarrow> None)
      | VArr xs \<Rightarrow>
          (case parse_usize seg of
             Some i \<Rightarrow> if i < length xs then get_path (xs ! i) segs else None
           | None \<Rightarrow> None)
      | _ \<Rightarrow> None)"

section \<open>Equality and well-formedness\<close>

fun veq :: "json \<Rightarrow> json \<Rightarrow> bool"
  and veq_items :: "json list \<Rightarrow> json list \<Rightarrow> bool"
  and veq_entries :: "(string \<times> json) list \<Rightarrow> vmap \<Rightarrow> bool" where
  "veq VNull w \<longleftrightarrow> w = VNull"
| "veq (VBool b) w \<longleftrightarrow> w = VBool b"
| "veq (VNum n) w \<longleftrightarrow> w = VNum n"
| "veq (VStr s) w \<longleftrightarrow> w = VStr s"
| "veq (VArr xs) w \<longleftrightarrow> (case w of VArr ys \<Rightarrow> veq_items xs ys | _ \<Rightarrow> False)"
| "veq (VObj m) w \<longleftrightarrow> (case w of VObj n \<Rightarrow> length m = length n \<and> veq_entries m n | _ \<Rightarrow> False)"
| "veq_items [] ys \<longleftrightarrow> ys = []"
| "veq_items (x # xs) ys \<longleftrightarrow> (case ys of [] \<Rightarrow> False | y # ys' \<Rightarrow> veq x y \<and> veq_items xs ys')"
| "veq_entries [] n \<longleftrightarrow> True"
| "veq_entries ((k, v) # m) n \<longleftrightarrow>
     (case map_of n k of None \<Rightarrow> False | Some w \<Rightarrow> veq v w) \<and> veq_entries m n"

fun wf_value :: "json \<Rightarrow> bool"
  and wf_items :: "json list \<Rightarrow> bool"
  and wf_entries :: "(string \<times> json) list \<Rightarrow> bool" where
  "wf_value (VArr xs) = wf_items xs"
| "wf_value (VObj m) = (distinct (map fst m) \<and> wf_entries m)"
| "wf_value VNull = True"
| "wf_value (VBool b) = True"
| "wf_value (VNum n) = True"
| "wf_value (VStr s) = True"
| "wf_items [] = True"
| "wf_items (x # xs) = (wf_value x \<and> wf_items xs)"
| "wf_entries [] = True"
| "wf_entries ((k, v) # m) = (wf_value v \<and> wf_entries m)"

section \<open>Laws of values\<close>

lemma value_induct [case_names Null Bool Num Str Arr Obj, induct type: json]:
  assumes "P VNull" "\<And>b. P (VBool b)" "\<And>n. P (VNum n)" "\<And>s. P (VStr s)"
    and "\<And>xs. (\<And>x. x \<in> set xs \<Longrightarrow> P x) \<Longrightarrow> P (VArr xs)"
    and "\<And>m. (\<And>k v. (k, v) \<in> set m \<Longrightarrow> P v) \<Longrightarrow> P (VObj m)"
  shows "P v"
  by (induction v rule: json.induct) (use assms in \<open>auto simp: snds.simps\<close>)

lemma wf_items_iff: "wf_items xs \<longleftrightarrow> (\<forall>x \<in> set xs. wf_value x)"
  by (induction xs) auto

lemma wf_entries_iff: "wf_entries m \<longleftrightarrow> (\<forall>(k, v) \<in> set m. wf_value v)"
  by (induction m) auto

lemma wf_entriesD: "wf_entries m \<Longrightarrow> map_of m k = Some v \<Longrightarrow> wf_value v"
  by (auto simp: wf_entries_iff dest: map_of_SomeD)

lemma wf_oput: "wf_value (VObj m) \<Longrightarrow> wf_value v \<Longrightarrow> wf_value (VObj (oput k v m))"
  by (auto simp: wf_entries_iff odistinct_oput dest!: in_set_oput)

lemma wf_odel: "wf_value (VObj m) \<Longrightarrow> wf_value (VObj (odel k m))"
  by (auto simp: wf_entries_iff odistinct_odel dest: in_set_odel)

lemma veq_items_iff: "veq_items xs ys \<longleftrightarrow> list_all2 veq xs ys"
proof (induction xs arbitrary: ys)
  case (Cons x xs)
  then show ?case by (cases ys) auto
qed auto

lemma veq_entries_iff:
  "veq_entries m n \<longleftrightarrow> (\<forall>(k, v) \<in> set m. \<exists>w. map_of n k = Some w \<and> veq v w)"
  by (induction m) (auto split: option.splits)

lemma veq_refl: "wf_value v \<Longrightarrow> veq v v"
proof (induction v)
  case (Arr xs)
  then show ?case by (auto simp: veq_items_iff wf_items_iff intro: list.rel_refl_strong)
next
  case (Obj m)
  then show ?case by (fastforce simp: veq_entries_iff wf_entries_iff)
qed auto

text \<open>Two well-formed maps with as many entries, every key of the first in the second: they
  have the same keys.\<close>

lemma same_keys:
  assumes "odistinct m" "odistinct n" "length m = length n"
    and "\<And>k. k \<in> fst ` set m \<Longrightarrow> k \<in> fst ` set n"
  shows "fst ` set m = fst ` set n"
proof (rule card_subset_eq)
  have "card (fst ` set m) = length m" "card (fst ` set n) = length n"
    using assms(1,2) by (metis distinct_card length_map set_map)+
  with assms(3) show "card (fst ` set m) = card (fst ` set n)" by simp
qed (use assms in auto)

lemma veq_obj_iff:
  assumes "wf_value (VObj m)" "wf_value (VObj n)"
  shows "veq (VObj m) (VObj n) \<longleftrightarrow> (\<forall>k. rel_option veq (map_of m k) (map_of n k))"
proof
  assume l: "veq (VObj m) (VObj n)"
  then have ent: "\<And>k v. (k, v) \<in> set m \<Longrightarrow> \<exists>w. map_of n k = Some w \<and> veq v w"
    by (auto simp: veq_entries_iff)
  have "fst ` set m = fst ` set n"
  proof (rule same_keys)
    fix k assume "k \<in> fst ` set m"
    then show "k \<in> fst ` set n"
      using ent by (force dest: map_of_SomeD)
  qed (use assms l in auto)
  then have none: "map_of m k = None \<Longrightarrow> map_of n k = None" for k
    by (simp add: map_of_eq_None_iff)
  show "\<forall>k. rel_option veq (map_of m k) (map_of n k)"
  proof
    fix k
    show "rel_option veq (map_of m k) (map_of n k)"
    proof (cases "map_of m k")
      case None
      then show ?thesis by (simp add: none)
    next
      case (Some v)
      then show ?thesis using ent [OF map_of_SomeD [OF Some]] by auto
    qed
  qed
next
  assume r: "\<forall>k. rel_option veq (map_of m k) (map_of n k)"
  have "k \<in> fst ` set m \<longleftrightarrow> k \<in> fst ` set n" for k
    using r [rule_format, of k] map_of_eq_None_iff [of m k] map_of_eq_None_iff [of n k]
    by (cases "map_of m k"; cases "map_of n k") auto
  then have "length m = length n"
    using assms by (metis distinct_card length_map set_map set_eqI wf_value.simps(2))
  moreover have "veq_entries m n"
    unfolding veq_entries_iff
  proof (clarify)
    fix k v assume "(k, v) \<in> set m"
    then have "map_of m k = Some v" using assms by simp
    then show "\<exists>w. map_of n k = Some w \<and> veq v w"
      using r [rule_format, of k] by (cases "map_of n k") auto
  qed
  ultimately show "veq (VObj m) (VObj n)" by simp
qed

lemma veq_sym: "veq v w \<Longrightarrow> wf_value v \<Longrightarrow> wf_value w \<Longrightarrow> veq w v"
proof (induction v arbitrary: w)
  case (Arr xs)
  then obtain ys where w: "w = VArr ys" and l: "list_all2 veq xs ys"
    by (auto simp: veq_items_iff split: json.splits)
  from l have "list_all2 veq ys xs"
    using Arr.IH Arr.prems(2,3) w
    by (auto simp: list_all2_conv_all_nth wf_items_iff)
  with w show ?case by (simp add: veq_items_iff)
next
  case (Obj m)
  then obtain n where w: "w = VObj n" by (auto split: json.splits)
  have r: "rel_option veq (map_of m k) (map_of n k)" for k
    using Obj.prems w veq_obj_iff by blast
  have "rel_option veq (map_of n k) (map_of m k)" for k
  proof (cases "map_of m k")
    case None
    then show ?thesis using r [of k] by (cases "map_of n k") auto
  next
    case (Some v)
    then obtain u where u: "map_of n k = Some u" "veq v u" using r [of k] by (cases "map_of n k") auto
    have "wf_value v" "wf_value u"
      using Obj.prems(2,3) w wf_entriesD [OF _ Some] wf_entriesD [OF _ u(1)] by auto
    then have "veq u v" using Obj.IH [OF map_of_SomeD [OF Some] u(2)] by blast
    with Some u show ?thesis by simp
  qed
  then show ?case using Obj.prems w veq_obj_iff by blast
qed (auto split: json.splits)

lemma veq_trans: "veq u v \<Longrightarrow> veq v w \<Longrightarrow> wf_value u \<Longrightarrow> wf_value v \<Longrightarrow> wf_value w \<Longrightarrow> veq u w"
proof (induction u arbitrary: v w)
  case (Arr xs)
  then obtain ys where v: "v = VArr ys" and xy: "list_all2 veq xs ys"
    by (auto simp: veq_items_iff split: json.splits)
  with Arr.prems obtain zs where w: "w = VArr zs" and yz: "list_all2 veq ys zs"
    by (auto simp: veq_items_iff split: json.splits)
  have "list_all2 veq xs zs"
    using Arr.IH Arr.prems(3-5) v w xy yz
    by (auto simp: list_all2_conv_all_nth wf_items_iff)
  with w show ?case by (simp add: veq_items_iff)
next
  case (Obj m)
  then obtain n where v: "v = VObj n" by (auto split: json.splits)
  with Obj.prems obtain l where w: "w = VObj l" by (auto split: json.splits)
  have mn: "rel_option veq (map_of m k) (map_of n k)" for k using Obj.prems v veq_obj_iff by blast
  have nl: "rel_option veq (map_of n k) (map_of l k)" for k using Obj.prems v w veq_obj_iff by blast
  have "rel_option veq (map_of m k) (map_of l k)" for k
  proof (cases "map_of m k")
    case None
    then show ?thesis using mn [of k] nl [of k] by (cases "map_of n k"; cases "map_of l k") auto
  next
    case (Some a)
    then obtain b where b: "map_of n k = Some b" "veq a b" using mn [of k] by (cases "map_of n k") auto
    then obtain c where c: "map_of l k = Some c" "veq b c" using nl [of k] by (cases "map_of l k") auto
    have "wf_value a" "wf_value b" "wf_value c"
      using Obj.prems(3-5) v w wf_entriesD [OF _ Some] wf_entriesD [OF _ b(1)] wf_entriesD [OF _ c(1)]
      by auto
    then have "veq a c" using Obj.IH [OF map_of_SomeD [OF Some] b(2) c(2)] by blast
    with Some c show ?thesis by simp
  qed
  then show ?case using Obj.prems w veq_obj_iff by blast
qed (auto split: json.splits)

lemma veq_is_object: "veq v w \<Longrightarrow> is_object v = is_object w"
  by (cases v) (auto simp: is_object_def split: json.splits)

section \<open>What the lint accepts\<close>

text \<open>\<open>subval doc q w\<close>: the document holds \<open>w\<close> at path \<open>q\<close>, through map keys and array
  positions.\<close>

inductive subval :: "json \<Rightarrow> path \<Rightarrow> json \<Rightarrow> bool" where
  here: "subval v [] v"
| entry: "(k, v) \<in> set m \<Longrightarrow> subval v q w \<Longrightarrow> subval (VObj m) (k # q) w"
| item: "i < length xs \<Longrightarrow> subval (xs ! i) q w \<Longrightarrow> subval (VArr xs) (show_nat i # q) w"

inductive_simps subval_simps [simp]:
  "subval VNull q w" "subval (VBool b) q w" "subval (VNum n) q w" "subval (VStr s) q w"
inductive_simps subval_arr: "subval (VArr xs) q w"
inductive_simps subval_obj: "subval (VObj m) q w"

definition entry_ok :: "string \<Rightarrow> json \<Rightarrow> bool" where
  "entry_ok k v \<longleftrightarrow> is_valid_key k \<and> (is_comment_key k \<longrightarrow> is_string v)"

definition node_ok :: "json \<Rightarrow> bool" where
  "node_ok w \<longleftrightarrow> w \<noteq> VNull \<and> (\<forall>m. w = VObj m \<longrightarrow> (\<forall>(k, v) \<in> set m. entry_ok k v))"

definition all_sub :: "(json \<Rightarrow> bool) \<Rightarrow> json \<Rightarrow> bool" where
  "all_sub P v \<longleftrightarrow> (\<forall>q w. subval v q w \<longrightarrow> P w)"

definition clean :: "json \<Rightarrow> bool" where
  "clean v \<longleftrightarrow> all_sub node_ok v"

definition doc_ok :: "json \<Rightarrow> bool" where
  "doc_ok doc \<longleftrightarrow> is_object doc \<and> clean doc"

lemma all_subI: "(\<And>q w. subval v q w \<Longrightarrow> P w) \<Longrightarrow> all_sub P v"
  by (simp add: all_sub_def)

lemma all_subD: "all_sub P v \<Longrightarrow> subval v q w \<Longrightarrow> P w"
  by (simp add: all_sub_def)

lemma all_sub_arr: "all_sub P (VArr xs) \<longleftrightarrow> P (VArr xs) \<and> (\<forall>x \<in> set xs. all_sub P x)"
proof (intro iffI conjI ballI all_subI)
  assume "all_sub P (VArr xs)"
  then show "P (VArr xs)" by (rule all_subD [OF _ subval.here])
next
  fix x q w assume a: "all_sub P (VArr xs)" "x \<in> set xs" "subval x q w"
  then obtain i where "i < length xs" "x = xs ! i" by (auto simp: in_set_conv_nth)
  with a show "P w" by (meson all_subD subval.item)
next
  fix q w assume a: "P (VArr xs) \<and> (\<forall>x \<in> set xs. all_sub P x)" "subval (VArr xs) q w"
  from a(2) show "P w"
    by (cases rule: subval.cases) (use a(1) in \<open>auto dest: all_subD nth_mem\<close>)
qed

lemma all_sub_obj: "all_sub P (VObj m) \<longleftrightarrow> P (VObj m) \<and> (\<forall>(k, v) \<in> set m. all_sub P v)"
proof (intro iffI conjI)
  assume a: "all_sub P (VObj m)"
  then show "P (VObj m)" by (rule all_subD [OF _ subval.here])
  show "\<forall>(k, v) \<in> set m. all_sub P v"
    using a by (auto intro!: all_subI intro: all_subD subval.entry)
next
  assume a: "P (VObj m) \<and> (\<forall>(k, v) \<in> set m. all_sub P v)"
  show "all_sub P (VObj m)"
  proof (rule all_subI)
    fix q w assume "subval (VObj m) q w"
    then show "P w" by (cases rule: subval.cases) (use a in \<open>auto dest: all_subD\<close>)
  qed
qed

lemma all_sub_scalar [simp]:
  "all_sub P VNull \<longleftrightarrow> P VNull" "all_sub P (VBool b) \<longleftrightarrow> P (VBool b)" "all_sub P (VNum n) \<longleftrightarrow> P (VNum n)"
  "all_sub P (VStr s) \<longleftrightarrow> P (VStr s)"
  by (simp_all add: all_sub_def)

lemma clean_arr: "clean (VArr xs) \<longleftrightarrow> (\<forall>x \<in> set xs. clean x)"
  by (simp add: clean_def all_sub_arr node_ok_def)

lemma clean_obj: "clean (VObj m) \<longleftrightarrow> (\<forall>(k, v) \<in> set m. entry_ok k v \<and> clean v)"
  by (auto simp: clean_def all_sub_obj node_ok_def)

lemma clean_scalar [simp]: "clean (VBool b)" "clean (VNum n)" "clean (VStr s)" "\<not> clean VNull"
  by (simp_all add: clean_def node_ok_def)

lemma clean_oput: "clean (VObj m) \<Longrightarrow> entry_ok k v \<Longrightarrow> clean v \<Longrightarrow> clean (VObj (oput k v m))"
  by (auto simp: clean_obj dest!: in_set_oput)

lemma clean_odel: "clean (VObj m) \<Longrightarrow> clean (VObj (odel k m))"
  by (auto simp: clean_obj dest!: in_set_odel)

lemma walk_items_Nil: "walk_items xs i p = [] \<longleftrightarrow> (\<forall>j < length xs. walk (xs ! j) (p @ [show_nat (i + j)]) = [])"
proof (induction xs arbitrary: i)
  case (Cons x xs)
  then show ?case
    by (auto simp: path_join_def less_Suc_eq_0_disj)
qed simp

lemma walk_entries_Nil:
  "walk_entries m p = [] \<longleftrightarrow> (\<forall>(k, v) \<in> set m. entry_ok k v \<and> walk v (p @ [k]) = [])"
  by (induction m) (auto simp: path_join_def entry_ok_def key_lint_def Let_def split: if_splits)

lemma walk_Nil: "walk v p = [] \<longleftrightarrow> clean v"
proof (induction v arbitrary: p)
  case (Arr xs)
  then show ?case by (simp add: walk_items_Nil clean_arr all_set_conv_all_nth)
next
  case (Obj m)
  then show ?case by (fastforce simp: walk_entries_Nil clean_obj)
qed simp_all

lemma lint_Nil_iff: "lint doc = [] \<longleftrightarrow> doc_ok doc"
  by (simp add: lint_def doc_ok_def walk_Nil)

lemma walk_paths:
  "l \<in> set (walk v p) \<Longrightarrow> \<exists>q w. lint_path l = p @ q \<and> subval v q w"
  "l \<in> set (walk_items xs i p) \<Longrightarrow> \<exists>j q w. j < length xs \<and> lint_path l = p @ show_nat (i + j) # q \<and> subval (xs ! j) q w"
  "l \<in> set (walk_entries m p) \<Longrightarrow> \<exists>k v q w. (k, v) \<in> set m \<and> lint_path l = p @ k # q \<and> subval v q w"
proof (induction v p and xs i p and m p rule: walk_walk_items_walk_entries.induct)
  case (2 items p)
  then show ?case by (fastforce intro: subval.item)
next
  case (3 m p)
  then show ?case by (fastforce intro: subval.entry)
next
  case (8 v vs i p)
  then show ?case
    by (fastforce simp: path_join_def nth_Cons' intro: exI [of _ 0] exI [of _ "Suc _"])
next
  case (10 k v m p)
  then show ?case
    by (fastforce simp: path_join_def Let_def split: if_splits option.splits intro: subval.here)
qed (auto intro: subval.here)

lemma lint_paths: "l \<in> set (lint doc) \<Longrightarrow> \<exists>w. subval doc (lint_path l) w"
  using walk_paths(1) [of l doc "[]"] subval.here [of doc]
  by (auto simp: lint_def root_def split: if_splits)


section \<open>Properties\<close>

text \<open>C24: The lint is empty exactly for the documents whose root is a map and in which no value
  at any depth is \<open>null\<close>, every key is in the key charset and every comment key holds a
  string.\<close>

theorem lint_accepts_exactly: "lint doc = [] \<longleftrightarrow> doc_ok doc"
  by (rule lint_Nil_iff)

end
