(* ===== verification/Formats.thy ===== *)
theory Formats
  imports Documents
begin

text \<open>
  The two serialization formats (format.rs). The parsers and printers the code calls (serde_json,
  serde_yaml_ng, the saphyr event parser), SHA-256, the text of a double and the
  messages of serde's derived deserializers are the fields of \<open>libs\<close>, an argument of
  every definition that uses one of them. What is the program's own is modelled in full: the scan
  of the event stream that refuses aliases, anchors, tags and complex keys before a document is
  parsed, the lint after it, the canonical trailing newline.
\<close>

section \<open>The libraries\<close>

text \<open>An item of saphyr's event stream carries its start marker; the parser may also report a
  scan error at a marker. Only the events the scan looks at are told apart.\<close>

record marker =
  mk_line :: nat
  mk_col :: nat

datatype event =
    EvAlias
  | EvScalar nat "string option"
  | EvSequenceStart nat "string option"
  | EvSequenceEnd
  | EvMappingStart nat "string option"
  | EvMappingEnd
  | EvOther

type_synonym event_item = "(string \<times> marker) + (event \<times> marker)"

record libs =
  yaml_events :: "string \<Rightarrow> event_item list"
  yaml_from_str :: "string \<Rightarrow> (string \<times> location option) + json"
  yaml_to_string :: "json \<Rightarrow> string"
  json_from_str :: "string \<Rightarrow> (string \<times> location) + json"
  json_to_string_pretty :: "json \<Rightarrow> string"
  json_to_string :: "json \<Rightarrow> string"
  sha256_hex :: "string \<Rightarrow> string"
  f64_text :: "rat \<Rightarrow> string"
  serde_error :: "json \<Rightarrow> string"

section \<open>The YAML safety scan\<close>

datatype ctx = CtxSeq | CtxMap bool

definition at_marker :: "marker \<Rightarrow> location" where
  "at_marker m = \<lparr>line = mk_line m, column = mk_col m + 1\<rparr>"

definition yaml_err :: "string \<Rightarrow> location \<Rightarrow> error" where
  "yaml_err msg loc = EParse Yaml msg (Some loc)"

fun note_child :: "ctx list \<Rightarrow> ctx list" where
  "note_child (CtxMap expect_key # st) = CtxMap (\<not> expect_key) # st"
| "note_child st = st"

fun key_position :: "ctx list \<Rightarrow> bool" where
  "key_position (CtxMap True # st) = True"
| "key_position st = False"

definition reject_if_key_position :: "ctx list \<Rightarrow> location \<Rightarrow> error + unit" where
  "reject_if_key_position st loc =
     (if key_position st then Inl (yaml_err ''non-string (complex) mapping keys are not allowed'' loc)
      else Inr ())"

definition reject_anchor_tag :: "nat \<Rightarrow> string option \<Rightarrow> location \<Rightarrow> error + unit" where
  "reject_anchor_tag anchor tag loc =
     (if anchor \<noteq> 0 then Inl (yaml_err ''YAML anchors are not allowed'' loc)
      else if tag \<noteq> None then Inl (yaml_err ''YAML explicit tags are not allowed'' loc)
      else Inr ())"

text \<open>One event: the new stack, or the error that ends the scan. The stack's top is its head.\<close>

fun scan_step :: "ctx list \<Rightarrow> event \<Rightarrow> location \<Rightarrow> error + ctx list" where
  "scan_step st EvAlias loc = Inl (yaml_err ''YAML aliases are not allowed'' loc)"
| "scan_step st (EvScalar anchor tag) loc =
     andthen (reject_anchor_tag anchor tag loc) (\<lambda>_. Inr (note_child st))"
| "scan_step st (EvSequenceStart anchor tag) loc =
     andthen (reject_anchor_tag anchor tag loc) (\<lambda>_.
     andthen (reject_if_key_position st loc) (\<lambda>_. Inr (CtxSeq # st)))"
| "scan_step st EvSequenceEnd loc = Inr (note_child (tl st))"
| "scan_step st (EvMappingStart anchor tag) loc =
     andthen (reject_anchor_tag anchor tag loc) (\<lambda>_.
     andthen (reject_if_key_position st loc) (\<lambda>_. Inr (CtxMap True # st)))"
| "scan_step st EvMappingEnd loc = Inr (note_child (tl st))"
| "scan_step st EvOther loc = Inr st"

fun scan_events :: "ctx list \<Rightarrow> event_item list \<Rightarrow> error + unit" where
  "scan_events st [] = Inr ()"
| "scan_events st (Inl (msg, mk) # evs) = Inl (yaml_err msg (at_marker mk))"
| "scan_events st (Inr (ev, mk) # evs) =
     andthen (scan_step st ev (at_marker mk)) (\<lambda>st'. scan_events st' evs)"

definition scan_yaml_safety :: "libs \<Rightarrow> string \<Rightarrow> error + unit" where
  "scan_yaml_safety L txt = scan_events [] (yaml_events L txt)"

section \<open>Parse and dump\<close>

definition parse_yaml :: "libs \<Rightarrow> string \<Rightarrow> error + json" where
  "parse_yaml L txt =
     andthen (scan_yaml_safety L txt) (\<lambda>_.
     map_err (\<lambda>(msg, loc). EParse Yaml msg loc) (yaml_from_str L txt))"

definition parse_raw :: "libs \<Rightarrow> format \<Rightarrow> string \<Rightarrow> error + json" where
  "parse_raw L f txt =
     (case f of
        Json \<Rightarrow> map_err (\<lambda>(msg, loc). EParse Json msg (Some loc)) (json_from_str L txt)
      | Yaml \<Rightarrow> parse_yaml L txt)"

definition parse :: "libs \<Rightarrow> format \<Rightarrow> string \<Rightarrow> error + json" where
  "parse L f txt =
     andthen (parse_raw L f txt) (\<lambda>v.
     let lints = Documents.lint v in if lints \<noteq> [] then Inl (ELint lints) else Inr v)"

definition ensure_single_trailing_newline :: "string \<Rightarrow> string" where
  "ensure_single_trailing_newline s = trim_end_nl s @ [nl]"

definition dump :: "libs \<Rightarrow> format \<Rightarrow> json \<Rightarrow> string" where
  "dump L f doc =
     ensure_single_trailing_newline
       (case f of Json \<Rightarrow> json_to_string_pretty L doc | Yaml \<Rightarrow> yaml_to_string L doc)"

definition format_from_str :: "string \<Rightarrow> error + format" where
  "format_from_str s =
     ok_or (EInvalidName (''unknown format '' @ [CHR 0x27] @ s @ [CHR 0x27])) (from_ext s)"

section \<open>What the scan accepts\<close>

text \<open>A node of a YAML document with the markers of its events, and the stream saphyr emits for
  it. \<open>safe\<close> says what the program wants of a document: no alias, anchor or tag anywhere, and
  every mapping key a scalar.\<close>

datatype node =
    NAlias marker
  | NScalar marker nat "string option"
  | NSeq marker nat "string option" "node list" marker
  | NMap marker nat "string option" "(node \<times> node) list" marker

function node_events :: "node \<Rightarrow> event_item list"
  and items_events :: "node list \<Rightarrow> event_item list"
  and pairs_events :: "(node \<times> node) list \<Rightarrow> event_item list" where
  "node_events (NAlias mk) = [Inr (EvAlias, mk)]"
| "node_events (NScalar mk a t) = [Inr (EvScalar a t, mk)]"
| "node_events (NSeq mk a t ns mk') = Inr (EvSequenceStart a t, mk) # items_events ns @ [Inr (EvSequenceEnd, mk')]"
| "node_events (NMap mk a t ps mk') = Inr (EvMappingStart a t, mk) # pairs_events ps @ [Inr (EvMappingEnd, mk')]"
| "items_events [] = []"
| "items_events (n # ns) = node_events n @ items_events ns"
| "pairs_events [] = []"
| "pairs_events ((k, v) # ps) = node_events k @ node_events v @ pairs_events ps"
  by pat_completeness auto
termination
  by (relation "measure (case_sum size (case_sum (size_list size) (size_list (size_prod size size))))") auto

fun is_scalar_node :: "node \<Rightarrow> bool" where
  "is_scalar_node (NScalar _ _ _) = True"
| "is_scalar_node _ = False"

function safe :: "node \<Rightarrow> bool"
  and safe_items :: "node list \<Rightarrow> bool"
  and safe_pairs :: "(node \<times> node) list \<Rightarrow> bool" where
  "safe (NAlias mk) = False"
| "safe (NScalar mk a t) = (a = 0 \<and> t = None)"
| "safe (NSeq mk a t ns mk') = (a = 0 \<and> t = None \<and> safe_items ns)"
| "safe (NMap mk a t ps mk') = (a = 0 \<and> t = None \<and> safe_pairs ps)"
| "safe_items [] = True"
| "safe_items (n # ns) = (safe n \<and> safe_items ns)"
| "safe_pairs [] = True"
| "safe_pairs ((k, v) # ps) = (is_scalar_node k \<and> safe k \<and> safe v \<and> safe_pairs ps)"
  by pat_completeness auto
termination
  by (relation "measure (case_sum size (case_sum (size_list size) (size_list (size_prod size size))))") auto

lemma reject_anchor_tag_Inr: "reject_anchor_tag a t l = Inr u \<longleftrightarrow> a = 0 \<and> t = None"
  by (auto simp: reject_anchor_tag_def)

lemma scan_events_cases:
  "scan_events st evs = Inr () \<or> (\<exists>m l. scan_events st evs = Inl (EParse Yaml m l))"
proof (induction st evs rule: scan_events.induct)
  case (3 st ev mk evs)
  then show ?case
    by (cases ev) (auto simp: reject_anchor_tag_def reject_if_key_position_def yaml_err_def)
qed (simp_all add: yaml_err_def)

text \<open>Scanning the events of a node: a safe node in a position it may stand in leaves the stack
  as the child it is, anything else ends the scan.\<close>

lemma scan_nodes:
  "scan_events st (node_events n @ rest) = Inr () \<longleftrightarrow>
     safe n \<and> (is_scalar_node n \<or> \<not> key_position st) \<and> scan_events (note_child st) rest = Inr ()"
  "\<not> key_position st \<Longrightarrow> note_child st = st \<Longrightarrow>
     scan_events st (items_events ns @ rest) = Inr () \<longleftrightarrow> safe_items ns \<and> scan_events st rest = Inr ()"
  "scan_events (CtxMap True # st) (pairs_events ps @ rest) = Inr () \<longleftrightarrow>
     safe_pairs ps \<and> scan_events (CtxMap True # st) rest = Inr ()"
proof (induction n and ns and ps arbitrary: st rest and st rest and st rest
    rule: node_events_items_events_pairs_events.induct)
  case (3 mk a t ns mk')
  have "scan_events (CtxSeq # st) (items_events ns @ Inr (EvSequenceEnd, mk') # rest) = Inr () \<longleftrightarrow>
      safe_items ns \<and> scan_events (note_child st) rest = Inr ()"
    using 3 [of "CtxSeq # st" "Inr (EvSequenceEnd, mk') # rest"] by simp
  then show ?case
    by (cases "key_position st") (auto simp: reject_anchor_tag_def reject_if_key_position_def)
next
  case (4 mk a t ps mk')
  have "scan_events (CtxMap True # st) (pairs_events ps @ Inr (EvMappingEnd, mk') # rest) = Inr () \<longleftrightarrow>
      safe_pairs ps \<and> scan_events (note_child st) rest = Inr ()"
    using 4 [of st "Inr (EvMappingEnd, mk') # rest"] by simp
  then show ?case
    by (cases "key_position st") (auto simp: reject_anchor_tag_def reject_if_key_position_def)
qed (auto simp: reject_anchor_tag_def)

lemma dump_ends: "\<exists>s. dump L f doc = s @ [nl] \<and> (s = [] \<or> last s \<noteq> nl)"
proof -
  have "trim_end_nl t = [] \<or> last (trim_end_nl t) \<noteq> nl" for t
    using drop_end_last [of "\<lambda>c. c = nl" t] by (auto simp: trim_end_nl_def)
  then show ?thesis by (auto simp: dump_def ensure_single_trailing_newline_def)
qed

lemma parse_Inr_iff: "parse L f txt = Inr v \<longleftrightarrow> parse_raw L f txt = Inr v \<and> Documents.lint v = []"
  by (auto simp: parse_def Let_def result_simps split: if_splits)


section \<open>Properties\<close>

text \<open>C25: For the event stream of one YAML document, the safety scan succeeds exactly when no node
  of the document is an alias or has an anchor or an explicit tag and every mapping key is a
  scalar; and whatever the stream, the scan fails only with a YAML parse error.\<close>

theorem yaml_scan_accepts_exactly_safe:
  assumes "yaml_events L txt =
    [Inr (EvOther, m1), Inr (EvOther, m2)] @ node_events n @ [Inr (EvOther, m3), Inr (EvOther, m4)]"
  shows "(scan_yaml_safety L txt = Inr () \<longleftrightarrow> safe n)
    \<and> (scan_yaml_safety L t' = Inr () \<or> (\<exists>m l. scan_yaml_safety L t' = Inl (EParse Yaml m l)))"
  using scan_nodes(1) [of "[]" n "[Inr (EvOther, m3), Inr (EvOther, m4)]"] scan_events_cases [of "[]" "yaml_events L t'"]
  by (simp add: scan_yaml_safety_def assms)

theorem yaml_scan_accepts_exactly_safe_witness:
  "\<exists>L mk. yaml_events L ''a: [*x]'' = [Inr (EvOther, mk), Inr (EvOther, mk)]
       @ node_events (NMap mk 0 None [(NScalar mk 0 None, NSeq mk 0 None [NAlias mk] mk)] mk)
       @ [Inr (EvOther, mk), Inr (EvOther, mk)]
     \<and> scan_yaml_safety L ''a: [*x]'' \<noteq> Inr ()"
proof -
  define mk where "mk = \<lparr>mk_line = 1, mk_col = 0\<rparr>"
  let ?n = "NMap mk 0 None [(NScalar mk 0 None, NSeq mk 0 None [NAlias mk] mk)] mk"
  define L where "L = \<lparr>yaml_events = (\<lambda>_. [Inr (EvOther, mk), Inr (EvOther, mk)] @ node_events ?n @ [Inr (EvOther, mk), Inr (EvOther, mk)]),
      yaml_from_str = (\<lambda>_. Inr (VObj [])), yaml_to_string = (\<lambda>_. []), json_from_str = (\<lambda>_. Inr (VObj [])),
      json_to_string_pretty = (\<lambda>_. []), json_to_string = (\<lambda>_. []), sha256_hex = (\<lambda>_. []),
      f64_text = (\<lambda>_. []), serde_error = (\<lambda>_. [])\<rparr>"
  have h: "yaml_events L ''a: [*x]'' = [Inr (EvOther, mk), Inr (EvOther, mk)] @ node_events ?n @ [Inr (EvOther, mk), Inr (EvOther, mk)]"
    by (simp add: L_def)
  with yaml_scan_accepts_exactly_safe [OF h] show ?thesis by (intro exI [of _ L] exI [of _ mk]) auto
qed

end
