(* ===== verification/Registry.thy ===== *)
theory Registry
  imports Formats
begin

text \<open>
  Prefix definitions (registry.rs) without the directories they are read from: the strict parse of
  one prefix file with the check of its schema, selectors, node names, and the resolution of node
  overrides. \<open>as_flag\<close>, \<open>scalar_text\<close> and \<open>type_matches\<close> are the schema dialect's shared readings
  (registry.rs and shape.rs).
\<close>

section \<open>Types\<close>

datatype selector = All | Tag string

datatype origin = Packaged | Cluster

record node_override =
  no_schema :: "json option"
  no_enforce :: "bool option"
  no_hidden :: "bool option"

record prefix_def =
  pd_prefix :: path
  pd_description :: "string option"
  pd_selector :: selector
  pd_schema :: "json option"
  pd_enforce :: bool
  pd_hidden :: bool
  pd_nodes :: "(string \<times> node_override) list"
  pd_origin :: origin
  pd_overrides :: bool

record registry_failure =
  rf_name :: string
  rf_origin :: origin
  rf_error :: string

record raw_node_override =
  rno_schema :: "json option"
  rno_enforce :: "bool option"
  rno_hidden :: "bool option"

record raw_selector =
  rs_all :: "bool option"
  rs_tag :: "string option"

record raw_prefix_def =
  rp_description :: "string option"
  rp_selector :: "raw_selector option"
  rp_enforce :: "bool option"
  rp_hidden :: "bool option"
  rp_schema :: "json option"
  rp_nodes :: "(string \<times> raw_node_override) list"

fun matches :: "selector \<Rightarrow> string list \<Rightarrow> bool" where
  "matches All tags = True"
| "matches (Tag t) tags = list_ex (\<lambda>have'. have' = t) tags"

text \<open>\<open>by_specificity\<close> as the key a sort compares by: longer paths first, then by name.\<close>

definition by_specificity :: "path \<Rightarrow> int \<times> string" where
  "by_specificity p = (- int (length p), show_path p)"

section \<open>The schema dialect\<close>

definition as_flag :: "json \<Rightarrow> bool option" where
  "as_flag v =
     (case v of
        VBool b \<Rightarrow> Some b
      | VNum n \<Rightarrow> if as_i64 n = Some 1 then Some True else if as_i64 n = Some 0 then Some False else None
      | _ \<Rightarrow> None)"

definition is_integer :: "json \<Rightarrow> bool" where
  "is_integer v \<longleftrightarrow> (case v of VNum (PosInt _) \<Rightarrow> True | VNum (NegInt _) \<Rightarrow> True | _ \<Rightarrow> False)"

definition type_matches :: "string \<Rightarrow> json \<Rightarrow> bool" where
  "type_matches declared v =
     (if declared = ''string'' then is_string v
      else if declared = ''integer'' then is_integer v
      else if declared = ''number'' then is_number v
      else if declared = ''boolean'' then as_flag v \<noteq> None
      else if declared = ''object'' then is_object v
      else if declared = ''array'' then is_array v
      else True)"

definition scalar_text :: "libs \<Rightarrow> json \<Rightarrow> string" where
  "scalar_text L v = (case v of VStr s \<Rightarrow> s | _ \<Rightarrow> json_to_string L v)"

definition schema_types :: "string list" where
  "schema_types = [''string'', ''integer'', ''number'', ''boolean'', ''object'', ''array'']"

abbreviation quoted :: "string \<Rightarrow> string" where
  "quoted s \<equiv> [CHR 0x27] @ s @ [CHR 0x27]"

definition fail_at :: "string \<Rightarrow> string \<Rightarrow> string \<Rightarrow> error" where
  "fail_at name loc msg = ERegistry (name @ '': '' @ loc @ '': '' @ msg)"

definition declared_type :: "libs \<Rightarrow> string \<Rightarrow> string \<Rightarrow> vmap \<Rightarrow> error + string option" where
  "declared_type L name loc m =
     (case map_of m ''type'' of
        None \<Rightarrow> Inr None
      | Some v \<Rightarrow>
          if (case v of VStr t \<Rightarrow> t \<in> set schema_types | _ \<Rightarrow> False) then Inr (as_str v)
          else Inl (fail_at name loc (quoted ''type'' @ '' must be one of '' @ join '', '' schema_types
                 @ '' (got '' @ scalar_text L v @ '')'')))"

definition check_texts :: "string \<Rightarrow> string \<Rightarrow> vmap \<Rightarrow> error + unit" where
  "check_texts name loc m =
     for_each (\<lambda>key. case map_of m key of
         Some v \<Rightarrow> guard_err (is_string v) (fail_at name loc (quoted key @ '' must be a string''))
       | None \<Rightarrow> Inr ()) [''description'', ''format'']"

definition check_flags :: "string \<Rightarrow> string \<Rightarrow> vmap \<Rightarrow> error + unit" where
  "check_flags name loc m =
     for_each (\<lambda>key. case map_of m key of
         Some v \<Rightarrow> guard_err (as_flag v \<noteq> None) (fail_at name loc (quoted key @ '' must be true/false or 1/0''))
       | None \<Rightarrow> Inr ()) [''hidden'', ''enforce'', ''multiline'', ''optional'']"

definition check_enum :: "libs \<Rightarrow> string \<Rightarrow> string \<Rightarrow> string option \<Rightarrow> vmap \<Rightarrow> error + unit" where
  "check_enum L name loc declared m =
     (case map_of m ''enum'' of
        None \<Rightarrow> Inr ()
      | Some v \<Rightarrow>
          andthen (ok_or (fail_at name loc (quoted ''enum'' @ '' must be a list'')) (as_array v)) (\<lambda>members.
          andthen (guard_err (members \<noteq> []) (fail_at name loc (quoted ''enum'' @ '' must not be empty''))) (\<lambda>_.
          for_each (\<lambda>x.
            andthen (guard_err (is_string x \<or> is_number x \<or> is_boolean x)
                (fail_at name loc (quoted ''enum'' @ '' members must be scalars''))) (\<lambda>_.
            (case declared of
               Some t \<Rightarrow> guard_err (type_matches t x)
                 (fail_at name loc (quoted ''enum'' @ '' member '' @ scalar_text L x @ '' is not of type '' @ t))
             | None \<Rightarrow> Inr ()))) members)))"

definition bound :: "string \<Rightarrow> string \<Rightarrow> string option \<Rightarrow> vmap \<Rightarrow> string \<Rightarrow> error + rat option" where
  "bound name loc declared m key =
     (case map_of m key of
        None \<Rightarrow> Inr None
      | Some v \<Rightarrow>
          (case as_f64 v of
             Some n \<Rightarrow>
               if declared = None \<or> declared \<in> {Some ''integer'', Some ''number''} then Inr (Some n)
               else Inl (fail_at name loc (quoted key @ '' has no meaning for type ''
                      @ (case declared of Some t \<Rightarrow> t | None \<Rightarrow> [])))
           | None \<Rightarrow> Inl (fail_at name loc (quoted key @ '' must be a number''))))"

definition check_bounds :: "libs \<Rightarrow> string \<Rightarrow> string \<Rightarrow> string option \<Rightarrow> vmap \<Rightarrow> error + unit" where
  "check_bounds L name loc declared m =
     andthen (bound name loc declared m ''minimum'') (\<lambda>lo.
     andthen (bound name loc declared m ''maximum'') (\<lambda>hi.
     (case (lo, hi) of
        (Some a, Some b) \<Rightarrow>
          guard_err (\<not> a > b) (fail_at name loc (quoted ''minimum'' @ '' ('' @ f64_text L a @ '') is above ''
            @ quoted ''maximum'' @ '' ('' @ f64_text L b @ '')''))
      | _ \<Rightarrow> Inr ())))"

definition check_default :: "string \<Rightarrow> string \<Rightarrow> string option \<Rightarrow> vmap \<Rightarrow> error + unit" where
  "check_default name loc declared m =
     (case (map_of m ''default'', declared) of
        (Some d, Some t) \<Rightarrow> guard_err (type_matches t d) (fail_at name loc (quoted ''default'' @ '' is not of type '' @ t))
      | _ \<Rightarrow> Inr ())"

definition no_meaning :: "string \<Rightarrow> string \<Rightarrow> string \<Rightarrow> string \<Rightarrow> string option \<Rightarrow> error + unit" where
  "no_meaning name loc key only declared =
     (case declared of
        Some t \<Rightarrow> guard_err (t = only) (fail_at name loc (quoted key @ '' has no meaning for type '' @ t))
      | None \<Rightarrow> Inr ())"

lemma size_map_of: "map_of m k = Some v \<Longrightarrow> size v < size_list (size_prod (\<lambda>_. 0) size) m"
  by (induction m) (auto split: if_splits)

function check_schema_dialect :: "libs \<Rightarrow> string \<Rightarrow> string \<Rightarrow> json \<Rightarrow> error + unit"
  and check_properties :: "libs \<Rightarrow> string \<Rightarrow> string \<Rightarrow> (string \<times> json) list \<Rightarrow> error + unit" where
  "check_schema_dialect L name loc node =
     (case node of
        VObj m \<Rightarrow>
          andthen (declared_type L name loc m) (\<lambda>declared.
          andthen (check_texts name loc m) (\<lambda>_.
          andthen (check_flags name loc m) (\<lambda>_.
          andthen (check_enum L name loc declared m) (\<lambda>_.
          andthen (check_bounds L name loc declared m) (\<lambda>_.
          andthen (check_default name loc declared m) (\<lambda>_.
          andthen
            (case map_of m ''items'' of
               Some items \<Rightarrow>
                 andthen (no_meaning name loc ''items'' ''array'' declared) (\<lambda>_.
                 check_schema_dialect L name (loc @ ''.items'') items)
             | None \<Rightarrow> Inr ()) (\<lambda>_.
          (case map_of m ''properties'' of
             Some props \<Rightarrow>
               (case props of
                  VObj pm \<Rightarrow>
                    andthen (no_meaning name loc ''properties'' ''object'' declared) (\<lambda>_.
                    check_properties L name loc pm)
                | _ \<Rightarrow> Inl (fail_at name loc (quoted ''properties'' @ '' must be a map'')))
           | None \<Rightarrow> Inr ()))))))))
      | _ \<Rightarrow> Inl (fail_at name loc ''a schema node must be a map''))"
| "check_properties L name loc [] = Inr ()"
| "check_properties L name loc ((key, sub) # props) =
     andthen (guard_err (is_valid_segment key) (fail_at name loc (''property '' @ quoted key @ '' is not a valid key''))) (\<lambda>_.
     andthen (check_schema_dialect L name (loc @ ''.properties.'' @ key) sub) (\<lambda>_.
     check_properties L name loc props))"
  by pat_completeness auto
termination
  by (relation "measure (\<lambda>x. case x of
        Inl (L, name, loc, node) \<Rightarrow> size node
      | Inr (L, name, loc, props) \<Rightarrow> size_list (size_prod (\<lambda>_. 0) size) props)")
    (auto dest!: size_map_of)

declare check_schema_dialect.simps [simp del]

section \<open>Deserializing a prefix file\<close>

text \<open>What serde derives for a struct with \<open>deny_unknown_fields\<close>: a map with no other keys, or a
  list with the fields by position; an absent field is its default. \<open>None\<close> is a refusal, whose
  message is the library's.\<close>

definition struct_fields :: "string list \<Rightarrow> json \<Rightarrow> (string \<Rightarrow> json option) option" where
  "struct_fields fs v =
     (case v of
        VObj m \<Rightarrow> if list_all (\<lambda>k. k \<in> set fs) (okeys m) then Some (map_of m) else None
      | VArr xs \<Rightarrow> if length xs \<le> length fs then Some (map_of (zip fs xs)) else None
      | _ \<Rightarrow> None)"

definition de_opt :: "(json \<Rightarrow> 'a option) \<Rightarrow> json option \<Rightarrow> 'a option option" where
  "de_opt f v = (case v of None \<Rightarrow> Some None | Some VNull \<Rightarrow> Some None | Some w \<Rightarrow> map_option Some (f w))"

definition as_bool :: "json \<Rightarrow> bool option" where
  "as_bool v = (case v of VBool b \<Rightarrow> Some b | _ \<Rightarrow> None)"

definition de_flag :: "json option \<Rightarrow> bool option option" where
  "de_flag v = de_opt as_flag v"

definition de_selector :: "json \<Rightarrow> raw_selector option" where
  "de_selector v =
     Option.bind (struct_fields [''all'', ''tag''] v) (\<lambda>get.
     Option.bind (de_opt as_bool (get ''all'')) (\<lambda>a.
     Option.bind (de_opt as_str (get ''tag'')) (\<lambda>t.
     Some \<lparr>rs_all = a, rs_tag = t\<rparr>)))"

definition de_node_override :: "json \<Rightarrow> raw_node_override option" where
  "de_node_override v =
     Option.bind (struct_fields [''schema'', ''enforce'', ''hidden''] v) (\<lambda>get.
     Option.bind (de_opt Some (get ''schema'')) (\<lambda>sc.
     Option.bind (de_flag (get ''enforce'')) (\<lambda>en.
     Option.bind (de_flag (get ''hidden'')) (\<lambda>hi.
     Some \<lparr>rno_schema = sc, rno_enforce = en, rno_hidden = hi\<rparr>))))"

fun de_entries :: "(json \<Rightarrow> 'a option) \<Rightarrow> (string \<times> json) list \<Rightarrow> (string \<times> 'a) list option" where
  "de_entries f [] = Some []"
| "de_entries f ((k, v) # m) =
     Option.bind (f v) (\<lambda>x. Option.bind (de_entries f m) (\<lambda>xs. Some ((k, x) # xs)))"

text \<open>A \<open>BTreeMap\<close> is the list of its entries in key order.\<close>

definition de_btree :: "(json \<Rightarrow> 'a option) \<Rightarrow> json option \<Rightarrow> (string \<times> 'a) list option" where
  "de_btree f v =
     (case v of
        None \<Rightarrow> Some []
      | Some (VObj m) \<Rightarrow> map_option (sort_key fst) (de_entries f m)
      | Some _ \<Rightarrow> None)"

definition prefix_fields :: "string list" where
  "prefix_fields = [''description'', ''selector'', ''enforce'', ''hidden'', ''schema'', ''nodes'']"

definition from_value :: "json \<Rightarrow> raw_prefix_def option" where
  "from_value v =
     Option.bind (struct_fields prefix_fields v) (\<lambda>get.
     Option.bind (de_opt as_str (get ''description'')) (\<lambda>de.
     Option.bind (de_opt de_selector (get ''selector'')) (\<lambda>se.
     Option.bind (de_flag (get ''enforce'')) (\<lambda>en.
     Option.bind (de_flag (get ''hidden'')) (\<lambda>hi.
     Option.bind (de_opt Some (get ''schema'')) (\<lambda>sc.
     Option.bind (de_btree de_node_override (get ''nodes'')) (\<lambda>no.
     Some \<lparr>rp_description = de, rp_selector = se, rp_enforce = en, rp_hidden = hi, rp_schema = sc,
           rp_nodes = no\<rparr>)))))))"

section \<open>Names and selectors\<close>

definition bad :: "string \<Rightarrow> error" where
  "bad msg = ERegistry msg"

definition parse_selector :: "string \<Rightarrow> raw_selector option \<Rightarrow> error + selector" where
  "parse_selector where' raw =
     (case raw of
        None \<Rightarrow> Inl (bad (where' @ '': missing '' @ quoted ''selector''
            @ '' (use { all: true } or { tag: <name> })''))
      | Some r \<Rightarrow>
          if rs_all r = Some True \<and> rs_tag r = None then Inr All
          else (case (rs_all r, rs_tag r) of
              (None, Some t) \<Rightarrow>
                if t \<noteq> [] then Inr (Tag t)
                else Inl (bad (where' @ '': invalid '' @ quoted ''selector''
                    @ '' (exactly one of { all: true } or { tag: <name> })''))
            | _ \<Rightarrow> Inl (bad (where' @ '': invalid '' @ quoted ''selector''
                    @ '' (exactly one of { all: true } or { tag: <name> })''))))"

definition max_file_name_len :: nat where
  "max_file_name_len = 128"

definition is_valid_file_name :: "string \<Rightarrow> bool" where
  "is_valid_file_name name \<longleftrightarrow>
     name \<noteq> [] \<and> length name \<le> max_file_name_len \<and> list_all is_valid_segment (split_on CHR ''.'' name)"

definition node_name_new :: "string \<Rightarrow> error + string" where
  "node_name_new s =
     (if s \<noteq> [] \<and> is_alnum (hd s) \<and> is_alnum (last s) \<and> list_all (\<lambda>c. is_alnum c \<or> c = CHR ''-'') s
      then Inr s else Inl (EInvalidName s))"

section \<open>Parsing one prefix file\<close>

definition bad_file_name :: "string \<Rightarrow> error" where
  "bad_file_name name = bad (name @ '': file name is not a valid prefix'')"

definition check_schema_opt :: "libs \<Rightarrow> string \<Rightarrow> string \<Rightarrow> json option \<Rightarrow> error + unit" where
  "check_schema_opt L name loc sc =
     (case sc of Some v \<Rightarrow> check_schema_dialect L name loc v | None \<Rightarrow> Inr ())"

definition parse_node :: "libs \<Rightarrow> string \<Rightarrow> string \<times> raw_node_override \<Rightarrow> error + string \<times> node_override" where
  "parse_node L name kv =
     (let key = fst kv; over = snd kv in
      andthen (map_err (\<lambda>_. bad (name @ '': nodes.'' @ key @ '': not a valid node name'')) (node_name_new key)) (\<lambda>node.
      andthen (check_schema_opt L name (''nodes.'' @ key @ ''.schema'') (rno_schema over)) (\<lambda>_.
      Inr (node, \<lparr>no_schema = rno_schema over, no_enforce = rno_enforce over, no_hidden = rno_hidden over\<rparr>))))"

definition unwrap_or :: "'a \<Rightarrow> 'a option \<Rightarrow> 'a" where
  "unwrap_or d x = (case x of Some y \<Rightarrow> y | None \<Rightarrow> d)"

definition parse_prefix :: "libs \<Rightarrow> string \<Rightarrow> string \<Rightarrow> error + prefix_def" where
  "parse_prefix L name txt =
     andthen (guard_err (is_valid_file_name name) (bad_file_name name)) (\<lambda>_.
     andthen (map_err (\<lambda>_. bad_file_name name) (parse_path name)) (\<lambda>prefix.
     andthen (guard_err (\<not> is_root prefix) (bad_file_name name)) (\<lambda>_.
     andthen (parse_raw L Yaml txt) (\<lambda>v.
     andthen (ok_or (bad (name @ '': '' @ serde_error L v)) (from_value v)) (\<lambda>raw.
     andthen (parse_selector name (rp_selector raw)) (\<lambda>selector.
     andthen (check_schema_opt L name ''schema'' (rp_schema raw)) (\<lambda>_.
     andthen (map_res (parse_node L name) (rp_nodes raw)) (\<lambda>nodes.
     Inr \<lparr>pd_prefix = prefix, pd_description = rp_description raw, pd_selector = selector,
          pd_schema = rp_schema raw, pd_enforce = unwrap_or False (rp_enforce raw),
          pd_hidden = unwrap_or False (rp_hidden raw), pd_nodes = nodes,
          pd_origin = Cluster, pd_overrides = False\<rparr>))))))))"

definition resolve_for_node :: "string option \<Rightarrow> prefix_def \<Rightarrow> prefix_def" where
  "resolve_for_node node def =
     (let def' =
        (case Option.bind node (map_of (pd_nodes def)) of
           Some over \<Rightarrow>
             def\<lparr>pd_schema := (case no_schema over of Some s \<Rightarrow> Some s | None \<Rightarrow> pd_schema def),
                 pd_enforce := unwrap_or (pd_enforce def) (no_enforce over),
                 pd_hidden := unwrap_or (pd_hidden def) (no_hidden over)\<rparr>
         | None \<Rightarrow> def)
      in def'\<lparr>pd_nodes := []\<rparr>)"

section \<open>What the dialect check accepts\<close>

text \<open>The nodes of a schema, and what the check promises of each of them.\<close>

inductive schema_node :: "json \<Rightarrow> json \<Rightarrow> bool" where
  self: "schema_node s s"
| items: "map_of m ''items'' = Some v \<Longrightarrow> schema_node v n \<Longrightarrow> schema_node (VObj m) n"
| property: "map_of m ''properties'' = Some (VObj pm) \<Longrightarrow> (k, v) \<in> set pm \<Longrightarrow> schema_node v n \<Longrightarrow>
    schema_node (VObj m) n"

inductive_simps schema_node_obj: "schema_node (VObj m) n"
inductive_simps schema_node_other [simp]:
  "schema_node VNull n" "schema_node (VBool b) n" "schema_node (VNum x) n" "schema_node (VStr t) n"
  "schema_node (VArr xs) n"

definition declares :: "vmap \<Rightarrow> string \<Rightarrow> bool" where
  "declares m t \<longleftrightarrow> map_of m ''type'' = Some (VStr t)"

definition schema_node_ok :: "json \<Rightarrow> bool" where
  "schema_node_ok n \<longleftrightarrow>
     (\<exists>m. n = VObj m
       \<and> (\<forall>v. map_of m ''type'' = Some v \<longrightarrow> (\<exists>t. v = VStr t \<and> t \<in> set schema_types))
       \<and> (\<forall>key \<in> {''description'', ''format''}. \<forall>v. map_of m key = Some v \<longrightarrow> is_string v)
       \<and> (\<forall>key \<in> {''hidden'', ''enforce'', ''multiline'', ''optional''}. \<forall>v. map_of m key = Some v \<longrightarrow> as_flag v \<noteq> None)
       \<and> (\<forall>v. map_of m ''enum'' = Some v \<longrightarrow> (\<exists>xs. v = VArr xs \<and> xs \<noteq> [] \<and>
            (\<forall>x \<in> set xs. (is_string x \<or> is_number x \<or> is_boolean x) \<and> (\<forall>t. declares m t \<longrightarrow> type_matches t x))))
       \<and> (\<forall>key \<in> {''minimum'', ''maximum''}. \<forall>v. map_of m key = Some v \<longrightarrow>
            as_f64 v \<noteq> None \<and> (\<forall>t. declares m t \<longrightarrow> t \<in> {''integer'', ''number''}))
       \<and> (\<forall>lo hi a b. map_of m ''minimum'' = Some lo \<longrightarrow> map_of m ''maximum'' = Some hi \<longrightarrow>
            as_f64 lo = Some a \<longrightarrow> as_f64 hi = Some b \<longrightarrow> a \<le> b)
       \<and> (\<forall>d t. map_of m ''default'' = Some d \<longrightarrow> declares m t \<longrightarrow> type_matches t d)
       \<and> (map_of m ''items'' \<noteq> None \<longrightarrow> (\<forall>t. declares m t \<longrightarrow> t = ''array''))
       \<and> (\<forall>v. map_of m ''properties'' = Some v \<longrightarrow>
            (\<exists>pm. v = VObj pm \<and> (\<forall>(k, s) \<in> set pm. is_valid_segment k)) \<and> (\<forall>t. declares m t \<longrightarrow> t = ''object'')))"

lemma declared_type_Inr:
  "declared_type L name loc m = Inr d \<longleftrightarrow>
     (\<forall>v. map_of m ''type'' = Some v \<longrightarrow> (\<exists>t. v = VStr t \<and> t \<in> set schema_types)) \<and>
     (d = None \<longleftrightarrow> map_of m ''type'' = None) \<and> (\<forall>t. d = Some t \<longleftrightarrow> declares m t)"
  by (cases "map_of m ''type''"; cases d)
    (auto simp: declared_type_def declares_def as_str_def split: json.splits if_splits)

lemma check_texts_Inr:
  "check_texts name loc m = Inr () \<longleftrightarrow>
     (\<forall>key \<in> {''description'', ''format''}. \<forall>v. map_of m key = Some v \<longrightarrow> is_string v)"
  by (auto simp: check_texts_def result_simps split: option.splits)

lemma check_flags_Inr:
  "check_flags name loc m = Inr () \<longleftrightarrow>
     (\<forall>key \<in> {''hidden'', ''enforce'', ''multiline'', ''optional''}. \<forall>v. map_of m key = Some v \<longrightarrow> as_flag v \<noteq> None)"
  by (simp add: check_flags_def result_simps split: option.splits)

lemma check_enum_Inr:
  "check_enum L name loc d m = Inr () \<longleftrightarrow>
     (\<forall>v. map_of m ''enum'' = Some v \<longrightarrow> (\<exists>xs. v = VArr xs \<and> xs \<noteq> [] \<and>
        (\<forall>x \<in> set xs. (is_string x \<or> is_number x \<or> is_boolean x) \<and> (\<forall>t. d = Some t \<longrightarrow> type_matches t x))))"
  by (auto simp: check_enum_def result_simps as_array_def split: option.splits json.splits)

lemma bound_Inr:
  "bound name loc d m key = Inr x \<longleftrightarrow>
     (\<forall>v. map_of m key = Some v \<longrightarrow> as_f64 v \<noteq> None \<and> (\<forall>t. d = Some t \<longrightarrow> t \<in> {''integer'', ''number''})) \<and>
     x = Option.bind (map_of m key) as_f64"
  by (auto simp: bound_def split: option.splits)

lemma check_bounds_Inr:
  "check_bounds L name loc d m = Inr () \<longleftrightarrow>
     (\<forall>key \<in> {''minimum'', ''maximum''}. \<forall>v. map_of m key = Some v \<longrightarrow>
        as_f64 v \<noteq> None \<and> (\<forall>t. d = Some t \<longrightarrow> t \<in> {''integer'', ''number''})) \<and>
     (\<forall>lo hi a b. map_of m ''minimum'' = Some lo \<longrightarrow> map_of m ''maximum'' = Some hi \<longrightarrow>
        as_f64 lo = Some a \<longrightarrow> as_f64 hi = Some b \<longrightarrow> a \<le> b)"
proof -
  have "check_bounds L name loc d m = Inr () \<longleftrightarrow>
      (\<exists>x y. bound name loc d m ''minimum'' = Inr x \<and> bound name loc d m ''maximum'' = Inr y \<and>
        (\<forall>a b. x = Some a \<longrightarrow> y = Some b \<longrightarrow> a \<le> b))"
    by (cases "bound name loc d m ''minimum''"; cases "bound name loc d m ''maximum''")
      (auto simp: check_bounds_def not_less split: option.splits)
  also have "\<dots> \<longleftrightarrow> (\<forall>key \<in> {''minimum'', ''maximum''}. \<forall>v. map_of m key = Some v \<longrightarrow>
        as_f64 v \<noteq> None \<and> (\<forall>t. d = Some t \<longrightarrow> t \<in> {''integer'', ''number''})) \<and>
     (\<forall>lo hi a b. map_of m ''minimum'' = Some lo \<longrightarrow> map_of m ''maximum'' = Some hi \<longrightarrow>
        as_f64 lo = Some a \<longrightarrow> as_f64 hi = Some b \<longrightarrow> a \<le> b)"
    by (simp add: bound_Inr bind_eq_Some_conv) blast
  finally show ?thesis .
qed

lemma check_default_Inr:
  "check_default name loc d m = Inr () \<longleftrightarrow>
     (\<forall>v t. map_of m ''default'' = Some v \<longrightarrow> d = Some t \<longrightarrow> type_matches t v)"
  by (auto simp: check_default_def split: option.splits)

lemma no_meaning_Inr: "no_meaning name loc key only d = Inr () \<longleftrightarrow> (\<forall>t. d = Some t \<longrightarrow> t = only)"
  by (auto simp: no_meaning_def split: option.splits)

lemma check_properties_Inr:
  "check_properties L name loc pm = Inr () \<longleftrightarrow>
     (\<forall>(k, v) \<in> set pm. is_valid_segment k \<and> check_schema_dialect L name (loc @ ''.properties.'' @ k) v = Inr ())"
  by (induction pm) (auto simp: andthen_eq_Inr)

lemmas dialect_Inr = check_texts_Inr check_flags_Inr check_enum_Inr check_bounds_Inr check_default_Inr no_meaning_Inr

text \<open>One node: the check accepts it and its children exactly when it is in order and the check
  accepts the children.\<close>

lemma check_schema_step:
  "check_schema_dialect L name loc (VObj m) = Inr () \<longleftrightarrow>
     schema_node_ok (VObj m) \<and>
     (\<forall>v. map_of m ''items'' = Some v \<longrightarrow> check_schema_dialect L name (loc @ ''.items'') v = Inr ()) \<and>
     (\<forall>pm. map_of m ''properties'' = Some (VObj pm) \<longrightarrow>
        (\<forall>(k, v) \<in> set pm. check_schema_dialect L name (loc @ ''.properties.'' @ k) v = Inr ()))"
    (is "?check \<longleftrightarrow> ?ok")
proof (cases "\<exists>d. declared_type L name loc m = Inr d")
  case False
  then have "\<not> (\<forall>v. map_of m ''type'' = Some v \<longrightarrow> (\<exists>t. v = VStr t \<and> t \<in> set schema_types))"
    by (auto simp: declared_type_def as_str_def split: option.splits if_splits)
  then have "\<not> schema_node_ok (VObj m)" unfolding schema_node_ok_def by blast
  moreover have "\<not> ?check" using False by (auto simp: check_schema_dialect.simps andthen_eq_Inr)
  ultimately show ?thesis by blast
next
  case True
  then obtain d where d: "declared_type L name loc m = Inr d" by blast
  have ty: "\<forall>v. map_of m ''type'' = Some v \<longrightarrow> (\<exists>t. v = VStr t \<and> t \<in> set schema_types)"
    and dec: "\<And>t. d = Some t \<longleftrightarrow> declares m t" using d unfolding declared_type_Inr by blast+
  have node: "schema_node_ok (VObj m) \<longleftrightarrow>
      check_texts name loc m = Inr () \<and> check_flags name loc m = Inr () \<and> check_enum L name loc d m = Inr ()
      \<and> check_bounds L name loc d m = Inr () \<and> check_default name loc d m = Inr ()
      \<and> (map_of m ''items'' \<noteq> None \<longrightarrow> (\<forall>t. d = Some t \<longrightarrow> t = ''array''))
      \<and> (\<forall>v. map_of m ''properties'' = Some v \<longrightarrow>
            (\<exists>pm. v = VObj pm \<and> (\<forall>(k, s) \<in> set pm. is_valid_segment k)) \<and> (\<forall>t. d = Some t \<longrightarrow> t = ''object''))"
    unfolding schema_node_ok_def dialect_Inr dec using ty by auto
  have items: "(case map_of m ''items'' of
        Some items \<Rightarrow> andthen (no_meaning name loc ''items'' ''array'' d) (\<lambda>_. check_schema_dialect L name (loc @ ''.items'') items)
      | None \<Rightarrow> Inr ()) = Inr () \<longleftrightarrow>
      (map_of m ''items'' \<noteq> None \<longrightarrow> (\<forall>t. d = Some t \<longrightarrow> t = ''array'')) \<and>
      (\<forall>v. map_of m ''items'' = Some v \<longrightarrow> check_schema_dialect L name (loc @ ''.items'') v = Inr ())"
    by (auto simp: andthen_eq_Inr no_meaning_Inr split: option.splits)
  have props: "(case map_of m ''properties'' of
        Some props \<Rightarrow>
          (case props of
             VObj pm \<Rightarrow> andthen (no_meaning name loc ''properties'' ''object'' d) (\<lambda>_. check_properties L name loc pm)
           | _ \<Rightarrow> Inl (fail_at name loc (quoted ''properties'' @ '' must be a map'')))
      | None \<Rightarrow> Inr ()) = Inr () \<longleftrightarrow>
      (\<forall>v. map_of m ''properties'' = Some v \<longrightarrow>
         (\<exists>pm. v = VObj pm \<and> (\<forall>(k, s) \<in> set pm. is_valid_segment k)) \<and> (\<forall>t. d = Some t \<longrightarrow> t = ''object'')) \<and>
      (\<forall>pm. map_of m ''properties'' = Some (VObj pm) \<longrightarrow>
        (\<forall>(k, v) \<in> set pm. check_schema_dialect L name (loc @ ''.properties.'' @ k) v = Inr ()))"
    by (auto simp: andthen_eq_Inr no_meaning_Inr check_properties_Inr split: option.splits json.splits)
  show ?thesis
    unfolding node check_schema_dialect.simps [of L name loc "VObj m"] json.case d andthen_simps andthen_unit_Inr
      items props
    by blast
qed

lemma check_schema_iff:
  "check_schema_dialect L name loc s = Inr () \<longleftrightarrow> (\<forall>n. schema_node s n \<longrightarrow> schema_node_ok n)"
proof (induction "size s" arbitrary: s loc rule: less_induct)
  case less
  show ?case
  proof (cases s)
    case (VObj m)
    have it: "check_schema_dialect L name l v = Inr () \<longleftrightarrow> (\<forall>n. schema_node v n \<longrightarrow> schema_node_ok n)"
      if "map_of m ''items'' = Some v" for v l
      using less [of v l] size_map_of [OF that] VObj by simp
    have pr: "check_schema_dialect L name l v = Inr () \<longleftrightarrow> (\<forall>n. schema_node v n \<longrightarrow> schema_node_ok n)"
      if "map_of m ''properties'' = Some (VObj pm)" "(k, v) \<in> set pm" for k v pm l
    proof -
      have "size v < size (VObj pm)" using that(2) by (induction pm) auto
      then show ?thesis using less [of v l] size_map_of [OF that(1)] VObj by simp
    qed
    show ?thesis
      unfolding VObj check_schema_step schema_node_obj using it pr by blast
  qed (simp_all add: check_schema_dialect.simps schema_node_ok_def)
qed

section \<open>Names\<close>

lemma valid_file_name_path:
  assumes "is_valid_file_name name"
  shows "parse_path name = Inr (split_on CHR ''.'' name)" "valid_path (split_on CHR ''.'' name)"
    "show_path (split_on CHR ''.'' name) = name" "CHR ''/'' \<notin> set name"
proof -
  let ?p = "split_on CHR ''.'' name"
  show v: "valid_path ?p" using assms by (simp add: is_valid_file_name_def valid_path_def)
  show s: "show_path ?p = name" by (simp add: show_path_def join_split_on)
  show "CHR ''/'' \<notin> set name" using show_path_no_slash [OF v] s by simp
  show "parse_path name = Inr ?p" using parse_show_path [OF v] s by simp
qed

lemma parse_prefix_Inr:
  assumes "parse_prefix L name txt = Inr d"
  shows "is_valid_file_name name" "pd_prefix d = split_on CHR ''.'' name"
    "\<And>s. pd_schema d = Some s \<Longrightarrow> check_schema_dialect L name ''schema'' s = Inr ()"
    "\<And>n over s. (n, over) \<in> set (pd_nodes d) \<Longrightarrow> no_schema over = Some s \<Longrightarrow>
       \<exists>loc. check_schema_dialect L name loc s = Inr ()"
    "\<And>n over. (n, over) \<in> set (pd_nodes d) \<Longrightarrow> node_name_new n = Inr n"
    "pd_selector d \<noteq> Tag []"
proof -
  show "is_valid_file_name name" "pd_prefix d = split_on CHR ''.'' name"
    using assms by (auto simp: parse_prefix_def andthen_eq_Inr ok_or_eq valid_file_name_path(1))
  have "\<exists>raw :: raw_prefix_def. parse_selector name (rp_selector raw) = Inr (pd_selector d)
      \<and> check_schema_opt L name ''schema'' (rp_schema raw) = Inr ()
      \<and> map_res (parse_node L name) (rp_nodes raw) = Inr (pd_nodes d) \<and> pd_schema d = rp_schema raw"
    using assms by (clarsimp simp: parse_prefix_def andthen_eq_Inr ok_or_eq) blast
  then obtain raw :: raw_prefix_def where sel: "parse_selector name (rp_selector raw) = Inr (pd_selector d)"
    and schema: "check_schema_opt L name ''schema'' (rp_schema raw) = Inr ()"
    and nodes: "map_res (parse_node L name) (rp_nodes raw) = Inr (pd_nodes d)" and d: "pd_schema d = rp_schema raw"
    by blast
  show "pd_selector d \<noteq> Tag []"
    using sel by (auto simp: parse_selector_def split: option.splits if_splits bool.splits)
  show "check_schema_dialect L name ''schema'' s = Inr ()" if "pd_schema d = Some s" for s
    using schema that by (simp add: d check_schema_opt_def)
  have node: "\<exists>r \<in> set (rp_nodes raw). parse_node L name r = Inr (n, over)" if "(n, over) \<in> set (pd_nodes d)" for n over
    using nodes that by (auto simp: map_res_Inr list_all2_conv_all_nth in_set_conv_nth) (metis nth_mem)
  show "\<exists>loc. check_schema_dialect L name loc s = Inr ()"
    if mem: "(n, over) \<in> set (pd_nodes d)" and sc: "no_schema over = Some s" for n over s
  proof -
    obtain r where "parse_node L name r = Inr (n, over)" using node [OF mem] by blast
    then have "check_schema_opt L name (''nodes.'' @ fst r @ ''.schema'') (rno_schema (snd r)) = Inr ()"
      "no_schema over = rno_schema (snd r)"
      by (auto simp: parse_node_def Let_def andthen_eq_Inr)
    with sc show ?thesis
      by (intro exI [of _ "''nodes.'' @ fst r @ ''.schema''"]) (simp add: check_schema_opt_def)
  qed
  show "node_name_new n = Inr n" if "(n, over) \<in> set (pd_nodes d)" for n over
    using node [OF that] by (auto simp: parse_node_def Let_def andthen_eq_Inr node_name_new_def split: if_splits)
qed

section \<open>Properties\<close>

text \<open>C23: The schema check accepts a schema exactly when every node of it, at any depth through
  \<open>properties\<close> and \<open>items\<close>, is in order: a known type, text and flag keywords of their kind, a
  non-empty enum of scalars of the declared type, bounds that are numbers, meaningful for the type
  and not crossed, a default of the declared type, \<open>items\<close> only for arrays, \<open>properties\<close> only for
  objects and with valid keys.\<close>

theorem schema_check_accepts_exactly:
  "check_schema_dialect L name loc s = Inr () \<longleftrightarrow> (\<forall>n. schema_node s n \<longrightarrow> schema_node_ok n)"
  by (rule check_schema_iff)

theorem schema_check_accepts_exactly_witness:
  "\<not> (\<forall>n. schema_node (VObj [(''properties'', VObj [(''a'', VObj [(''type'', VStr ''integer''), (''default'', VStr ''x'')])])]) n
       \<longrightarrow> schema_node_ok n)"
proof -
  obtain L :: libs where True by blast
  have "check_schema_dialect L ''p'' ''schema''
      (VObj [(''properties'', VObj [(''a'', VObj [(''type'', VStr ''integer''), (''default'', VStr ''x'')])])]) \<noteq> Inr ()"
    by (simp add: check_schema_dialect.simps declared_type_def check_texts_def check_flags_def check_enum_def
        check_bounds_def bound_def check_default_def no_meaning_def schema_types_def as_str_def type_matches_def
        is_integer_def andthen_eq_Inr)
  with schema_check_accepts_exactly show ?thesis by blast
qed

text \<open>A prefix file that parses has a usable name, which is its prefix in dotted form and holds no
  slash; its prefix is not the root and every segment of it is valid; its selector names a tag
  only if the tag is not empty; and its own schema and that of every node override, whose names
  are node names, pass the schema check.\<close>

theorem parsed_prefix_is_in_order:
  assumes "parse_prefix L name txt = Inr d"
  shows "show_path (pd_prefix d) = name \<and> CHR ''/'' \<notin> set name \<and> length name \<le> 128
    \<and> valid_path (pd_prefix d) \<and> pd_prefix d \<noteq> root
    \<and> pd_selector d \<noteq> Tag []
    \<and> (\<forall>s n. pd_schema d = Some s \<longrightarrow> schema_node s n \<longrightarrow> schema_node_ok n)
    \<and> (\<forall>(node, over) \<in> set (pd_nodes d). node_name_new node = Inr node
         \<and> (\<forall>s n. no_schema over = Some s \<longrightarrow> schema_node s n \<longrightarrow> schema_node_ok n))"
proof -
  note p = parse_prefix_Inr [OF assms]
  note v = valid_file_name_path [OF p(1)]
  show ?thesis
    using p v by (auto simp: root_def check_schema_iff is_valid_file_name_def max_file_name_len_def)
qed

theorem parsed_prefix_is_in_order_witness:
  "\<exists>L d. parse_prefix L ''a.b'' ''selector: {all: true}'' = Inr d \<and> pd_prefix d \<noteq> root"
proof -
  define L where "L = \<lparr>yaml_events = (\<lambda>_. []),
      yaml_from_str = (\<lambda>_. Inr (VObj [(''selector'', VObj [(''all'', VBool True)])])), yaml_to_string = (\<lambda>_. []),
      json_from_str = (\<lambda>_. Inr (VObj [])), json_to_string_pretty = (\<lambda>_. []), json_to_string = (\<lambda>_. []),
      sha256_hex = (\<lambda>_. []), f64_text = (\<lambda>_. []), serde_error = (\<lambda>_. [])\<rparr>"
  have "ok_of (parse_prefix L ''a.b'' ''selector: {all: true}'') \<noteq> None" unfolding L_def by code_simp
  then obtain d where d: "parse_prefix L ''a.b'' ''selector: {all: true}'' = Inr d"
    by (cases "parse_prefix L ''a.b'' ''selector: {all: true}''") auto
  from parsed_prefix_is_in_order [OF d] d show ?thesis by blast
qed

end
