(* ===== verification/Shape.thy ===== *)
theory Shape
  imports Registry
begin

text \<open>
  The shape of one document (shape.rs): which declared prefix governs a path, the schema node that
  describes it, and what in a document does not match. The lemmas show that the most specific
  prefix containing a path governs it, that the schema index lists exactly the paths the schema
  lookup describes, and what it means for a document to have no findings.
\<close>

section \<open>Types\<close>

record declared =
  d_prefix :: path
  d_description :: "string option"
  d_schema :: "json option"
  d_enforce :: bool
  d_hidden :: bool

definition declared_of :: "prefix_def \<Rightarrow> declared" where
  "declared_of p = \<lparr>d_prefix = pd_prefix p, d_description = pd_description p, d_schema = pd_schema p,
     d_enforce = pd_enforce p, d_hidden = pd_hidden p\<rparr>"

record described =
  ds_path :: path
  ds_schema :: json
  ds_hidden :: bool

record finding =
  f_path :: path
  f_msg :: string
  f_enforced :: bool

record format_check =
  fc_path :: path
  fc_format :: string
  fc_value :: string

datatype report = Finding finding | Format format_check

fun report_path :: "report \<Rightarrow> path" where
  "report_path (Finding f) = f_path f"
| "report_path (Format f) = fc_path f"

fun report_finding :: "report \<Rightarrow> finding option" where
  "report_finding (Finding f) = Some f"
| "report_finding (Format f) = None"

type_synonym shape = "declared list"

section \<open>Construction and lookup\<close>

definition shape_new :: "declared list \<Rightarrow> shape" where
  "shape_new ds = sort_key (\<lambda>d. by_specificity (d_prefix d)) ds"

definition of_guest :: "prefix_def list \<Rightarrow> shape" where
  "of_guest defs = shape_new (map declared_of defs)"

definition rooted :: "json \<Rightarrow> shape" where
  "rooted schema = shape_new [\<lparr>d_prefix = root, d_description = None, d_schema = Some schema,
     d_enforce = False, d_hidden = False\<rparr>]"

definition shape_empty :: shape where
  "shape_empty = []"

definition governing :: "shape \<Rightarrow> path \<Rightarrow> declared option" where
  "governing sh p = find (\<lambda>d. is_prefix_of (d_prefix d) p) sh"

fun schema_down :: "json \<Rightarrow> path \<Rightarrow> json option" where
  "schema_down node [] = Some node"
| "schema_down node (seg # segs) =
     Option.bind (value_get node ''properties'') (\<lambda>props.
     Option.bind (value_get props seg) (\<lambda>sub. schema_down sub segs))"

definition schema_at :: "shape \<Rightarrow> path \<Rightarrow> json option" where
  "schema_at sh p =
     Option.bind (governing sh p) (\<lambda>owner.
     Option.bind (d_schema owner) (\<lambda>node.
     schema_down node (drop (length (d_prefix owner)) p)))"

definition flag :: "json \<Rightarrow> string \<Rightarrow> bool \<Rightarrow> bool" where
  "flag schema key inherited = unwrap_or inherited (Option.bind (value_get schema key) as_flag)"

definition owned :: "shape \<Rightarrow> declared \<Rightarrow> path \<Rightarrow> bool" where
  "owned sh owner p \<longleftrightarrow> map_option d_prefix (governing sh p) = Some (d_prefix owner)"

lemma size_value_get: "value_get v k = Some w \<Longrightarrow> size w < size v"
  by (auto simp: value_get_def dest!: size_map_of split: json.splits)

function collect :: "shape \<Rightarrow> declared \<Rightarrow> json \<Rightarrow> path \<Rightarrow> bool \<Rightarrow> described list"
  and collect_props :: "shape \<Rightarrow> declared \<Rightarrow> (string \<times> json) list \<Rightarrow> path \<Rightarrow> bool \<Rightarrow> described list" where
  "collect sh owner schema p inherited =
     (if \<not> owned sh owner p then []
      else let hidden = flag schema ''hidden'' inherited in
        \<lparr>ds_path = p, ds_schema = schema, ds_hidden = hidden\<rparr> #
        (case value_get schema ''properties'' of
           Some (VObj props) \<Rightarrow> collect_props sh owner props p hidden
         | _ \<Rightarrow> []))"
| "collect_props sh owner [] p hidden = []"
| "collect_props sh owner ((k, sub) # props) p hidden =
     collect sh owner sub (path_join p k) hidden @ collect_props sh owner props p hidden"
  by pat_completeness auto
termination
  by (relation "measure (\<lambda>x. case x of
        Inl (sh, owner, schema, p, h) \<Rightarrow> size schema
      | Inr (sh, owner, props, p, h) \<Rightarrow> size_list (size_prod (\<lambda>_. 0) size) props)")
    (auto dest!: size_value_get)

declare collect.simps [simp del]

definition schema_index :: "shape \<Rightarrow> described list" where
  "schema_index sh =
     concat (map (\<lambda>owner. case d_schema owner of
         Some schema \<Rightarrow> collect sh owner schema (d_prefix owner) (d_hidden owner)
       | None \<Rightarrow> []) sh)"

section \<open>Findings\<close>

definition enum_admits :: "string option \<Rightarrow> json \<Rightarrow> json \<Rightarrow> bool" where
  "enum_admits declared member v =
     (if declared = Some ''boolean''
      then (case (as_flag member, as_flag v) of (Some a, Some b) \<Rightarrow> a = b | _ \<Rightarrow> False)
      else veq member v)"

definition check_type :: "string option \<Rightarrow> json \<Rightarrow> string option" where
  "check_type declared v =
     (case declared of
        Some t \<Rightarrow> if \<not> type_matches t v then Some (''expected '' @ t) else None
      | None \<Rightarrow> None)"

definition check_enum_value :: "libs \<Rightarrow> json \<Rightarrow> string option \<Rightarrow> json \<Rightarrow> string option" where
  "check_enum_value L schema declared v =
     (case Option.bind (value_get schema ''enum'') as_array of
        Some allowed \<Rightarrow>
          if \<not> list_ex (\<lambda>member. enum_admits declared member v) allowed
          then Some (''expected one of: '' @ join '', '' (map (scalar_text L) allowed)) else None
      | None \<Rightarrow> None)"

definition check_max :: "libs \<Rightarrow> json \<Rightarrow> rat \<Rightarrow> string option" where
  "check_max L schema n =
     (case Option.bind (value_get schema ''maximum'') as_f64 of
        Some hi \<Rightarrow> if n > hi then Some (''must be at most '' @ json_to_string L (the (value_get schema ''maximum''))) else None
      | None \<Rightarrow> None)"

definition check_range :: "libs \<Rightarrow> json \<Rightarrow> json \<Rightarrow> string option" where
  "check_range L schema v =
     (case as_f64 v of
        Some n \<Rightarrow>
          (case Option.bind (value_get schema ''minimum'') as_f64 of
             Some lo \<Rightarrow> if n < lo then Some (''must be at least '' @ json_to_string L (the (value_get schema ''minimum'')))
                         else check_max L schema n
           | None \<Rightarrow> check_max L schema n)
      | None \<Rightarrow> None)"

definition first_some :: "'a option \<Rightarrow> 'a option \<Rightarrow> 'a option" where
  "first_some x y = (case x of Some v \<Rightarrow> Some v | None \<Rightarrow> y)"

definition check_value :: "libs \<Rightarrow> json \<Rightarrow> json \<Rightarrow> string option" where
  "check_value L schema v =
     (let declared = Option.bind (value_get schema ''type'') as_str in
      first_some (check_type declared v)
        (first_some (check_enum_value L schema declared v) (check_range L schema v)))"

definition format_report :: "json \<Rightarrow> json \<Rightarrow> path \<Rightarrow> report list" where
  "format_report schema v p =
     (case (v, Option.bind (value_get schema ''format'') as_str) of
        (VStr s, Some f) \<Rightarrow> [Format \<lparr>fc_path = p, fc_format = f, fc_value = s\<rparr>]
      | _ \<Rightarrow> [])"

function shape_walk :: "libs \<Rightarrow> shape \<Rightarrow> declared \<Rightarrow> json \<Rightarrow> json \<Rightarrow> path \<Rightarrow> bool \<Rightarrow> report list"
  and shape_walk_items :: "libs \<Rightarrow> shape \<Rightarrow> declared \<Rightarrow> json \<Rightarrow> json list \<Rightarrow> nat \<Rightarrow> path \<Rightarrow> bool \<Rightarrow> report list"
  and shape_walk_entries :: "libs \<Rightarrow> shape \<Rightarrow> declared \<Rightarrow> vmap \<Rightarrow> (string \<times> json) list \<Rightarrow> path \<Rightarrow> bool \<Rightarrow> report list" where
  "shape_walk L sh owner schema v p inherited =
     (let enforce = flag schema ''enforce'' inherited in
      case check_value L schema v of
        Some msg \<Rightarrow> [Finding \<lparr>f_path = p, f_msg = msg, f_enforced = enforce\<rparr>]
      | None \<Rightarrow>
          format_report schema v p @
          (case v of
             VArr members \<Rightarrow>
               (case value_get schema ''items'' of
                  Some items \<Rightarrow> shape_walk_items L sh owner items members 0 p enforce
                | None \<Rightarrow> [])
           | VObj m \<Rightarrow>
               (case Option.bind (value_get schema ''properties'') as_object of
                  Some props \<Rightarrow> shape_walk_entries L sh owner props m p enforce
                | None \<Rightarrow> [])
           | _ \<Rightarrow> []))"
| "shape_walk_items L sh owner items [] i p enforce = []"
| "shape_walk_items L sh owner items (x # xs) i p enforce =
     shape_walk L sh owner items x (path_join p (show_nat i)) enforce
     @ shape_walk_items L sh owner items xs (Suc i) p enforce"
| "shape_walk_entries L sh owner props [] p enforce = []"
| "shape_walk_entries L sh owner props ((key, child) # m) p enforce =
     (case map_of props key of
        Some sub \<Rightarrow>
          if owned sh owner (path_join p key) then shape_walk L sh owner sub child (path_join p key) enforce else []
      | None \<Rightarrow> [])
     @ shape_walk_entries L sh owner props m p enforce"
  by pat_completeness auto
termination
  by (relation "measure (\<lambda>x. case x of
        Inl (L, sh, owner, schema, v, p, e) \<Rightarrow> size v
      | Inr (Inl (L, sh, owner, items, xs, i, p, e)) \<Rightarrow> size_list size xs
      | Inr (Inr (L, sh, owner, props, m, p, e)) \<Rightarrow> size_list (size_prod (\<lambda>_. 0) size) m)") auto

declare shape_walk.simps [simp del]

definition owner_findings :: "libs \<Rightarrow> shape \<Rightarrow> json \<Rightarrow> declared \<Rightarrow> report list" where
  "owner_findings L sh doc owner =
     (case (d_schema owner, get_path doc (d_prefix owner)) of
        (Some schema, Some v) \<Rightarrow> shape_walk L sh owner schema v (d_prefix owner) (d_enforce owner)
      | _ \<Rightarrow> [])"

definition findings :: "libs \<Rightarrow> shape \<Rightarrow> json \<Rightarrow> report list" where
  "findings L sh doc = sort_key report_path (concat (map (owner_findings L sh doc) sh))"

definition enforced_findings :: "libs \<Rightarrow> shape \<Rightarrow> json \<Rightarrow> finding list" where
  "enforced_findings L sh doc = filter f_enforced (List.map_filter report_finding (findings L sh doc))"

definition introduced :: "finding list \<Rightarrow> finding list \<Rightarrow> path list \<Rightarrow> finding list" where
  "introduced before after changed =
     filter (\<lambda>f. f \<notin> set before
        \<or> list_ex (\<lambda>c. is_prefix_of c (f_path f) \<or> is_prefix_of (f_path f) c) changed) after"

section \<open>The governing prefix\<close>

lemma by_specificity_le:
  "by_specificity p \<le> by_specificity q \<Longrightarrow> length q \<le> length p"
  by (auto simp: by_specificity_def)

lemma find_Some_set: "find P xs = Some x \<Longrightarrow> x \<in> set xs \<and> P x"
  by (auto simp: find_Some_iff)

lemma sorted_find_least:
  assumes "sorted (map f xs)" "find P xs = Some x" "y \<in> set xs" "P y"
  shows "f x \<le> f y"
  using assms by (induction xs) (auto split: if_splits)

lemma governing_new:
  "governing (shape_new ds) p = Some d \<Longrightarrow>
     d \<in> set ds \<and> prefix (d_prefix d) p \<and>
     (\<forall>d' \<in> set ds. prefix (d_prefix d') p \<longrightarrow> prefix (d_prefix d') (d_prefix d))"
proof -
  assume g: "governing (shape_new ds) p = Some d"
  have s: "sorted (map (\<lambda>d. by_specificity (d_prefix d)) (shape_new ds))" by (simp add: shape_new_def)
  have d: "d \<in> set ds" "prefix (d_prefix d) p"
    using find_Some_set [OF g [unfolded governing_def]] by (auto simp: shape_new_def)
  have "prefix (d_prefix d') (d_prefix d)" if "d' \<in> set ds" "prefix (d_prefix d') p" for d'
  proof -
    have "by_specificity (d_prefix d) \<le> by_specificity (d_prefix d')"
      using sorted_find_least [OF s g [unfolded governing_def], of d'] that by (simp add: shape_new_def)
    then have "length (d_prefix d') \<le> length (d_prefix d)" by (rule by_specificity_le)
    then show ?thesis by (rule prefix_length_prefix [OF that(2) d(2)])
  qed
  with d show ?thesis by blast
qed

lemma governing_None: "governing (shape_new ds) p = None \<longleftrightarrow> (\<forall>d \<in> set ds. \<not> prefix (d_prefix d) p)"
  by (auto simp: governing_def find_None_iff shape_new_def)

text \<open>What a shape's users rely on, with its prefixes in specificity order and distinct.\<close>

definition shape_ok :: "shape \<Rightarrow> bool" where
  "shape_ok sh \<longleftrightarrow> sh = shape_new sh \<and> distinct (map d_prefix sh)"

lemma shape_new_ok: "distinct (map d_prefix ds) \<Longrightarrow> shape_ok (shape_new ds)"
  by (simp add: shape_ok_def shape_new_def distinct_map sort_key_id_if_sorted)

lemma owned_self:
  assumes "shape_ok sh" "owner \<in> set sh"
  shows "governing sh p = Some owner \<longleftrightarrow> owned sh owner p"
proof
  assume "owned sh owner p"
  then obtain d where d: "governing sh p = Some d" "d_prefix d = d_prefix owner" by (auto simp: owned_def)
  then have "d \<in> set sh" using find_Some_set [OF d(1) [unfolded governing_def]] by blast
  moreover have "inj_on d_prefix (set sh)" using assms(1) by (simp add: shape_ok_def distinct_map)
  ultimately have "d = owner" using d(2) assms(2) by (auto dest: inj_onD)
  with d(1) show "governing sh p = Some owner" by simp
qed (simp add: owned_def)

text \<open>Ownership is closed towards the owner's prefix.\<close>

lemma owned_down:
  assumes "shape_ok sh" "owner \<in> set sh" "owned sh owner q" "prefix (d_prefix owner) p" "prefix p q"
  shows "owned sh owner p"
proof -
  have sh: "sh = shape_new sh" using assms(1) by (simp add: shape_ok_def)
  have g: "governing (shape_new sh) q = Some owner"
    using owned_self [OF assms(1,2)] assms(3) sh by metis
  have "governing (shape_new sh) p \<noteq> None" using assms(2,4) by (auto simp: governing_None)
  then obtain d where d: "governing (shape_new sh) p = Some d" by blast
  from governing_new [OF d] have "d \<in> set sh" "prefix (d_prefix owner) (d_prefix d)" "prefix (d_prefix d) p"
    using assms(2,4) by blast+
  moreover from governing_new [OF g] calculation have "prefix (d_prefix d) (d_prefix owner)"
    using assms(5) by (meson prefix_order.trans)
  ultimately have "d_prefix d = d_prefix owner" by (simp add: prefix_order.antisym)
  then show ?thesis using d sh by (simp add: owned_def)
qed

section \<open>The schema index\<close>

lemma schema_down_snoc:
  "schema_down node (q @ [k]) = Option.bind (schema_down node q) (\<lambda>n.
     Option.bind (value_get n ''properties'') (\<lambda>props. value_get props k))"
  by (induction q arbitrary: node) (auto simp: bind_assoc)

lemma value_get_obj: "value_get v k = Some w \<longleftrightarrow> (\<exists>m. v = VObj m \<and> map_of m k = Some w)"
  by (auto simp: value_get_def split: json.splits)

lemma wf_value_get: "wf_value v \<Longrightarrow> value_get v k = Some w \<Longrightarrow> wf_value w"
  using wf_entriesD by (fastforce simp: value_get_def split: json.splits)

lemma collect_sound:
  "d \<in> set (collect sh owner schema p h) \<Longrightarrow> wf_value schema \<Longrightarrow>
     \<exists>q. ds_path d = p @ q \<and> schema_down schema q = Some (ds_schema d) \<and> owned sh owner (ds_path d)"
  "d \<in> set (collect_props sh owner props p h) \<Longrightarrow> wf_value (VObj props) \<Longrightarrow>
     \<exists>k sub q. map_of props k = Some sub \<and> ds_path d = p @ k # q \<and> schema_down sub q = Some (ds_schema d)
       \<and> owned sh owner (ds_path d)"
proof (induction sh owner schema p h and sh owner props p h rule: collect_collect_props.induct)
  case (1 sh owner schema p h)
  have own: "owned sh owner p" using "1.prems" by (auto simp: collect.simps split: if_splits)
  with "1.prems" consider (here) "ds_path d = p" "ds_schema d = schema"
    | (below) props where "value_get schema ''properties'' = Some (VObj props)"
        "d \<in> set (collect_props sh owner props p (flag schema ''hidden'' h))"
    by (cases "value_get schema ''properties''"; cases "the (value_get schema ''properties'')")
      (auto simp: collect.simps Let_def)
  then show ?case
  proof cases
    case here
    with own show ?thesis by (intro exI [of _ "[]"]) simp
  next
    case below
    have "wf_value (VObj props)" by (rule wf_value_get [OF "1.prems"(2) below(1)])
    from "1.IH" [OF _ refl below(1) refl below(2) this] own obtain k sub q where
      "map_of props k = Some sub" "ds_path d = p @ k # q" "schema_down sub q = Some (ds_schema d)"
      "owned sh owner (ds_path d)" by blast
    with below(1) show ?thesis by (intro exI [of _ "k # q"]) (simp add: value_get_def)
  qed
next
  case (3 sh owner k sub props p h)
  from "3.prems"(1) consider "d \<in> set (collect sh owner sub (path_join p k) h)"
    | "d \<in> set (collect_props sh owner props p h)" by auto
  then show ?case
  proof cases
    case 1
    with "3.IH"(1) "3.prems"(2) obtain q where "ds_path d = path_join p k @ q"
      "schema_down sub q = Some (ds_schema d)" "owned sh owner (ds_path d)" by auto
    then show ?thesis by (intro exI [of _ k] exI [of _ sub] exI [of _ q]) (simp add: path_join_def)
  next
    case 2
    have "wf_value (VObj props)" using "3.prems"(2) by simp
    from "3.IH"(2) [OF 2 this] obtain j s q where
      js: "map_of props j = Some s" "ds_path d = p @ j # q" "schema_down s q = Some (ds_schema d)"
      "owned sh owner (ds_path d)" by blast
    have "map_of props k = None" using "3.prems"(2) by (simp add: map_of_eq_None_iff)
    with js(1) have "j \<noteq> k" by auto
    with js show ?thesis by (intro exI [of _ j] exI [of _ s] exI [of _ q]) simp
  qed
qed simp

lemma collect_complete:
  assumes "\<And>r. prefix r q \<Longrightarrow> owned sh owner (p @ r)" "schema_down schema q = Some s"
  shows "\<exists>h'. \<lparr>ds_path = p @ q, ds_schema = s, ds_hidden = h'\<rparr> \<in> set (collect sh owner schema p h)"
  using assms
proof (induction q arbitrary: p schema h)
  case Nil
  then show ?case using Nil.prems(1) [of "[]"] by (auto simp: collect.simps Let_def)
next
  case (Cons k q)
  from Cons.prems(2) obtain props sub where ps: "value_get schema ''properties'' = Some (VObj props)"
    "map_of props k = Some sub" "schema_down sub q = Some s"
    by (auto simp: bind_eq_Some_conv value_get_obj)
  have "owned sh owner ((p @ [k]) @ r)" if "prefix r q" for r using Cons.prems(1) [of "k # r"] that by simp
  from Cons.IH [OF this ps(3)] have IH:
    "\<exists>h'. \<lparr>ds_path = p @ k # q, ds_schema = s, ds_hidden = h'\<rparr> \<in> set (collect sh owner sub (p @ [k]) h)" for h
    by simp
  have "\<exists>h'. \<lparr>ds_path = p @ k # q, ds_schema = s, ds_hidden = h'\<rparr> \<in> set (collect_props sh owner props p h)" for h
    using map_of_SomeD [OF ps(2)] IH by (induction props) (fastforce simp: path_join_def)+
  with ps(1) Cons.prems(1) [of "[]"] show ?case
    by (auto simp: collect.simps [of sh owner schema] Let_def)
qed

lemma in_schema_index:
  "d \<in> set (schema_index sh) \<longleftrightarrow> (\<exists>owner schema. owner \<in> set sh \<and> d_schema owner = Some schema
     \<and> d \<in> set (collect sh owner schema (d_prefix owner) (d_hidden owner)))"
proof -
  have "d \<in> set (case d_schema owner of Some schema \<Rightarrow> collect sh owner schema (d_prefix owner) (d_hidden owner) | None \<Rightarrow> [])
      \<longleftrightarrow> (\<exists>schema. d_schema owner = Some schema \<and> d \<in> set (collect sh owner schema (d_prefix owner) (d_hidden owner)))"
    for owner by (cases "d_schema owner") auto
  then show ?thesis by (auto simp: schema_index_def)
qed

lemma schema_index_exact:
  assumes "shape_ok sh" "\<And>d s. d \<in> set sh \<Longrightarrow> d_schema d = Some s \<Longrightarrow> wf_value s"
  shows "(\<exists>h. \<lparr>ds_path = p, ds_schema = s, ds_hidden = h\<rparr> \<in> set (schema_index sh)) \<longleftrightarrow> schema_at sh p = Some s"
proof
  assume "\<exists>h. \<lparr>ds_path = p, ds_schema = s, ds_hidden = h\<rparr> \<in> set (schema_index sh)"
  then obtain h owner schema where o: "owner \<in> set sh" "d_schema owner = Some schema"
    "\<lparr>ds_path = p, ds_schema = s, ds_hidden = h\<rparr> \<in> set (collect sh owner schema (d_prefix owner) (d_hidden owner))"
    unfolding in_schema_index by blast
  from collect_sound(1) [OF o(3) assms(2) [OF o(1,2)]] obtain q where
    q: "p = d_prefix owner @ q" "schema_down schema q = Some s" "owned sh owner p" by auto
  from owned_self [OF assms(1) o(1)] q(3) have "governing sh p = Some owner" by blast
  with o(2) q show "schema_at sh p = Some s" by (simp add: schema_at_def)
next
  assume "schema_at sh p = Some s"
  then obtain owner schema where g: "governing sh p = Some owner" "d_schema owner = Some schema"
    "schema_down schema (drop (length (d_prefix owner)) p) = Some s"
    by (auto simp: schema_at_def bind_eq_Some_conv)
  have sh: "sh = shape_new sh" using assms(1) by (simp add: shape_ok_def)
  have o: "owner \<in> set sh" "prefix (d_prefix owner) p"
    using governing_new [of sh p owner] g(1) sh by auto
  then obtain q where q: "p = d_prefix owner @ q" by (auto simp: prefix_def)
  have "owned sh owner p" using g(1) by (simp add: owned_def)
  then have "owned sh owner (d_prefix owner @ r)" if "prefix r q" for r
    using owned_down [OF assms(1) o(1), of p "d_prefix owner @ r"] that q by simp
  from collect_complete [OF this, where schema = schema and s = s and h = "d_hidden owner"] g(3) q
  have "\<exists>h'. \<lparr>ds_path = p, ds_schema = s, ds_hidden = h'\<rparr> \<in> set (collect sh owner schema (d_prefix owner) (d_hidden owner))"
    by simp
  with o(1) g(2) show "\<exists>h. \<lparr>ds_path = p, ds_schema = s, ds_hidden = h\<rparr> \<in> set (schema_index sh)"
    unfolding in_schema_index by blast
qed

section \<open>Documents without findings\<close>

definition is_finding :: "report \<Rightarrow> bool" where
  "is_finding r \<longleftrightarrow> report_finding r \<noteq> None"

text \<open>A value fits a schema: it meets the constraints stated for it, and so do the members of an
  array under \<open>items\<close> and the entries of a map under \<open>properties\<close>.\<close>

inductive fits :: "libs \<Rightarrow> json \<Rightarrow> json \<Rightarrow> bool" for L where
  "check_value L schema v = None \<Longrightarrow>
   (\<And>xs items x. v = VArr xs \<Longrightarrow> value_get schema ''items'' = Some items \<Longrightarrow> x \<in> set xs \<Longrightarrow> fits L items x) \<Longrightarrow>
   (\<And>m props k w sub. v = VObj m \<Longrightarrow> value_get schema ''properties'' = Some (VObj props) \<Longrightarrow>
      (k, w) \<in> set m \<Longrightarrow> map_of props k = Some sub \<Longrightarrow> fits L sub w) \<Longrightarrow>
   fits L schema v"

inductive_simps fits_iff: "fits L schema v"

lemma format_report_no_finding: "r \<in> set (format_report schema v p) \<Longrightarrow> \<not> is_finding r"
  by (auto simp: format_report_def is_finding_def split: json.splits option.splits)

lemma walk_no_findings:
  assumes "\<And>q. owned sh owner q"
  shows "(\<forall>r \<in> set (shape_walk L sh owner schema v p e). \<not> is_finding r) \<longleftrightarrow> fits L schema v"
    and "(\<forall>r \<in> set (shape_walk_items L sh owner schema xs i p e). \<not> is_finding r) \<longleftrightarrow> (\<forall>x \<in> set xs. fits L schema x)"
    and "(\<forall>r \<in> set (shape_walk_entries L sh owner props m p e). \<not> is_finding r) \<longleftrightarrow>
      (\<forall>(k, w) \<in> set m. \<forall>sub. map_of props k = Some sub \<longrightarrow> fits L sub w)"
  using assms
proof (induction L sh owner schema v p e and L sh owner schema xs i p e and L sh owner props m p e
    rule: shape_walk_shape_walk_items_shape_walk_entries.induct)
  case (1 L sh owner schema v p e)
  show ?case
  proof (cases "check_value L schema v")
    case (Some msg)
    then show ?thesis by (simp add: shape_walk.simps fits_iff [of L schema] is_finding_def)
  next
    case None
    show ?thesis
    proof (cases v)
      case (VArr xs)
      show ?thesis
      proof (cases "value_get schema ''items''")
        case (Some items)
        from "1.IH"(1) [OF refl None VArr Some] "1.prems"
        have "(\<forall>r \<in> set (shape_walk_items L sh owner items xs 0 p (flag schema ''enforce'' e)). \<not> is_finding r)
            \<longleftrightarrow> (\<forall>x \<in> set xs. fits L items x)" by blast
        with None VArr Some format_report_no_finding [of _ schema v p] show ?thesis
          by (simp add: shape_walk.simps [of L sh owner schema] fits_iff [of L schema] Let_def ball_Un) blast
      qed (use None VArr format_report_no_finding in
        \<open>auto simp: shape_walk.simps [of L sh owner schema] fits_iff [of L schema]\<close>)
    next
      case (VObj m)
      have as: "Option.bind (value_get schema ''properties'') as_object = Some props \<longleftrightarrow>
          value_get schema ''properties'' = Some (VObj props)" for props
        by (cases "value_get schema ''properties''"; cases "the (value_get schema ''properties'')")
          (auto simp: as_object_def)
      show ?thesis
      proof (cases "Option.bind (value_get schema ''properties'') as_object")
        case (Some props)
        from "1.IH"(2) [OF refl None VObj Some] "1.prems"
        have "(\<forall>r \<in> set (shape_walk_entries L sh owner props m p (flag schema ''enforce'' e)). \<not> is_finding r)
            \<longleftrightarrow> (\<forall>(k, w) \<in> set m. \<forall>sub. map_of props k = Some sub \<longrightarrow> fits L sub w)" by blast
        with None VObj Some Some [unfolded as] format_report_no_finding [of _ schema v p] show ?thesis
          by (simp add: shape_walk.simps [of L sh owner schema] fits_iff [of L schema] Let_def ball_Un) blast
      next
        case None': None
        then have "value_get schema ''properties'' \<noteq> Some (VObj props)" for props using as by fastforce
        with None' None VObj format_report_no_finding show ?thesis
          by (auto simp: shape_walk.simps [of L sh owner schema] fits_iff [of L schema])
      qed
    qed (use None format_report_no_finding in
      \<open>auto simp: shape_walk.simps [of L sh owner schema] fits_iff [of L schema]\<close>)
  qed
next
  case (5 L sh owner props key child m p enforce)
  then show ?case by (cases "map_of props key") auto
qed auto

lemma rooted_owned: "owned (rooted schema) \<lparr>d_prefix = root, d_description = None, d_schema = Some schema,
     d_enforce = False, d_hidden = False\<rparr> q"
  by (simp add: owned_def rooted_def shape_new_def governing_def root_def)

lemma in_enforced_findings:
  "f \<in> set (enforced_findings L sh doc) \<longleftrightarrow> Finding f \<in> set (findings L sh doc) \<and> f_enforced f"
proof -
  have "f \<in> set (List.map_filter report_finding rs) \<longleftrightarrow> Finding f \<in> set rs" for rs
  proof (induction rs)
    case (Cons r rs)
    then show ?case by (cases r) (auto simp: List.map_filter_def)
  qed (simp add: List.map_filter_def)
  then show ?thesis by (auto simp: enforced_findings_def)
qed

text \<open>An array member is reached by two prefixes: \<open>findings\<close> looks a prefix up through array
  positions, and the walk of an array's members does not ask which prefix governs them.\<close>

lemma array_member_judged_twice:
  "\<exists>sh doc p. shape_ok sh \<and> map_option d_prefix (governing sh p) = Some p
     \<and> length (filter (\<lambda>r. report_path r = p) (findings L sh doc)) = 2"
proof -
  let ?sh = "[\<lparr>d_prefix = [''a'', ''0''], d_description = None, d_schema = Some (VObj [(''type'', VStr ''integer'')]),
       d_enforce = False, d_hidden = False\<rparr>,
     \<lparr>d_prefix = [''a''], d_description = None, d_schema = Some (VObj [(''items'', VObj [(''type'', VStr ''boolean'')])]),
       d_enforce = False, d_hidden = False\<rparr>]"
  let ?doc = "VObj [(''a'', VArr [VStr ''x''])]"
  have z: "show_nat 0 = ''0''" by code_simp
  have f: "findings L ?sh ?doc = [Finding \<lparr>f_path = [''a'', ''0''], f_msg = ''expected integer'', f_enforced = False\<rparr>,
      Finding \<lparr>f_path = [''a'', ''0''], f_msg = ''expected boolean'', f_enforced = False\<rparr>]"
    by (simp add: findings_def owner_findings_def parse_usize_def parse_unsigned_def is_digit_def digits_value_def
        shape_walk.simps check_value_def check_type_def check_enum_value_def check_range_def value_get_def as_str_def
        type_matches_def is_integer_def as_flag_def first_some_def flag_def unwrap_or_def format_report_def
        as_f64_def path_join_def z Let_def)
  have "shape_ok ?sh" by (simp add: shape_ok_def shape_new_def by_specificity_def)
  moreover have "map_option d_prefix (governing ?sh [''a'', ''0'']) = Some [''a'', ''0'']"
    by (simp add: governing_def)
  ultimately show ?thesis using f by (intro exI [of _ ?sh] exI [of _ ?doc] exI [of _ "[''a'', ''0'']"]) simp
qed

lemma no_findings_iff_fits:
  "(\<forall>r \<in> set (findings L (rooted schema) doc). \<not> is_finding r) \<longleftrightarrow> fits L schema doc"
proof -
  let ?o = "\<lparr>d_prefix = root, d_description = None, d_schema = Some schema, d_enforce = False, d_hidden = False\<rparr>"
  have "rooted schema = [?o]" by (simp add: rooted_def shape_new_def)
  then have "set (findings L (rooted schema) doc) = set (shape_walk L (rooted schema) ?o schema doc root False)"
    by (simp add: findings_def owner_findings_def root_def)
  then show ?thesis using walk_no_findings(1) [OF rooted_owned, of L schema schema doc root False] by simp
qed

section \<open>Properties\<close>

text \<open>The prefix governing a path is a declared one that contains the path, and every other
  declared prefix that contains the path contains it too: the most specific one wins. There is
  none exactly when no declared prefix contains the path.\<close>

theorem governing_is_most_specific:
  "(case governing (shape_new ds) p of
      Some d \<Rightarrow> d \<in> set ds \<and> prefix (d_prefix d) p \<and>
        (\<forall>d' \<in> set ds. prefix (d_prefix d') p \<longrightarrow> prefix (d_prefix d') (d_prefix d))
    | None \<Rightarrow> (\<forall>d \<in> set ds. \<not> prefix (d_prefix d) p))"
  using governing_new [of ds p] governing_None [of ds p] by (auto split: option.split)

theorem governing_is_most_specific_witness:
  "let d = (\<lambda>p. \<lparr>d_prefix = p, d_description = None, d_schema = None, d_enforce = False, d_hidden = False\<rparr>) in
   governing (shape_new [d [''a''], d [''a'', ''b''], d [''c'']]) [''a'', ''b'', ''x''] = Some (d [''a'', ''b''])"
proof -
  let ?d = "\<lambda>p. \<lparr>d_prefix = p, d_description = None, d_schema = None, d_enforce = False, d_hidden = False\<rparr>"
  have "governing (shape_new [?d [''a''], ?d [''a'', ''b''], ?d [''c'']]) [''a'', ''b'', ''x''] \<noteq> None"
    by (simp add: governing_None)
  with governing_is_most_specific [of "[?d [''a''], ?d [''a'', ''b''], ?d [''c'']]" "[''a'', ''b'', ''x'']"]
  show ?thesis by (auto simp: Let_def)
qed

text \<open>The schema index lists exactly the paths the schema lookup describes, each with the node
  the lookup finds there: a subtree a more specific prefix governs is never described by the
  schema it shadows.\<close>

theorem schema_index_lists_exactly_schema_at:
  assumes "distinct (map d_prefix ds)" "\<forall>d \<in> set ds. \<forall>s. d_schema d = Some s \<longrightarrow> wf_value s"
  shows "(\<exists>h. \<lparr>ds_path = p, ds_schema = s, ds_hidden = h\<rparr> \<in> set (schema_index (shape_new ds)))
    \<longleftrightarrow> schema_at (shape_new ds) p = Some s"
  using schema_index_exact [OF shape_new_ok [OF assms(1)]] assms(2) by (simp add: shape_new_def)

theorem schema_index_lists_exactly_schema_at_witness:
  "let d = (\<lambda>p s. \<lparr>d_prefix = p, d_description = None, d_schema = s, d_enforce = False, d_hidden = False\<rparr>);
       sh = shape_new [d [''a''] (Some (VObj [(''properties'', VObj [(''b'', VObj [])])])), d [''a'', ''b''] None]
   in \<not> (\<exists>h. \<lparr>ds_path = [''a'', ''b''], ds_schema = VObj [], ds_hidden = h\<rparr> \<in> set (schema_index sh))"
proof -
  let ?d = "\<lambda>p s. \<lparr>d_prefix = p, d_description = None, d_schema = s, d_enforce = False, d_hidden = False\<rparr>"
  let ?ds = "[?d [''a''] (Some (VObj [(''properties'', VObj [(''b'', VObj [])])])), ?d [''a'', ''b''] None]"
  have h: "distinct (map d_prefix ?ds)" "\<forall>d \<in> set ?ds. \<forall>s. d_schema d = Some s \<longrightarrow> wf_value s" by auto
  have "schema_at (shape_new ?ds) [''a'', ''b''] = None"
    by (simp add: schema_at_def governing_def shape_new_def by_specificity_def)
  with schema_index_lists_exactly_schema_at [OF h, of "[''a'', ''b'']" "VObj []"] show ?thesis
    by (simp add: Let_def)
qed



end
