(* ===== verification/FileSystem.thy ===== *)
theory FileSystem
  imports Core_Types
begin

text \<open>
  What the store uses of \<open>std::fs\<close>, \<open>String::from_utf8\<close> and the clock. A path is its list of
  components; the directories on the way to a file are given resolved, a symbolic link is followed
  at the last component, at most 40 times (the kernel's \<open>ELOOP\<close> limit). Any operation may fail on
  any path: \<open>fault\<close> says which do and with what error. A write that fails may leave part of
  the bytes in the file it was writing (\<open>torn\<close>).
\<close>

section \<open>State\<close>

type_synonym fspath = "string list"

datatype fnode = File string nat | Dir | Symlink fspath

datatype fsop =
    OpMetadata | OpSymlinkMetadata | OpRead | OpReadDir | OpWrite | OpRename | OpRemove | OpCreateDir | OpFileType

record fs =
  nodes :: "(fspath, fnode) omap"
  clock :: nat
  write_seq :: "64 word"
  fault :: "fsop \<Rightarrow> fspath \<Rightarrow> io_error option"
  torn :: "fspath \<Rightarrow> nat"

type_synonym 'a io = "fs \<Rightarrow> (io_error + 'a) \<times> fs"

definition node_at :: "fs \<Rightarrow> fspath \<Rightarrow> fnode option" where
  "node_at s p = map_of (nodes s) p"

definition put_node :: "fspath \<Rightarrow> fnode \<Rightarrow> fs \<Rightarrow> fs" where
  "put_node p n s = s\<lparr>nodes := oput p n (nodes s)\<rparr>"

definition del_node :: "fspath \<Rightarrow> fs \<Rightarrow> fs" where
  "del_node p s = s\<lparr>nodes := odel p (nodes s)\<rparr>"

definition show_fspath :: "fspath \<Rightarrow> string" where
  "show_fspath p = CHR ''/'' # join ''/'' p"

definition fallible :: "fsop \<Rightarrow> fspath \<Rightarrow> fs \<Rightarrow> (io_error + 'a) \<Rightarrow> io_error + 'a" where
  "fallible oper p s r = (case fault s oper p of Some e \<Rightarrow> Inl e | None \<Rightarrow> r)"

section \<open>Reading\<close>

fun follow :: "nat \<Rightarrow> fs \<Rightarrow> fspath \<Rightarrow> io_error + fspath \<times> fnode" where
  "follow fuel s p =
     (case node_at s p of
        None \<Rightarrow> Inl NotFound
      | Some (Symlink t) \<Rightarrow>
          (case fuel of
             0 \<Rightarrow> Inl (IoOther ''Too many levels of symbolic links (os error 40)'')
           | Suc n \<Rightarrow> follow n s t)
      | Some n \<Rightarrow> Inr (p, n))"

definition metadata :: "fspath \<Rightarrow> fs \<Rightarrow> io_error + fnode" where
  "metadata p s = fallible OpMetadata p s (andthen (follow 40 s p) (\<lambda>(_, n). Inr n))"

definition symlink_metadata :: "fspath \<Rightarrow> fs \<Rightarrow> io_error + fnode" where
  "symlink_metadata p s = fallible OpSymlinkMetadata p s (ok_or NotFound (node_at s p))"

definition fs_read :: "fspath \<Rightarrow> fs \<Rightarrow> io_error + string" where
  "fs_read p s = fallible OpRead p s (andthen (follow 40 s p) (\<lambda>(_, n).
     case n of File b _ \<Rightarrow> Inr b | _ \<Rightarrow> Inl (IoOther ''Is a directory (os error 21)'')))"

text \<open>The names in a directory, in the order the directory has them.\<close>

definition children :: "fs \<Rightarrow> fspath \<Rightarrow> string list" where
  "children s d = map last (filter (\<lambda>p. p \<noteq> [] \<and> butlast p = d) (okeys (nodes s)))"

definition read_dir :: "fspath \<Rightarrow> fs \<Rightarrow> io_error + string list" where
  "read_dir d s = fallible OpReadDir d s
     (case node_at s d of
        None \<Rightarrow> Inl NotFound
      | Some Dir \<Rightarrow> Inr (children s d)
      | Some _ \<Rightarrow> Inl (IoOther ''Not a directory (os error 20)''))"

definition file_type :: "fspath \<Rightarrow> fs \<Rightarrow> io_error + fnode" where
  "file_type p s = fallible OpFileType p s (ok_or NotFound (node_at s p))"

fun is_file :: "fnode \<Rightarrow> bool" where
  "is_file (File _ _) = True"
| "is_file _ = False"

fun is_symlink :: "fnode \<Rightarrow> bool" where
  "is_symlink (Symlink _) = True"
| "is_symlink _ = False"

fun node_len :: "fnode \<Rightarrow> nat" where
  "node_len (File b _) = length b"
| "node_len _ = 0"

fun modified :: "fnode \<Rightarrow> nat" where
  "modified (File _ t) = t"
| "modified _ = 0"

section \<open>Writing\<close>

definition tick :: "fs \<Rightarrow> fs" where
  "tick s = s\<lparr>clock := Suc (clock s)\<rparr>"

definition fs_write :: "fspath \<Rightarrow> string \<Rightarrow> unit io" where
  "fs_write p b s =
     (if p = [] \<or> node_at s (butlast p) \<noteq> Some Dir then (Inl NotFound, s)
      else (case follow 40 s p of
          Inl NotFound \<Rightarrow>
            if node_at s p \<noteq> None then (Inl NotFound, s)
            else (case fault s OpWrite p of
                Some e \<Rightarrow> (Inl e, put_node p (File (take (torn s p) b) (clock s)) (tick s))
              | None \<Rightarrow> (Inr (), put_node p (File b (clock s)) (tick s)))
        | Inl e \<Rightarrow> (Inl e, s)
        | Inr (q, File _ _) \<Rightarrow>
            (case fault s OpWrite p of
               Some e \<Rightarrow> (Inl e, put_node q (File (take (torn s p) b) (clock s)) (tick s))
             | None \<Rightarrow> (Inr (), put_node q (File b (clock s)) (tick s)))
        | Inr _ \<Rightarrow> (Inl (IoOther ''Is a directory (os error 21)''), s)))"

definition fs_rename :: "fspath \<Rightarrow> fspath \<Rightarrow> unit io" where
  "fs_rename src dst s =
     (case fault s OpRename dst of
        Some e \<Rightarrow> (Inl e, s)
      | None \<Rightarrow>
          (case node_at s src of
             None \<Rightarrow> (Inl NotFound, s)
           | Some n \<Rightarrow>
               if node_at s dst = Some Dir \<and> n \<noteq> Dir then (Inl (IoOther ''Is a directory (os error 21)''), s)
               else if src = dst then (Inr (), s)
               else (Inr (), put_node dst n (del_node src s))))"

definition remove_file :: "fspath \<Rightarrow> unit io" where
  "remove_file p s =
     (case fault s OpRemove p of
        Some e \<Rightarrow> (Inl e, s)
      | None \<Rightarrow>
          (case node_at s p of
             None \<Rightarrow> (Inl NotFound, s)
           | Some Dir \<Rightarrow> (Inl (IoOther ''Is a directory (os error 21)''), s)
           | Some _ \<Rightarrow> (Inr (), del_node p s)))"

text \<open>\<open>create_dir_all\<close>: the missing ones among a path's ancestors and itself, outermost first.\<close>

definition create_dir :: "fspath \<Rightarrow> unit io" where
  "create_dir d s =
     (case node_at s d of
        Some Dir \<Rightarrow> (Inr (), s)
      | Some _ \<Rightarrow> (Inl (IoOther ''File exists (os error 17)''), s)
      | None \<Rightarrow>
          (case fault s OpCreateDir d of
             Some e \<Rightarrow> (Inl e, s)
           | None \<Rightarrow> (Inr (), put_node d Dir s)))"

fun create_dirs :: "fspath list \<Rightarrow> unit io" where
  "create_dirs [] s = (Inr (), s)"
| "create_dirs (d # ds) s = then_do (create_dir d) (\<lambda>_. create_dirs ds) s"

definition create_dir_all :: "fspath \<Rightarrow> unit io" where
  "create_dir_all d = create_dirs (prefixes d)"

section \<open>UTF-8\<close>

text \<open>\<open>std::str\<close>'s validation: the outcome of decoding one character at the front of the bytes.
  \<open>Bad n\<close> and \<open>Incomplete\<close> are the two errors, with the length the message names.\<close>

datatype utf8_step = Good nat | Bad nat | Incomplete

definition in_range :: "nat \<Rightarrow> nat \<Rightarrow> char \<Rightarrow> bool" where
  "in_range lo hi b \<longleftrightarrow> lo \<le> code b \<and> code b \<le> hi"

definition second_ok :: "char \<Rightarrow> char \<Rightarrow> bool" where
  "second_ok a b \<longleftrightarrow>
     (if code a = 0xE0 then in_range 0xA0 0xBF b
      else if code a = 0xED then in_range 0x80 0x9F b
      else if code a = 0xF0 then in_range 0x90 0xBF b
      else if code a = 0xF4 then in_range 0x80 0x8F b
      else in_range 0x80 0xBF b)"

definition utf8_width :: "char \<Rightarrow> nat" where
  "utf8_width a =
     (if code a < 0x80 then 1 else if in_range 0xC2 0xDF a then 2 else if in_range 0xE0 0xEF a then 3
      else if in_range 0xF0 0xF4 a then 4 else 0)"

fun utf8_front :: "string \<Rightarrow> utf8_step" where
  "utf8_front [] = Good 0"
| "utf8_front (a # bs) =
     (let w = utf8_width a in
      if w = 0 then Bad 1
      else if w = 1 then Good 1
      else (case bs of
          [] \<Rightarrow> Incomplete
        | b # cs \<Rightarrow>
            if \<not> second_ok a b then Bad 1
            else if w = 2 then Good 2
            else (case cs of
                [] \<Rightarrow> Incomplete
              | c # ds \<Rightarrow>
                  if \<not> in_range 0x80 0xBF c then Bad 2
                  else if w = 3 then Good 3
                  else (case ds of
                      [] \<Rightarrow> Incomplete
                    | d # _ \<Rightarrow> if in_range 0x80 0xBF d then Good 4 else Bad 3))))"

function utf8_error_from :: "nat \<Rightarrow> string \<Rightarrow> string option" where
  "utf8_error_from i bs =
     (if bs = [] then None
      else (case utf8_front bs of
          Good n \<Rightarrow> if n = 0 then None else utf8_error_from (i + n) (drop n bs)
        | Bad n \<Rightarrow> Some (''invalid utf-8 sequence of '' @ show_nat n @ '' bytes from index '' @ show_nat i)
        | Incomplete \<Rightarrow> Some (''incomplete utf-8 byte sequence from index '' @ show_nat i)))"
  by pat_completeness auto
termination
  by (relation "measure (\<lambda>(i, bs). length bs)") auto

declare utf8_error_from.simps [simp del]

definition utf8_error :: "string \<Rightarrow> string option" where
  "utf8_error bs = utf8_error_from 0 bs"

definition read_to_string :: "fspath \<Rightarrow> fs \<Rightarrow> io_error + string" where
  "read_to_string p s =
     andthen (fs_read p s) (\<lambda>b.
     if utf8_error b = None then Inr b else Inl (IoOther ''stream did not contain valid UTF-8''))"

section \<open>Laws\<close>

lemma node_at_put [simp]: "node_at (put_node p n s) q = (if q = p then Some n else node_at s q)"
  by (simp add: node_at_def put_node_def)

lemma node_at_del [simp]: "node_at (del_node p s) q = (if q = p then None else node_at s q)"
  by (simp add: node_at_def del_node_def)

lemma node_at_tick [simp]: "node_at (tick s) q = node_at s q"
  by (simp add: node_at_def tick_def)

lemma env_put [simp]: "fault (put_node p n s) = fault s" "torn (put_node p n s) = torn s"
    "write_seq (put_node p n s) = write_seq s" "clock (put_node p n s) = clock s"
  by (simp_all add: put_node_def)

lemma env_del [simp]: "fault (del_node p s) = fault s" "torn (del_node p s) = torn s"
    "write_seq (del_node p s) = write_seq s" "clock (del_node p s) = clock s"
  by (simp_all add: del_node_def)

lemma env_tick [simp]: "fault (tick s) = fault s" "torn (tick s) = torn s" "write_seq (tick s) = write_seq s"
  by (simp_all add: tick_def)

lemma in_children: "n \<in> set (children s d) \<longleftrightarrow> node_at s (d @ [n]) \<noteq> None"
proof -
  have "n \<in> set (children s d) \<longleftrightarrow> d @ [n] \<in> set (okeys (nodes s))"
    by (auto simp: children_def image_iff)
  then show ?thesis by (simp add: om.keys_get node_at_def)
qed

declare follow.simps [simp del]

lemma follow_node:
  "node_at s p = None \<Longrightarrow> follow f s p = Inl NotFound"
  "node_at s p = Some (File b t) \<Longrightarrow> follow f s p = Inr (p, File b t)"
  "node_at s p = Some Dir \<Longrightarrow> follow f s p = Inr (p, Dir)"
  by (simp_all add: follow.simps)

lemma fallible_Inr: "fallible oper p s r = Inr x \<longleftrightarrow> fault s oper p = None \<and> r = Inr x"
  by (simp add: fallible_def split: option.splits)

lemma fs_read_file: "fault s OpRead p = None \<Longrightarrow> node_at s p = Some (File b t) \<Longrightarrow> fs_read p s = Inr b"
  by (simp add: fs_read_def fallible_def follow_node)

lemma fs_read_absent: "fault s OpRead p = None \<Longrightarrow> node_at s p = None \<Longrightarrow> fs_read p s = Inl NotFound"
  by (simp add: fs_read_def fallible_def follow_node)

text \<open>Creating directories only adds directories.\<close>

definition grown :: "fspath set \<Rightarrow> fs \<Rightarrow> fs \<Rightarrow> bool" where
  "grown D s t \<longleftrightarrow>
     (\<forall>p. node_at t p = node_at s p \<or> (node_at s p = None \<and> node_at t p = Some Dir \<and> p \<in> D)) \<and>
     fault t = fault s \<and> torn t = torn s \<and> write_seq t = write_seq s"

lemma grown_refl: "grown D s s"
  by (simp add: grown_def)

lemma grown_trans:
  assumes "grown D s t" "grown E t u"
  shows "grown (D \<union> E) s u"
  unfolding grown_def
proof (intro conjI allI)
  fix p
  from assms have "node_at t p = node_at s p \<or> (node_at s p = None \<and> node_at t p = Some Dir \<and> p \<in> D)"
    "node_at u p = node_at t p \<or> (node_at t p = None \<and> node_at u p = Some Dir \<and> p \<in> E)"
    by (simp_all add: grown_def)
  then show "node_at u p = node_at s p \<or> (node_at s p = None \<and> node_at u p = Some Dir \<and> p \<in> D \<union> E)"
    by auto
qed (use assms in \<open>auto simp: grown_def\<close>)

lemma grown_keeps: "grown D s t \<Longrightarrow> node_at s p = Some n \<Longrightarrow> node_at t p = Some n"
  by (auto simp: grown_def dest: spec [of _ p])

lemma grown_same: "grown D s t \<Longrightarrow> p \<notin> D \<Longrightarrow> node_at t p = node_at s p"
  by (auto simp: grown_def)

lemma create_dir_grown: "create_dir d s = (r, t) \<Longrightarrow> grown {d} s t"
  by (auto simp: create_dir_def grown_def split: option.splits fnode.splits if_splits)

lemma create_dirs_grown: "create_dirs ds s = (r, t) \<Longrightarrow> grown (set ds) s t"
proof (induction ds arbitrary: s)
  case (Cons d ds)
  obtain r1 s1 where c: "create_dir d s = (r1, s1)" by (cases "create_dir d s")
  have one: "grown {d} s s1" by (rule create_dir_grown [OF c])
  show ?case
  proof (cases r1)
    case (Inl e)
    with Cons.prems c have "t = s1" by (simp add: then_do_def)
    with grown_trans [OF one grown_refl [of "set ds"]] show ?thesis by simp
  next
    case (Inr u)
    with Cons.prems c have "create_dirs ds s1 = (r, t)" by (simp add: then_do_def)
    from grown_trans [OF one Cons.IH [OF this]] show ?thesis by simp
  qed
qed (simp add: grown_refl)

lemma create_dirs_made: "create_dirs ds s = (Inr u, t) \<Longrightarrow> d \<in> set ds \<Longrightarrow> node_at t d = Some Dir"
proof (induction ds arbitrary: s)
  case (Cons a ds)
  then obtain s1 where c: "create_dir a s = (Inr (), s1)" "create_dirs ds s1 = (Inr u, t)"
    by (auto simp: then_do_def split: prod.splits sum.splits)
  have "node_at s1 a = Some Dir"
    using c(1) by (auto simp: create_dir_def split: option.splits fnode.splits)
  with Cons c(2) show ?case using grown_keeps [OF create_dirs_grown [OF c(2)]] by auto
qed simp

lemma create_dir_all_grown: "create_dir_all d s = (r, t) \<Longrightarrow> grown {p. prefix p d} s t"
  using create_dirs_grown [of "prefixes d" s r t] by (simp add: create_dir_all_def set_prefixes_eq)

lemma create_dir_all_made: "create_dir_all d s = (Inr u, t) \<Longrightarrow> node_at t d = Some Dir"
  using create_dirs_made [of "prefixes d" s u t d] by (simp add: create_dir_all_def)

end
