(* ===== verification/Registry_Files.thy ===== *)
theory Registry_Files
  imports Shape FileSystem
begin

text \<open>
  The drop directories a prefix is read from (registry.rs): which file of a name is in effect, the
  listing of a directory, and the load of all of them. The lemmas show that the effective file is
  the one of the highest directory that has the name, and that a load answers exactly one row per
  name, loaded or failed.
\<close>

section \<open>Operations\<close>

type_synonym registry = "fspath list"

definition gone_is_none :: "(io_error + 'a) \<Rightarrow> error + 'a option" where
  "gone_is_none r =
     (case r of
        Inr v \<Rightarrow> Inr (Some v)
      | Inl NotFound \<Rightarrow> Inr None
      | Inl e \<Rightarrow> Inl (EIo e))"

definition dirs :: "registry \<Rightarrow> registry_kind \<Rightarrow> fspath list" where
  "dirs reg kind = (case kind of PrefixDef \<Rightarrow> reg)"

definition write_dir :: "registry \<Rightarrow> registry_kind \<Rightarrow> fspath option" where
  "write_dir reg kind = (if dirs reg kind = [] then None else Some (last (dirs reg kind)))"

definition is_file_or_unreadable :: "fs \<Rightarrow> fspath \<Rightarrow> bool" where
  "is_file_or_unreadable s p =
     (case metadata p s of
        Inr m \<Rightarrow> is_file m
      | Inl NotFound \<Rightarrow> False
      | Inl _ \<Rightarrow> True)"

definition effective_file :: "fs \<Rightarrow> fspath list \<Rightarrow> string \<Rightarrow> (nat \<times> fspath) option" where
  "effective_file s ds name =
     find (\<lambda>(_, p). is_file_or_unreadable s p)
       (map (\<lambda>(i, d). (i, d @ [name @ ''.yaml''])) (rev (zip [0..<length ds] ds)))"

definition locate :: "fs \<Rightarrow> registry \<Rightarrow> registry_kind \<Rightarrow> string \<Rightarrow> fspath option" where
  "locate s reg kind name = map_option snd (effective_file s (dirs reg kind) name)"

definition cluster_layers :: "fspath list \<Rightarrow> (fspath \<times> origin) list" where
  "cluster_layers ds =
     map (\<lambda>(i, d). (d, if i + 1 = length ds then Cluster else Packaged)) (zip [0..<length ds] ds)"

definition yaml_stem :: "fs \<Rightarrow> fspath \<Rightarrow> string \<Rightarrow> string option" where
  "yaml_stem s d file_name =
     (if prefix ''.'' file_name then None
      else (case strip_suffix ''.yaml'' file_name of
          None \<Rightarrow> None
        | Some stem \<Rightarrow>
            if \<not> is_valid_file_name stem \<or> \<not> is_file_or_unreadable s (d @ [file_name]) then None
            else Some stem))"

definition yaml_files :: "fs \<Rightarrow> fspath \<Rightarrow> error + (string \<times> fspath) list" where
  "yaml_files s d =
     andthen (gone_is_none (read_dir d s)) (\<lambda>entries.
     (case entries of
        None \<Rightarrow> Inr []
      | Some names \<Rightarrow>
          Inr (sort (List.map_filter (\<lambda>n. map_option (\<lambda>stem. (stem, d @ [n])) (yaml_stem s d n)) names))))"

text \<open>\<open>holders\<close>: a \<open>BTreeMap\<close> from names to the number of directories that hold them, as its
  entries in key order.\<close>

definition count_names :: "string list \<Rightarrow> (string \<times> nat) list" where
  "count_names ns = map (\<lambda>n. (n, count_list ns n)) (sort (remdups ns))"

definition load_one :: "(string \<Rightarrow> string \<Rightarrow> error + 'a) \<Rightarrow> ('a \<Rightarrow> origin \<Rightarrow> bool \<Rightarrow> 'a) \<Rightarrow> (fspath \<times> origin) list \<Rightarrow> fs
    \<Rightarrow> string \<times> nat \<Rightarrow> (registry_failure + string \<times> 'a) option" where
  "load_one parse' stamp layers s nc =
     (let (name, cnt) = nc in
      case effective_file s (map fst layers) name of
        None \<Rightarrow> None
      | Some (index, p) \<Rightarrow>
          let org = snd (layers ! index) in
          Some (case read_to_string p s of
              Inl e \<Rightarrow> Inl \<lparr>rf_name = name, rf_origin = org, rf_error = io_text e\<rparr>
            | Inr txt \<Rightarrow>
                (case parse' name txt of
                   Inr parsed \<Rightarrow> Inr (name, stamp parsed org (cnt > 1))
                 | Inl e \<Rightarrow> Inl \<lparr>rf_name = name, rf_origin = org, rf_error = error_text e\<rparr>)))"

definition load_dirs :: "(string \<Rightarrow> string \<Rightarrow> error + 'a) \<Rightarrow> ('a \<Rightarrow> origin \<Rightarrow> bool \<Rightarrow> 'a) \<Rightarrow> (fspath \<times> origin) list \<Rightarrow> fs
    \<Rightarrow> error + (string \<times> 'a) list \<times> registry_failure list" where
  "load_dirs parse' stamp layers s =
     andthen (map_res (yaml_files s) (map fst layers)) (\<lambda>listings.
     let holders = count_names (map fst (concat listings));
         rows = List.map_filter (load_one parse' stamp layers s) holders
     in Inr (List.map_filter (\<lambda>r. case r of Inr x \<Rightarrow> Some x | Inl _ \<Rightarrow> None) rows,
             List.map_filter (\<lambda>r. case r of Inl f \<Rightarrow> Some f | Inr _ \<Rightarrow> None) rows))"

definition prefixes_with_failures :: "libs \<Rightarrow> (fspath \<times> origin) list \<Rightarrow> fs \<Rightarrow> error + prefix_def list \<times> registry_failure list" where
  "prefixes_with_failures L layers s =
     andthen (load_dirs (parse_prefix L) (\<lambda>p org over. p\<lparr>pd_origin := org, pd_overrides := over\<rparr>) layers s)
       (\<lambda>(parsed, failures). Inr (sort_key (\<lambda>p. by_specificity (pd_prefix p)) (map snd parsed), failures))"

definition list_prefixes :: "libs \<Rightarrow> registry \<Rightarrow> fs \<Rightarrow> error + prefix_def list \<times> registry_failure list" where
  "list_prefixes L reg s = prefixes_with_failures L (cluster_layers (dirs reg PrefixDef)) s"

definition prefixes_for_guest :: "libs \<Rightarrow> registry \<Rightarrow> string option \<Rightarrow> string list \<Rightarrow> fs
    \<Rightarrow> error + prefix_def list \<times> registry_failure list" where
  "prefixes_for_guest L reg node tags s =
     andthen (list_prefixes L reg s) (\<lambda>(loaded, failures).
     Inr (map (resolve_for_node node) (filter (\<lambda>p. matches (pd_selector p) tags) loaded), failures))"

definition load_prefixes :: "libs \<Rightarrow> fspath list \<Rightarrow> fs \<Rightarrow> error + prefix_def list" where
  "load_prefixes L ds s = andthen (prefixes_with_failures L (cluster_layers ds) s) (\<lambda>(ps, _). Inr ps)"

section \<open>The effective file\<close>

lemma find_rev_indexed:
  "find P (map f (rev (zip [0..<length ds] ds))) = Some x \<longleftrightarrow>
     (\<exists>i < length ds. x = f (i, ds ! i) \<and> P x \<and> (\<forall>j. i < j \<and> j < length ds \<longrightarrow> \<not> P (f (j, ds ! j))))"
proof (induction ds rule: rev_induct)
  case (snoc d ds)
  have z: "zip [0..<length (ds @ [d])] (ds @ [d]) = zip [0..<length ds] ds @ [(length ds, d)]" by simp
  show ?case
  proof (cases "P (f (length ds, d))")
    case True
    then show ?thesis unfolding z
      by (auto simp: nth_append less_Suc_eq intro!: exI [of _ "length ds"])
  next
    case False
    have "(\<exists>i < length (ds @ [d]). x = f (i, (ds @ [d]) ! i) \<and> P x \<and>
          (\<forall>j. i < j \<and> j < length (ds @ [d]) \<longrightarrow> \<not> P (f (j, (ds @ [d]) ! j))))
        \<longleftrightarrow> (\<exists>i < length ds. x = f (i, ds ! i) \<and> P x \<and> (\<forall>j. i < j \<and> j < length ds \<longrightarrow> \<not> P (f (j, ds ! j))))"
      using False by (auto simp: nth_append less_Suc_eq)
    with False snoc show ?thesis unfolding z by simp
  qed
qed simp

lemma effective_file_Some:
  "effective_file s ds name = Some (i, p) \<longleftrightarrow>
     i < length ds \<and> p = ds ! i @ [name @ ''.yaml''] \<and> is_file_or_unreadable s p \<and>
     (\<forall>j. i < j \<and> j < length ds \<longrightarrow> \<not> is_file_or_unreadable s (ds ! j @ [name @ ''.yaml'']))"
  unfolding effective_file_def find_rev_indexed by auto

lemma effective_file_None:
  "effective_file s ds name = None \<longleftrightarrow> (\<forall>d \<in> set ds. \<not> is_file_or_unreadable s (d @ [name @ ''.yaml'']))"
proof -
  have "snd ` set (zip [0..<length ds] ds) = set ds"
    by (metis diff_zero length_upt list.set_map map_snd_zip)
  then show ?thesis by (force simp: effective_file_def find_None_iff)
qed

section \<open>One row per name\<close>

lemma map_filter_Some: "List.map_filter f xs = map (\<lambda>x. the (f x)) (filter (\<lambda>x. f x \<noteq> None) xs)"
  by (simp add: List.map_filter_def comp_def)

lemma set_map_filter: "y \<in> set (List.map_filter f xs) \<longleftrightarrow> (\<exists>x \<in> set xs. f x = Some y)"
  by (force simp: map_filter_Some)

definition held :: "fs \<Rightarrow> fspath \<Rightarrow> string \<Rightarrow> bool" where
  "held s d n \<longleftrightarrow> (\<exists>files. yaml_files s d = Inr files \<and> n \<in> fst ` set files)"

lemma held_present: "held s d n \<Longrightarrow> is_valid_file_name n \<and> is_file_or_unreadable s (d @ [n @ ''.yaml''])"
  by (auto simp: held_def yaml_files_def andthen_eq_Inr set_map_filter yaml_stem_def strip_suffix_Some
      split: option.splits if_splits)

definition row_name :: "registry_failure + string \<times> 'a \<Rightarrow> string" where
  "row_name r = (case r of Inr x \<Rightarrow> fst x | Inl f \<Rightarrow> rf_name f)"

lemma load_one_name: "load_one parse' stamp layers s (n, c) = Some r \<Longrightarrow> row_name r = n"
  by (auto simp: load_one_def row_name_def Let_def split: option.splits sum.splits)

lemma load_one_None:
  "load_one parse' stamp layers s (n, c) = None \<longleftrightarrow> effective_file s (map fst layers) n = None"
  by (auto simp: load_one_def Let_def split: option.splits)

lemma rows_names:
  "map row_name (List.map_filter (load_one parse' stamp layers s) (map (\<lambda>n. (n, g n)) ns))
     = filter (\<lambda>n. effective_file s (map fst layers) n \<noteq> None) ns"
proof (induction ns)
  case (Cons n ns)
  then show ?case
  proof (cases "load_one parse' stamp layers s (n, g n)")
    case None
    then have "effective_file s (map fst layers) n = None" by (simp add: load_one_None)
    with None Cons show ?thesis by (simp add: List.map_filter_simps)
  next
    case (Some r)
    then have "effective_file s (map fst layers) n \<noteq> None" "row_name r = n"
      using load_one_name load_one_None by (metis option.distinct(1))+
    with Some Cons show ?thesis by (simp add: List.map_filter_simps)
  qed
qed (simp add: List.map_filter_simps)

definition loaded_rows :: "(registry_failure + string \<times> 'a) list \<Rightarrow> (string \<times> 'a) list" where
  "loaded_rows rows = List.map_filter (\<lambda>r. case r of Inr x \<Rightarrow> Some x | Inl _ \<Rightarrow> None) rows"

definition failed_rows :: "(registry_failure + string \<times> 'a) list \<Rightarrow> registry_failure list" where
  "failed_rows rows = List.map_filter (\<lambda>r. case r of Inl f \<Rightarrow> Some f | Inr _ \<Rightarrow> None) rows"

lemma rows_Cons:
  "loaded_rows (Inr x # rows) = x # loaded_rows rows" "failed_rows (Inr x # rows) = failed_rows rows"
  "loaded_rows (Inl f # rows) = loaded_rows rows" "failed_rows (Inl f # rows) = f # failed_rows rows"
  "loaded_rows [] = []" "failed_rows [] = []"
  by (simp_all add: loaded_rows_def failed_rows_def List.map_filter_simps)

lemma split_rows_set: "set (map fst (loaded_rows rows) @ map rf_name (failed_rows rows)) = set (map row_name rows)"
proof (induction rows)
  case (Cons r rows)
  then show ?case by (cases r) (auto simp: rows_Cons row_name_def)
qed (simp add: rows_Cons)

lemma split_rows_distinct:
  "distinct (map row_name rows) \<Longrightarrow> distinct (map fst (loaded_rows rows) @ map rf_name (failed_rows rows))"
proof (induction rows)
  case (Cons r rows)
  then have "row_name r \<notin> set (map fst (loaded_rows rows) @ map rf_name (failed_rows rows))"
    by (simp only: split_rows_set list.map distinct.simps not_False_eq_True)
  with Cons show ?case by (cases r) (simp_all add: rows_Cons row_name_def)
qed (simp add: rows_Cons)

lemma load_dirs_rows:
  assumes "load_dirs parse' stamp layers s = Inr (ok, bad')"
  shows "distinct (map fst ok @ map rf_name bad')"
    and "set (map fst ok @ map rf_name bad') = {n. \<exists>d \<in> set (map fst layers). held s d n}"
proof -
  from assms obtain listings where l: "map_res (yaml_files s) (map fst layers) = Inr listings"
    and rows: "ok = loaded_rows
        (List.map_filter (load_one parse' stamp layers s) (count_names (map fst (concat listings))))"
      "bad' = failed_rows
        (List.map_filter (load_one parse' stamp layers s) (count_names (map fst (concat listings))))"
    by (auto simp: load_dirs_def loaded_rows_def failed_rows_def Let_def andthen_eq_Inr)
  let ?ns = "map fst (concat listings)"
  let ?rows = "List.map_filter (load_one parse' stamp layers s) (count_names ?ns)"
  have names: "map row_name ?rows = filter (\<lambda>n. effective_file s (map fst layers) n \<noteq> None) (sort (remdups ?ns))"
    by (simp add: count_names_def rows_names)
  have held: "n \<in> set ?ns \<longleftrightarrow> (\<exists>d \<in> set (map fst layers). held s d n)" for n
    using l unfolding map_res_Inr list_all2_conv_all_nth held_def
    by (auto simp: in_set_conv_nth image_iff) (metis (no_types, lifting) fst_conv nth_mem sum.inject(2))+
  have d: "distinct (map row_name ?rows)" unfolding names by simp
  have "set (map row_name ?rows) = {n. \<exists>d \<in> set (map fst layers). held s d n}"
    unfolding names using held held_present by (fastforce simp: effective_file_None)
  with split_rows_distinct [OF d] split_rows_set [of ?rows] show "distinct (map fst ok @ map rf_name bad')"
    "set (map fst ok @ map rf_name bad') = {n. \<exists>d \<in> set (map fst layers). held s d n}"
    unfolding rows by simp_all
qed

lemma load_dirs_parsed:
  assumes "load_dirs parse' stamp layers s = Inr (ok, bad')" "(n, x) \<in> set ok"
  shows "\<exists>txt y org over. parse' n txt = Inr y \<and> x = stamp y org over"
  using assms
  by (auto simp: load_dirs_def Let_def andthen_eq_Inr set_map_filter load_one_def
      split: option.splits sum.splits) blast

lemma list_prefixes_rows:
  assumes "list_prefixes L reg s = Inr (ps, failures)"
  shows "distinct (map (\<lambda>p. show_path (pd_prefix p)) ps @ map rf_name failures)"
    and "set (map (\<lambda>p. show_path (pd_prefix p)) ps @ map rf_name failures) = {n. \<exists>d \<in> set reg. held s d n}"
    and "sorted (map (\<lambda>p. by_specificity (pd_prefix p)) ps)"
    and "p \<in> set ps \<Longrightarrow> valid_path (pd_prefix p)"
proof -
  let ?stamp = "\<lambda>p org over. p\<lparr>pd_origin := org, pd_overrides := over\<rparr>"
  let ?key = "\<lambda>p. by_specificity (pd_prefix p)"
  have fst: "map fst (cluster_layers reg) = reg"
    by (simp add: cluster_layers_def case_prod_unfold comp_def map_snd_zip)
  from assms obtain ok where l: "load_dirs (parse_prefix L) ?stamp (cluster_layers reg) s = Inr (ok, failures)"
    and ps: "ps = sort_key ?key (map snd ok)"
    by (auto simp: list_prefixes_def prefixes_with_failures_def dirs_def andthen_eq_Inr)
  have row: "show_path (pd_prefix (snd x)) = fst x \<and> valid_path (pd_prefix (snd x))" if "x \<in> set ok" for x
  proof -
    from that have "(fst x, snd x) \<in> set ok" by simp
    from load_dirs_parsed [OF l this] obtain t y where
      "parse_prefix L (fst x) t = Inr y" "pd_prefix (snd x) = pd_prefix y" by auto
    with parse_prefix_Inr(1,2) [of L "fst x" t y] valid_file_name_path [of "fst x"] show ?thesis by simp
  qed
  have names: "map fst ok = map (\<lambda>p. show_path (pd_prefix p)) (map snd ok)" using row by simp
  have inj: "distinct (map f (sort_key ?key xs)) = distinct (map f xs)" for f :: "prefix_def \<Rightarrow> string" and xs
    by (simp add: distinct_map)
  show "distinct (map (\<lambda>p. show_path (pd_prefix p)) ps @ map rf_name failures)"
    using load_dirs_rows(1) [OF l] unfolding names ps by (simp add: inj del: map_map)
  show "set (map (\<lambda>p. show_path (pd_prefix p)) ps @ map rf_name failures) = {n. \<exists>d \<in> set reg. held s d n}"
    using load_dirs_rows(2) [OF l] unfolding names ps fst by (simp add: image_image)
  show "sorted (map ?key ps)" by (simp add: ps)
  show "valid_path (pd_prefix p)" if "p \<in> set ps" for p using row that by (auto simp: ps)
qed

lemma resolve_prefix [simp]:
  "pd_prefix (resolve_for_node node d) = pd_prefix d" "pd_nodes (resolve_for_node node d) = []"
  by (simp_all add: resolve_for_node_def Let_def split: option.splits)

lemma resolve_fields:
  "pd_selector (resolve_for_node node p) = pd_selector p"
  "pd_schema (resolve_for_node node p) = first_some (Option.bind (Option.bind node (map_of (pd_nodes p))) no_schema) (pd_schema p)"
  "pd_enforce (resolve_for_node node p) = unwrap_or (pd_enforce p) (Option.bind (Option.bind node (map_of (pd_nodes p))) no_enforce)"
  "pd_hidden (resolve_for_node node p) = unwrap_or (pd_hidden p) (Option.bind (Option.bind node (map_of (pd_nodes p))) no_hidden)"
  by (cases "Option.bind node (map_of (pd_nodes p))";
      simp add: resolve_for_node_def Let_def first_some_def unwrap_or_def split: option.split)+

section \<open>Properties\<close>

text \<open>The effective file of a name is that of the last directory, in precedence order, that has
  one or has something there that cannot be looked at; it is missing exactly when no directory has
  one.\<close>

theorem effective_file_is_highest:
  "(effective_file s ds name = Some (i, p) \<longleftrightarrow>
      i < length ds \<and> p = ds ! i @ [name @ ''.yaml''] \<and> is_file_or_unreadable s p \<and>
      (\<forall>j. i < j \<and> j < length ds \<longrightarrow> \<not> is_file_or_unreadable s (ds ! j @ [name @ ''.yaml''])))
   \<and> (effective_file s ds name = None \<longleftrightarrow> (\<forall>d \<in> set ds. \<not> is_file_or_unreadable s (d @ [name @ ''.yaml''])))"
  by (intro conjI effective_file_Some effective_file_None)

theorem effective_file_is_highest_witness:
  "\<exists>s. effective_file s [[''a''], [''b'']] ''x'' = Some (1, [''b'', ''x.yaml''])"
proof -
  define s where "s = \<lparr>nodes = [([''a'', ''x.yaml''], File [] 0), ([''b'', ''x.yaml''], File [] 0)], clock = 0,
      write_seq = 0, fault = (\<lambda>_ _. None), torn = (\<lambda>_. 0)\<rparr>"
  have "is_file_or_unreadable s [''b'', ''x.yaml'']" unfolding s_def by code_simp
  moreover have "\<forall>j. 1 < j \<and> j < length [[''a''], [''b'']]
      \<longrightarrow> \<not> is_file_or_unreadable s ([[''a''], [''b'']] ! j @ [''x'' @ ''.yaml''])" by auto
  ultimately have "effective_file s [[''a''], [''b'']] ''x'' = Some (1, [''b'', ''x.yaml''])"
    by (subst effective_file_is_highest [THEN conjunct1]) simp
  then show ?thesis by blast
qed

text \<open>A listing of the prefixes has exactly one row for each name that some directory holds, a
  loaded prefix or a failure, and the loaded ones are sorted most specific first.\<close>

theorem prefix_listing_one_row_per_name:
  assumes "list_prefixes L reg s = Inr (ps, failures)"
  shows "distinct (map (\<lambda>p. show_path (pd_prefix p)) ps @ map rf_name failures)
    \<and> set (map (\<lambda>p. show_path (pd_prefix p)) ps @ map rf_name failures) = {n. \<exists>d \<in> set reg. held s d n}
    \<and> sorted (map (\<lambda>p. by_specificity (pd_prefix p)) ps)"
  using list_prefixes_rows [OF assms] by blast

theorem prefix_listing_one_row_per_name_witness:
  "\<exists>L s. list_prefixes L [[''a''], [''b'']] s
       = Inr ([], [\<lparr>rf_name = ''x'', rf_origin = Packaged, rf_error = ''stream did not contain valid UTF-8''\<rparr>])
     \<and> {n. \<exists>d \<in> set [[''a''], [''b'']]. held s d n} = {''x''}"
proof -
  define s where "s = \<lparr>nodes = [([''a''], Dir), ([''a'', ''x.yaml''], File [CHR 0xFF] 0)], clock = 0,
      write_seq = 0, fault = (\<lambda>_ _. None), torn = (\<lambda>_. 0)\<rparr>"
  define L where "L = \<lparr>yaml_events = (\<lambda>_. []), yaml_from_str = (\<lambda>_. Inr (VObj [])), yaml_to_string = (\<lambda>_. []),
      json_from_str = (\<lambda>_. Inr (VObj [])), json_to_string_pretty = (\<lambda>_. []), json_to_string = (\<lambda>_. []),
      sha256_hex = (\<lambda>_. []), f64_text = (\<lambda>_. []), serde_error = (\<lambda>_. [])\<rparr>"
  have l: "list_prefixes L [[''a''], [''b'']] s
      = Inr ([], [\<lparr>rf_name = ''x'', rf_origin = Packaged, rf_error = ''stream did not contain valid UTF-8''\<rparr>])"
    unfolding s_def L_def by code_simp
  from prefix_listing_one_row_per_name [OF l] l show ?thesis by (intro exI [of _ L] exI [of _ s]) simp
qed

text \<open>The prefixes reaching a guest are those of the listing whose selector matches the guest's
  tags, in the listing's order and with distinct prefixes; each has the schema, the enforce and the
  hidden flag of its override for the guest's node where the override sets them, its own
  otherwise, and no overrides left.\<close>

theorem prefixes_for_guest_resolved:
  assumes "prefixes_for_guest L reg node tags s = Inr (ps, failures)"
  shows "\<exists>loaded. list_prefixes L reg s = Inr (loaded, failures)
    \<and> ps = map (resolve_for_node node) (filter (\<lambda>p. matches (pd_selector p) tags) loaded)
    \<and> distinct (map pd_prefix ps) \<and> sorted (map (\<lambda>p. by_specificity (pd_prefix p)) ps)
    \<and> (\<forall>p \<in> set loaded. let r = resolve_for_node node p; over = Option.bind node (map_of (pd_nodes p)) in
         pd_nodes r = [] \<and> pd_selector r = pd_selector p
         \<and> pd_schema r = first_some (Option.bind over no_schema) (pd_schema p)
         \<and> pd_enforce r = unwrap_or (pd_enforce p) (Option.bind over no_enforce)
         \<and> pd_hidden r = unwrap_or (pd_hidden p) (Option.bind over no_hidden))"
proof -
  from assms obtain loaded where l: "list_prefixes L reg s = Inr (loaded, failures)"
    and ps: "ps = map (resolve_for_node node) (filter (\<lambda>p. matches (pd_selector p) tags) loaded)"
    by (auto simp: prefixes_for_guest_def andthen_eq_Inr)
  have "distinct (map show_path (map pd_prefix loaded))" using list_prefixes_rows(1) [OF l] by (simp add: comp_def)
  then have "distinct (map pd_prefix loaded)" by (auto simp: distinct_map intro: inj_on_imageI2)
  then have "distinct (map pd_prefix ps)" by (simp add: ps comp_def distinct_map_filter)
  moreover have "sorted (map (\<lambda>p. by_specificity (pd_prefix p)) ps)"
    using list_prefixes_rows(3) [OF l] by (simp add: ps comp_def sorted_filter)
  moreover have "\<forall>p \<in> set loaded. let r = resolve_for_node node p; over = Option.bind node (map_of (pd_nodes p)) in
         pd_nodes r = [] \<and> pd_selector r = pd_selector p
         \<and> pd_schema r = first_some (Option.bind over no_schema) (pd_schema p)
         \<and> pd_enforce r = unwrap_or (pd_enforce p) (Option.bind over no_enforce)
         \<and> pd_hidden r = unwrap_or (pd_hidden p) (Option.bind over no_hidden)"
    by (simp add: resolve_fields Let_def)
  ultimately show ?thesis using l ps by blast
qed

theorem prefixes_for_guest_resolved_witness:
  "\<exists>L s ps. prefixes_for_guest L [[''a'']] (Some ''n1'') [''web''] s = Inr (ps, []) \<and> map pd_enforce ps = [True]
     \<and> distinct (map pd_prefix ps)"
proof -
  define s where "s = \<lparr>nodes = [([''a''], Dir), ([''a'', ''x.yaml''], File ''x'' 0)], clock = 0,
      write_seq = 0, fault = (\<lambda>_ _. None), torn = (\<lambda>_. 0)\<rparr>"
  define L where "L = \<lparr>yaml_events = (\<lambda>_. []),
      yaml_from_str = (\<lambda>_. Inr (VObj [(''selector'', VObj [(''tag'', VStr ''web'')]),
        (''nodes'', VObj [(''n1'', VObj [(''enforce'', VBool True)])])])),
      yaml_to_string = (\<lambda>_. []),
      json_from_str = (\<lambda>_. Inr (VObj [])), json_to_string_pretty = (\<lambda>_. []), json_to_string = (\<lambda>_. []),
      sha256_hex = (\<lambda>_. []), f64_text = (\<lambda>_. []), serde_error = (\<lambda>_. [])\<rparr>"
  have "map_option (\<lambda>(ps, fl). (map pd_enforce ps, fl)) (ok_of (prefixes_for_guest L [[''a'']] (Some ''n1'') [''web''] s))
      = Some ([True], [])" unfolding s_def L_def by code_simp
  then obtain ps where p: "prefixes_for_guest L [[''a'']] (Some ''n1'') [''web''] s = Inr (ps, [])" "map pd_enforce ps = [True]"
    by (cases "prefixes_for_guest L [[''a'']] (Some ''n1'') [''web''] s") auto
  have "distinct (map pd_prefix ps)" using prefixes_for_guest_resolved [OF p(1)] by (elim exE conjE)
  with p show ?thesis by (intro exI [of _ L] exI [of _ s] exI [of _ ps]) simp
qed

end
