(* ===== verification/Tags_Digest.thy ===== *)
theory Tags_Digest
  imports Core_Types
begin

text \<open>
  Two small rules other components share: the splitting of a guest's tag string (tags.rs) and
  content digests (digest.rs). SHA-256 with its hex encoding is the parameter \<open>sha\<close> of the
  definitions that take a digest.
\<close>

definition is_tag_sep :: "string \<Rightarrow> bool" where
  "is_tag_sep c \<longleftrightarrow> c = '';'' \<or> c = '','' \<or> is_ws c"

definition split_tags :: "string \<Rightarrow> string list" where
  "split_tags raw = filter (\<lambda>t. t \<noteq> []) (map concat (split_by is_tag_sep (chars raw)))"

text \<open>\<open>digest::short\<close>: the first twelve characters, by characters.\<close>

definition short :: "string \<Rightarrow> string" where
  "short d = (if 12 < length (chars d) then concat (take 12 (chars d)) else d)"

definition no_sep :: "string \<Rightarrow> bool" where
  "no_sep t \<longleftrightarrow> (\<forall>c \<in> set (chars t). \<not> is_tag_sep c)"

lemma short_prefix: "prefix (short d) d"
proof -
  have "concat (take 12 (chars d)) @ concat (drop 12 (chars d)) = d"
    by (metis append_take_drop_id concat_append concat_chars)
  then have "prefix (concat (take 12 (chars d))) d" by (metis prefixI)
  then show ?thesis by (simp add: short_def)
qed

lemma short_ascii: "is_ascii d \<Longrightarrow> short d = take 12 d"
  by (auto simp: short_def chars_ascii take_map)

text \<open>Splitting the joined list of tags gives the tags back.\<close>

lemma split_tags_join:
  assumes "\<And>t. t \<in> set ts \<Longrightarrow> is_ascii t \<and> t \<noteq> [] \<and> no_sep t"
  shows "split_tags (join '';'' ts) = ts"
proof (cases "ts = []")
  case True
  then show ?thesis by (simp add: split_tags_def)
next
  case False
  have "is_ascii (join '';'' ts)"
    using assms by (intro is_ascii_join) (auto simp: is_ascii_def)
  then have "chars (join '';'' ts) = join ['';''] (map (map (\<lambda>c. [c])) ts)"
    by (simp add: chars_ascii map_join)
  moreover have "split_by is_tag_sep (join ['';''] (map (map (\<lambda>c. [c])) ts)) = map (map (\<lambda>c. [c])) ts"
  proof (rule split_by_join)
    fix x y assume "x \<in> set (map (map (\<lambda>c. [c])) ts)" "y \<in> set x"
    then show "\<not> is_tag_sep y" using assms by (fastforce simp: no_sep_def chars_ascii)
  qed (use False in \<open>auto simp: is_tag_sep_def\<close>)
  ultimately show ?thesis using assms by (simp add: split_tags_def comp_def filter_id_conv)
qed

end
