(* ===== verification/Store.thy ===== *)
theory Store
  imports Registry_Files Tags_Digest
begin

text \<open>
  The on-disk store (store.rs): guest documents and snapshots under the store's root, prefix files in
  the registry's directories, every write through a temporary sibling and a rename, the digest
  compare-and-swap, and the version token. An operation that only reads is a function of the file
  system's state; one that writes returns its result with the state it leaves.
\<close>

section \<open>Types and names\<close>

definition warn_bytes :: nat where "warn_bytes = 256 * 1024"

definition max_bytes :: nat where "max_bytes = 512 * 1024"

definition max_read_bytes :: nat where "max_read_bytes = 4 * 1024 * 1024"

definition disk_format :: format where "disk_format = Yaml"

record document =
  dc_id :: doc_id
  dc_path :: fspath
  dc_raw :: string
  dc_value :: json
  dc_parse_error :: "string option"
  dc_digest :: string
  dc_mtime :: nat

datatype rollback_outcome = Restored | RemovedNoSnapshot | NoOp

record meta_store =
  ms_root :: fspath
  ms_registry :: registry
  ms_marker :: "fspath option"

text \<open>The process's environment: \<open>HOSTNAME\<close>, the kernel's host name file, the process id and the
  marker override.\<close>

record env =
  env_hostname :: "string option"
  env_proc_hostname :: "string option"
  env_pid :: nat
  env_cluster_marker :: "string option"

definition is_valid_snapshot_name :: "string \<Rightarrow> bool" where
  "is_valid_snapshot_name name \<longleftrightarrow>
     (case name of
        [] \<Rightarrow> False
      | c # cs \<Rightarrow> is_alpha c \<and> list_all (\<lambda>d. is_alnum d \<or> d = CHR ''_'' \<or> d = CHR ''-'') cs)
     \<and> from_ext name = None"

definition fspath_of :: "string \<Rightarrow> fspath" where
  "fspath_of s = filter (\<lambda>c. c \<noteq> []) (split_on CHR ''/'' s)"

definition cluster_root :: fspath where "cluster_root = [''etc'', ''pve'']"

definition cluster_marker :: fspath where "cluster_marker = [''etc'', ''pve'', ''local'']"

definition with_registry :: "env \<Rightarrow> fspath \<Rightarrow> registry \<Rightarrow> meta_store" where
  "with_registry E rt reg =
     \<lparr>ms_root = rt, ms_registry = reg,
      ms_marker =
        (case env_cluster_marker E of
           Some v \<Rightarrow> if v = [] then None else Some (fspath_of v)
         | None \<Rightarrow> if prefix cluster_root rt then Some cluster_marker else None)\<rparr>"

section \<open>Identity\<close>

definition le_bytes :: "nat \<Rightarrow> nat \<Rightarrow> string" where
  "le_bytes k n = map (\<lambda>i. char_of (n div 256 ^ i mod 256)) [0..<k]"

definition oversized_identity :: "libs \<Rightarrow> nat \<Rightarrow> nat \<Rightarrow> string" where
  "oversized_identity L len nanos =
     sha256_hex L (''pve-meta:above-read-cap:'' @ le_bytes 8 len @ le_bytes 16 nanos)"

definition identify :: "libs \<Rightarrow> fspath \<Rightarrow> fs \<Rightarrow> error + string option" where
  "identify L p s =
     andthen (gone_is_none (metadata p s)) (\<lambda>meta.
     (case meta of
        None \<Rightarrow> Inr None
      | Some n \<Rightarrow>
          if node_len n > max_read_bytes then Inr (Some (oversized_identity L (node_len n) (modified n)))
          else andthen (gone_is_none (fs_read p s)) (\<lambda>b. Inr (map_option (sha256_hex L) b))))"

section \<open>Availability and paths\<close>

definition check_available :: "meta_store \<Rightarrow> fs \<Rightarrow> error + unit" where
  "check_available M s =
     (case ms_marker M of
        None \<Rightarrow> Inr ()
      | Some marker \<Rightarrow>
          (case symlink_metadata marker s of
             Inr n \<Rightarrow>
               if is_symlink n then Inr ()
               else Inl (EUnavailable (show_fspath marker @ '' is not a symlink; is pmxcfs mounted?''))
           | Inl NotFound \<Rightarrow> Inl (EUnavailable (show_fspath marker @ '' is not there; is pmxcfs mounted?''))
           | Inl e \<Rightarrow> Inl (EUnavailable (show_fspath marker @ '': '' @ io_text e))))"

definition store_registry :: "meta_store \<Rightarrow> fs \<Rightarrow> error + registry" where
  "store_registry M s = andthen (check_available M s) (\<lambda>_. Inr (ms_registry M))"

definition registry_write_dir :: "meta_store \<Rightarrow> registry_kind \<Rightarrow> fspath" where
  "registry_write_dir M kind =
     (case write_dir (ms_registry M) kind of
        Some d \<Rightarrow> d
      | None \<Rightarrow> ms_root M @ [''meta.d'', kind_as_str kind])"

definition path_for :: "meta_store \<Rightarrow> doc_id \<Rightarrow> fspath" where
  "path_for M did =
     (let file = base_name did @ ''.'' @ ext disk_format in
      case did of
        Registry kind _ \<Rightarrow> registry_write_dir M kind @ [file]
      | Guest _ \<Rightarrow> ms_root M @ [file])"

definition read_path_for :: "meta_store \<Rightarrow> doc_id \<Rightarrow> fs \<Rightarrow> fspath" where
  "read_path_for M did s =
     (case did of
        Registry kind name \<Rightarrow>
          (case locate s (ms_registry M) kind name of Some p \<Rightarrow> p | None \<Rightarrow> path_for M did)
      | Guest _ \<Rightarrow> path_for M did)"

definition snapshot_path :: "meta_store \<Rightarrow> vmid \<Rightarrow> string \<Rightarrow> fspath" where
  "snapshot_path M v name = ms_root M @ [show_vmid v @ ''.'' @ name @ ''.'' @ ext disk_format]"

definition check_size :: "nat \<Rightarrow> error + unit" where
  "check_size sz = guard_err (\<not> sz > max_bytes) (ETooLarge sz max_bytes)"

definition check_read_size :: "nat \<Rightarrow> error + unit" where
  "check_read_size sz = guard_err (\<not> sz > max_read_bytes) (ETooLarge sz max_read_bytes)"

section \<open>The atomic write\<close>

definition hostname_tag :: "env \<Rightarrow> string" where
  "hostname_tag E =
     (let raw = (case env_hostname E of Some h \<Rightarrow> h | None \<Rightarrow> unwrap_or [] (env_proc_hostname E));
          tag = take 32 (filter (\<lambda>c. is_alnum c \<or> c = CHR ''-'' \<or> c = CHR ''_'') (hd (split_on CHR ''.'' (trim raw))))
      in if tag = [] then ''node'' else tag)"

definition tmp_name :: "env \<Rightarrow> string \<Rightarrow> 64 word \<Rightarrow> string" where
  "tmp_name E file_name sq =
     ''.'' @ file_name @ ''.tmp.'' @ hostname_tag E @ ''.'' @ show_nat (env_pid E) @ ''.'' @ show_nat (unat sq)"

definition io_st :: "'a io \<Rightarrow> fs \<Rightarrow> (error + 'a) \<times> fs" where
  "io_st m s = (case m s of (r, t) \<Rightarrow> (map_err EIo r, t))"

definition gone_st :: "'a io \<Rightarrow> fs \<Rightarrow> (error + 'a option) \<times> fs" where
  "gone_st m s = (case m s of (r, t) \<Rightarrow> (gone_is_none r, t))"

definition next_seq :: "fs \<Rightarrow> (error + 64 word) \<times> fs" where
  "next_seq s = (Inr (write_seq s), s\<lparr>write_seq := write_seq s + 1\<rparr>)"

definition write_atomic :: "env \<Rightarrow> meta_store \<Rightarrow> fspath \<Rightarrow> string \<Rightarrow> fs \<Rightarrow> (error + unit) \<times> fs" where
  "write_atomic E M p b =
     (let dir = (if p = [] then ms_root M else butlast p) in
      then_do (io_st (create_dir_all dir)) (\<lambda>_.
      then_do (lift_res (guard_err (p \<noteq> []) (EOther ''path has no file name: ''))) (\<lambda>_.
      then_do next_seq (\<lambda>sq.
      let tmp_path = dir @ [tmp_name E (last p) sq] in
      then_do (io_st (fs_write tmp_path b)) (\<lambda>_ s.
      (case fs_rename tmp_path p s of
         (Inl e, t) \<Rightarrow> (Inl (EIo e), snd (remove_file tmp_path t))
       | (Inr u, t) \<Rightarrow> (Inr (), t)))))))"

section \<open>Documents\<close>

definition read_document :: "libs \<Rightarrow> doc_id \<Rightarrow> fspath \<Rightarrow> fs \<Rightarrow> error + document" where
  "read_document L did p s =
     andthen (gone_is_none (metadata p s)) (\<lambda>meta.
     andthen (ok_or (ENotFound did) meta) (\<lambda>n.
     andthen (check_read_size (node_len n)) (\<lambda>_.
     andthen (gone_is_none (fs_read p s)) (\<lambda>bytes.
     andthen (ok_or (ENotFound did) bytes) (\<lambda>b.
     andthen (case utf8_error b of
         Some m \<Rightarrow> Inl (EParse disk_format (''invalid utf-8: '' @ m) None)
       | None \<Rightarrow> Inr b) (\<lambda>raw.
     let (v, perr) = (case parse_raw L disk_format raw of
                        Inr v \<Rightarrow> (v, None)
                      | Inl e \<Rightarrow> (VObj [], Some (error_text e)))
     in Inr \<lparr>dc_id = did, dc_path = p, dc_raw = raw, dc_value = v, dc_parse_error = perr,
             dc_digest = sha256_hex L b, dc_mtime = modified n\<rparr>))))))"

definition read :: "libs \<Rightarrow> meta_store \<Rightarrow> doc_id \<Rightarrow> fs \<Rightarrow> error + document" where
  "read L M did s =
     andthen (check_available M s) (\<lambda>_. read_document L did (read_path_for M did s) s)"

definition has_own_file :: "meta_store \<Rightarrow> doc_id \<Rightarrow> fs \<Rightarrow> error + bool" where
  "has_own_file M did s =
     andthen (check_available M s) (\<lambda>_.
     andthen (gone_is_none (metadata (path_for M did) s)) (\<lambda>m. Inr (m \<noteq> None)))"

definition digest_of :: "libs \<Rightarrow> meta_store \<Rightarrow> doc_id \<Rightarrow> fs \<Rightarrow> error + string option" where
  "digest_of L M did s =
     andthen (check_available M s) (\<lambda>_. identify L (read_path_for M did s) s)"

definition check_digest :: "string option \<Rightarrow> string option \<Rightarrow> error + unit" where
  "check_digest current expected =
     (case expected of
        None \<Rightarrow> Inr ()
      | Some ex \<Rightarrow>
          let actual = unwrap_or [] current in
          guard_err (actual = ex) (EDigestMismatch ex actual))"

definition check_precondition :: "libs \<Rightarrow> meta_store \<Rightarrow> doc_id \<Rightarrow> string option \<Rightarrow> fs \<Rightarrow> error + unit" where
  "check_precondition L M did expected s =
     (if expected = None then Inr ()
      else andthen (digest_of L M did s) (\<lambda>d. check_digest d expected))"

definition normalize_trailing_newline :: "string \<Rightarrow> string" where
  "normalize_trailing_newline t = trim_end_nl t @ [nl]"

definition put_raw :: "libs \<Rightarrow> env \<Rightarrow> meta_store \<Rightarrow> doc_id \<Rightarrow> string \<Rightarrow> string option \<Rightarrow> fs \<Rightarrow> (error + document) \<times> fs" where
  "put_raw L E M did t expected =
     then_do (query (check_available M)) (\<lambda>_.
     let p = path_for M did in
     then_do (query (digest_of L M did)) (\<lambda>d.
     then_do (lift_res (check_digest d expected)) (\<lambda>_.
     let normalized = normalize_trailing_newline t in
     then_do (lift_res (check_size (length normalized))) (\<lambda>_.
     then_do (lift_res (parse L disk_format normalized)) (\<lambda>v.
     then_do (write_atomic E M p normalized) (\<lambda>_.
     then_do (query (\<lambda>s. gone_is_none (metadata p s))) (\<lambda>meta s.
     (Inr \<lparr>dc_id = did, dc_path = p, dc_raw = normalized, dc_value = v, dc_parse_error = None,
           dc_digest = sha256_hex L normalized,
           dc_mtime = (case meta of Some n \<Rightarrow> modified n | None \<Rightarrow> clock s)\<rparr>, s))))))))"

definition delete :: "meta_store \<Rightarrow> doc_id \<Rightarrow> fs \<Rightarrow> (error + bool) \<times> fs" where
  "delete M did =
     then_do (query (check_available M)) (\<lambda>_.
     then_do (gone_st (remove_file (path_for M did))) (\<lambda>r. lift_res (Inr (r \<noteq> None))))"

section \<open>Listings\<close>

definition vmid_of_file :: "string \<Rightarrow> vmid option" where
  "vmid_of_file name =
     Option.bind (strip_suffix (''.'' @ ext disk_format) name) (\<lambda>stem.
     let (hd', snap) = (case split_once CHR ''.'' stem of
                          Some (h, sn) \<Rightarrow> (h, Some sn)
                        | None \<Rightarrow> (stem, None))
     in if (case snap of Some sn \<Rightarrow> \<not> is_valid_snapshot_name sn | None \<Rightarrow> False) then None
        else parse_u32 hd')"

definition classified_root :: "meta_store \<Rightarrow> fs \<Rightarrow> error + (string \<times> vmid option) list" where
  "classified_root M s =
     andthen (check_available M s) (\<lambda>_.
     andthen (gone_is_none (read_dir (ms_root M) s)) (\<lambda>entries.
     (case entries of
        None \<Rightarrow> Inr []
      | Some names \<Rightarrow>
          andthen (map_res (\<lambda>n.
            andthen (gone_is_none (file_type (ms_root M @ [n]) s)) (\<lambda>ft.
            Inr (case ft of
                None \<Rightarrow> []
              | Some k \<Rightarrow> if prefix ''.'' n \<or> \<not> is_file k then [] else [(n, vmid_of_file n)]))) names)
            (\<lambda>rows. Inr (concat rows)))))"

definition stored_vmids :: "meta_store \<Rightarrow> fs \<Rightarrow> error + vmid list" where
  "stored_vmids M s =
     andthen (classified_root M s) (\<lambda>rows. Inr (sort (remdups (List.map_filter snd rows))))"

definition unknown_files :: "meta_store \<Rightarrow> fs \<Rightarrow> error + string list" where
  "unknown_files M s =
     andthen (classified_root M s) (\<lambda>rows. Inr (sort (map fst (filter (\<lambda>(_, v). v = None) rows))))"

definition snapshot_of_file :: "vmid \<Rightarrow> string \<Rightarrow> string option" where
  "snapshot_of_file v name =
     (let pre = show_vmid v @ ''.'' in
      if prefix ''.'' name \<or> \<not> prefix pre name then None
      else (case rsplit_once CHR ''.'' (drop (length pre) name) of
          None \<Rightarrow> None
        | Some (snap_name, e) \<Rightarrow>
            if from_ext e \<noteq> Some disk_format \<or> \<not> is_valid_snapshot_name snap_name then None
            else Some snap_name))"

definition list_snapshots :: "meta_store \<Rightarrow> vmid \<Rightarrow> fs \<Rightarrow> error + string list" where
  "list_snapshots M v s =
     andthen (check_available M s) (\<lambda>_.
     andthen (gone_is_none (read_dir (ms_root M) s)) (\<lambda>entries.
     (case entries of
        None \<Rightarrow> Inr []
      | Some names \<Rightarrow> Inr (sort (List.map_filter (snapshot_of_file v) names)))))"

section \<open>Snapshots\<close>

definition snapshot :: "env \<Rightarrow> meta_store \<Rightarrow> vmid \<Rightarrow> string \<Rightarrow> fs \<Rightarrow> (error + bool) \<times> fs" where
  "snapshot E M v name =
     then_do (query (check_available M)) (\<lambda>_.
     then_do (lift_res (guard_err (is_valid_snapshot_name name) (EInvalidName name))) (\<lambda>_.
     then_do (query (\<lambda>s. gone_is_none (fs_read (path_for M (Guest v)) s))) (\<lambda>bytes.
     (case bytes of
        None \<Rightarrow> lift_res (Inr False)
      | Some b \<Rightarrow> then_do (write_atomic E M (snapshot_path M v name) b) (\<lambda>_. lift_res (Inr True))))))"

definition rollback :: "env \<Rightarrow> meta_store \<Rightarrow> vmid \<Rightarrow> string \<Rightarrow> fs \<Rightarrow> (error + rollback_outcome) \<times> fs" where
  "rollback E M v name =
     then_do (query (check_available M)) (\<lambda>_.
     then_do (lift_res (guard_err (is_valid_snapshot_name name) (EInvalidName name))) (\<lambda>_.
     let snap = snapshot_path M v name; target = path_for M (Guest v) in
     then_do (query (\<lambda>s. gone_is_none (fs_read snap s))) (\<lambda>bytes.
     (case bytes of
        Some b \<Rightarrow> then_do (write_atomic E M target b) (\<lambda>_. lift_res (Inr Restored))
      | None \<Rightarrow>
          then_do (gone_st (remove_file target)) (\<lambda>r.
          lift_res (Inr (if r \<noteq> None then RemovedNoSnapshot else NoOp)))))))"

definition delete_snapshot :: "meta_store \<Rightarrow> vmid \<Rightarrow> string \<Rightarrow> fs \<Rightarrow> (error + bool) \<times> fs" where
  "delete_snapshot M v name =
     then_do (query (check_available M)) (\<lambda>_.
     then_do (lift_res (guard_err (is_valid_snapshot_name name) (EInvalidName name))) (\<lambda>_.
     then_do (gone_st (remove_file (snapshot_path M v name))) (\<lambda>r. lift_res (Inr (r \<noteq> None)))))"

fun delete_snapshots :: "meta_store \<Rightarrow> vmid \<Rightarrow> string list \<Rightarrow> nat \<Rightarrow> fs \<Rightarrow> (error + nat) \<times> fs" where
  "delete_snapshots M v [] removed s = (Inr removed, s)"
| "delete_snapshots M v (name # names) removed s =
     then_do (delete_snapshot M v name) (\<lambda>gone.
     delete_snapshots M v names (if gone then removed + 1 else removed)) s"

definition purge :: "meta_store \<Rightarrow> vmid \<Rightarrow> fs \<Rightarrow> (error + nat) \<times> fs" where
  "purge M v =
     then_do (delete M (Guest v)) (\<lambda>gone.
     then_do (query (list_snapshots M v)) (\<lambda>names.
     delete_snapshots M v names (if gone then 1 else 0)))"

section \<open>The version token\<close>

definition scan_for_version :: "libs \<Rightarrow> fspath \<Rightarrow> string \<Rightarrow> fs \<Rightarrow> error + (string \<times> string) list" where
  "scan_for_version L dir pre s =
     andthen (gone_is_none (read_dir dir s)) (\<lambda>listing.
     (case listing of
        None \<Rightarrow> Inr []
      | Some names \<Rightarrow>
          andthen (map_res (\<lambda>n.
            if prefix ''.'' n then Inr []
            else andthen (gone_is_none (symlink_metadata (dir @ [n]) s)) (\<lambda>meta.
              if (case meta of Some k \<Rightarrow> is_file k | None \<Rightarrow> False)
              then andthen (identify L (dir @ [n]) s) (\<lambda>d.
                Inr (case d of Some dig \<Rightarrow> [(pre @ n, dig)] | None \<Rightarrow> []))
              else Inr [])) names)
            (\<lambda>rows. Inr (concat rows))))"

definition version_input :: "(string \<times> string) list \<Rightarrow> string" where
  "version_input entries = concat (map (\<lambda>(name, dig). le_bytes 8 (length name) @ name @ dig) entries)"

definition version :: "libs \<Rightarrow> meta_store \<Rightarrow> fs \<Rightarrow> error + string" where
  "version L M s =
     andthen (check_available M s) (\<lambda>_.
     andthen (scan_for_version L (ms_root M) [] s) (\<lambda>own.
     andthen (map_res (\<lambda>d. scan_for_version L d (show_fspath d @ ''/'') s) (dirs (ms_registry M) PrefixDef)) (\<lambda>regs.
     Inr (sha256_hex L (version_input (sort (own @ concat regs)))))))"

section \<open>Contents\<close>

text \<open>The bytes of the regular file at a path.\<close>

definition content :: "fs \<Rightarrow> fspath \<Rightarrow> string option" where
  "content s p = (case node_at s p of Some (File b _) \<Rightarrow> Some b | _ \<Rightarrow> None)"

text \<open>What a client of an atomic writer relies on: a write that succeeds leaves the bytes, one that
  fails leaves what was there, and either way nothing else changes but the writer's temporary
  file.\<close>

locale atomic_writer =
  fixes get :: "'s \<Rightarrow> 'p \<Rightarrow> 'b option"
    and wr :: "'p \<Rightarrow> 'b \<Rightarrow> 's \<Rightarrow> ('e + unit) \<times> 's"
    and temp :: "'s \<Rightarrow> 'p \<Rightarrow> 'p"
    and ready :: "'s \<Rightarrow> 'p \<Rightarrow> bool"
  assumes wr_ok: "ready s p \<Longrightarrow> wr p b s = (Inr u, t) \<Longrightarrow> get t p = Some b"
    and wr_err: "ready s p \<Longrightarrow> wr p b s = (Inl e, t) \<Longrightarrow> get t p = get s p"
    and wr_frame: "ready s p \<Longrightarrow> wr p b s = (r, t) \<Longrightarrow> q \<noteq> p \<Longrightarrow> q \<noteq> temp s p \<Longrightarrow> get t q = get s q"
begin

lemma all_or_nothing: "ready s p \<Longrightarrow> wr p b s = (r, t) \<Longrightarrow> get t p = get s p \<or> get t p = Some b"
  using wr_ok wr_err by (cases r) blast+

text \<open>Copying a file away and later back restores it, whatever happened to it in between.\<close>

lemma copy_back:
  assumes "ready s q" "wr q b s = (Inr u, t)" "get s p = Some b"
    and "get v q = get t q" "ready v p" "get v q = Some b'" "wr p b' v = (Inr w, x)"
  shows "get x p = get s p"
  using assms wr_ok by (metis option.inject)

end

definition tmp_path :: "env \<Rightarrow> fs \<Rightarrow> fspath \<Rightarrow> fspath" where
  "tmp_path E s p = butlast p @ [tmp_name E (last p) (write_seq s)]"

text \<open>A write's temporary name is unused: it is made of the host, the process and a counter.\<close>

definition writable :: "env \<Rightarrow> fs \<Rightarrow> fspath \<Rightarrow> bool" where
  "writable E s p \<longleftrightarrow> p \<noteq> [] \<and> node_at s (tmp_path E s p) = None"

lemma tmp_name_neq [simp]: "tmp_name E f sq \<noteq> f"
proof -
  have "length (tmp_name E f sq) > length f" by (simp add: tmp_name_def)
  then show ?thesis by auto
qed

lemma tmp_path_neq: "p \<noteq> [] \<Longrightarrow> tmp_path E s p \<noteq> p"
  by (metis append_butlast_last_id last_snoc tmp_name_neq tmp_path_def)

lemma content_put: "content (put_node p n s) q = (if q = p then (case n of File b _ \<Rightarrow> Some b | _ \<Rightarrow> None) else content s q)"
  by (simp add: content_def)

lemma content_del: "content (del_node p s) q = (if q = p then None else content s q)"
  by (simp add: content_def)

lemma content_tick [simp]: "content (tick s) q = content s q"
  by (simp add: content_def)

lemma content_grown: "grown D s t \<Longrightarrow> content t q = content s q"
  by (auto simp: grown_def content_def dest!: spec [of _ q])

lemma content_seq [simp]: "content (s\<lparr>write_seq := n\<rparr>) q = content s q"
  by (simp add: content_def node_at_def)

lemma node_at_seq [simp]: "node_at (s\<lparr>write_seq := n\<rparr>) q = node_at s q"
  by (simp add: node_at_def)

lemma fs_write_new:
  assumes "node_at s p = None" "fs_write p b s = (r, t)"
  shows "(t = s \<and> (\<exists>e. r = Inl e)) \<or> (\<exists>b' c. t = put_node p (File b' c) (tick s) \<and> (r = Inr () \<longrightarrow> b' = b))"
  using assms by (auto simp: fs_write_def follow_node split: if_splits option.splits)

lemma fs_rename_cases:
  assumes "fs_rename src dst s = (r, t)" "src \<noteq> dst"
  shows "(t = s \<and> (\<exists>e. r = Inl e)) \<or> (\<exists>n. r = Inr () \<and> node_at s src = Some n \<and> t = put_node dst n (del_node src s))"
  using assms by (auto simp: fs_rename_def split: option.splits if_splits)

lemma remove_file_cases:
  assumes "remove_file p s = (r, t)"
  shows "(t = s \<and> (\<exists>e. r = Inl e)) \<or> (r = Inr () \<and> t = del_node p s)"
  using assms by (auto simp: remove_file_def split: option.splits fnode.splits)

text \<open>The atomic write step by step: up to the rename only the temporary file is written.\<close>

lemma write_atomic_cases:
  assumes "writable E s p" "write_atomic E M p b s = (r, t)"
  obtains (failed) e where "r = Inl e" "\<And>q. q \<noteq> tmp_path E s p \<Longrightarrow> content t q = content s q"
    | (written) c where "r = Inr ()" "node_at t p = Some (File b c)"
        "\<And>q. q \<noteq> p \<Longrightarrow> q \<noteq> tmp_path E s p \<Longrightarrow> content t q = content s q"
proof -
  let ?tmp = "tmp_path E s p"
  have p: "p \<noteq> []" and fresh: "node_at s ?tmp = None" using assms(1) by (simp_all add: writable_def)
  obtain r1 s1 where c: "create_dir_all (butlast p) s = (r1, s1)" by (cases "create_dir_all (butlast p) s")
  note g = create_dir_all_grown [OF c]
  have seq: "write_seq s1 = write_seq s" using g by (simp add: grown_def)
  show thesis
  proof (cases r1)
    case (Inl e)
    then have "r = Inl (EIo e)" "t = s1"
      using assms(2) c p by (simp_all add: write_atomic_def then_do_def io_st_def Let_def)
    with content_grown [OF g] show thesis by (intro failed) auto
  next
    case (Inr u)
    define s2 where "s2 = s1\<lparr>write_seq := write_seq s1 + 1\<rparr>"
    have "\<not> prefix ?tmp (butlast p)" by (auto simp: tmp_path_def dest: prefix_length_le)
    then have fresh2: "node_at s2 ?tmp = None" using grown_same [OF g] fresh by (simp add: s2_def)
    have c2: "content s2 q = content s q" for q using content_grown [OF g] by (simp add: s2_def)
    obtain r3 s3 where w: "fs_write ?tmp b s2 = (r3, s3)" by (cases "fs_write ?tmp b s2")
    then have w': "fs_write (butlast p @ [tmp_name E (last p) (write_seq s)]) b (s1\<lparr>write_seq := write_seq s + 1\<rparr>) = (r3, s3)"
      by (simp add: tmp_path_def s2_def seq)
    have step: "(r, t) = (case fs_write ?tmp b s2 of
        (Inl e, s3) \<Rightarrow> (Inl (EIo e), s3)
      | (Inr u, s3) \<Rightarrow> (case fs_rename ?tmp p s3 of
          (Inl e, s4) \<Rightarrow> (Inl (EIo e), snd (remove_file ?tmp s4))
        | (Inr u, s4) \<Rightarrow> (Inr (), s4)))"
      using assms(2) c p Inr w w'
      by (cases r3) (simp_all add: write_atomic_def then_do_def io_st_def guard_err_def next_seq_def tmp_path_def seq
          Let_def split: prod.splits sum.splits)
    from fs_write_new [OF fresh2 w] have c3: "q \<noteq> ?tmp \<Longrightarrow> content s3 q = content s q" for q
      using c2 by (auto simp: content_put)
    show thesis
    proof (cases r3)
      case (Inl e)
      with step w have "r = Inl (EIo e)" "t = s3" by simp_all
      with c3 show thesis by (intro failed) auto
    next
      case Inr3: (Inr u3)
      with fs_write_new [OF fresh2 w] obtain cl where s3: "s3 = put_node ?tmp (File b cl) (tick s2)" by auto
      obtain r4 s4 where rn: "fs_rename ?tmp p s3 = (r4, s4)" by (cases "fs_rename ?tmp p s3")
      from fs_rename_cases [OF rn tmp_path_neq [OF p]] show thesis
      proof (elim disjE conjE exE)
        fix e assume "s4 = s3" "r4 = Inl e"
        with step w Inr3 rn have "r = Inl (EIo e)" and t: "t = snd (remove_file ?tmp s3)" by simp_all
        moreover have "q \<noteq> ?tmp \<Longrightarrow> content t q = content s q" for q
          using c3 remove_file_cases [of ?tmp s3 "fst (remove_file ?tmp s3)" t] t
          by (auto simp: content_del prod_eq_iff)
        ultimately show thesis by (intro failed) auto
      next
        fix n assume r4: "r4 = Inr ()" and n: "node_at s3 ?tmp = Some n" and s4: "s4 = put_node p n (del_node ?tmp s3)"
        from step w Inr3 rn r4 have "r = Inr ()" "t = s4" by simp_all
        with n s4 c3 s3 show thesis by (intro written) (auto simp: content_put content_del)
      qed
    qed
  qed
qed

interpretation aw: atomic_writer content "write_atomic E M" "tmp_path E" "writable E" for E M
proof (unfold_locales, goal_cases)
  case (1 s p b u t)
  then show ?case by (cases rule: write_atomic_cases) (auto simp: content_def)
next
  case (2 s p b e t)
  then have "p \<noteq> tmp_path E s p" using tmp_path_neq by (metis writable_def)
  with 2 show ?case by (cases rule: write_atomic_cases) auto
next
  case (3 s p b r t q)
  then show ?case by (cases rule: write_atomic_cases) auto
qed

section \<open>The compare-and-swap write\<close>

lemma put_raw_Inr:
  assumes "put_raw L E M did t expected s = (Inr d, s')"
  shows "check_available M s = Inr ()"
    and "\<exists>dig. digest_of L M did s = Inr dig \<and> check_digest dig expected = Inr ()"
    and "length (normalize_trailing_newline t) \<le> max_bytes"
    and "parse L disk_format (normalize_trailing_newline t) = Inr (dc_value d)"
    and "write_atomic E M (path_for M did) (normalize_trailing_newline t) s = (Inr (), s')"
    and "dc_id d = did \<and> dc_path d = path_for M did \<and> dc_raw d = normalize_trailing_newline t
      \<and> dc_parse_error d = None \<and> dc_digest d = sha256_hex L (normalize_trailing_newline t)"
  using assms by (auto simp: put_raw_def Let_def then_do_Inr check_size_def simp del: then_do_lift)

lemma put_raw_state:
  assumes "put_raw L E M did t expected s = (r, s')"
  shows "(s' = s \<and> (\<exists>e. r = Inl e)) \<or> (\<exists>w. write_atomic E M (path_for M did) (normalize_trailing_newline t) s = (w, s'))"
  using assms by (auto simp: put_raw_def Let_def then_do_def split: sum.splits prod.splits)

lemma check_digest_Inr: "check_digest cur expected = Inr u \<longleftrightarrow> expected = None \<or> expected = Some (unwrap_or [] cur)"
  by (auto simp: check_digest_def Let_def split: option.splits)

lemma path_for_snoc: "\<exists>d f. path_for M did = d @ [f @ ''.yaml'']"
  by (cases did) (auto simp: path_for_def disk_format_def Let_def)

lemma path_for_nonempty [simp]: "path_for M did \<noteq> []"
  using path_for_snoc [of M did] by auto

lemma metadata_file: "fault s OpMetadata p = None \<Longrightarrow> node_at s p = Some (File b c) \<Longrightarrow> metadata p s = Inr (File b c)"
  by (simp add: metadata_def fallible_def follow_node)

text \<open>Where a document is read from once its own file is there: the directory written to is the
  one of the highest precedence.\<close>

lemma locate_last:
  assumes "ms_registry M \<noteq> []" "is_file_or_unreadable s (last (ms_registry M) @ [name @ ''.yaml''])"
  shows "locate s (ms_registry M) kind name = Some (last (ms_registry M) @ [name @ ''.yaml''])"
proof -
  have "effective_file s (ms_registry M) name
      = Some (length (ms_registry M) - 1, last (ms_registry M) @ [name @ ''.yaml''])"
    unfolding effective_file_Some using assms by (auto simp: last_conv_nth)
  then show ?thesis by (cases kind) (simp add: locate_def dirs_def)
qed

lemma read_path_own:
  assumes "fault s OpMetadata (path_for M did) = None" "node_at s (path_for M did) = Some (File b c)"
  shows "read_path_for M did s = path_for M did"
proof (cases did)
  case (Registry kind name)
  have kd: "kind = PrefixDef" by (cases kind)
  show ?thesis
  proof (cases "ms_registry M = []")
    case True
    then show ?thesis
      by (simp add: read_path_for_def Registry locate_def dirs_def kd effective_file_def)
  next
    case False
    have p: "path_for M did = last (ms_registry M) @ [name @ ''.yaml'']"
      using False by (simp add: path_for_def Registry registry_write_dir_def write_dir_def dirs_def kd disk_format_def Let_def)
    have "is_file_or_unreadable s (path_for M did)"
      using metadata_file [OF assms] by (simp add: is_file_or_unreadable_def)
    with locate_last [OF False] p show ?thesis by (simp add: read_path_for_def Registry)
  qed
qed (simp add: read_path_for_def)

lemma read_own_file:
  assumes "check_available M s = Inr ()" "fault s OpMetadata (path_for M did) = None"
    and "fault s OpRead (path_for M did) = None" "node_at s (path_for M did) = Some (File b c)"
    and "length b \<le> max_read_bytes" "utf8_error b = None" "parse_raw L disk_format b = Inr v"
  shows "read L M did s = Inr \<lparr>dc_id = did, dc_path = path_for M did, dc_raw = b, dc_value = v, dc_parse_error = None,
    dc_digest = sha256_hex L b, dc_mtime = c\<rparr>"
  using assms read_path_own [OF assms(2,4)] metadata_file [OF assms(2,4)] fs_read_file [OF assms(3,4)]
  by (simp add: read_def read_document_def gone_is_none_def check_read_size_def guard_err_def)

lemma read_after_put:
  assumes "writable E s (path_for M did)" "put_raw L E M did t expected s = (Inr d, s')"
    and "check_available M s' = Inr ()" "fault s' OpMetadata (path_for M did) = None"
    and "fault s' OpRead (path_for M did) = None" "utf8_error (normalize_trailing_newline t) = None"
  shows "\<exists>r. read L M did s' = Inr r \<and> dc_raw r = dc_raw d \<and> dc_value r = dc_value d \<and> dc_parse_error r = None
    \<and> dc_digest r = dc_digest d"
proof -
  note p = put_raw_Inr [OF assms(2)]
  from assms(1) p(5) obtain c where c: "node_at s' (path_for M did) = Some (File (normalize_trailing_newline t) c)"
    by (cases rule: write_atomic_cases) auto
  have "length (normalize_trailing_newline t) \<le> max_read_bytes"
    using p(3) by (simp add: max_bytes_def max_read_bytes_def)
  moreover have "parse_raw L disk_format (normalize_trailing_newline t) = Inr (dc_value d)"
    using p(4) by (simp add: parse_Inr_iff)
  ultimately show ?thesis
    using read_own_file [OF assms(3,4,5) c _ assms(6)] p(6) by simp
qed

section \<open>Snapshots and purge\<close>

lemma snapshot_True:
  assumes "snapshot E M v name s = (Inr True, t)"
  shows "\<exists>b. fs_read (path_for M (Guest v)) s = Inr b \<and> write_atomic E M (snapshot_path M v name) b s = (Inr (), t)"
  using assms by (auto simp: snapshot_def then_do_Inr gone_is_none_def simp del: then_do_lift
      split: sum.splits io_error.splits option.splits)

lemma rollback_Restored:
  assumes "rollback E M v name s = (Inr Restored, t)"
  shows "\<exists>b. fs_read (snapshot_path M v name) s = Inr b \<and> write_atomic E M (path_for M (Guest v)) b s = (Inr (), t)"
  using assms
  by (auto simp: rollback_def Let_def then_do_Inr gone_is_none_def simp del: then_do_lift
      split: sum.splits io_error.splits option.splits if_splits)

text \<open>A path that is a plain file or absent: no link to follow.\<close>

definition plain :: "fs \<Rightarrow> fspath \<Rightarrow> bool" where
  "plain s p \<longleftrightarrow> (case node_at s p of Some (Symlink _) \<Rightarrow> False | _ \<Rightarrow> True)"

lemma fs_read_content: "plain s p \<Longrightarrow> fs_read p s = Inr b \<Longrightarrow> content s p = Some b"
  by (auto simp: plain_def fs_read_def fallible_def content_def follow_node andthen_eq_Inr
      split: option.splits fnode.splits)

lemma snapshot_path_nonempty [simp]: "snapshot_path M v name \<noteq> []"
  by (simp add: snapshot_path_def)

lemma digits_no_dot: "CHR ''.'' \<notin> set (show_vmid v)"
  by (rule digits_avoid [OF show_vmid_digits]) (simp add: is_digit_def)

lemma valid_snapshot_no_dot: "is_valid_snapshot_name name \<Longrightarrow> CHR ''.'' \<notin> set name"
  by (auto simp: is_valid_snapshot_name_def list_all_iff ascii_class_defs split: list.splits)

lemma snapshot_of_own_file:
  assumes "is_valid_snapshot_name name"
  shows "snapshot_of_file v (show_vmid v @ ''.'' @ name @ ''.yaml'') = Some name"
proof -
  have "rsplit_once CHR ''.'' (name @ ''.yaml'') = Some (name, ''yaml'')"
    by (simp add: rsplit_once_Some)
  moreover have "\<not> prefix ''.'' (show_vmid v @ ''.'' @ name @ ''.yaml'')"
    using digits_no_dot [of v] by (cases "show_vmid v") auto
  moreover have "from_ext ''yaml'' = Some disk_format"
    using from_ext_ext [of Yaml] by (simp add: disk_format_def)
  ultimately show ?thesis using assms by (simp add: snapshot_of_file_def Let_def)
qed

text \<open>A fault is some other error than \<open>NotFound\<close>, which says that nothing is there.\<close>

definition honest :: "fs \<Rightarrow> bool" where
  "honest s \<longleftrightarrow> (\<forall>oper p. fault s oper p \<noteq> Some NotFound)"

lemma gone_remove:
  assumes "honest s" "gone_st (remove_file p) s = (Inr g, t)"
  shows "node_at t q = (if q = p then None else node_at s q)" "fault t = fault s" "g = None \<longleftrightarrow> node_at s p = None"
  using assms
  by (auto simp: gone_st_def remove_file_def gone_is_none_def honest_def
      split: option.splits fnode.splits sum.splits io_error.splits)

lemma delete_Inr:
  assumes "honest s" "delete M did s = (Inr g, t)"
  shows "node_at t q = (if q = path_for M did then None else node_at s q)" "fault t = fault s"
    "check_available M s = Inr ()" "g \<longleftrightarrow> node_at s (path_for M did) \<noteq> None"
proof -
  from assms(2) obtain r where r: "gone_st (remove_file (path_for M did)) s = (Inr r, t)" "g \<longleftrightarrow> r \<noteq> None"
    and "check_available M s = Inr ()"
    by (auto simp: delete_def then_do_Inr simp del: then_do_lift)
  then show "node_at t q = (if q = path_for M did then None else node_at s q)" "fault t = fault s"
    "check_available M s = Inr ()" "g \<longleftrightarrow> node_at s (path_for M did) \<noteq> None"
    using gone_remove [OF assms(1) r(1)] r(2) by simp_all
qed

lemma delete_snapshot_Inr:
  assumes "honest s" "delete_snapshot M v name s = (Inr g, t)"
  shows "node_at t q = (if q = snapshot_path M v name then None else node_at s q)" "fault t = fault s"
proof -
  from assms(2) obtain r where r: "gone_st (remove_file (snapshot_path M v name)) s = (Inr r, t)"
    by (auto simp: delete_snapshot_def then_do_Inr simp del: then_do_lift)
  then show "node_at t q = (if q = snapshot_path M v name then None else node_at s q)" "fault t = fault s"
    using gone_remove [OF assms(1) r] by blast+
qed

lemma delete_snapshots_Inr:
  assumes "honest s" "delete_snapshots M v names n s = (Inr k, t)"
  shows "node_at t q = (if q \<in> snapshot_path M v ` set names then None else node_at s q)"
  using assms
proof (induction names arbitrary: n s)
  case (Cons name names)
  from Cons.prems(2) obtain g s1 where d: "delete_snapshot M v name s = (Inr g, s1)"
    and rest: "delete_snapshots M v names (if g then n + 1 else n) s1 = (Inr k, t)"
    by (auto simp: then_do_Inr)
  have "honest s1" using Cons.prems(1) delete_snapshot_Inr(2) [OF Cons.prems(1) d] by (simp add: honest_def)
  from Cons.IH [OF this rest] delete_snapshot_Inr(1) [OF Cons.prems(1) d] show ?case by simp
qed simp

lemma snapshot_of_file_valid: "snapshot_of_file v f = Some name \<Longrightarrow> is_valid_snapshot_name name"
  by (auto simp: snapshot_of_file_def Let_def split: if_splits option.splits)

lemma purge_Inr:
  assumes "honest s" "node_at s (ms_root M) = Some Dir" "purge M v s = (Inr n, t)"
  shows "node_at t q =
    (if q = path_for M (Guest v) \<or> (\<exists>name. is_valid_snapshot_name name \<and> q = snapshot_path M v name) then None
     else node_at s q)"
proof -
  from assms(3) obtain g s1 names where d: "delete M (Guest v) s = (Inr g, s1)"
    and l: "list_snapshots M v s1 = Inr names"
    and ds: "delete_snapshots M v names (if g then 1 else 0) s1 = (Inr n, t)"
    by (auto simp: purge_def then_do_Inr simp del: then_do_lift split: if_splits)
  note s1 = delete_Inr(1,2) [OF assms(1) d]
  have h1: "honest s1" using assms(1) s1(2) by (simp add: honest_def)
  have root: "node_at s1 (ms_root M) = Some Dir" using assms(2) s1(1) by (simp add: path_for_def Let_def)
  have names: "set names = {name. \<exists>f. node_at s1 (ms_root M @ [f]) \<noteq> None \<and> snapshot_of_file v f = Some name}"
  proof -
    have "names = sort (List.map_filter (snapshot_of_file v) (children s1 (ms_root M)))"
      using l root h1
      by (auto simp: list_snapshots_def andthen_eq_Inr read_dir_def gone_is_none_def fallible_def honest_def
          split: option.splits io_error.splits sum.splits)
    then have "name \<in> set names \<longleftrightarrow> (\<exists>f \<in> set (children s1 (ms_root M)). snapshot_of_file v f = Some name)" for name
      by (simp add: set_map_filter)
    then show ?thesis unfolding in_children [symmetric] by blast
  qed
  have t: "node_at t q = (if q \<in> snapshot_path M v ` set names then None else node_at s1 q)"
    by (rule delete_snapshots_Inr [OF h1 ds])
  have all: "node_at s1 (snapshot_path M v name) = None \<or> name \<in> set names" if "is_valid_snapshot_name name" for name
    using snapshot_of_own_file [OF that, of v] unfolding names
    by (auto simp: snapshot_path_def disk_format_def)
  have only: "is_valid_snapshot_name name" if "name \<in> set names" for name
    using that snapshot_of_file_valid unfolding names by blast
  show ?thesis
  proof (cases "\<exists>name. is_valid_snapshot_name name \<and> q = snapshot_path M v name")
    case True
    then have "node_at t q = None" using t all by auto
    with True show ?thesis by simp
  next
    case False
    then have "q \<notin> snapshot_path M v ` set names" using only by blast
    with False t s1(1) [of q] show ?thesis by auto
  qed
qed

section \<open>The version token\<close>

lemma length_le_bytes [simp]: "length (le_bytes k n) = k"
  by (simp add: le_bytes_def)

lemma le_bytes_inj:
  "m < 256 ^ k \<Longrightarrow> n < 256 ^ k \<Longrightarrow> le_bytes k m = le_bytes k n \<Longrightarrow> m = n"
proof (induction k arbitrary: m n)
  case (Suc k)
  have dig: "m div 256 ^ i mod 256 = n div 256 ^ i mod 256" if "i < Suc k" for i
  proof -
    have "(char_of (m div 256 ^ i mod 256) :: char) = char_of (n div 256 ^ i mod 256)"
      using Suc.prems(3) that unfolding le_bytes_def by (simp add: map_eq_conv del: upt_Suc)
    then have "(of_char (char_of (m div 256 ^ i mod 256) :: char) :: nat) = of_char (char_of (n div 256 ^ i mod 256) :: char)"
      by simp
    then show ?thesis by simp
  qed
  have "m mod 256 = n mod 256" using dig [of 0] by simp
  moreover have "m div 256 = n div 256"
  proof (rule Suc.IH)
    show "m div 256 < 256 ^ k" "n div 256 < 256 ^ k"
      using Suc.prems(1,2) by (simp_all add: div_less_iff_less_mult mult.commute)
    have "m div 256 div 256 ^ i mod 256 = n div 256 div 256 ^ i mod 256" if "i < k" for i
      using dig [of "Suc i"] that by (simp add: div_mult2_eq mult.commute)
    then show "le_bytes k (m div 256) = le_bytes k (n div 256)" by (simp add: le_bytes_def)
  qed
  ultimately show ?case by (metis mod_div_mult_eq)
qed simp

text \<open>The hashed text determines the entries: every name carries its length and every identity is
  64 characters long.\<close>

definition entry_sizes :: "string \<times> string \<Rightarrow> bool" where
  "entry_sizes e \<longleftrightarrow> length (fst e) < 256 ^ 8 \<and> length (snd e) = 64"

lemma version_input_inj:
  "list_all entry_sizes es \<Longrightarrow> list_all entry_sizes fs' \<Longrightarrow> version_input es = version_input fs' \<Longrightarrow> es = fs'"
proof (induction es arbitrary: fs')
  case Nil
  then show ?case by (cases fs') (auto simp: version_input_def entry_sizes_def)
next
  case (Cons e es)
  obtain n d where e: "e = (n, d)" by (cases e)
  show ?case
  proof (cases fs')
    case Nil
    with Cons.prems e show ?thesis by (auto simp: version_input_def entry_sizes_def)
  next
    case (Cons f fs2)
    obtain n' d' where f: "f = (n', d')" by (cases f)
    have sz: "length n < 256 ^ 8" "length n' < 256 ^ 8" "length d = 64" "length d' = 64"
      using Cons.prems(1,2) Cons e f by (auto simp: entry_sizes_def)
    have eq: "le_bytes 8 (length n) @ n @ d @ version_input es = le_bytes 8 (length n') @ n' @ d' @ version_input fs2"
      using Cons.prems(3) Cons e f by (simp add: version_input_def)
    then have le: "le_bytes 8 (length n) = le_bytes 8 (length n')"
      and rest: "n @ d @ version_input es = n' @ d' @ version_input fs2"
      by (simp_all add: append_eq_append_conv)
    from le_bytes_inj [OF sz(1,2) le] have "length n = length n'" .
    with rest have "n = n'" "d @ version_input es = d' @ version_input fs2" by (simp_all add: append_eq_append_conv)
    moreover from this(2) sz(3,4) have "d = d'" "version_input es = version_input fs2"
      by (simp_all add: append_eq_append_conv)
    ultimately show ?thesis using Cons.IH [of fs2] Cons.prems(1,2) Cons e f by simp
  qed
qed

section \<open>An unavailable store\<close>

lemma unavailable_writes:
  assumes "check_available M s = Inl e"
  shows "put_raw L E M did t expected s = (Inl e, s)" "delete M did s = (Inl e, s)"
    "snapshot E M v name s = (Inl e, s)" "rollback E M v name s = (Inl e, s)"
    "delete_snapshot M v name s = (Inl e, s)" "purge M v s = (Inl e, s)"
  using assms
  by (simp_all add: put_raw_def delete_def snapshot_def rollback_def delete_snapshot_def purge_def then_do_def)

lemma unavailable_reads:
  assumes "check_available M s = Inl e"
  shows "read L M did s = Inl e" "digest_of L M did s = Inl e" "has_own_file M did s = Inl e"
    "list_snapshots M v s = Inl e" "stored_vmids M s = Inl e" "unknown_files M s = Inl e"
    "version L M s = Inl e" "store_registry M s = Inl e"
  using assms
  by (simp_all add: read_def digest_of_def has_own_file_def list_snapshots_def stored_vmids_def unknown_files_def
      classified_root_def version_def store_registry_def)

text \<open>A vmid's file name is spelled one way, but several spellings are read as it.\<close>

lemma vmid_of_own_file: "vmid_of_file (show_vmid v @ ''.yaml'') = Some v"
proof -
  have "split_once CHR ''.'' (show_vmid v) = None" using digits_no_dot by (simp add: split_once_None)
  moreover have "strip_suffix ''.yaml'' (show_vmid v @ ''.yaml'') = Some (show_vmid v)" by (rule strip_suffix_append)
  ultimately show ?thesis by (simp add: vmid_of_file_def disk_format_def)
qed

section \<open>Evaluation\<close>

text \<open>The size limits compared as binary integers, so that the definitions evaluate.\<close>

lemma check_size_code [code]:
  "check_size sz = (if int sz > 524288 then Inl (ETooLarge sz max_bytes) else Inr ())"
  by (auto simp: check_size_def max_bytes_def guard_err_def)

lemma check_read_size_code [code]:
  "check_read_size sz = (if int sz > 4194304 then Inl (ETooLarge sz max_read_bytes) else Inr ())"
  by (auto simp: check_read_size_def max_read_bytes_def guard_err_def)

lemma identify_code [code]:
  "identify L p s =
     andthen (gone_is_none (metadata p s)) (\<lambda>meta.
     (case meta of
        None \<Rightarrow> Inr None
      | Some n \<Rightarrow>
          if int (node_len n) > 4194304 then Inr (Some (oversized_identity L (node_len n) (modified n)))
          else andthen (gone_is_none (fs_read p s)) (\<lambda>b. Inr (map_option (sha256_hex L) b))))"
proof -
  have "(int k > 4194304) = (k > max_read_bytes)" for k by (auto simp: max_read_bytes_def)
  then show ?thesis by (simp only: identify_def)
qed

lemma parse_u32_code [code]:
  "parse_u32 s =
     (let ds = (case s of c # cs \<Rightarrow> if c = CHR ''+'' then cs else s | [] \<Rightarrow> []) in
      if ds \<noteq> [] \<and> list_all is_digit ds \<and> int (digits_value ds) < 4294967296
      then Some (word_of_int (int (digits_value ds))) else None)"
proof -
  have "(int k < 4294967296) = (k < 2 ^ 32)" for k by auto
  then show ?thesis by (simp add: parse_u32_def parse_unsigned_def Let_def)
qed

lemma foreign_spelling_counted:
  "vmid_of_file ''0105.yaml'' = Some 105 \<and> path_for \<lparr>ms_root = [], ms_registry = [], ms_marker = None\<rparr> (Guest 105) = [''105.yaml'']"
  by code_simp

lemma yml_snapshot_listed:
  "snapshot_of_file 105 ''105.before.yml'' = Some ''before''
   \<and> snapshot_path \<lparr>ms_root = [], ms_registry = [], ms_marker = None\<rparr> 105 ''before'' = [''105.before.yaml'']"
  by code_simp

section \<open>A sample store\<close>

text \<open>Concrete parameters for the witnesses: a library that parses every text to one value, a store of
  two guests, and a file system that holds the given nodes and never fails.\<close>

definition sample_libs :: "json \<Rightarrow> libs" where
  "sample_libs v = \<lparr>yaml_events = (\<lambda>_. []), yaml_from_str = (\<lambda>_. Inr v), yaml_to_string = (\<lambda>_. ''x''),
      json_from_str = (\<lambda>_. Inr v), json_to_string_pretty = (\<lambda>_. ''x''), json_to_string = (\<lambda>_. ''x''),
      sha256_hex = (\<lambda>t. t), f64_text = (\<lambda>_. []), serde_error = (\<lambda>_. [])\<rparr>"

definition sample_fs :: "(fspath, fnode) omap \<Rightarrow> fs" where
  "sample_fs ns = \<lparr>nodes = ns, clock = 0, write_seq = 0, fault = (\<lambda>_ _. None), torn = (\<lambda>_. 0)\<rparr>"

definition sample_nodes :: "(fspath, fnode) omap" where
  "sample_nodes = [([], Dir), ([''r''], Dir), ([''r'', ''105.yaml''], File ''old'' 0), ([''r'', ''106.yaml''], File ''other'' 0)]"

definition sample_store :: meta_store where
  "sample_store = \<lparr>ms_root = [''r''], ms_registry = [], ms_marker = None\<rparr>"

definition sample_env :: env where
  "sample_env = \<lparr>env_hostname = Some ''n1'', env_proc_hostname = None, env_pid = 1, env_cluster_marker = None\<rparr>"

section \<open>Properties\<close>

text \<open>C20: A write that succeeds has checked what it wrote and wrote what it checked. The text is
  normalized to one final newline, is within the size limit, parses and passes the lint; the
  expected digest, if one was given, was that of the document then in place (the empty string for
  none). Afterwards the document's file holds exactly that text, and no other file has changed but
  the writer's temporary one.\<close>

theorem put_raw_writes_what_it_checked:
  assumes "writable E s (path_for M did)" "put_raw L E M did t expected s = (Inr d, s')"
  shows "content s' (path_for M did) = Some (normalize_trailing_newline t)
    \<and> parse_raw L Yaml (normalize_trailing_newline t) = Inr (dc_value d) \<and> Documents.lint (dc_value d) = []
    \<and> length (normalize_trailing_newline t) \<le> max_bytes
    \<and> (\<exists>cur. digest_of L M did s = Inr cur \<and> (expected = None \<or> expected = Some (unwrap_or [] cur)))
    \<and> dc_raw d = normalize_trailing_newline t \<and> dc_digest d = sha256_hex L (normalize_trailing_newline t)
    \<and> (\<forall>q. q \<noteq> path_for M did \<and> q \<noteq> tmp_path E s (path_for M did) \<longrightarrow> content s' q = content s q)"
proof -
  note p = put_raw_Inr [OF assms(2)]
  show ?thesis
    using p(2,3,4,6) aw.wr_ok [OF assms(1) p(5)] aw.wr_frame [OF assms(1) p(5)]
    by (simp add: parse_Inr_iff check_digest_Inr disk_format_def)
qed

theorem put_raw_writes_what_it_checked_witness:
  "\<exists>s'. content s' [''r'', ''105.yaml''] = Some (''a: 1'' @ [nl])"
proof -
  define r where "r = put_raw (sample_libs (VObj [])) sample_env sample_store (Guest 105) ''a: 1'' (Some ''old'') (sample_fs sample_nodes)"
  have w: "writable sample_env (sample_fs sample_nodes) (path_for sample_store (Guest 105))" by code_simp
  have p: "path_for sample_store (Guest 105) = [''r'', ''105.yaml'']"
    "normalize_trailing_newline ''a: 1'' = ''a: 1'' @ [nl]" by code_simp+
  have "\<not> isl (fst r)" unfolding r_def by code_simp
  then obtain d where "r = (Inr d, snd r)" by (cases "fst r") (auto simp: prod_eq_iff)
  from put_raw_writes_what_it_checked [OF w this [unfolded r_def]]
  have "content (snd r) [''r'', ''105.yaml''] = Some (''a: 1'' @ [nl])" unfolding p r_def by (rule conjunct1)
  then show ?thesis by (intro exI [of _ "snd r"])
qed

text \<open>C3: However a write ends, the document's file holds either what it held before or the whole new
  text, never part of it, and no other file has changed but the writer's temporary one. This
  holds also when a write to the temporary file stops half way.\<close>

theorem put_raw_all_or_nothing:
  assumes "writable E s (path_for M did)" "put_raw L E M did t expected s = (r, s')"
  shows "(content s' (path_for M did) = content s (path_for M did)
      \<or> content s' (path_for M did) = Some (normalize_trailing_newline t))
    \<and> (\<forall>q. q \<noteq> path_for M did \<and> q \<noteq> tmp_path E s (path_for M did) \<longrightarrow> content s' q = content s q)"
proof (cases "s' = s")
  case False
  with put_raw_state [OF assms(2)] obtain w
    where w: "write_atomic E M (path_for M did) (normalize_trailing_newline t) s = (w, s')" by auto
  show ?thesis using aw.all_or_nothing [OF assms(1) w] aw.wr_frame [OF assms(1) w] by simp
qed simp

theorem put_raw_all_or_nothing_witness:
  "\<exists>s'. content s' [''r'', ''105.yaml''] = Some ''old'' \<and> content s' [''r'', ''106.yaml''] = Some ''other''"
proof -
  define s where "s = (sample_fs sample_nodes)
    \<lparr>fault := (\<lambda>oper _. if oper = OpWrite then Some (IoOther ''No space left'') else None), torn := (\<lambda>_. 1)\<rparr>"
  define r where "r = put_raw (sample_libs (VObj [])) sample_env sample_store (Guest 105) ''a: 1'' None s"
  have w: "writable sample_env s (path_for sample_store (Guest 105))" unfolding s_def by code_simp
  have p: "path_for sample_store (Guest 105) = [''r'', ''105.yaml'']" by code_simp
  have "fst r = Inl (EIo (IoOther ''No space left''))" unfolding r_def s_def by code_simp
  have c: "content s [''r'', ''105.yaml''] = Some ''old'' \<and> content s [''r'', ''106.yaml''] = Some ''other''"
    "[''r'', ''106.yaml''] \<noteq> tmp_path sample_env s [''r'', ''105.yaml'']"
    "content (snd r) [''r'', ''105.yaml''] \<noteq> Some (normalize_trailing_newline ''a: 1'')"
    unfolding r_def s_def by code_simp+
  from put_raw_all_or_nothing [OF w, of "sample_libs (VObj [])" "''a: 1''" None "fst r" "snd r"] c
  have "content (snd r) [''r'', ''105.yaml''] = Some ''old'' \<and> content (snd r) [''r'', ''106.yaml''] = Some ''other''"
    by (simp add: r_def p)
  then show ?thesis by (intro exI [of _ "snd r"])
qed

text \<open>C14: A write whose expected digest is not the document's current one is refused with both
  digests, and the file system is exactly as it was.\<close>

theorem stale_write_refused:
  assumes "digest_of L M did s = Inr cur" "unwrap_or [] cur \<noteq> ex"
  shows "put_raw L E M did t (Some ex) s = (Inl (EDigestMismatch ex (unwrap_or [] cur)), s)"
proof -
  have "check_available M s = Inr ()" using assms(1) by (auto simp: digest_of_def andthen_eq_Inr)
  then show ?thesis
    using assms by (simp add: put_raw_def then_do_def check_digest_def guard_err_def Let_def)
qed

theorem stale_write_refused_witness:
  "put_raw (sample_libs (VObj [])) sample_env sample_store (Guest 105) ''a: 1'' (Some ''older'') (sample_fs sample_nodes)
     = (Inl (EDigestMismatch ''older'' ''old''), sample_fs sample_nodes)"
proof -
  have "digest_of (sample_libs (VObj [])) sample_store (Guest 105) (sample_fs sample_nodes) = Inr (Some ''old'')"
    by code_simp
  moreover have "unwrap_or [] (Some ''old'') \<noteq> ''older''" by code_simp
  ultimately show ?thesis
    using stale_write_refused [of _ _ _ _ "Some ''old''" "''older''"] by (simp add: unwrap_or_def)
qed

text \<open>Reading a document right after writing it gives back what was written: the text, the
  value it parses to, no parse error, and the digest the write reported.\<close>

theorem put_then_read:
  assumes "writable E s (path_for M did)" "put_raw L E M did t expected s = (Inr d, s')"
    and "check_available M s' = Inr ()" "fault s' OpMetadata (path_for M did) = None"
    and "fault s' OpRead (path_for M did) = None" "utf8_error (normalize_trailing_newline t) = None"
  shows "\<exists>r. read L M did s' = Inr r \<and> dc_raw r = dc_raw d \<and> dc_value r = dc_value d \<and> dc_parse_error r = None
    \<and> dc_digest r = dc_digest d"
  using read_after_put [OF assms] by simp

theorem put_then_read_witness:
  "\<exists>s' r. read (sample_libs (VObj [])) sample_store (Guest 105) s' = Inr r \<and> dc_parse_error r = None
     \<and> content s' [''r'', ''105.yaml''] = Some (''a: 1'' @ [nl])"
proof -
  define r where "r = put_raw (sample_libs (VObj [])) sample_env sample_store (Guest 105) ''a: 1'' None (sample_fs sample_nodes)"
  have w: "writable sample_env (sample_fs sample_nodes) (path_for sample_store (Guest 105))" by code_simp
  have c: "content (snd r) [''r'', ''105.yaml''] = Some (''a: 1'' @ [nl])" "check_available sample_store (snd r) = Inr ()"
    "fault (snd r) OpMetadata (path_for sample_store (Guest 105)) = None"
    "fault (snd r) OpRead (path_for sample_store (Guest 105)) = None"
    "utf8_error (normalize_trailing_newline ''a: 1'') = None"
    unfolding r_def by code_simp+
  have "\<not> isl (fst r)" unfolding r_def by code_simp
  then obtain d where "r = (Inr d, snd r)" by (cases "fst r") (auto simp: prod_eq_iff)
  from put_then_read [OF w this [unfolded r_def] c(2-5) [unfolded r_def]]
  obtain x where "read (sample_libs (VObj [])) sample_store (Guest 105) (snd r) = Inr x" "dc_parse_error x = None"
    unfolding r_def by blast
  with c(1) show ?thesis by (intro exI [of _ "snd r"] exI [of _ x]) simp
qed

text \<open>C35: A rollback to a snapshot restores the document's bytes as they were when the snapshot was
  taken, whatever was done to the document in between, as long as the snapshot's own file was
  left alone.\<close>

theorem snapshot_then_rollback_restores:
  assumes "snapshot E M v name s = (Inr True, t)" "writable E s (snapshot_path M v name)" "plain s (path_for M (Guest v))"
    and "content u (snapshot_path M v name) = content t (snapshot_path M v name)" "plain u (snapshot_path M v name)"
    and "rollback E M v name u = (Inr Restored, w)" "writable E u (path_for M (Guest v))"
  shows "content w (path_for M (Guest v)) = content s (path_for M (Guest v))"
proof -
  obtain b where b: "fs_read (path_for M (Guest v)) s = Inr b" "write_atomic E M (snapshot_path M v name) b s = (Inr (), t)"
    using snapshot_True [OF assms(1)] by blast
  obtain b' where b': "fs_read (snapshot_path M v name) u = Inr b'" "write_atomic E M (path_for M (Guest v)) b' u = (Inr (), w)"
    using rollback_Restored [OF assms(6)] by blast
  show ?thesis
    by (rule aw.copy_back [OF assms(2) b(2) fs_read_content [OF assms(3) b(1)] assms(4) assms(7)
          fs_read_content [OF assms(5) b'(1)] b'(2)])
qed

theorem snapshot_then_rollback_restores_witness:
  "\<exists>w. content w [''r'', ''105.yaml''] = Some ''old''"
proof -
  define a where "a = snapshot sample_env sample_store 105 ''before'' (sample_fs sample_nodes)"
  define u where "u = snd (put_raw (sample_libs (VObj [])) sample_env sample_store (Guest 105) ''a: 1'' None (snd a))"
  define b where "b = rollback sample_env sample_store 105 ''before'' u"
  have ra: "fst a = Inr True" unfolding a_def by code_simp
  have rb: "fst b = Inr Restored" unfolding b_def u_def a_def by code_simp
  have h1: "writable sample_env (sample_fs sample_nodes) (snapshot_path sample_store 105 ''before'')"
    "plain (sample_fs sample_nodes) (path_for sample_store (Guest 105))" by code_simp+
  have h2: "content u (snapshot_path sample_store 105 ''before'') = content (snd a) (snapshot_path sample_store 105 ''before'')"
    "plain u (snapshot_path sample_store 105 ''before'')" unfolding u_def a_def by code_simp+
  have h3: "writable sample_env u (path_for sample_store (Guest 105))" unfolding u_def a_def by code_simp
  have p: "path_for sample_store (Guest 105) = [''r'', ''105.yaml'']"
    "content (sample_fs sample_nodes) [''r'', ''105.yaml''] = Some ''old''" by code_simp+
  from ra have "snapshot sample_env sample_store 105 ''before'' (sample_fs sample_nodes) = (Inr True, snd a)"
    by (simp add: a_def prod_eq_iff)
  moreover from rb have "rollback sample_env sample_store 105 ''before'' u = (Inr Restored, snd b)"
    by (simp add: b_def prod_eq_iff)
  ultimately have "content (snd b) (path_for sample_store (Guest 105)) = content (sample_fs sample_nodes) (path_for sample_store (Guest 105))"
    using snapshot_then_rollback_restores [OF _ h1 h2] h3 by blast
  then show ?thesis unfolding p by (intro exI [of _ "snd b"])
qed

text \<open>A purge that succeeds removes the guest's document and every one of its snapshots, and
  nothing else in the file system changes.\<close>

theorem purge_removes_exactly:
  assumes "honest s" "node_at s (ms_root M) = Some Dir" "purge M v s = (Inr n, t)"
  shows "node_at t q =
    (if q = path_for M (Guest v) \<or> (\<exists>name. is_valid_snapshot_name name \<and> q = snapshot_path M v name) then None
     else node_at s q)"
  by (rule purge_Inr [OF assms])

theorem purge_removes_exactly_witness:
  "\<exists>t. node_at t [''r'', ''105.yaml''] = None \<and> node_at t [''r'', ''106.yaml''] = Some (File ''other'' 0)"
proof -
  define r where "r = purge sample_store 105 (sample_fs sample_nodes)"
  have h: "honest (sample_fs sample_nodes)" by (simp add: honest_def sample_fs_def)
  have d: "node_at (sample_fs sample_nodes) (ms_root sample_store) = Some Dir" by code_simp
  have "\<not> isl (fst r)" unfolding r_def by code_simp
  then obtain n where n: "purge sample_store 105 (sample_fs sample_nodes) = (Inr n, snd r)"
    unfolding r_def by (cases "fst (purge sample_store 105 (sample_fs sample_nodes))") (auto simp: prod_eq_iff)
  have p: "path_for sample_store (Guest 105) = [''r'', ''105.yaml'']" by code_simp
  have q: "node_at (snd r) [''r'', ''106.yaml''] = Some (File ''other'' 0)" unfolding r_def by code_simp
  from purge_removes_exactly [OF h d n, of "[''r'', ''105.yaml'']"] p
  have "node_at (snd r) [''r'', ''105.yaml''] = None" by simp
  with q show ?thesis by (intro exI [of _ "snd r"] conjI)
qed

text \<open>A store whose cluster file system is not there refuses every operation with that error,
  reads and writes alike, and changes nothing.\<close>

theorem unavailable_store_refuses_everything:
  assumes "check_available M s = Inl e"
  shows "put_raw L E M did t expected s = (Inl e, s) \<and> delete M did s = (Inl e, s)
    \<and> snapshot E M v name s = (Inl e, s) \<and> rollback E M v name s = (Inl e, s)
    \<and> delete_snapshot M v name s = (Inl e, s) \<and> purge M v s = (Inl e, s)
    \<and> read L M did s = Inl e \<and> digest_of L M did s = Inl e \<and> has_own_file M did s = Inl e
    \<and> list_snapshots M v s = Inl e \<and> stored_vmids M s = Inl e \<and> unknown_files M s = Inl e
    \<and> version L M s = Inl e \<and> store_registry M s = Inl e"
  by (intro conjI unavailable_writes [OF assms] unavailable_reads [OF assms])

theorem unavailable_store_refuses_everything_witness:
  "\<exists>e. purge (sample_store\<lparr>ms_marker := Some [''m'']\<rparr>) 105 (sample_fs sample_nodes) = (Inl (EUnavailable e), sample_fs sample_nodes)"
proof -
  have "check_available (sample_store\<lparr>ms_marker := Some [''m'']\<rparr>) (sample_fs sample_nodes)
      = Inl (EUnavailable ''/m is not there; is pmxcfs mounted?'')" by code_simp
  from unavailable_store_refuses_everything [OF this] show ?thesis by simp
qed

text \<open>A document whose file cannot be looked at, for any reason but not being there, is never
  taken for a missing one: reading it, its digest and any write to it fail with that I/O error,
  and the write changes nothing.\<close>

theorem io_failure_is_not_absence:
  assumes "check_available M s = Inr ()" "metadata (read_path_for M did s) s = Inl (IoOther m)"
  shows "read L M did s = Inl (EIo (IoOther m)) \<and> digest_of L M did s = Inl (EIo (IoOther m))
    \<and> put_raw L E M did t expected s = (Inl (EIo (IoOther m)), s)"
proof -
  have "digest_of L M did s = Inl (EIo (IoOther m))"
    using assms by (simp add: digest_of_def identify_def gone_is_none_def)
  with assms show ?thesis
    by (simp add: read_def read_document_def gone_is_none_def put_raw_def then_do_def Let_def)
qed

theorem io_failure_is_not_absence_witness:
  "\<exists>s. read (sample_libs (VObj [])) sample_store (Guest 105) s = Inl (EIo (IoOther ''EACCES''))
     \<and> put_raw (sample_libs (VObj [])) sample_env sample_store (Guest 105) ''a: 1'' None s = (Inl (EIo (IoOther ''EACCES'')), s)"
proof -
  define s where "s = (sample_fs sample_nodes)\<lparr>fault := (\<lambda>oper _. if oper = OpMetadata then Some (IoOther ''EACCES'') else None)\<rparr>"
  have "check_available sample_store s = Inr ()" "metadata (read_path_for sample_store (Guest 105) s) s = Inl (IoOther ''EACCES'')"
    unfolding s_def by code_simp+
  from io_failure_is_not_absence [OF this] show ?thesis by (intro exI [of _ s]) simp
qed

end
