(* ===== verification/Patch.thy ===== *)
theory Patch
  imports Documents
begin

text \<open>
  Merge-patch with explicit delete (patch.rs) and the structural diff that gives a whole-document
  replace the same list of touched paths. The lemmas give the lookup law of a patch key by key,
  its relation to RFC 7386, and that the touched list is empty exactly when nothing changed.
\<close>

section \<open>Operations\<close>

datatype op = OpSet | OpDelete

record touched =
  t_path :: path
  t_op :: op

definition set_changed :: "string \<Rightarrow> json \<Rightarrow> vmap \<Rightarrow> path \<Rightarrow> vmap \<times> touched list" where
  "set_changed k v dm child_path =
     (if (case map_of dm k of Some old \<Rightarrow> veq old v | None \<Rightarrow> False) then (dm, [])
      else (oput k v dm, [\<lparr>t_path = child_path, t_op = OpSet\<rparr>]))"

definition delete_key :: "vmap \<Rightarrow> string \<Rightarrow> vmap \<Rightarrow> path \<Rightarrow> vmap \<times> touched list" where
  "delete_key patch_map k dm p =
     (let (d1, t1) = (if ohas dm k then (odel k dm, [\<lparr>t_path = path_join p k, t_op = OpDelete\<rparr>]) else (dm, []));
          note = k @ comment_suffix
      in if \<not> ohas patch_map note \<and> ohas d1 note
         then (odel note d1, t1 @ [\<lparr>t_path = path_join p note, t_op = OpDelete\<rparr>])
         else (d1, t1))"

definition holds_object :: "vmap \<Rightarrow> string \<Rightarrow> bool" where
  "holds_object dm k \<longleftrightarrow> (case map_of dm k of Some v \<Rightarrow> is_object v | None \<Rightarrow> False)"

function apply_obj :: "json \<Rightarrow> json \<Rightarrow> path \<Rightarrow> json \<times> touched list"
  and apply_entries :: "vmap \<Rightarrow> (string \<times> json) list \<Rightarrow> vmap \<Rightarrow> path \<Rightarrow> vmap \<times> touched list"
  and apply_entry :: "vmap \<Rightarrow> string \<Rightarrow> json \<Rightarrow> vmap \<Rightarrow> path \<Rightarrow> vmap \<times> touched list" where
  "apply_obj doc patch p =
     (case patch of
        VObj patch_map \<Rightarrow>
          (case doc of
             VObj doc_map \<Rightarrow> (let (d, t) = apply_entries patch_map patch_map doc_map p in (VObj d, t))
           | _ \<Rightarrow> (doc, []))
      | _ \<Rightarrow> (doc, []))"
| "apply_entries patch_map [] dm p = (dm, [])"
| "apply_entries patch_map ((k, v) # es) dm p =
     (let (d1, t1) = apply_entry patch_map k v dm p;
          (d2, t2) = apply_entries patch_map es d1 p
      in (d2, t1 @ t2))"
| "apply_entry patch_map k v dm p =
     (let child_path = path_join p k in
      case v of
        VNull \<Rightarrow> delete_key patch_map k dm p
      | VObj m \<Rightarrow>
          if holds_object dm k then
            (let (c, t) = apply_obj (the (map_of dm k)) v child_path in (oput k c dm, t))
          else if m \<noteq> [] then
            (let existed = ohas dm k; (scratch, sub) = apply_obj (VObj []) v child_path in
             if existed \<or> sub \<noteq> []
             then (oput k scratch dm, [\<lparr>t_path = child_path, t_op = OpSet\<rparr>]) else (dm, []))
          else set_changed k v dm child_path
      | _ \<Rightarrow> set_changed k v dm child_path)"
  by pat_completeness auto
termination
  by (relation "measure (\<lambda>x. case x of
        Inl (doc, patch, p) \<Rightarrow> 3 * size patch
      | Inr (Inl (pm, es, dm, p)) \<Rightarrow> 3 * size_list (size_prod (\<lambda>_. 0) size) es + 2
      | Inr (Inr (pm, k, v, dm, p)) \<Rightarrow> 3 * size v + 1)") auto

declare apply_obj.simps [simp del] apply_entry.simps [simp del]

definition apply_patch :: "json \<Rightarrow> json \<Rightarrow> json \<times> touched list" where
  "apply_patch doc patch =
     (if is_object doc \<and> is_object patch then apply_obj doc patch root else (doc, []))"

fun diff_at :: "json \<Rightarrow> json \<Rightarrow> path \<Rightarrow> touched list"
  and diff_entries :: "vmap \<Rightarrow> (string \<times> json) list \<Rightarrow> path \<Rightarrow> touched list" where
  "diff_at old new p =
     (case (old, new) of
        (VObj om, VObj nm) \<Rightarrow>
          diff_entries om nm p
          @ map (\<lambda>k. \<lparr>t_path = path_join p k, t_op = OpDelete\<rparr>) (filter (\<lambda>k. \<not> ohas nm k) (okeys om))
      | _ \<Rightarrow> if \<not> veq old new then [\<lparr>t_path = p, t_op = OpSet\<rparr>] else [])"
| "diff_entries om [] p = []"
| "diff_entries om ((k, nv) # nm) p =
     (let child_path = path_join p k in
      (case map_of om k of
         Some ov \<Rightarrow>
           if is_object ov \<and> is_object nv then diff_at ov nv child_path
           else if \<not> veq ov nv then [\<lparr>t_path = child_path, t_op = OpSet\<rparr>] else []
       | None \<Rightarrow> [\<lparr>t_path = child_path, t_op = OpSet\<rparr>])
      @ diff_entries om nm p)"

definition diff :: "json \<Rightarrow> json \<Rightarrow> touched list" where
  "diff old new = diff_at old new root"

section \<open>Paths of the touched list\<close>

definition under :: "path \<Rightarrow> touched \<Rightarrow> touched" where
  "under q t = t\<lparr>t_path := q @ t_path t\<rparr>"

lemma under_simps [simp]:
  "under q \<lparr>t_path = p, t_op = o'\<rparr> = \<lparr>t_path = q @ p, t_op = o'\<rparr>"
  "t_path (under q t) = q @ t_path t" "t_op (under q t) = t_op t"
  by (simp_all add: under_def)

lemma set_changed_shift:
  "set_changed k v dm (q @ p) = (fst (set_changed k v dm p), map (under q) (snd (set_changed k v dm p)))"
  by (simp add: set_changed_def)

lemma delete_key_shift:
  "delete_key pm k dm (q @ p) = (fst (delete_key pm k dm p), map (under q) (snd (delete_key pm k dm p)))"
  by (simp add: delete_key_def path_join_def Let_def)

lemma apply_shift:
  "apply_obj doc patch (q @ p) = (fst (apply_obj doc patch p), map (under q) (snd (apply_obj doc patch p)))"
  "apply_entries pm es dm (q @ p) = (fst (apply_entries pm es dm p), map (under q) (snd (apply_entries pm es dm p)))"
  "apply_entry pm k v dm (q @ p) = (fst (apply_entry pm k v dm p), map (under q) (snd (apply_entry pm k v dm p)))"
proof (induction doc patch p and pm es dm p and pm k v dm p
    rule: apply_obj_apply_entries_apply_entry.induct)
  case (1 doc patch p)
  then show ?case
    by (auto simp: apply_obj.simps [of doc patch] split_beta split: json.splits)
next
  case (3 pm k v es dm p)
  then show ?case by (cases "apply_entry pm k v dm p") (simp add: split_beta Let_def)
next
  case (4 pm k v dm p)
  then show ?case
    by (auto simp: apply_entry.simps split_beta Let_def path_join_def set_changed_shift
        delete_key_shift split: json.splits)
qed simp

lemma apply_obj_path:
  "fst (apply_obj doc patch p) = fst (apply_obj doc patch [])"
  "snd (apply_obj doc patch p) = map (under p) (snd (apply_obj doc patch []))"
  using apply_shift(1) [of doc patch p "[]"] by simp_all

section \<open>The lookup law\<close>

definition set_val :: "json option \<Rightarrow> json \<Rightarrow> json option" where
  "set_val old v = (if (case old of Some o' \<Rightarrow> veq o' v | None \<Rightarrow> False) then old else Some v)"

definition patch_val :: "json option \<Rightarrow> json \<Rightarrow> json option" where
  "patch_val old v =
     (case v of
        VNull \<Rightarrow> None
      | VObj m \<Rightarrow>
          (case old of
             Some d \<Rightarrow> if is_object d then Some (fst (apply_obj d v []))
                       else if m \<noteq> [] then Some (fst (apply_obj (VObj []) v [])) else Some v
           | None \<Rightarrow> if m = [] then Some v
                     else if snd (apply_obj (VObj []) v []) \<noteq> [] then Some (fst (apply_obj (VObj []) v []))
                     else None)
      | _ \<Rightarrow> set_val old v)"

lemma comment_suffix_neq [simp]: "k @ comment_suffix \<noteq> k" "k \<noteq> k @ comment_suffix"
  by (simp_all add: comment_suffix_def)

lemma veq_VObj_is_object: "veq w (VObj m) \<Longrightarrow> is_object w"
  by (cases w) (auto simp: is_object_def)

lemma entry_lookup:
  "map_of (fst (apply_entry pm k v dm p)) j =
     (if j = k then patch_val (map_of dm k) v
      else if v = VNull \<and> j = k @ comment_suffix \<and> \<not> ohas pm j then None
      else map_of dm j)"
proof (cases v)
  case VNull
  then show ?thesis
    by (auto simp: apply_entry.simps delete_key_def patch_val_def Let_def ohas_def split: if_splits)
next
  case (VObj m)
  then show ?thesis
    using apply_obj_path [of "VObj []" v "path_join p k"] apply_obj_path [of "the (map_of dm k)" v "path_join p k"]
    by (cases "map_of dm k")
      (auto simp: apply_entry.simps holds_object_def patch_val_def split_beta Let_def set_changed_def
        ohas_def dest: veq_VObj_is_object)
qed (auto simp: apply_entry.simps patch_val_def set_changed_def set_val_def Let_def split: option.splits)

lemma entries_lookup:
  assumes "odistinct es" "fst ` set es \<subseteq> fst ` set pm"
  shows "map_of (fst (apply_entries pm es dm p)) j =
     (case map_of es j of
        Some v \<Rightarrow> patch_val (map_of dm j) v
      | None \<Rightarrow> if \<not> ohas pm j \<and> (\<exists>k. map_of es k = Some VNull \<and> j = k @ comment_suffix) then None
                else map_of dm j)"
  using assms
proof (induction es arbitrary: dm)
  case (Cons e es)
  obtain k v where e: "e = (k, v)" by (cases e)
  have k: "map_of es k = None" using Cons.prems e by (auto simp: map_of_eq_None_iff)
  have kp: "ohas pm k" using Cons.prems e by (auto simp: ohas_iff)
  have IH: "map_of (fst (apply_entries pm es dm' p)) j =
     (case map_of es j of Some v \<Rightarrow> patch_val (map_of dm' j) v
      | None \<Rightarrow> if \<not> ohas pm j \<and> (\<exists>k. map_of es k = Some VNull \<and> j = k @ comment_suffix) then None
                else map_of dm' j)" for dm'
    using Cons by (simp add: e)
  have jp: "map_of es j = Some u \<Longrightarrow> ohas pm j" for u
    using Cons.prems e by (force simp: ohas_iff dest: map_of_SomeD)
  have nt: "(\<exists>k'. map_of (e # es) k' = Some VNull \<and> j = k' @ comment_suffix) \<longleftrightarrow>
      v = VNull \<and> j = k @ comment_suffix \<or> (\<exists>k'. map_of es k' = Some VNull \<and> j = k' @ comment_suffix)"
  proof -
    have "map_of (e # es) k' = Some VNull \<longleftrightarrow> v = VNull \<and> k' = k \<or> map_of es k' = Some VNull" for k'
      using k by (simp add: e)
    then show ?thesis by blast
  qed
  have step: "map_of (fst (apply_entries pm (e # es) dm p)) j =
      map_of (fst (apply_entries pm es (fst (apply_entry pm k v dm p)) p)) j"
    by (simp add: e split_beta Let_def)
  show ?case
  proof (cases "j = k")
    case True
    with k kp show ?thesis unfolding step IH by (simp add: entry_lookup e)
  next
    case False
    then have "map_of (e # es) j = map_of es j" by (simp add: e)
    with False jp show ?thesis unfolding step IH nt
      by (cases "map_of es j") (auto simp: entry_lookup)
  qed
qed simp

lemma obj_lookup:
  assumes "odistinct pm"
  shows "\<exists>d'. fst (apply_obj (VObj d) (VObj pm) p) = VObj d' \<and>
     (\<forall>j. map_of d' j =
       (case map_of pm j of
          Some v \<Rightarrow> patch_val (map_of d j) v
        | None \<Rightarrow> if \<exists>k. map_of pm k = Some VNull \<and> j = k @ comment_suffix then None else map_of d j))"
  using entries_lookup [OF assms, of pm d p]
  by (simp add: apply_obj.simps split_beta Let_def ohas_def cong: option.case_cong)

section \<open>Well-formedness\<close>

lemma wf_set_changed: "wf_value (VObj dm) \<Longrightarrow> wf_value v \<Longrightarrow> wf_value (VObj (fst (set_changed k v dm p)))"
  using wf_oput by (simp add: set_changed_def split: option.splits)

lemma wf_delete_key: "wf_value (VObj dm) \<Longrightarrow> wf_value (VObj (fst (delete_key pm k dm p)))"
  using wf_odel by (simp add: delete_key_def Let_def)

lemma wf_apply:
  "wf_value doc \<Longrightarrow> wf_value patch \<Longrightarrow> wf_value (fst (apply_obj doc patch p))"
  "wf_value (VObj dm) \<Longrightarrow> wf_entries es \<Longrightarrow> wf_value (VObj (fst (apply_entries pm es dm p)))"
  "wf_value (VObj dm) \<Longrightarrow> wf_value v \<Longrightarrow> wf_value (VObj (fst (apply_entry pm k v dm p)))"
proof (induction doc patch p and pm es dm p and pm k v dm p
    rule: apply_obj_apply_entries_apply_entry.induct)
  case (1 doc patch p)
  then show ?case by (auto simp: apply_obj.simps [of doc patch] split_beta split: json.splits)
next
  case (3 pm k v es dm p)
  then show ?case by (cases "apply_entry pm k v dm p") (simp add: split_beta Let_def)
next
  case (4 pm k v dm p)
  have sub: "holds_object dm k \<Longrightarrow> wf_value (the (map_of dm k))"
    using 4 wf_entriesD by (auto simp: holds_object_def split: option.splits)
  show ?case
  proof (cases v)
    case (VObj m)
    have "wf_value (fst (apply_obj (VObj []) v (path_join p k)))" if "\<not> holds_object dm k" "m \<noteq> []"
      using "4.IH"(2) [OF refl VObj that refl] 4 by simp
    with 4 sub VObj show ?thesis
      by (auto simp: apply_entry.simps split_beta Let_def wf_set_changed simp del: wf_value.simps(2)
          intro!: wf_oput)
  qed (use 4 in \<open>auto simp: apply_entry.simps Let_def wf_set_changed wf_delete_key
    simp del: wf_value.simps(2)\<close>)
qed simp

lemma wf_patch_val:
  "(\<And>o'. old = Some o' \<Longrightarrow> wf_value o') \<Longrightarrow> wf_value v \<Longrightarrow> patch_val old v = Some w \<Longrightarrow> wf_value w"
  by (auto simp: patch_val_def set_val_def wf_apply split: json.splits option.splits if_splits)

section \<open>When nothing is touched\<close>

definition patch_quiet :: "json option \<Rightarrow> json \<Rightarrow> bool" where
  "patch_quiet old v \<longleftrightarrow>
     (case v of
        VNull \<Rightarrow> old = None
      | VObj m \<Rightarrow>
          (case old of
             Some d \<Rightarrow> is_object d \<and> snd (apply_obj d v []) = []
           | None \<Rightarrow> m \<noteq> [] \<and> snd (apply_obj (VObj []) v []) = [])
      | _ \<Rightarrow> (case old of Some o' \<Rightarrow> veq o' v | None \<Rightarrow> False))"

definition note_quiet :: "vmap \<Rightarrow> string \<Rightarrow> json \<Rightarrow> vmap \<Rightarrow> bool" where
  "note_quiet pm k v dm \<longleftrightarrow> (v = VNull \<and> \<not> ohas pm (k @ comment_suffix) \<longrightarrow> \<not> ohas dm (k @ comment_suffix))"

lemma entry_quiet:
  "snd (apply_entry pm k v dm p) = [] \<longleftrightarrow> patch_quiet (map_of dm k) v \<and> note_quiet pm k v dm"
proof (cases v)
  case VNull
  then show ?thesis
    by (auto simp: apply_entry.simps delete_key_def patch_quiet_def note_quiet_def Let_def ohas_def split: if_splits)
next
  case (VObj m)
  then show ?thesis
    using apply_obj_path [of "VObj []" v "path_join p k"] apply_obj_path [of "the (map_of dm k)" v "path_join p k"]
    by (cases "map_of dm k")
      (auto simp: apply_entry.simps holds_object_def patch_quiet_def note_quiet_def split_beta Let_def set_changed_def
        ohas_def dest: veq_VObj_is_object)
qed (auto simp: apply_entry.simps patch_quiet_def note_quiet_def set_changed_def Let_def split: option.splits)

text \<open>The entries of a patch do not disturb each other: what one of them does depends on its own
  key, and on its note only when the patch does not name the note.\<close>

lemma entry_touched_cong:
  assumes "map_of dm' k = map_of dm k"
    and "\<not> ohas pm (k @ comment_suffix) \<Longrightarrow> ohas dm' (k @ comment_suffix) = ohas dm (k @ comment_suffix)"
  shows "snd (apply_entry pm k v dm' p) = snd (apply_entry pm k v dm p)"
  using assms
  by (cases v) (auto simp: apply_entry.simps delete_key_def set_changed_def holds_object_def ohas_def
    Let_def split_beta)

lemma entries_touched:
  assumes "odistinct es" "fst ` set es \<subseteq> fst ` set pm"
  shows "snd (apply_entries pm es dm p) = concat (map (\<lambda>(k, v). snd (apply_entry pm k v dm p)) es)"
  using assms
proof (induction es arbitrary: dm)
  case (Cons e es)
  obtain k v where e: "e = (k, v)" by (cases e)
  define dm' where "dm' = fst (apply_entry pm k v dm p)"
  have same: "snd (apply_entry pm j u dm' p) = snd (apply_entry pm j u dm p)" if "(j, u) \<in> set es" for j u
  proof (rule entry_touched_cong)
    have "j \<in> fst ` set es" using that by (metis fst_conv image_eqI)
    moreover have "k \<notin> fst ` set es" "fst ` set es \<subseteq> fst ` set pm" "k \<in> fst ` set pm"
      using Cons.prems by (simp_all add: e)
    ultimately have "j \<noteq> k" "ohas pm j" "ohas pm k" unfolding ohas_iff by blast+
    then show "map_of dm' j = map_of dm j"
      "\<not> ohas pm (j @ comment_suffix) \<Longrightarrow> ohas dm' (j @ comment_suffix) = ohas dm (j @ comment_suffix)"
      by (auto simp: dm'_def entry_lookup ohas_def)
  qed
  have "snd (apply_entries pm es dm' p) = concat (map (\<lambda>(j, u). snd (apply_entry pm j u dm' p)) es)"
    using Cons by (simp add: e)
  also have "map (\<lambda>(j, u). snd (apply_entry pm j u dm' p)) es = map (\<lambda>(j, u). snd (apply_entry pm j u dm p)) es"
    using same by (intro map_cong) auto
  finally show ?case by (simp add: e case_prod_unfold Let_def dm'_def)
qed simp

lemma obj_touched:
  assumes "odistinct pm"
  shows "snd (apply_obj (VObj d) (VObj pm) p) = concat (map (\<lambda>(k, v). snd (apply_entry pm k v d p)) pm)"
  using entries_touched [OF assms, of pm d p] by (simp add: apply_obj.simps split_beta Let_def)

lemma obj_quiet:
  assumes "odistinct pm"
  shows "snd (apply_obj (VObj d) (VObj pm) p) = [] \<longleftrightarrow>
     (\<forall>(k, v) \<in> set pm. patch_quiet (map_of d k) v \<and> note_quiet pm k v d)"
  by (auto simp: obj_touched [OF assms] entry_quiet)

lemma quiet_unchanged:
  "snd (apply_obj doc patch p) = [] \<Longrightarrow> fst (apply_obj doc patch p) = doc"
  "snd (apply_entries pm es dm p) = [] \<Longrightarrow> fst (apply_entries pm es dm p) = dm"
  "snd (apply_entry pm k v dm p) = [] \<Longrightarrow> fst (apply_entry pm k v dm p) = dm"
proof (induction doc patch p and pm es dm p and pm k v dm p
    rule: apply_obj_apply_entries_apply_entry.induct)
  case (1 doc patch p)
  then show ?case by (auto simp: apply_obj.simps [of doc patch] split_beta split: json.splits)
next
  case (3 pm k v es dm p)
  then show ?case by (cases "apply_entry pm k v dm p") (simp add: split_beta Let_def)
next
  case (4 pm k v dm p)
  show ?case
  proof (cases v)
    case VNull
    with 4 show ?thesis
      by (auto simp: apply_entry.simps delete_key_def Let_def split: if_splits)
  next
    case (VObj m)
    with 4 show ?thesis
      by (auto simp: apply_entry.simps split_beta Let_def set_changed_def holds_object_def
          oput_same split: if_splits option.splits)
  qed (use 4 in \<open>auto simp: apply_entry.simps Let_def set_changed_def split: if_splits option.splits\<close>)
qed simp

lemma patch_quiet_unchanged: "patch_quiet old v \<Longrightarrow> patch_val old v = old"
  by (auto simp: patch_quiet_def patch_val_def set_val_def quiet_unchanged split: json.splits option.splits)

text \<open>What is touched has changed: the new value is not the old one, even up to the order of
  map entries.\<close>

lemma loud_changed:
  assumes "\<And>o'. old = Some o' \<Longrightarrow> wf_value o'" "wf_value v" "\<not> patch_quiet old v"
  shows "\<not> rel_option veq old (patch_val old v)"
  using assms
proof (induction v arbitrary: old)
  case (Obj pm)
  show ?case
  proof (cases "\<exists>d. old = Some (VObj d)")
    case True
    then obtain d where d: "old = Some (VObj d)" by blast
    with Obj.prems have wf: "wf_value (VObj d)" "odistinct pm" by auto
    obtain d' where d': "fst (apply_obj (VObj d) (VObj pm) []) = VObj d'"
      and look: "\<And>j. map_of d' j = (case map_of pm j of Some v \<Rightarrow> patch_val (map_of d j) v
        | None \<Rightarrow> if \<exists>k. map_of pm k = Some VNull \<and> j = k @ comment_suffix then None else map_of d j)"
      using obj_lookup [OF wf(2), of d "[]"] by blast
    have wf': "wf_value (VObj d')" using wf_apply(1) [OF wf(1) Obj.prems(2), of "[]"] d' by simp
    have "snd (apply_obj (VObj d) (VObj pm) []) \<noteq> []"
      using Obj.prems(3) d by (simp add: patch_quiet_def is_object_def)
    then obtain k v where kv: "(k, v) \<in> set pm" and loud: "\<not> patch_quiet (map_of d k) v \<or> \<not> note_quiet pm k v d"
      using obj_quiet [OF wf(2), of d "[]"] by blast
    have pk: "map_of pm k = Some v" using kv wf(2) by simp
    have "\<exists>j. \<not> rel_option veq (map_of d j) (map_of d' j)"
    proof (cases "patch_quiet (map_of d k) v")
      case True
      with loud have "v = VNull" "\<not> ohas pm (k @ comment_suffix)" "ohas d (k @ comment_suffix)"
        by (auto simp: note_quiet_def)
      then have "map_of d' (k @ comment_suffix) = None" "map_of d (k @ comment_suffix) \<noteq> None"
        using look [of "k @ comment_suffix"] pk by (auto simp: ohas_def)
      then show ?thesis by (metis option.rel_distinct(2) option.exhaust)
    next
      case False
      have "\<not> rel_option veq (map_of d k) (patch_val (map_of d k) v)"
        using wf Obj.prems(2) kv by (intro Obj.IH [OF kv] False) (auto simp: wf_entries_iff dest: map_of_SomeD)
      with look [of k] pk show ?thesis by (intro exI [of _ k]) simp
    qed
    then have "\<not> veq (VObj d) (VObj d')" using veq_obj_iff [OF wf(1) wf'] by blast
    then show ?thesis by (simp add: d d' patch_val_def is_object_def)
  next
    case False
    then show ?thesis using Obj.prems
      by (auto simp: patch_val_def patch_quiet_def is_object_def apply_obj.simps split_beta
          split: option.splits json.splits dest!: veq_is_object)
  qed
qed (auto simp: patch_val_def patch_quiet_def set_val_def split: option.splits)

lemma apply_obj_touched_iff:
  assumes "wf_value doc" "wf_value patch"
  shows "snd (apply_obj doc patch p) = [] \<longleftrightarrow> veq doc (fst (apply_obj doc patch p))"
proof
  assume "snd (apply_obj doc patch p) = []"
  then show "veq doc (fst (apply_obj doc patch p))" using assms by (simp add: quiet_unchanged veq_refl)
next
  assume v: "veq doc (fst (apply_obj doc patch p))"
  show "snd (apply_obj doc patch p) = []"
  proof (cases "\<exists>d pm. doc = VObj d \<and> patch = VObj pm")
    case True
    then obtain d pm where dp: "doc = VObj d" "patch = VObj pm" by blast
    have "patch_quiet (Some doc) patch"
    proof (rule ccontr)
      assume "\<not> patch_quiet (Some doc) patch"
      then have "\<not> rel_option veq (Some doc) (patch_val (Some doc) patch)"
        using assms by (intro loud_changed) auto
      with v show False using apply_obj_path(1) [of doc patch p] by (simp add: dp patch_val_def is_object_def)
    qed
    then show ?thesis using apply_obj_path(2) [of doc patch p] by (simp add: dp patch_quiet_def)
  next
    case False
    then show ?thesis by (auto simp: apply_obj.simps split: json.splits)
  qed
qed

section \<open>Idempotence\<close>

lemma apply_obj_empty [simp]: "apply_obj d (VObj []) p = (d, [])"
  by (simp add: apply_obj.simps split: json.splits)

lemma set_val_idem: "wf_value v \<Longrightarrow> (case set_val old v of Some o' \<Rightarrow> veq o' v | None \<Rightarrow> False)"
  using veq_refl [of v] by (auto simp: set_val_def split: option.splits)

lemma patch_val_idem:
  assumes "\<And>o'. old = Some o' \<Longrightarrow> wf_value o'" "wf_value v"
  shows "patch_quiet (patch_val old v) v"
  using assms
proof (induction v arbitrary: old)
  case (Obj pm)
  have pm: "odistinct pm" using Obj.prems(2) by simp
  have again: "snd (apply_obj (fst (apply_obj (VObj d) (VObj pm) [])) (VObj pm) []) = []"
    and obj: "is_object (fst (apply_obj (VObj d) (VObj pm) []))"
    if wf: "wf_value (VObj d)" for d
  proof -
    obtain d' where d': "fst (apply_obj (VObj d) (VObj pm) []) = VObj d'"
      and look: "\<And>j. map_of d' j = (case map_of pm j of Some v \<Rightarrow> patch_val (map_of d j) v
        | None \<Rightarrow> if \<exists>k. map_of pm k = Some VNull \<and> j = k @ comment_suffix then None else map_of d j)"
      using obj_lookup [OF pm, of d "[]"] by blast
    show "is_object (fst (apply_obj (VObj d) (VObj pm) []))" by (simp add: d' is_object_def)
    show "snd (apply_obj (fst (apply_obj (VObj d) (VObj pm) [])) (VObj pm) []) = []"
      unfolding d' obj_quiet [OF pm]
    proof (clarify, intro conjI)
      fix k v assume kv: "(k, v) \<in> set pm"
      then have pk: "map_of pm k = Some v" using pm by simp
      then show "patch_quiet (map_of d' k) v"
        using look [of k] Obj.IH [OF kv, of "map_of d k"] wf Obj.prems(2) kv
        by (auto simp: wf_entries_iff dest: map_of_SomeD)
      show "note_quiet pm k v d'"
        using pk look [of "k @ comment_suffix"] by (auto simp: note_quiet_def ohas_def)
    qed
  qed
  have e: "wf_value (VObj [])" by simp
  show ?case
  proof (cases old)
    case None
    then show ?thesis using again [OF e] obj [OF e]
      by (auto simp: patch_val_def patch_quiet_def)
  next
    case (Some o')
    then show ?thesis using again [OF e] obj [OF e] Obj.prems(1)
      by (cases o') (auto simp: patch_val_def patch_quiet_def again obj simp del: wf_value.simps(2))
  qed
next
  case (Arr xs)
  then show ?case using set_val_idem [of "VArr xs" old] by (simp add: patch_val_def patch_quiet_def)
next
  case (Str x)
  then show ?case using set_val_idem [of "VStr x" old] by (simp add: patch_val_def patch_quiet_def)
next
  case (Bool x)
  then show ?case using set_val_idem [of "VBool x" old] by (simp add: patch_val_def patch_quiet_def)
next
  case (Num x)
  then show ?case using set_val_idem [of "VNum x" old] by (simp add: patch_val_def patch_quiet_def)
next
  case Null
  then show ?case by (simp add: patch_val_def patch_quiet_def)
qed

lemma apply_patch_again:
  assumes "wf_value doc" "wf_value patch"
  shows "apply_patch (fst (apply_patch doc patch)) patch = (fst (apply_patch doc patch), [])"
proof (cases "\<exists>d pm. doc = VObj d \<and> patch = VObj pm")
  case True
  then obtain d pm where dp: "doc = VObj d" "patch = VObj pm" by blast
  let ?r = "fst (apply_obj doc patch [])"
  have q: "patch_quiet (patch_val (Some doc) patch) patch" using assms by (intro patch_val_idem) auto
  then have r: "is_object ?r" "snd (apply_obj ?r patch []) = []"
    by (simp_all add: dp patch_quiet_def patch_val_def)
  then have "apply_obj ?r patch [] = (?r, [])" using quiet_unchanged(1) [OF r(2)] by (metis prod.collapse)
  with r(1) show ?thesis by (simp add: dp apply_patch_def root_def)
next
  case False
  then show ?thesis by (auto simp: apply_patch_def is_object_iff)
qed

section \<open>Lint-clean documents stay lint-clean\<close>

text \<open>A patch whose keys and notes are in order: \<open>null\<close> may stand only for an entry to delete,
  never inside an array.\<close>

fun patch_ok :: "json \<Rightarrow> bool"
  and patch_entries_ok :: "(string \<times> json) list \<Rightarrow> bool" where
  "patch_ok VNull = True"
| "patch_ok (VObj m) = patch_entries_ok m"
| "patch_ok (VArr xs) = (walk (VArr xs) root = [])"
| "patch_ok (VBool b) = True"
| "patch_ok (VNum n) = True"
| "patch_ok (VStr s) = True"
| "patch_entries_ok [] = True"
| "patch_entries_ok ((k, v) # m) =
     (is_valid_key k \<and> (is_comment_key k \<longrightarrow> is_string v \<or> v = VNull) \<and> patch_ok v \<and> patch_entries_ok m)"

lemma clean_apply:
  "clean doc \<Longrightarrow> patch_ok patch \<Longrightarrow> clean (fst (apply_obj doc patch p))"
  "clean (VObj dm) \<Longrightarrow> patch_entries_ok es \<Longrightarrow> clean (VObj (fst (apply_entries pm es dm p)))"
  "clean (VObj dm) \<Longrightarrow> patch_entries_ok [(k, v)] \<Longrightarrow> clean (VObj (fst (apply_entry pm k v dm p)))"
proof (induction doc patch p and pm es dm p and pm k v dm p
    rule: apply_obj_apply_entries_apply_entry.induct)
  case (1 doc patch p)
  then show ?case by (auto simp: apply_obj.simps [of doc patch] split_beta split: json.splits)
next
  case (3 pm k v es dm p)
  then show ?case by (cases "apply_entry pm k v dm p") (simp add: split_beta Let_def)
next
  case (4 pm k v dm p)
  then have k: "is_valid_key k" "is_comment_key k \<longrightarrow> is_string v \<or> v = VNull" "patch_ok v" by simp_all
  have sub: "holds_object dm k \<Longrightarrow> clean (the (map_of dm k))"
    using "4.prems" by (auto simp: holds_object_def clean_obj dest: map_of_SomeD split: option.splits)
  show ?case
  proof (cases v)
    case VNull
    then show ?thesis using "4.prems" clean_odel by (simp add: apply_entry.simps delete_key_def Let_def)
  next
    case (VObj m)
    then have e: "entry_ok k w" for w using k by (auto simp: entry_ok_def is_string_def)
    have "clean (fst (apply_obj (VObj []) v (path_join p k)))" if "\<not> holds_object dm k" "m \<noteq> []"
      using "4.IH"(2) [OF refl VObj that refl] k by (simp add: clean_obj)
    moreover have "clean (fst (apply_obj (the (map_of dm k)) v (path_join p k)))" if "holds_object dm k"
      using "4.IH"(1) [OF refl VObj that] k sub [OF that] by simp
    moreover have "m = [] \<Longrightarrow> clean v" using VObj by (simp add: clean_obj)
    ultimately show ?thesis using VObj "4.prems" e
      by (auto simp: apply_entry.simps split_beta Let_def set_changed_def intro!: clean_oput)
  next
    case (VArr xs)
    then have "clean v" using k(3) walk_Nil [of v root] by simp
    then show ?thesis using VArr "4.prems" k
      by (auto simp: apply_entry.simps Let_def set_changed_def entry_ok_def intro!: clean_oput)
  qed (use "4.prems" k in \<open>auto simp: apply_entry.simps Let_def set_changed_def entry_ok_def intro!: clean_oput\<close>)
qed simp

section \<open>What is not touched keeps its value\<close>

definition apart :: "path \<Rightarrow> path \<Rightarrow> bool" where
  "apart p q \<longleftrightarrow> \<not> prefix p q \<and> \<not> prefix q p"

definition untouched :: "touched list \<Rightarrow> path \<Rightarrow> bool" where
  "untouched ts q \<longleftrightarrow> (\<forall>t \<in> set ts. apart (t_path t) q)"

lemma untouched_Cons: "untouched (map (under [k]) ts) (k # q) \<longleftrightarrow> untouched ts q"
  by (auto simp: untouched_def apart_def)

text \<open>An entry either reports its own key, or changes nothing there, or recurses.\<close>

lemma entry_cases:
  "(\<exists>t \<in> set (snd (apply_entry pm k v dm [])). t_path t = [k])
   \<or> patch_val (map_of dm k) v = map_of dm k
   \<or> (\<exists>d m. map_of dm k = Some (VObj d) \<and> v = VObj m
        \<and> snd (apply_entry pm k v dm []) = map (under [k]) (snd (apply_obj (VObj d) v []))
        \<and> patch_val (map_of dm k) v = Some (fst (apply_obj (VObj d) v [])))"
proof (cases v)
  case VNull
  then show ?thesis
    by (auto simp: apply_entry.simps delete_key_def patch_val_def path_join_def ohas_def Let_def)
next
  case (VObj m)
  then show ?thesis
    using apply_obj_path [of "VObj []" v "[k]"] apply_obj_path [of "the (map_of dm k)" v "[k]"]
    by (cases "map_of dm k")
      (auto simp: apply_entry.simps holds_object_def patch_val_def path_join_def is_object_iff ohas_def
        set_changed_def split_beta Let_def dest!: veq_VObj_is_object)
qed (auto simp: apply_entry.simps patch_val_def set_changed_def set_val_def path_join_def Let_def split: option.splits)

lemma entry_note_touched:
  assumes "ohas dm (k @ comment_suffix)" "\<not> ohas pm (k @ comment_suffix)"
  shows "\<exists>t \<in> set (snd (apply_entry pm k VNull dm [])). t_path t = [k @ comment_suffix]"
  using assms by (auto simp: apply_entry.simps delete_key_def path_join_def Let_def)

lemma apply_obj_frame:
  assumes "wf_value patch" "untouched (snd (apply_obj doc patch [])) q"
  shows "get_path (fst (apply_obj doc patch [])) q = get_path doc q"
  using assms
proof (induction patch arbitrary: doc q)
  case (Obj pm)
  show ?case
  proof (cases "\<exists>d. doc = VObj d")
    case False
    then show ?thesis by (cases doc) (simp_all add: apply_obj.simps)
  next
    case True
    then obtain d where d: "doc = VObj d" by blast
    have pm: "odistinct pm" using Obj.prems(1) by simp
    have un: "untouched (snd (apply_entry pm k v d [])) q" if "(k, v) \<in> set pm" for k v
      using Obj.prems(2) that by (fastforce simp: d obj_touched [OF pm] untouched_def)
    show ?thesis
    proof (cases q)
      case Nil
      then have "snd (apply_obj doc (VObj pm) []) = []"
        using Obj.prems(2) by (cases "snd (apply_obj doc (VObj pm) [])") (auto simp: untouched_def apart_def)
      then show ?thesis by (simp add: quiet_unchanged)
    next
      case (Cons j qs)
      obtain d' where d': "fst (apply_obj (VObj d) (VObj pm) []) = VObj d'"
        and look: "\<And>j. map_of d' j = (case map_of pm j of Some v \<Rightarrow> patch_val (map_of d j) v
          | None \<Rightarrow> if \<exists>k. map_of pm k = Some VNull \<and> j = k @ comment_suffix then None else map_of d j)"
        using obj_lookup [OF pm, of d "[]"] by blast
      show ?thesis
      proof (cases "map_of pm j")
        case None
        have "map_of d' j = map_of d j"
        proof (cases "\<exists>k. map_of pm k = Some VNull \<and> j = k @ comment_suffix")
          case True
          then obtain k where k: "map_of pm k = Some VNull" "j = k @ comment_suffix" by blast
          have "apart [j] q \<longleftrightarrow> False" using Cons by (simp add: apart_def)
          then have "\<not> ohas d j"
            using entry_note_touched [of d k pm] un [OF map_of_SomeD [OF k(1)]] None k(2)
            unfolding untouched_def map_of_None_ohas by metis
          then show ?thesis using look [of j] None True by (simp add: ohas_def)
        qed (use look [of j] None in auto)
        then show ?thesis by (simp add: d d' Cons)
      next
        case (Some v)
        then have kv: "(j, v) \<in> set pm" by (rule map_of_SomeD)
        have "\<not> (\<exists>t \<in> set (snd (apply_entry pm j v d [])). t_path t = [j])"
          using un [OF kv] Cons by (auto simp: untouched_def apart_def)
        with entry_cases [of pm j v d] consider
          (same) "patch_val (map_of d j) v = map_of d j"
        | (rec) dd m where "map_of d j = Some (VObj dd)" "v = VObj m"
            "snd (apply_entry pm j v d []) = map (under [j]) (snd (apply_obj (VObj dd) v []))"
            "patch_val (map_of d j) v = Some (fst (apply_obj (VObj dd) v []))"
          by blast
        then show ?thesis
        proof cases
          case same
          then show ?thesis using look [of j] Some by (simp add: d d' Cons)
        next
          case rec
          have "wf_value v" using Obj.prems(1) kv by (auto simp: wf_entries_iff)
          moreover have "untouched (snd (apply_obj (VObj dd) v [])) qs"
            using un [OF kv] rec(3) Cons by (simp add: untouched_Cons)
          ultimately show ?thesis
            using Obj.IH [OF kv, of "VObj dd" qs] look [of j] Some rec by (simp add: d d' Cons)
        qed
      qed
    qed
  qed
qed (simp_all add: apply_obj.simps)

section \<open>The diff\<close>

declare diff_at.simps [simp del]

lemma diff_at_objects:
  "diff_at (VObj om) (VObj nm) p = diff_entries om nm p
     @ map (\<lambda>k. \<lparr>t_path = path_join p k, t_op = OpDelete\<rparr>) (filter (\<lambda>k. \<not> ohas nm k) (okeys om))"
  by (simp add: diff_at.simps)

lemma diff_at_other:
  "\<not> (is_object old \<and> is_object new) \<Longrightarrow>
   diff_at old new p = (if \<not> veq old new then [\<lparr>t_path = p, t_op = OpSet\<rparr>] else [])"
  by (cases old; cases new) (simp_all add: diff_at.simps)

lemma diff_entries_Cons:
  "diff_entries om ((k, nv) # nm) p =
     (case map_of om k of Some ov \<Rightarrow> diff_at ov nv (path_join p k)
      | None \<Rightarrow> [\<lparr>t_path = path_join p k, t_op = OpSet\<rparr>]) @ diff_entries om nm p"
  by (auto simp: Let_def diff_at_other split: option.splits)

lemma diff_entries_Nil:
  "diff_entries om nm p = [] \<longleftrightarrow>
     (\<forall>(k, nv) \<in> set nm. \<exists>ov. map_of om k = Some ov \<and> diff_at ov nv (path_join p k) = [])"
proof (induction nm)
  case (Cons e nm)
  then show ?case by (cases e) (auto simp: diff_entries_Cons simp del: diff_entries.simps split: option.splits)
qed simp

lemma diff_at_Nil: "wf_value old \<Longrightarrow> wf_value new \<Longrightarrow> diff_at old new p = [] \<longleftrightarrow> veq old new"
proof (induction new arbitrary: old p)
  case (Obj nm)
  show ?case
  proof (cases "\<exists>om. old = VObj om")
    case True
    then obtain om where om: "old = VObj om" by blast
    have ent: "diff_at ov nv q = [] \<longleftrightarrow> veq ov nv" if "(k, nv) \<in> set nm" "map_of om k = Some ov" for k nv ov q
    proof -
      have "wf_value ov" "wf_value nv"
        using Obj.prems that om by (auto simp: wf_entries_iff dest: map_of_SomeD)
      then show ?thesis by (rule Obj.IH [OF that(1)])
    qed
    have dn: "odistinct nm" and do: "odistinct om" using Obj.prems om by simp_all
    have "diff_at old (VObj nm) p = [] \<longleftrightarrow>
        (\<forall>(k, nv) \<in> set nm. \<exists>ov. map_of om k = Some ov \<and> veq ov nv) \<and> (\<forall>k \<in> set (okeys om). ohas nm k)"
      using ent by (fastforce simp: om diff_at_objects diff_entries_Nil filter_empty_conv)
    also have "\<dots> \<longleftrightarrow> (\<forall>k. rel_option veq (map_of om k) (map_of nm k))"
    proof (intro iffI allI)
      fix k assume a: "(\<forall>(k, nv) \<in> set nm. \<exists>ov. map_of om k = Some ov \<and> veq ov nv) \<and> (\<forall>k \<in> set (okeys om). ohas nm k)"
      show "rel_option veq (map_of om k) (map_of nm k)"
      proof (cases "map_of nm k")
        case None
        then have "map_of om k = None" using a om.keys_get [of k om] by (auto simp: ohas_def)
        then show ?thesis by (simp add: None)
      next
        case (Some nv)
        then show ?thesis using a map_of_SomeD [OF Some] by fastforce
      qed
    next
      assume a: "\<forall>k. rel_option veq (map_of om k) (map_of nm k)"
      have "\<exists>ov. map_of om k = Some ov \<and> veq ov nv" if "(k, nv) \<in> set nm" for k nv
        using a [rule_format, of k] that dn by (cases "map_of om k") auto
      moreover have "ohas nm k" if "k \<in> set (okeys om)" for k
        using a [rule_format, of k] that by (cases "map_of nm k") (auto simp: ohas_def om.keys_get)
      ultimately show "(\<forall>(k, nv) \<in> set nm. \<exists>ov. map_of om k = Some ov \<and> veq ov nv) \<and> (\<forall>k \<in> set (okeys om). ohas nm k)"
        by blast
    qed
    also have "\<dots> \<longleftrightarrow> veq old (VObj nm)" using veq_obj_iff [of om nm] Obj.prems om by simp
    finally show ?thesis .
  next
    case False
    then show ?thesis by (simp add: diff_at_other is_object_iff)
  qed
qed (simp_all add: diff_at_other)


section \<open>Properties\<close>

text \<open>C13: The lookup law of a merge patch, key by key. A key the patch names becomes what
  \<open>patch_val\<close> makes of its old value: gone for \<open>null\<close>, the patched map when both sides are
  maps, otherwise the new value (the old one is kept when the two are equal as JSON). A key the
  patch does not name keeps its value, unless it is the note of a key the patch deletes.\<close>

theorem apply_patch_lookup:
  assumes "odistinct pm"
  shows "\<exists>d'. fst (apply_patch (VObj d) (VObj pm)) = VObj d' \<and>
     (\<forall>k. map_of d' k =
       (case map_of pm k of
          Some v \<Rightarrow> patch_val (map_of d k) v
        | None \<Rightarrow> if \<exists>j. map_of pm j = Some VNull \<and> k = j @ comment_suffix then None else map_of d k))"
  using obj_lookup [OF assms, of d root] by (simp add: apply_patch_def)

theorem apply_patch_lookup_witness:
  "\<exists>d'. fst (apply_patch (VObj [(''a'', VBool True), (''a__'', VStr ''x''), (''b'', VBool False)])
                         (VObj [(''a'', VNull)])) = VObj d'
     \<and> map_of d' ''a__'' = None \<and> map_of d' ''b'' = Some (VBool False)"
proof -
  have d: "odistinct [(''a'', VNull)]" by simp
  show ?thesis
    using apply_patch_lookup [OF d, of "[(''a'', VBool True), (''a__'', VStr ''x''), (''b'', VBool False)]"]
    by (elim exE) (auto simp: comment_suffix_def)
qed

text \<open>A patch reports no touched path exactly when the document it leaves is the one it was
  given; then it is the same down to the order of its entries.\<close>

theorem apply_patch_touched_iff_changed:
  assumes "wf_value doc" "wf_value patch"
  shows "(snd (apply_patch doc patch) = [] \<longleftrightarrow> veq doc (fst (apply_patch doc patch)))
    \<and> (snd (apply_patch doc patch) = [] \<longrightarrow> fst (apply_patch doc patch) = doc)"
  using apply_obj_touched_iff [OF assms] quiet_unchanged(1) veq_refl [OF assms(1)]
  by (simp add: apply_patch_def)

theorem apply_patch_touched_iff_changed_witness:
  "snd (apply_patch (VObj [(''a'', VStr ''x'')]) (VObj [(''b'', VObj [(''c'', VNull)])])) = []
   \<and> \<not> veq (VObj [(''a'', VStr ''x'')]) (fst (apply_patch (VObj [(''a'', VStr ''x'')]) (VObj [(''a'', VNull)])))"
proof -
  have w: "wf_value (VObj [(''a'', VStr ''x'')])" "wf_value (VObj [(''a'', VNull)])"
    "wf_value (VObj [(''b'', VObj [(''c'', VNull)])])" by simp_all
  have "snd (apply_patch (VObj [(''a'', VStr ''x'')]) (VObj [(''a'', VNull)])) \<noteq> []" by code_simp
  moreover have "snd (apply_patch (VObj [(''a'', VStr ''x'')]) (VObj [(''b'', VObj [(''c'', VNull)])])) = []"
    by code_simp
  ultimately show ?thesis using apply_patch_touched_iff_changed [OF w(1,2)] by blast
qed

text \<open>Applying the same patch again touches nothing.\<close>

theorem apply_patch_idempotent:
  assumes "wf_value doc" "wf_value patch"
  shows "apply_patch (fst (apply_patch doc patch)) patch = (fst (apply_patch doc patch), [])"
  by (rule apply_patch_again [OF assms])

theorem apply_patch_idempotent_witness:
  "apply_patch (VObj [(''b'', VObj [(''d'', VBool True)])])
     (VObj [(''a'', VNull), (''b'', VObj [(''c'', VNull), (''d'', VBool True)])])
   = (VObj [(''b'', VObj [(''d'', VBool True)])], [])"
proof -
  let ?d = "VObj [(''a'', VStr ''x''), (''b'', VStr ''y'')]"
  let ?p = "VObj [(''a'', VNull), (''b'', VObj [(''c'', VNull), (''d'', VBool True)])]"
  have w: "wf_value ?d" "wf_value ?p" by simp_all
  have "fst (apply_patch ?d ?p) = VObj [(''b'', VObj [(''d'', VBool True)])]" by code_simp
  with apply_patch_idempotent [OF w] show ?thesis by simp
qed

text \<open>C31: The touched list is complete: a path that no touched path contains or lies below keeps
  its value.\<close>

theorem apply_patch_frame:
  assumes "wf_value patch" "untouched (snd (apply_patch doc patch)) q"
  shows "get_path (fst (apply_patch doc patch)) q = get_path doc q"
  using assms apply_obj_frame [of patch doc q] by (auto simp: apply_patch_def root_def split: if_splits)

theorem apply_patch_frame_witness:
  "get_path (fst (apply_patch (VObj [(''a'', VObj [(''b'', VBool True), (''c'', VStr ''x'')])])
      (VObj [(''a'', VObj [(''b'', VBool False)])]))) [''a'', ''c''] = Some (VStr ''x'')"
proof -
  let ?d = "VObj [(''a'', VObj [(''b'', VBool True), (''c'', VStr ''x'')])]"
  let ?p = "VObj [(''a'', VObj [(''b'', VBool False)])]"
  have "untouched (snd (apply_patch ?d ?p)) [''a'', ''c'']" by code_simp
  from apply_patch_frame [OF _ this] show ?thesis by simp
qed

text \<open>C32: A patch whose keys and notes are in order takes a document the lint accepts to one the
  lint accepts: its \<open>null\<close> delete markers are never written into the document, not even under
  a map the patch creates.\<close>

theorem apply_patch_keeps_lint:
  assumes "lint doc = []" "patch_ok patch"
  shows "lint (fst (apply_patch doc patch)) = []"
  using assms clean_apply(1) [of doc patch root]
  by (auto simp: lint_Nil_iff doc_ok_def apply_patch_def is_object_iff apply_obj.simps split_beta)

theorem apply_patch_keeps_lint_witness:
  "lint (fst (apply_patch (VObj []) (VObj [(''a'', VObj [(''b'', VNull), (''c'', VBool True)])]))) = []"
proof -
  have "lint (VObj []) = []" by code_simp
  moreover have "patch_ok (VObj [(''a'', VObj [(''b'', VNull), (''c'', VBool True)])])" by code_simp
  ultimately show ?thesis by (rule apply_patch_keeps_lint)
qed

text \<open>The diff of two documents is empty exactly when they are equal as JSON.\<close>

theorem diff_empty_iff_equal:
  assumes "wf_value old" "wf_value new"
  shows "diff old new = [] \<longleftrightarrow> veq old new"
  by (simp add: diff_def diff_at_Nil [OF assms])

theorem diff_empty_iff_equal_witness:
  "diff (VObj [(''a'', VNull), (''b'', VNull)]) (VObj [(''b'', VNull), (''a'', VNull)]) = []"
proof -
  have "wf_value (VObj [(''a'', VNull), (''b'', VNull)])" "wf_value (VObj [(''b'', VNull), (''a'', VNull)])"
    by simp_all
  from diff_empty_iff_equal [OF this] show ?thesis by simp
qed

end
