(* ===== verification/Views.thy ===== *)
theory Views
  imports Patch Formats
begin

text \<open>
  Views (view.rs): reads and writes of a document at a prefix, through maps only, and the comment
  rules (strip on read, keep on write). A write takes the document and returns its result with
  the document it leaves, as the code leaves it in the \<open>&mut Value\<close> it was given.
\<close>

section \<open>Descent\<close>

definition blocked :: "path \<Rightarrow> error" where
  "blocked p = EInvalidPath (show_path p @
     '': a view prefix may only address into maps, never through an array or a scalar'')"

fun descend_from :: "path \<Rightarrow> json \<Rightarrow> path \<Rightarrow> error + json option" where
  "descend_from full cur [] = Inr (Some cur)"
| "descend_from full cur (seg # segs) =
     (case cur of
        VObj m \<Rightarrow> (case map_of m seg of Some v \<Rightarrow> descend_from full v segs | None \<Rightarrow> Inr None)
      | _ \<Rightarrow> Inl (blocked full))"

definition descend :: "json \<Rightarrow> path \<Rightarrow> error + json option" where
  "descend doc p = descend_from p doc p"

text \<open>A \<open>&mut Value\<close> into the document is the path it was reached by; writing through it is
  \<open>put_at\<close>.\<close>

fun put_at :: "path \<Rightarrow> json \<Rightarrow> json \<Rightarrow> json" where
  "put_at [] v d = v"
| "put_at (seg # segs) v d =
     (case d of
        VObj m \<Rightarrow> (case map_of m seg of Some c \<Rightarrow> VObj (oput seg (put_at segs v c) m) | None \<Rightarrow> d)
      | _ \<Rightarrow> d)"

fun creating_from :: "path \<Rightarrow> json \<Rightarrow> path \<Rightarrow> (error + json) \<times> json" where
  "creating_from full cur [] = (if is_object cur then (Inr cur, cur) else (Inl (blocked full), cur))"
| "creating_from full cur (seg # segs) =
     (case cur of
        VObj m \<Rightarrow>
          let child = (case map_of m seg of Some v \<Rightarrow> v | None \<Rightarrow> VObj []);
              (r, child') = creating_from full child segs
          in (r, VObj (oput seg child' m))
      | _ \<Rightarrow> (Inl (blocked full), cur))"

definition descend_creating :: "path \<Rightarrow> json \<Rightarrow> (error + json) \<times> json" where
  "descend_creating p doc = creating_from p doc p"

section \<open>Operations\<close>

definition extract_view :: "json \<Rightarrow> path \<Rightarrow> error + json option" where
  "extract_view doc p = descend doc p"

definition obj_entries :: "json \<Rightarrow> vmap" where
  "obj_entries v = (case v of VObj m \<Rightarrow> m | _ \<Rightarrow> [])"

definition insert_below :: "path \<Rightarrow> string \<Rightarrow> json \<Rightarrow> json \<Rightarrow> json \<Rightarrow> json" where
  "insert_below parent_path k v par doc = put_at parent_path (VObj (oput k v (obj_entries par))) doc"

definition replace :: "path \<Rightarrow> json \<Rightarrow> json \<Rightarrow> (error + touched list) \<times> json" where
  "replace p subtree doc =
     (if is_root p then (Inr (diff doc subtree), subtree)
      else let parent_path = the (parent p); k = the (path_last p) in
        then_do (descend_creating parent_path) (\<lambda>par d.
          let old = map_of (obj_entries par) k;
              t = (case old of
                     Some o' \<Rightarrow> diff_at o' subtree p
                   | None \<Rightarrow>
                       let t0 = diff_at (VObj []) subtree p in
                       if t0 = [] then [\<lparr>t_path = p, t_op = OpSet\<rparr>] else t0)
          in (Inr t, insert_below parent_path k subtree par d)) doc)"

definition merge :: "path \<Rightarrow> json \<Rightarrow> json \<Rightarrow> (error + touched list) \<times> json" where
  "merge p patch_value doc =
     (if is_root p then (let (d, t) = apply_patch doc patch_value in (Inr t, d))
      else let parent_path = the (parent p); k = the (path_last p) in
        (case descend doc p of
           Inl e \<Rightarrow> (Inl e, doc)
         | Inr existing \<Rightarrow>
             let existing_is_object = (case existing of Some v \<Rightarrow> is_object v | None \<Rightarrow> False);
                 existed = existing \<noteq> None;
                 scratch0 = (case existing of Some (VObj m) \<Rightarrow> VObj m | _ \<Rightarrow> VObj []);
                 (scratch, t0) = apply_obj scratch0 patch_value p;
                 t = (if existed \<and> \<not> existing_is_object \<and> t0 = []
                      then [\<lparr>t_path = p, t_op = OpSet\<rparr>] else t0)
             in if t = [] then (Inr [], doc)
                else then_do (descend_creating parent_path) (\<lambda>par d.
                       (Inr t, insert_below parent_path k scratch par d)) doc))"

definition remove_own :: "json option \<Rightarrow> path \<Rightarrow> touched list" where
  "remove_own old p =
     (case old of
        Some (VObj old_map) \<Rightarrow>
          let below = diff_at (VObj old_map) (VObj []) p in
          if below = [] then [\<lparr>t_path = p, t_op = OpDelete\<rparr>] else below
      | Some _ \<Rightarrow> [\<lparr>t_path = p, t_op = OpDelete\<rparr>]
      | None \<Rightarrow> [])"

definition remove :: "path \<Rightarrow> json \<Rightarrow> (error + touched list) \<times> json" where
  "remove p doc =
     (if is_root p then (Inr (diff doc (VObj [])), VObj [])
      else let parent_path = the (parent p); k = the (path_last p) in
        (case descend doc parent_path of
           Inl e \<Rightarrow> (Inl e, doc)
         | Inr None \<Rightarrow> (Inr [], doc)
         | Inr (Some (VObj m)) \<Rightarrow>
             let note = k @ comment_suffix;
                 t1 = (if ohas m note then [\<lparr>t_path = path_join parent_path note, t_op = OpDelete\<rparr>] else []);
                 m1 = odel note m;
                 own = remove_own (map_of m1 k) p
             in (Inr (t1 @ own), put_at parent_path (VObj (odel k m1)) doc)
         | Inr (Some _) \<Rightarrow> (Inl (blocked p), doc)))"

section \<open>Comments\<close>

fun strip_comments :: "json \<Rightarrow> json"
  and strip_items :: "json list \<Rightarrow> json list"
  and strip_entries :: "(string \<times> json) list \<Rightarrow> (string \<times> json) list" where
  "strip_comments (VObj m) = VObj (strip_entries m)"
| "strip_comments (VArr xs) = VArr (strip_items xs)"
| "strip_comments VNull = VNull"
| "strip_comments (VBool b) = VBool b"
| "strip_comments (VNum n) = VNum n"
| "strip_comments (VStr s) = VStr s"
| "strip_items [] = []"
| "strip_items (x # xs) = strip_comments x # strip_items xs"
| "strip_entries [] = []"
| "strip_entries ((k, v) # m) =
     (if is_comment_key k then strip_entries m else (k, strip_comments v) # strip_entries m)"

definition names_comment :: "path \<Rightarrow> bool" where
  "names_comment p \<longleftrightarrow> list_ex is_comment_key p"

fun key_position_in :: "string \<Rightarrow> (string \<times> json) list \<Rightarrow> nat option" where
  "key_position_in k [] = None"
| "key_position_in k ((j, v) # m) = (if j = k then Some 0 else map_option Suc (key_position_in k m))"

fun find_map :: "('a \<Rightarrow> 'b option) \<Rightarrow> 'a list \<Rightarrow> 'b option" where
  "find_map f [] = None"
| "find_map f (x # xs) = (case f x of Some y \<Rightarrow> Some y | None \<Rightarrow> find_map f xs)"

definition insert_at :: "nat \<Rightarrow> 'a \<Rightarrow> 'a list \<Rightarrow> 'a list" where
  "insert_at i x xs = take i xs @ x # drop i xs"

text \<open>The loop over the stored entries; \<open>prev\<close> holds the keys already passed, the nearest
  first.\<close>

fun keep_notes :: "vmap \<Rightarrow> string list \<Rightarrow> (string \<times> json) list \<Rightarrow> vmap \<Rightarrow> vmap" where
  "keep_notes om prev [] out = out"
| "keep_notes om prev ((k, v) # rest) out =
     keep_notes om (k # prev) rest
       (case strip_suffix comment_suffix k of
          None \<Rightarrow> out
        | Some subject \<Rightarrow>
            let alive = (subject = [] \<or> (ohas om subject \<and> ohas out subject)) in
            if \<not> alive \<or> ohas out k then out
            else let pos = (case find_map (\<lambda>j. key_position_in j out) prev of None \<Rightarrow> 0 | Some i \<Rightarrow> i + 1)
                 in insert_at pos (k, v) out)"

fun keep_comments :: "json \<Rightarrow> json \<Rightarrow> json"
  and keep_children :: "vmap \<Rightarrow> (string \<times> json) list \<Rightarrow> (string \<times> json) list" where
  "keep_comments old new =
     (case (old, new) of
        (VObj om, VObj nm) \<Rightarrow> VObj (keep_notes om [] om (keep_children om nm))
      | _ \<Rightarrow> new)"
| "keep_children om [] = []"
| "keep_children om ((k, v) # nm) =
     (case map_of om k of
        Some ov \<Rightarrow> (k, if is_object ov \<and> is_object v then keep_comments ov v else v)
      | None \<Rightarrow> (k, v)) # keep_children om nm"

section \<open>Text\<close>

definition render :: "libs \<Rightarrow> json \<Rightarrow> format \<Rightarrow> string" where
  "render L v f = dump L f v"

definition view_parse :: "libs \<Rightarrow> string \<Rightarrow> format \<Rightarrow> error + json" where
  "view_parse L txt f = parse_raw L f txt"

definition parse_patch :: "libs \<Rightarrow> string \<Rightarrow> format \<Rightarrow> error + json" where
  "parse_patch L txt f =
     andthen (parse_raw L f txt) (\<lambda>v.
     if \<not> is_object v then Inl (ELint [\<lparr>lint_path = root, lint_msg = ''a merge payload must be an object''\<rparr>])
     else Inr v)"

section \<open>Descent and insertion\<close>

lemma obj_entries_VObj [simp]: "obj_entries (VObj m) = m"
  by (simp add: obj_entries_def)

lemma creating_empty: "\<exists>c d. creating_from full (VObj []) p = (Inr c, d)"
  by (induction p) (auto split: prod.splits)

lemma creating_fails: "creating_from full doc p = (Inl e, d) \<Longrightarrow> d = doc \<and> e = blocked full"
proof (induction p arbitrary: doc d)
  case (Cons seg p)
  then show ?case
    using creating_empty [of full p]
    by (auto simp: Let_def split_beta oput_same prod_eq_iff split: json.splits option.splits)
qed (auto split: if_splits)

lemma creating_object: "creating_from full doc p = (Inr c, d) \<Longrightarrow> is_object c"
  by (induction p arbitrary: doc d) (auto simp: Let_def split_beta prod_eq_iff split: json.splits if_splits)

lemma descend_from_empty: "descend_from f (VObj []) q = (if q = [] then Inr (Some (VObj [])) else Inr None)"
  by (cases q) auto

text \<open>Inserting below a created parent: the new value is there, everything apart from it is as
  it was.\<close>

lemma insert_creating:
  assumes "creating_from full doc p = (Inr c, d)"
  shows "descend_from f (insert_below p k v c d) (p @ [k]) = Inr (Some v)"
    and "apart (p @ [k]) q \<Longrightarrow> descend_from f (insert_below p k v c d) q = descend_from f doc q"
  using assms
proof (induction p arbitrary: doc d q)
  case Nil
  case 1
  then show ?case by (auto simp: insert_below_def is_object_iff split: if_splits)
next
  case Nil
  case 2
  then show ?case by (cases q) (auto simp: insert_below_def apart_def is_object_iff split: if_splits)
next
  case (Cons seg p)
  case 1
  then obtain m where m: "doc = VObj m" by (auto split: json.splits)
  with 1 obtain child' where c: "creating_from full (case map_of m seg of Some v \<Rightarrow> v | None \<Rightarrow> VObj []) p = (Inr c, child')"
    and d: "d = VObj (oput seg child' m)" by (auto simp: Let_def split_beta prod_eq_iff)
  from Cons.IH(1) [OF c] show ?case by (simp add: d insert_below_def)
next
  case (Cons seg p)
  case 2
  then obtain m where m: "doc = VObj m" by (auto split: json.splits)
  with 2 obtain child' where c: "creating_from full (case map_of m seg of Some v \<Rightarrow> v | None \<Rightarrow> VObj []) p = (Inr c, child')"
    and d: "d = VObj (oput seg child' m)" by (auto simp: Let_def split_beta prod_eq_iff)
  from 2(1) obtain j qs where q: "q = j # qs" by (cases q) (auto simp: apart_def)
  show ?case
  proof (cases "j = seg")
    case False
    then show ?thesis by (simp add: q m d insert_below_def)
  next
    case True
    with 2(1) q have a: "apart (p @ [k]) qs" by (auto simp: apart_def)
    then have "qs \<noteq> []" by (auto simp: apart_def)
    with Cons.IH(2) [OF a c] True show ?thesis
      by (auto simp: q m d insert_below_def descend_from_empty split: option.splits)
  qed
qed

lemma put_at_look:
  assumes "descend_from f doc p = Inr (Some c)"
  shows "descend_from g (put_at p v doc) (p @ r) = descend_from g v r"
    and "apart p q \<Longrightarrow> descend_from g (put_at p v doc) q = descend_from g doc q"
  using assms
proof (induction p arbitrary: doc q)
  case Nil
  { case 1 then show ?case by simp next case 2 then show ?case by (simp add: apart_def) }
next
  case (Cons seg p)
  case 1
  then show ?case using Cons.IH(1) by (auto split: json.splits option.splits)
next
  case (Cons seg p)
  case 2
  then obtain m c' where m: "doc = VObj m" "map_of m seg = Some c'" "descend_from f c' p = Inr (Some c)"
    by (auto split: json.splits option.splits)
  from 2(1) obtain j qs where q: "q = j # qs" by (cases q) (auto simp: apart_def)
  with 2(1) have "j = seg \<Longrightarrow> apart p qs" by (auto simp: apart_def)
  with Cons.IH(2) [OF _ m(3)] show ?case by (auto simp: q m)
qed

lemma descend_from_append:
  "descend_from f doc (p @ r) =
     (case descend_from f doc p of
        Inr (Some v) \<Rightarrow> descend_from f v r
      | Inr None \<Rightarrow> Inr None
      | Inl e \<Rightarrow> Inl e)"
  by (induction p arbitrary: doc) (auto split: json.splits option.splits)

lemma descend_from_full:
  "descend_from f doc p = Inr x \<Longrightarrow> descend_from g doc p = Inr x"
  by (induction p arbitrary: doc) (auto split: json.splits option.splits)

lemma path_snoc: "p \<noteq> [] \<Longrightarrow> p = the (parent p) @ [the (path_last p)]"
  by (simp add: parent_def path_last_def)

section \<open>The write operations\<close>

lemma replace_fails: "replace p sub doc = (Inl e, d) \<Longrightarrow> d = doc \<and> e = blocked (butlast p)"
  by (auto simp: replace_def is_root_def parent_def then_do_def descend_creating_def Let_def
      split: if_splits prod.splits sum.splits dest: creating_fails)

lemma replace_ok:
  assumes "replace p sub doc = (Inr t, d)"
  shows "extract_view d p = Inr (Some sub)"
    and "apart p q \<Longrightarrow> extract_view d q = extract_view doc q"
proof -
  have "extract_view d p = Inr (Some sub) \<and> (apart p q \<longrightarrow> extract_view d q = extract_view doc q)"
  proof (cases "p = []")
    case True
    with assms show ?thesis by (simp add: replace_def is_root_def extract_view_def descend_def apart_def)
  next
    case False
    with assms obtain c d1 where c: "creating_from (butlast p) doc (butlast p) = (Inr c, d1)"
      and d: "d = insert_below (butlast p) (last p) sub c d1"
      by (auto simp: replace_def is_root_def parent_def path_last_def then_do_def descend_creating_def Let_def
          split: prod.splits sum.splits)
    from insert_creating(1) [OF c, of p "last p" sub] insert_creating(2) [OF c, of "last p" q q sub] False
    show ?thesis by (simp add: d extract_view_def descend_def)
  qed
  then show "extract_view d p = Inr (Some sub)" "apart p q \<Longrightarrow> extract_view d q = extract_view doc q" by auto
qed

lemma creating_found:
  "creating_from full doc p = (Inr c, d) \<Longrightarrow>
     descend_from f doc p = Inr (Some c) \<or> (descend_from f doc p = Inr None \<and> c = VObj [])"
proof (induction p arbitrary: doc d)
  case (Cons seg p)
  then obtain m where m: "doc = VObj m" by (auto split: json.splits)
  with Cons.prems obtain d' where
    c: "creating_from full (case map_of m seg of Some v \<Rightarrow> v | None \<Rightarrow> VObj []) p = (Inr c, d')"
    by (auto simp: Let_def split_beta prod_eq_iff)
  from Cons.IH [OF c] m show ?case by (auto simp: descend_from_empty split: option.splits if_splits)
qed (auto split: if_splits)

lemma diff_at_from_empty: "diff_at (VObj []) v p = [] \<longleftrightarrow> v = VObj []"
proof (cases v)
  case (VObj m)
  then show ?thesis by (cases m) (auto simp: diff_at_objects okeys_def)
qed (simp_all add: diff_at_other)

text \<open>The touched list of a replace is empty exactly when the same value was there already.\<close>

lemma replace_touched_iff:
  assumes "wf_value doc" "wf_value sub" "replace p sub doc = (Inr t, d)"
  shows "t = [] \<longleftrightarrow> (\<exists>o'. extract_view doc p = Inr (Some o') \<and> veq o' sub)"
proof (cases "p = []")
  case True
  with assms show ?thesis
    by (auto simp: replace_def is_root_def extract_view_def descend_def diff_def diff_at_Nil)
next
  case False
  with assms(3) obtain c d1 where c: "creating_from (butlast p) doc (butlast p) = (Inr c, d1)"
    and t: "t = (case map_of (obj_entries c) (last p) of
                     Some o' \<Rightarrow> diff_at o' sub p
                   | None \<Rightarrow> let t0 = diff_at (VObj []) sub p in
                       if t0 = [] then [\<lparr>t_path = p, t_op = OpSet\<rparr>] else t0)"
    by (auto simp: replace_def is_root_def parent_def path_last_def then_do_def descend_creating_def Let_def
        split: prod.splits sum.splits)
  have wf: "descend_from p doc q = Inr (Some w) \<Longrightarrow> wf_value w" for q w
    using assms(1) by (induction q arbitrary: doc) (auto split: json.splits option.splits dest: wf_entriesD)
  have ex: "extract_view doc p = Inr (map_of (obj_entries c) (last p))"
  proof -
    from creating_object [OF c] obtain m where m: "c = VObj m" by (auto simp: is_object_iff)
    have "extract_view doc p = descend_from p doc (butlast p @ [last p])"
      using False by (simp add: extract_view_def descend_def)
    also have "\<dots> = Inr (map_of (obj_entries c) (last p))"
      using creating_found [OF c, of p] m by (auto simp: descend_from_append split: option.splits)
    finally show ?thesis .
  qed
  show ?thesis
  proof (cases "map_of (obj_entries c) (last p)")
    case None
    then show ?thesis using t ex by (simp add: Let_def)
  next
    case (Some o')
    then have "wf_value o'" using ex wf [of p o'] by (simp add: extract_view_def descend_def)
    then show ?thesis using t ex Some assms(2) by (simp add: diff_at_Nil)
  qed
qed

lemma remove_fails: "remove p doc = (Inl e, d) \<Longrightarrow> d = doc"
  by (auto simp: remove_def Let_def split: if_splits sum.splits option.splits json.splits)

lemma remove_ok:
  assumes "remove (pp @ [k]) doc = (Inr t, d)"
  shows "extract_view d (pp @ [k]) = Inr None"
    and "apart (pp @ [k]) q \<Longrightarrow> apart (pp @ [k @ comment_suffix]) q \<Longrightarrow> extract_view d q = extract_view doc q"
proof -
  consider (absent) "descend doc pp = Inr None" "d = doc"
    | (found) m where "descend doc pp = Inr (Some (VObj m))"
        "d = put_at pp (VObj (odel k (odel (k @ comment_suffix) m))) doc"
    using assms by (auto simp: remove_def is_root_def parent_def path_last_def Let_def
      split: if_splits sum.splits option.splits json.splits)
  note dichotomy = this
  show "extract_view d (pp @ [k]) = Inr None"
    using dichotomy
  proof cases
    case absent
    then show ?thesis
      using descend_from_append [of "pp @ [k]" doc pp "[k]"] descend_from_full [of pp doc pp None "pp @ [k]"]
      by (simp add: extract_view_def descend_def)
  next
    case found
    then show ?thesis
      using put_at_look(1) [of pp doc pp "VObj m" "pp @ [k]" _ "[k]"]
      by (simp add: extract_view_def descend_def)
  qed
  assume a: "apart (pp @ [k]) q" "apart (pp @ [k @ comment_suffix]) q"
  show "extract_view d q = extract_view doc q"
    using dichotomy
  proof cases
    case found
    show ?thesis
    proof (cases "prefix pp q")
      case True
      then obtain r where r: "q = pp @ r" by (auto simp: prefix_def)
      with a obtain j rs where j: "r = j # rs" "j \<noteq> k" "j \<noteq> k @ comment_suffix"
        by (cases r) (auto simp: apart_def)
      have "descend_from q doc pp = Inr (Some (VObj m))"
        using found(1) descend_from_full [of pp doc pp _ q] by (simp add: descend_def)
      then have "descend_from q doc q = descend_from q (VObj m) r"
        by (simp add: r descend_from_append)
      moreover have "descend_from q d q = descend_from q (VObj (odel k (odel (k @ comment_suffix) m))) r"
        unfolding found(2) using put_at_look(1) [of pp doc pp "VObj m" q] found(1)
        by (simp add: r descend_def)
      ultimately show ?thesis using j by (simp add: extract_view_def descend_def)
    next
      case False
      moreover have "\<not> prefix q pp" using a(1) by (auto simp: apart_def)
      ultimately have "apart pp q" by (simp add: apart_def)
      then show ?thesis using put_at_look(2) [of pp doc pp "VObj m" q q] found
        by (simp add: extract_view_def descend_def)
    qed
  qed (simp add: extract_view_def)
qed

definition merge_base :: "json option \<Rightarrow> json" where
  "merge_base x = (case x of Some (VObj m) \<Rightarrow> VObj m | _ \<Rightarrow> VObj [])"

lemma merge_fails: "merge p patch doc = (Inl e, d) \<Longrightarrow> d = doc"
  by (auto simp: merge_def is_root_def then_do_def descend_creating_def Let_def
      split: if_splits prod.splits sum.splits dest: creating_fails)

lemma merge_ok:
  assumes "merge p patch doc = (Inr t, d)" "p \<noteq> []"
  shows "\<exists>old. extract_view doc p = Inr old
    \<and> (t = [] \<longleftrightarrow> snd (apply_obj (merge_base old) patch []) = [] \<and> (case old of Some v \<Rightarrow> is_object v | None \<Rightarrow> True))
    \<and> (if t = [] then d = doc
       else extract_view d p = Inr (Some (fst (apply_obj (merge_base old) patch [])))
         \<and> (\<forall>q. apart p q \<longrightarrow> extract_view d q = extract_view doc q))"
proof -
  have p: "the (parent p) = butlast p" "the (path_last p) = last p" "butlast p @ [last p] = p"
    using assms(2) by (simp_all add: parent_def path_last_def)
  obtain old where old: "descend doc p = Inr old"
    using assms by (auto simp: merge_def is_root_def Let_def split: sum.splits)
  have base: "(case old of Some (VObj m) \<Rightarrow> VObj m | _ \<Rightarrow> VObj []) = merge_base old"
    by (simp add: merge_base_def)
  have t: "t = [] \<longleftrightarrow> snd (apply_obj (merge_base old) patch []) = [] \<and> (case old of Some v \<Rightarrow> is_object v | None \<Rightarrow> True)"
    and unchanged: "t = [] \<Longrightarrow> d = doc"
    and changed: "t \<noteq> [] \<Longrightarrow> \<exists>c d1. creating_from (butlast p) doc (butlast p) = (Inr c, d1)
        \<and> d = insert_below (butlast p) (last p) (fst (apply_obj (merge_base old) patch [])) c d1"
    using assms(1) apply_obj_path [of "merge_base old" patch p]
    by (cases "creating_from (butlast p) doc (butlast p)";
        auto simp: merge_def is_root_def assms(2) old p base then_do_def descend_creating_def Let_def split_beta
        split: if_splits sum.splits option.splits)+
  show ?thesis
  proof (intro exI [of _ old] conjI t)
    show "extract_view doc p = Inr old" using old by (simp add: extract_view_def)
    show "if t = [] then d = doc
       else extract_view d p = Inr (Some (fst (apply_obj (merge_base old) patch [])))
         \<and> (\<forall>q. apart p q \<longrightarrow> extract_view d q = extract_view doc q)"
    proof (cases "t = []")
      case False
      then obtain c d1 where c: "creating_from (butlast p) doc (butlast p) = (Inr c, d1)"
        and d: "d = insert_below (butlast p) (last p) (fst (apply_obj (merge_base old) patch [])) c d1"
        using changed by blast
      show ?thesis
        using insert_creating(1) [OF c, of p "last p"] insert_creating(2) [OF c, of "last p"] False
        by (simp add: d extract_view_def descend_def p)
    qed (simp add: unchanged)
  qed
qed

section \<open>The comment rules\<close>

lemma strip_items_map: "strip_items xs = map strip_comments xs"
  by (induction xs) auto

lemma strip_entries_map:
  "strip_entries m = map (\<lambda>(k, v). (k, strip_comments v)) (filter (\<lambda>(k, v). \<not> is_comment_key k) m)"
  by (induction m) auto

text \<open>No comment key at any depth.\<close>

definition no_comment_keys :: "json \<Rightarrow> bool" where
  "no_comment_keys w \<longleftrightarrow> (\<forall>m. w = VObj m \<longrightarrow> (\<forall>(k, v) \<in> set m. \<not> is_comment_key k))"

definition comment_free :: "json \<Rightarrow> bool" where
  "comment_free v \<longleftrightarrow> all_sub no_comment_keys v"

lemma comment_free_obj:
  "comment_free (VObj m) \<longleftrightarrow> (\<forall>(k, v) \<in> set m. \<not> is_comment_key k \<and> comment_free v)"
  by (auto simp: comment_free_def all_sub_obj no_comment_keys_def)

lemma comment_free_arr: "comment_free (VArr xs) \<longleftrightarrow> (\<forall>x \<in> set xs. comment_free x)"
  by (simp add: comment_free_def all_sub_arr no_comment_keys_def)

lemma comment_free_scalar [simp]: "comment_free VNull" "comment_free (VBool b)" "comment_free (VNum n)" "comment_free (VStr s)"
  by (simp_all add: comment_free_def no_comment_keys_def)

lemma strip_comment_free: "comment_free (strip_comments v)"
proof (induction v)
  case (Arr xs)
  then show ?case by (simp add: comment_free_arr strip_items_map)
next
  case (Obj m)
  then show ?case by (fastforce simp: comment_free_obj strip_entries_map)
qed simp_all

lemma strip_id: "comment_free v \<Longrightarrow> strip_comments v = v"
proof (induction v)
  case (Arr xs)
  then show ?case by (simp add: comment_free_arr strip_items_map map_idI)
next
  case (Obj m)
  then have "filter (\<lambda>(k, v). \<not> is_comment_key k) m = m"
    by (auto simp: comment_free_obj filter_id_conv)
  with Obj show ?case by (auto simp: comment_free_obj strip_entries_map intro!: map_idI)
qed simp_all

lemma strip_entries_insert_comment:
  "is_comment_key k \<Longrightarrow> strip_entries (insert_at i (k, v) out) = strip_entries out"
proof -
  assume k: "is_comment_key k"
  have "strip_entries (take i out @ (k, v) # drop i out) = strip_entries (take i out) @ strip_entries (drop i out)"
    using k by (simp add: strip_entries_map)
  also have "\<dots> = strip_entries (take i out @ drop i out)" by (simp only: strip_entries_map filter_append map_append)
  finally show ?thesis by (simp add: insert_at_def)
qed

lemma strip_keep_notes: "strip_entries (keep_notes om prev rest out) = strip_entries out"
proof (induction om prev rest out rule: keep_notes.induct)
  case (2 om prev k v rest out)
  have "is_comment_key k" if "strip_suffix comment_suffix k = Some s" for s
    using that by (auto simp: is_comment_key_def strip_suffix_Some suffix_def)
  with 2 show ?case
    by (auto simp: Let_def strip_entries_insert_comment split: option.splits)
qed simp

text \<open>Putting stored notes back does not change what a reader without notes sees.\<close>

lemma strip_keep_comments:
  "strip_comments (keep_comments old new) = strip_comments new"
  "strip_entries (keep_children om nm) = strip_entries nm"
proof (induction old new and om nm rule: keep_comments_keep_children.induct)
  case (1 old new)
  then show ?case by (cases old; cases new) (simp_all add: strip_keep_notes)
qed (auto split: option.splits)

text \<open>The documents whose notes a stripped read written back restores: every note is the map's own
  (\<open>__\<close>) or has its subject, itself no note, beside it, and arrays hold no notes.\<close>

definition note_restorable :: "vmap \<Rightarrow> string \<Rightarrow> bool" where
  "note_restorable m k \<longleftrightarrow>
     (case strip_suffix comment_suffix k of
        Some subject \<Rightarrow> subject = [] \<or> (ohas m subject \<and> \<not> is_comment_key subject)
      | None \<Rightarrow> True)"

fun restorable :: "json \<Rightarrow> bool"
  and restorable_entries :: "vmap \<Rightarrow> (string \<times> json) list \<Rightarrow> bool" where
  "restorable (VObj m) = restorable_entries m m"
| "restorable (VArr xs) = (strip_comments (VArr xs) = VArr xs)"
| "restorable VNull = True"
| "restorable (VBool b) = True"
| "restorable (VNum n) = True"
| "restorable (VStr s) = True"
| "restorable_entries m0 [] = True"
| "restorable_entries m0 ((k, v) # m) =
     (note_restorable m0 k \<and> (is_comment_key k \<or> restorable v) \<and> restorable_entries m0 m)"

lemma restorable_entries_iff:
  "restorable_entries m0 m \<longleftrightarrow> (\<forall>(k, v) \<in> set m. note_restorable m0 k \<and> (is_comment_key k \<or> restorable v))"
  by (induction m) auto

lemma key_position_last: "j \<notin> fst ` set pre \<Longrightarrow> key_position_in j (pre @ (j, u) # r) = Some (length pre)"
  by (induction pre) auto

lemma is_comment_key_iff: "is_comment_key k \<longleftrightarrow> (\<exists>s. strip_suffix comment_suffix k = Some s)"
  by (auto simp: is_comment_key_def strip_suffix_Some suffix_def)

lemma keep_notes_restores:
  assumes "m = pre @ rest" "odistinct m" "\<And>k v. (k, v) \<in> set m \<Longrightarrow> note_restorable m k"
  shows "keep_notes m (rev (map fst pre)) rest (pre @ filter (\<lambda>(k, v). \<not> is_comment_key k) rest) = m"
  using assms(1)
proof (induction rest arbitrary: pre)
  case (Cons e rest)
  obtain k v where e: "e = (k, v)" by (cases e)
  let ?nc = "filter (\<lambda>(k, v). \<not> is_comment_key k) rest"
  have nxt: "keep_notes m (k # rev (map fst pre)) rest ((pre @ [(k, v)]) @ ?nc) = m"
    using Cons.IH [of "pre @ [(k, v)]"] Cons.prems by (simp add: e)
  show ?case
  proof (cases "is_comment_key k")
    case False
    then have "strip_suffix comment_suffix k = None" by (auto simp: is_comment_key_iff)
    with nxt False show ?thesis by (simp add: e)
  next
    case True
    then obtain s where s: "strip_suffix comment_suffix k = Some s" by (auto simp: is_comment_key_iff)
    have m: "m = pre @ (k, v) # rest" using Cons.prems e by simp
    then have "note_restorable m k" using assms(3) by auto
    then have alive: "s = [] \<or> (ohas m s \<and> ohas (pre @ ?nc) s)"
      using s m True by (auto simp: note_restorable_def ohas_iff)
    have fresh: "\<not> ohas (pre @ ?nc) k" using assms(2) m by (force simp: ohas_iff)
    have "(case find_map (\<lambda>j. key_position_in j (pre @ ?nc)) (rev (map fst pre)) of None \<Rightarrow> 0 | Some i \<Rightarrow> i + 1)
        = length pre"
    proof (cases pre rule: rev_cases)
      case (snoc pre' ju)
      then have "key_position_in (fst ju) (pre @ ?nc) = Some (length pre')"
        using assms(2) m key_position_last [of "fst ju" pre' "snd ju" ?nc] by simp
      with snoc show ?thesis by simp
    qed simp
    with nxt s True alive fresh show ?thesis by (simp add: e insert_at_def)
  qed
qed simp

lemma keep_strip:
  "wf_value v \<Longrightarrow> restorable v \<Longrightarrow>
     (if is_object v then keep_comments v (strip_comments v) = v else strip_comments v = v)"
proof (induction v)
  case (Obj m)
  have m: "odistinct m" using Obj.prems by simp
  have "keep_children m (strip_entries l) = filter (\<lambda>(k, v). \<not> is_comment_key k) l" if "set l \<subseteq> set m" for l
    using that
  proof (induction l)
    case (Cons e l)
    obtain k v where e: "e = (k, v)" by (cases e)
    with Cons.prems have kv: "(k, v) \<in> set m" by simp
    have IH: "restorable v \<Longrightarrow> if is_object v then keep_comments v (strip_comments v) = v else strip_comments v = v"
      using Obj.IH [OF kv] Obj.prems(1) kv by (auto simp: wf_entries_iff)
    have "is_object v \<longleftrightarrow> is_object (strip_comments v)" by (cases v) auto
    moreover have "is_comment_key k \<or> restorable v" using Obj.prems(2) kv by (auto simp: restorable_entries_iff)
    moreover have "map_of m k = Some v" using kv m by simp
    ultimately show ?case using Cons IH
      by (auto simp: e simp del: keep_comments.simps split: if_splits)
  qed simp
  then have "keep_children m (strip_entries m) = filter (\<lambda>(k, v). \<not> is_comment_key k) m" by blast
  moreover have "keep_notes m [] m (filter (\<lambda>(k, v). \<not> is_comment_key k) m) = m"
    using keep_notes_restores [of m "[]" m] m Obj.prems(2) by (auto simp: restorable_entries_iff)
  ultimately show ?case by simp
qed simp_all


lemma stale_note_lost:
  "keep_comments (VObj [(''a__'', VStr ''x'')]) (strip_comments (VObj [(''a__'', VStr ''x'')])) = VObj []"
  by code_simp

section \<open>Properties\<close>

text \<open>A replace that succeeds can be read back, and it changes nothing apart from its prefix,
  also where it creates the maps leading to it.\<close>

theorem replace_reads_back:
  assumes "replace p sub doc = (Inr t, d)"
  shows "extract_view d p = Inr (Some sub) \<and> (apart p q \<longrightarrow> extract_view d q = extract_view doc q)"
  using replace_ok [OF assms] by blast

theorem replace_reads_back_witness:
  "extract_view (snd (replace [''a'', ''b''] (VBool True) (VObj [(''c'', VNull)]))) [''a'', ''b''] = Inr (Some (VBool True))"
proof -
  have "replace [''a'', ''b''] (VBool True) (VObj [(''c'', VNull)])
      = (Inr [\<lparr>t_path = [''a'', ''b''], t_op = OpSet\<rparr>], VObj [(''c'', VNull), (''a'', VObj [(''b'', VBool True)])])"
    by code_simp
  from replace_reads_back [OF this, of "[]"] this show ?thesis by simp
qed

text \<open>A merge at a prefix below the root. It touches nothing exactly when the patch touches
  nothing of the map that is there (or of the empty map, if nothing is there), and then the
  document is unchanged, with no container created. Otherwise the prefix holds the patched map and
  everything apart from it is as it was.\<close>

theorem merge_law:
  assumes "merge p patch doc = (Inr t, d)" "p \<noteq> []"
  shows "\<exists>old. extract_view doc p = Inr old
    \<and> (t = [] \<longleftrightarrow> snd (apply_obj (merge_base old) patch []) = [] \<and> (case old of Some v \<Rightarrow> is_object v | None \<Rightarrow> True))
    \<and> (if t = [] then d = doc
       else extract_view d p = Inr (Some (fst (apply_obj (merge_base old) patch [])))
         \<and> (\<forall>q. apart p q \<longrightarrow> extract_view d q = extract_view doc q))"
  by (rule merge_ok [OF assms])

theorem merge_law_witness:
  "snd (merge [''a'', ''b''] (VObj [(''x'', VNull)]) (VObj [(''c'', VStr ''y'')])) = VObj [(''c'', VStr ''y'')]"
proof -
  have m: "merge [''a'', ''b''] (VObj [(''x'', VNull)]) (VObj [(''c'', VStr ''y'')])
      = (Inr [], VObj [(''c'', VStr ''y'')])" by code_simp
  from merge_law [OF m] m show ?thesis by simp
qed

text \<open>After a remove below the root nothing is found at the prefix, and everything apart from
  the prefix and from its note is as it was.\<close>

theorem remove_law:
  assumes "remove (pp @ [k]) doc = (Inr t, d)"
  shows "extract_view d (pp @ [k]) = Inr None
    \<and> (apart (pp @ [k]) q \<and> apart (pp @ [k @ comment_suffix]) q \<longrightarrow> extract_view d q = extract_view doc q)"
  using remove_ok [OF assms] by blast

theorem remove_law_witness:
  "extract_view (VObj [(''a'', VObj [(''c'', VNull)])]) ([''a''] @ [''b'']) = Inr None"
proof -
  have "remove ([''a''] @ [''b'']) (VObj [(''a'', VObj [(''b'', VStr ''x''), (''b__'', VStr ''n''), (''c'', VNull)])])
    = (Inr [\<lparr>t_path = [''a'', ''b__''], t_op = OpDelete\<rparr>, \<lparr>t_path = [''a'', ''b''], t_op = OpDelete\<rparr>],
       VObj [(''a'', VObj [(''c'', VNull)])])" by code_simp
  from remove_law [OF this] show ?thesis by simp
qed

text \<open>A read without notes written back restores the stored document exactly, notes and order
  included, for every document whose notes all have their subject beside them.\<close>

theorem stripped_read_written_back:
  assumes "wf_value (VObj m)" "restorable (VObj m)"
  shows "keep_comments (VObj m) (strip_comments (VObj m)) = VObj m"
  using keep_strip [OF assms] by simp

theorem stripped_read_written_back_witness:
  "keep_comments (VObj [(''__'', VStr ''m''), (''a__'', VStr ''x''), (''b'', VObj [(''c'', VNull), (''c__'', VStr ''y'')]), (''a'', VNull)])
     (VObj [(''b'', VObj [(''c'', VNull)]), (''a'', VNull)])
   = VObj [(''__'', VStr ''m''), (''a__'', VStr ''x''), (''b'', VObj [(''c'', VNull), (''c__'', VStr ''y'')]), (''a'', VNull)]"
proof -
  let ?m = "[(''__'', VStr ''m''), (''a__'', VStr ''x''), (''b'', VObj [(''c'', VNull), (''c__'', VStr ''y'')]), (''a'', VNull)]"
  have "wf_value (VObj ?m)" by code_simp
  moreover have "restorable (VObj ?m)" by code_simp
  moreover have "strip_comments (VObj ?m) = VObj [(''b'', VObj [(''c'', VNull)]), (''a'', VNull)]" by code_simp
  ultimately show ?thesis using stripped_read_written_back [of ?m] by simp
qed

text \<open>What a read without notes answers has no comment key at any depth, and restoring stored
  notes into a write never changes what such a read answers.\<close>

theorem notes_are_invisible_to_stripped_reads:
  "comment_free (strip_comments v) \<and> strip_comments (keep_comments old new) = strip_comments new"
  by (simp add: strip_comment_free strip_keep_comments(1) del: keep_comments.simps)

end
