(* ===== verification/Syslog.thy ===== *)
theory Syslog
  imports FileSystem
begin

text \<open>
  The outside world of an operation: the file system and the log (\<open>warn\<close> and \<open>audit\<close> of lib.rs).
  The log holds the lines handed to \<open>syslog\<close>; the copy of a warning on standard error is not
  kept. \<open>ask\<close> and \<open>act\<close> run an operation of the file system inside the world, with its error
  converted (the source's \<open>From\<close> for the error type).
\<close>

record world =
  w_fs :: fs
  w_log :: "string list"

definition syslog_line :: "string \<Rightarrow> string \<Rightarrow> string" where
  "syslog_line tag msg = map (\<lambda>c. if c = CHR 0x00 then CHR '' '' else c) (tag @ '': '' @ msg)"

definition audit :: "string \<Rightarrow> world \<Rightarrow> ('e + unit) \<times> world" where
  "audit msg w = (Inr (), w\<lparr>w_log := w_log w @ [syslog_line ''pve-meta audit'' msg]\<rparr>)"

definition warn :: "string \<Rightarrow> world \<Rightarrow> ('e + unit) \<times> world" where
  "warn msg w = (Inr (), w\<lparr>w_log := w_log w @ [syslog_line ''pve-meta'' msg]\<rparr>)"

definition ask :: "('d \<Rightarrow> 'e) \<Rightarrow> (fs \<Rightarrow> 'd + 'a) \<Rightarrow> world \<Rightarrow> ('e + 'a) \<times> world" where
  "ask conv f w = (map_err conv (f (w_fs w)), w)"

definition act :: "('d \<Rightarrow> 'e) \<Rightarrow> (fs \<Rightarrow> ('d + 'a) \<times> fs) \<Rightarrow> world \<Rightarrow> ('e + 'a) \<times> world" where
  "act conv m w = (case m (w_fs w) of (r, t) \<Rightarrow> (map_err conv r, w\<lparr>w_fs := t\<rparr>))"

lemma syslog_line_no_nul: "CHR 0x00 \<notin> set (syslog_line tag msg)"
  by (auto simp: syslog_line_def)

lemma ask_Inr: "ask conv f w = (Inr x, w') \<longleftrightarrow> f (w_fs w) = Inr x \<and> w' = w"
  by (auto simp: ask_def map_err_def split: sum.splits)

lemma ask_state: "ask conv f w = (r, w') \<Longrightarrow> w' = w"
  by (simp add: ask_def)

lemma act_Inr: "act conv m w = (Inr x, w') \<longleftrightarrow> (\<exists>t. m (w_fs w) = (Inr x, t) \<and> w' = w\<lparr>w_fs := t\<rparr>)"
  by (auto simp: act_def map_err_def split: sum.splits prod.splits)

lemma audit_simps [simp]:
  "fst (audit msg w) = Inr ()" "w_fs (snd (audit msg w)) = w_fs w"
  "w_log (snd (audit msg w)) = w_log w @ [syslog_line ''pve-meta audit'' msg]"
  by (simp_all add: audit_def)

end
