(* ===== verification/Api.thy ===== *)
theory Api
  imports Store Views Syslog
begin

text \<open>
  The API layer (api.rs, api/types.rs): identifiers, views and formats of a request, the caller's
  access, the reading of stored documents that may not be readable, and the handlers behind GET, PUT
  and DELETE. A handler is a function of the world; every early return of the source is an
  \<open>api_error\<close> with its status.
\<close>

section \<open>Wire types\<close>

record api_error =
  ae_status :: nat
  ae_msg :: string

record caller_acl =
  acl_authid :: string
  acl_read :: bool
  acl_write :: bool
  acl_tags :: "string list"
  acl_node :: "string option"

record guest_input =
  gi_vmid :: vmid
  gi_node :: "string option"
  gi_kind :: "string option"
  gi_name :: "string option"
  gi_tags :: "string list"
  gi_read :: bool

record guest_list_entry =
  ge_vmid :: vmid
  ge_node :: "string option"
  ge_kind :: "string option"
  ge_name :: "string option"
  ge_tags :: "string list"
  ge_digest :: string

record api_touched =
  at_path :: string
  at_op :: string

record api_view_document =
  vd_id :: string
  vd_view :: string
  vd_digest :: string
  vd_data :: "json option"
  vd_text :: "string option"
  vd_parse_error :: "string option"

record api_put_result =
  pr_id :: string
  pr_view :: string
  pr_digest :: string
  pr_touched :: "api_touched list"

record api_access =
  aa_read :: bool
  aa_write :: bool

record failed_prefix =
  fp_prefix :: string
  fp_origin :: origin
  fp_error :: string

datatype prefix_entry = LoadedPrefix prefix_def | FailedPrefix failed_prefix

definition failed_prefix_of :: "registry_failure \<Rightarrow> failed_prefix" where
  "failed_prefix_of f = \<lparr>fp_prefix = rf_name f, fp_origin = rf_origin f, fp_error = rf_error f\<rparr>"

section \<open>Errors\<close>

definition show_digest :: "string \<Rightarrow> string" where
  "show_digest d = (if d = [] then ''<empty>'' else d)"

fun status_of :: "error \<Rightarrow> nat" where
  "status_of (EDigestMismatch _ _) = 409"
| "status_of (ENotFound _) = 404"
| "status_of (ELint _) = 400"
| "status_of (EParse _ _ _) = 400"
| "status_of (EInvalidPath _) = 400"
| "status_of (EInvalidName _) = 400"
| "status_of (ERegistry _) = 400"
| "status_of (ETooLarge _ _) = 400"
| "status_of (EUnavailable _) = 503"
| "status_of (EIo _) = 500"
| "status_of (EOther _) = 500"

definition api_error_of :: "error \<Rightarrow> api_error" where
  "api_error_of err =
     \<lparr>ae_status = status_of err,
      ae_msg = (case err of
          EDigestMismatch expected actual \<Rightarrow>
            ''digest mismatch: expected '' @ show_digest expected @ '', actual '' @ show_digest actual
        | other \<Rightarrow> error_text other)\<rparr>"

definition bad_request :: "string \<Rightarrow> api_error" where
  "bad_request msg = \<lparr>ae_status = 400, ae_msg = msg\<rparr>"

definition forbidden :: "path \<Rightarrow> api_error" where
  "forbidden p =
     (if is_root p then \<lparr>ae_status = 403, ae_msg = ''not permitted: the whole document''\<rparr>
      else \<lparr>ae_status = 403, ae_msg = ''not permitted: '' @ show_path p\<rparr>)"

section \<open>The parameters of a request\<close>

definition parse_id :: "string \<Rightarrow> api_error + doc_id" where
  "parse_id ident =
     (case split_once CHR ''/'' ident of
        Some (kind, name) \<Rightarrow>
          if kind \<noteq> ''prefixes'' then
            Inl (bad_request (''invalid id '' @ quoted ident @ '': unknown registry kind '' @ quoted kind
              @ '' (expected '' @ quoted ''prefixes'' @ '')''))
          else if \<not> is_valid_file_name name then
            Inl (bad_request (''invalid id '' @ quoted ident @ '': '' @ quoted name @ '' is not a valid ''
              @ kind_as_str PrefixDef @ '' name''))
          else Inr (Registry PrefixDef name)
      | None \<Rightarrow>
          (case parse_u32 ident of
             Some v \<Rightarrow> Inr (Guest v)
           | None \<Rightarrow> Inl (bad_request (''invalid id '' @ quoted ident @ '': must be a vmid or ''
               @ quoted ''prefixes/<name>''))))"

definition node_name :: "string \<Rightarrow> api_error + string" where
  "node_name node = map_err (\<lambda>_. bad_request (''invalid node name '' @ quoted node)) (node_name_new node)"

definition parse_view :: "string option \<Rightarrow> api_error + path" where
  "parse_view vw = (case vw of Some s \<Rightarrow> map_err api_error_of (parse_path s) | None \<Rightarrow> Inr root)"

definition view_out :: "string option \<Rightarrow> string" where
  "view_out vw = unwrap_or [] vw"

definition parse_view_format :: "string \<Rightarrow> api_error + format" where
  "parse_view_format name =
     ok_or (bad_request (''invalid format '' @ quoted name @ '': expected '' @ quoted ''json'' @ '' or '' @ quoted ''yaml''))
       (from_ext name)"

section \<open>Stored documents\<close>

record stored =
  st_value :: json
  st_digest :: string
  st_unrecoverable :: "string option"
  st_raw :: "string option"

definition absent :: stored where
  "absent = \<lparr>st_value = VObj [], st_digest = [], st_unrecoverable = None, st_raw = None\<rparr>"

definition unrecoverable :: "string \<Rightarrow> string option \<Rightarrow> string \<Rightarrow> stored" where
  "unrecoverable dg raw reason =
     \<lparr>st_value = VObj [], st_digest = dg, st_unrecoverable = Some reason, st_raw = raw\<rparr>"

definition is_content_error :: "error \<Rightarrow> bool" where
  "is_content_error e = (case e of ETooLarge _ _ \<Rightarrow> True | EParse _ _ _ \<Rightarrow> True | _ \<Rightarrow> False)"

definition read_stored :: "libs \<Rightarrow> meta_store \<Rightarrow> doc_id \<Rightarrow> fs \<Rightarrow> api_error + stored" where
  "read_stored L M did s =
     (case read L M did s of
        Inl (ENotFound _) \<Rightarrow> Inr absent
      | Inl e \<Rightarrow>
          if is_content_error e
          then andthen (map_err api_error_of (digest_of L M did s)) (\<lambda>dg.
                 Inr (unrecoverable (unwrap_or [] dg) None (error_text e)))
          else Inl (api_error_of e)
      | Inr doc \<Rightarrow>
          (case dc_parse_error doc of
             Some err \<Rightarrow> Inr (unrecoverable (dc_digest doc) (Some (dc_raw doc)) err)
           | None \<Rightarrow>
               if \<not> is_object (dc_value doc)
               then Inr (unrecoverable (dc_digest doc) (Some (dc_raw doc)) ''the stored document is not a mapping'')
               else Inr \<lparr>st_value = dc_value doc, st_digest = dc_digest doc, st_unrecoverable = None,
                         st_raw = Some (dc_raw doc)\<rparr>))"

fun op_text :: "op \<Rightarrow> string" where
  "op_text OpSet = ''set''"
| "op_text OpDelete = ''delete''"

definition touched_out :: "touched list \<Rightarrow> api_touched list" where
  "touched_out ts = map (\<lambda>t. \<lparr>at_path = show_path (t_path t), at_op = op_text (t_op t)\<rparr>) ts"

section \<open>Listings\<close>

definition api_version :: "libs \<Rightarrow> meta_store \<Rightarrow> fs \<Rightarrow> api_error + string" where
  "api_version L M s = map_err api_error_of (version L M s)"

definition access :: "meta_store \<Rightarrow> caller_acl \<Rightarrow> fs \<Rightarrow> api_error + api_access" where
  "access M acl s =
     andthen (map_err api_error_of (check_available M s)) (\<lambda>_.
     Inr \<lparr>aa_read = acl_read acl, aa_write = acl_write acl\<rparr>)"

definition prefixes_list :: "prefix_def list \<Rightarrow> registry_failure list \<Rightarrow> prefix_entry list" where
  "prefixes_list ps failures = map LoadedPrefix ps @ map (\<lambda>f. FailedPrefix (failed_prefix_of f)) failures"

definition api_prefixes :: "libs \<Rightarrow> registry \<Rightarrow> string option \<Rightarrow> string list option \<Rightarrow> fs
    \<Rightarrow> api_error + prefix_entry list" where
  "api_prefixes L reg node tags s =
     andthen (case node of None \<Rightarrow> Inr None | Some n \<Rightarrow> andthen (node_name n) (\<lambda>x. Inr (Some x))) (\<lambda>nd.
     andthen (map_err api_error_of
       (case tags of
          Some ts \<Rightarrow> prefixes_for_guest L reg nd ts s
        | None \<Rightarrow> list_prefixes L reg s)) (\<lambda>(loaded, failures).
     Inr (prefixes_list loaded failures)))"

definition effective_prefixes :: "libs \<Rightarrow> registry \<Rightarrow> doc_id \<Rightarrow> caller_acl \<Rightarrow> fs \<Rightarrow> api_error + prefix_def list" where
  "effective_prefixes L reg did acl s =
     (case did of
        Guest _ \<Rightarrow> map_err api_error_of
          (andthen (prefixes_for_guest L reg (acl_node acl) (acl_tags acl) s) (\<lambda>r. Inr (fst r)))
      | Registry _ _ \<Rightarrow> Inr [])"

definition guest_row :: "guest_input \<Rightarrow> string \<Rightarrow> guest_list_entry" where
  "guest_row g dg =
     \<lparr>ge_vmid = gi_vmid g, ge_node = gi_node g, ge_kind = gi_kind g, ge_name = gi_name g, ge_tags = gi_tags g,
      ge_digest = dg\<rparr>"

definition list_one :: "libs \<Rightarrow> meta_store \<Rightarrow> path option \<Rightarrow> fs \<Rightarrow> guest_input \<Rightarrow> api_error + guest_list_entry list" where
  "list_one L M has_path s g =
     (if \<not> gi_read g then Inr []
      else (case has_path of
          Some p \<Rightarrow>
            andthen (read_stored L M (Guest (gi_vmid g)) s) (\<lambda>stored.
            if get_path (strip_comments (st_value stored)) p = None then Inr []
            else Inr [guest_row g (st_digest stored)])
        | None \<Rightarrow>
            andthen (map_err api_error_of (digest_of L M (Guest (gi_vmid g)) s)) (\<lambda>dg.
            Inr [guest_row g (unwrap_or [] dg)])))"

definition list_guests :: "libs \<Rightarrow> meta_store \<Rightarrow> guest_input list \<Rightarrow> string option \<Rightarrow> fs
    \<Rightarrow> api_error + guest_list_entry list" where
  "list_guests L M guests has s =
     andthen (case has of None \<Rightarrow> Inr None | Some h \<Rightarrow> andthen (map_err api_error_of (parse_path h)) (\<lambda>p. Inr (Some p)))
       (\<lambda>has_path.
     andthen (map_res (list_one L M has_path s) guests) (\<lambda>rows. Inr (concat rows)))"

section \<open>GET\<close>

definition not_renderable :: "string \<Rightarrow> api_error" where
  "not_renderable err =
     \<lparr>ae_status = 422,
      ae_msg = ''the stored document cannot be rendered: '' @ err
        @ '' (read it raw with format=yaml&comments=1 (CLI: --comments); ''
        @ ''replace it with a full document (no '' @ quoted ''view'' @ '', mode=replace) or delete it)''\<rparr>"

definition get_document :: "libs \<Rightarrow> meta_store \<Rightarrow> string \<Rightarrow> string option \<Rightarrow> string \<Rightarrow> bool \<Rightarrow> caller_acl \<Rightarrow> fs
    \<Rightarrow> api_error + api_view_document" where
  "get_document L M ident vw format_name comments acl s =
     andthen (parse_id ident) (\<lambda>did.
     andthen (parse_view_format format_name) (\<lambda>fmt.
     andthen (parse_view vw) (\<lambda>view_path.
     andthen (guard_err (acl_read acl) (forbidden view_path)) (\<lambda>_.
     andthen (read_stored L M did s) (\<lambda>stored.
     (case st_unrecoverable stored of
        Some err \<Rightarrow>
          (case st_raw stored of
             Some raw \<Rightarrow>
               if fmt = Yaml \<and> comments
               then Inr \<lparr>vd_id = show_doc_id did, vd_view = view_out vw, vd_digest = st_digest stored, vd_data = None,
                         vd_text = Some raw, vd_parse_error = Some err\<rparr>
               else Inl (not_renderable err)
           | None \<Rightarrow> Inl (not_renderable err))
      | None \<Rightarrow>
          let base = (if comments then st_value stored else strip_comments (st_value stored)) in
          andthen (if vw \<noteq> None
                   then andthen (map_err api_error_of (extract_view base view_path)) (\<lambda>r. Inr (unwrap_or (VObj []) r))
                   else Inr base) (\<lambda>result_value.
          let (data, txt) = (case fmt of
                 Json \<Rightarrow> (Some result_value, None)
               | Yaml \<Rightarrow>
                   let own_text = (case st_raw stored of
                                     Some raw \<Rightarrow> if raw \<noteq> [] \<and> comments then Some raw else None
                                   | None \<Rightarrow> None)
                   in (None, Some (case (vw, own_text) of
                                     (None, Some raw) \<Rightarrow> raw
                                   | _ \<Rightarrow> render L result_value Yaml)))
          in Inr \<lparr>vd_id = show_doc_id did, vd_view = view_out vw, vd_digest = st_digest stored, vd_data = data,
                  vd_text = txt, vd_parse_error = None\<rparr>)))))))"

section \<open>The checks of a write\<close>

definition check_repairable :: "stored \<Rightarrow> path \<Rightarrow> bool \<Rightarrow> api_error + unit" where
  "check_repairable stored view_path is_merge =
     (case st_unrecoverable stored of
        None \<Rightarrow> Inr ()
      | Some err \<Rightarrow>
          if is_root view_path \<and> \<not> is_merge then Inr ()
          else Inl (bad_request (''the stored document cannot be read back and can only be repaired as a whole: ''
            @ ''replace it with a full document (no '' @ quoted ''view'' @ '', mode=replace) or delete it ('' @ err @ '')'')))"

definition authorize_write :: "caller_acl \<Rightarrow> api_error + unit" where
  "authorize_write acl =
     guard_err (acl_write acl) \<lparr>ae_status = 403, ae_msg = ''not permitted: no write access to this document''\<rparr>"

definition plan_lint_text :: "bool \<Rightarrow> Core_Types.lint \<Rightarrow> string" where
  "plan_lint_text kept_notes l =
     (if kept_notes \<and> names_comment (lint_path l) then lint_text l @ '' (a stored note; fix it with comments=1)''
      else lint_text l)"

definition plan_write :: "bool \<Rightarrow> (json \<Rightarrow> (api_error + touched list) \<times> json) \<Rightarrow> json \<Rightarrow> (api_error + touched list) \<times> json" where
  "plan_write kept_notes mutate =
     then_do mutate (\<lambda>ts d.
     let lints = Documents.lint d in
     (if lints = [] then Inr ts
      else Inl (bad_request (''document failed validation: '' @ join ''; '' (map (plan_lint_text kept_notes) lints))), d))"

definition check_registry_shape :: "libs \<Rightarrow> doc_id \<Rightarrow> string \<Rightarrow> api_error + unit" where
  "check_registry_shape L did text =
     (case did of
        Guest _ \<Rightarrow> Inr ()
      | Registry kind name \<Rightarrow>
          (case parse_prefix L name text of
             Inr _ \<Rightarrow> Inr ()
           | Inl e \<Rightarrow> Inl (bad_request (''the result would not be a valid '' @ kind_noun kind @ '': '' @ error_text e
               @ '' (the loader would skip the file, so the write is refused instead)''))))"

definition check_enforced :: "libs \<Rightarrow> prefix_def list \<Rightarrow> doc_id \<Rightarrow> json \<Rightarrow> json \<Rightarrow> touched list \<Rightarrow> api_error + unit" where
  "check_enforced L pfs did stored planned ts =
     (case did of
        Registry _ _ \<Rightarrow> Inr ()
      | Guest _ \<Rightarrow>
          let shape = of_guest pfs;
              changed = map t_path ts;
              refused = introduced (enforced_findings L shape stored) (enforced_findings L shape planned) changed
          in if refused = [] then Inr ()
             else Inl \<lparr>ae_status = 422,
               ae_msg = ''the result does not match an enforced schema: ''
                 @ join ''; '' (map (\<lambda>f. show_path (f_path f) @ '': '' @ f_msg f) refused)
                 @ '' (the prefix declares enforce: true; pass force=1 to store it anyway)''\<rparr>)"

section \<open>PUT\<close>

definition parse_mode :: "string \<Rightarrow> api_error + bool" where
  "parse_mode mode =
     (if mode = ''merge'' then Inr True
      else if mode = ''replace'' \<or> mode = [] then Inr False
      else Inl (bad_request (''invalid mode '' @ quoted mode @ '': expected '' @ quoted ''replace'' @ '' or '' @ quoted ''merge'')))"

definition api_err :: "(error + 'a) \<times> json \<Rightarrow> (api_error + 'a) \<times> json" where
  "api_err r = (map_err api_error_of (fst r), snd r)"

text \<open>What PUT does to the document: the merge, or the replace of the view's subtree with the notes
  that are kept.\<close>

definition put_mutation :: "bool \<Rightarrow> bool \<Rightarrow> path \<Rightarrow> json \<Rightarrow> json \<Rightarrow> (api_error + touched list) \<times> json" where
  "put_mutation is_merge keep view_path payload v =
     (if is_merge then api_err (merge view_path payload v)
      else (case extract_view v view_path of
          Inl e \<Rightarrow> (Inl (api_error_of e), v)
        | Inr old \<Rightarrow>
            let subtree = (case old of
                             Some o' \<Rightarrow> if keep then keep_comments o' payload else payload
                           | None \<Rightarrow> payload)
            in api_err (replace view_path subtree v)))"

definition put_audit :: "caller_acl \<Rightarrow> doc_id \<Rightarrow> string option \<Rightarrow> bool \<Rightarrow> touched list \<Rightarrow> string \<Rightarrow> string" where
  "put_audit acl did vw is_merge ts written =
     acl_authid acl @ '' wrote '' @ show_doc_id did @ '' (view '' @ quoted (view_out vw) @ '', mode ''
     @ (if is_merge then ''merge'' else ''replace'') @ ''): '' @ show_nat (length ts) @ '' path(s) touched, digest ''
     @ short written"

definition put_result :: "doc_id \<Rightarrow> string option \<Rightarrow> string \<Rightarrow> touched list \<Rightarrow> api_put_result" where
  "put_result did vw dg ts =
     \<lparr>pr_id = show_doc_id did, pr_view = view_out vw, pr_digest = dg, pr_touched = touched_out ts\<rparr>"

definition put_document :: "libs \<Rightarrow> env \<Rightarrow> meta_store \<Rightarrow> prefix_def list \<Rightarrow> string \<Rightarrow> string option \<Rightarrow> string \<Rightarrow> string
    \<Rightarrow> string \<Rightarrow> string option \<Rightarrow> bool \<Rightarrow> bool \<Rightarrow> bool \<Rightarrow> caller_acl \<Rightarrow> world \<Rightarrow> (api_error + api_put_result) \<times> world" where
  "put_document L E M pfs ident vw format_name payload mode dg dry_run force comments acl =
     then_do (lift_res (parse_id ident)) (\<lambda>did.
     then_do (lift_res (parse_view_format format_name)) (\<lambda>fmt.
     then_do (lift_res (parse_view vw)) (\<lambda>view_path.
     then_do (lift_res (authorize_write acl)) (\<lambda>_.
     then_do (lift_res (parse_mode mode)) (\<lambda>is_merge.
     then_do (lift_res (map_err api_error_of
       (if is_merge then parse_patch L payload fmt else view_parse L payload fmt))) (\<lambda>payload_value.
     let keep = (\<not> is_merge \<and> \<not> comments) in
     then_do (ask api_error_of (check_precondition L M did dg)) (\<lambda>_.
     then_do (ask id (read_stored L M did)) (\<lambda>stored.
     then_do (lift_res (check_repairable stored view_path is_merge)) (\<lambda>_.
     let (plan, planned) = plan_write keep (put_mutation is_merge keep view_path payload_value) (st_value stored) in
     then_do (lift_res plan) (\<lambda>ts.
     let text = dump L disk_format planned in
     then_do (lift_res (check_registry_shape L did text)) (\<lambda>_.
     then_do (lift_res (if force then Inr () else check_enforced L pfs did (st_value stored) planned ts)) (\<lambda>_.
     let unchanged = (ts = [] \<and> st_unrecoverable stored = None \<and> st_raw stored = Some text) in
     then_do (if dry_run \<or> unchanged
              then then_do (lift_res (if unchanged then Inr () else map_err api_error_of (check_size (length text)))) (\<lambda>_.
                   lift_res (Inr (sha256_hex L text)))
              else then_do (act api_error_of (put_raw L E M did text dg)) (\<lambda>doc.
                   then_do (audit (put_audit acl did vw is_merge ts (dc_digest doc))) (\<lambda>_.
                   lift_res (Inr (dc_digest doc))))) (\<lambda>new_digest.
     lift_res (Inr (put_result did vw new_digest ts)))))))))))))))"

section \<open>DELETE\<close>

definition delete_audit :: "caller_acl \<Rightarrow> doc_id \<Rightarrow> string option \<Rightarrow> bool \<Rightarrow> touched list \<Rightarrow> string \<Rightarrow> string" where
  "delete_audit acl did vw packaged_only ts written =
     acl_authid acl @ '' removed view '' @ quoted (view_out vw) @ '' of '' @ show_doc_id did
     @ (if packaged_only then '' as a new cluster file shadowing the packaged one'' else [])
     @ '': '' @ show_nat (length ts) @ '' path(s) touched, digest '' @ short written"

definition is_packaged_only :: "doc_id \<Rightarrow> bool \<Rightarrow> bool" where
  "is_packaged_only did own_file = (case did of Registry _ _ \<Rightarrow> \<not> own_file | Guest _ \<Rightarrow> False)"

definition check_own_file :: "doc_id \<Rightarrow> bool \<Rightarrow> path \<Rightarrow> stored \<Rightarrow> api_error + unit" where
  "check_own_file did own_file view_path stored =
     (case did of
        Guest _ \<Rightarrow> Inr ()
      | Registry kind name \<Rightarrow>
          guard_err (own_file \<or> \<not> is_root view_path \<or> st_digest stored = [])
            \<lparr>ae_status = 404, ae_msg = ''no cluster file for '' @ kind_noun kind @ '' '' @ quoted name
               @ '' (the packaged file cannot be removed)''\<rparr>)"

definition delete_document :: "libs \<Rightarrow> env \<Rightarrow> meta_store \<Rightarrow> string \<Rightarrow> string option \<Rightarrow> string option \<Rightarrow> caller_acl \<Rightarrow> world
    \<Rightarrow> (api_error + api_put_result) \<times> world" where
  "delete_document L E M ident vw dg acl =
     then_do (lift_res (parse_id ident)) (\<lambda>did.
     then_do (lift_res (parse_view vw)) (\<lambda>view_path.
     then_do (lift_res (authorize_write acl)) (\<lambda>_.
     then_do (ask api_error_of (check_precondition L M did dg)) (\<lambda>_.
     then_do (ask id (read_stored L M did)) (\<lambda>stored.
     then_do (lift_res (check_repairable stored view_path False)) (\<lambda>_.
     then_do (ask api_error_of (has_own_file M did)) (\<lambda>own_file.
     then_do (lift_res (check_own_file did own_file view_path stored)) (\<lambda>_.
     let (plan, planned) = plan_write False (\<lambda>v. api_err (remove view_path v)) (st_value stored) in
     then_do (lift_res plan) (\<lambda>ts.
     then_do (if is_root view_path
              then then_do (act api_error_of (delete M did)) (\<lambda>gone.
                   then_do (if gone then audit (acl_authid acl @ '' removed '' @ show_doc_id did) else lift_res (Inr ())) (\<lambda>_.
                   lift_res (Inr [])))
              else if ts = [] then lift_res (Inr (st_digest stored))
              else if st_digest stored \<noteq> []
              then let text = dump L disk_format planned in
                   then_do (lift_res (check_registry_shape L did text)) (\<lambda>_.
                   then_do (act api_error_of (put_raw L E M did text dg)) (\<lambda>doc.
                   then_do (audit (delete_audit acl did vw (is_packaged_only did own_file) ts (dc_digest doc))) (\<lambda>_.
                   lift_res (Inr (dc_digest doc)))))
              else lift_res (Inr [])) (\<lambda>new_digest.
     lift_res (Inr (put_result did vw new_digest ts))))))))))))"

section \<open>A request is a plan and a commit\<close>

text \<open>PUT reads and checks first and writes last: \<open>put_plan\<close> is everything before the write, a
  question to the store, \<open>put_commit\<close> the write with its audit line.\<close>

lemma ask_bind_pure:
  "then_do (ask id (\<lambda>s. andthen r (\<lambda>x. g x s))) k = then_do (lift_res r) (\<lambda>x. then_do (ask id (g x)) k)"
  by (rule ext) (cases r; simp add: then_do_def ask_def)

lemma ask_bind:
  "then_do (ask id (\<lambda>s. andthen (map_err conv (q s)) (\<lambda>x. g x s))) k = then_do (ask conv q) (\<lambda>x. then_do (ask id (g x)) k)"
proof
  fix w
  show "then_do (ask id (\<lambda>s. andthen (map_err conv (q s)) (\<lambda>x. g x s))) k w
    = then_do (ask conv q) (\<lambda>x. then_do (ask id (g x)) k) w"
    by (cases "q (w_fs w)") (simp_all add: then_do_def ask_def)
qed

lemma ask_bind_id:
  "then_do (ask id (\<lambda>s. andthen (q s) (\<lambda>x. g x s))) k = then_do (ask id q) (\<lambda>x. then_do (ask id (g x)) k)"
proof
  fix w
  show "then_do (ask id (\<lambda>s. andthen (q s) (\<lambda>x. g x s))) k w = then_do (ask id q) (\<lambda>x. then_do (ask id (g x)) k) w"
    by (cases "q (w_fs w)") (simp_all add: then_do_def ask_def)
qed

lemma ask_return: "then_do (ask id (\<lambda>s. Inr x)) k = k x"
  by (rule ext) (simp add: then_do_def ask_def)

definition put_plan where
  "put_plan L M pfs ident vw format_name payload mode dg force comments acl s =
     andthen (parse_id ident) (\<lambda>did.
     andthen (parse_view_format format_name) (\<lambda>fmt.
     andthen (parse_view vw) (\<lambda>view_path.
     andthen (authorize_write acl) (\<lambda>_.
     andthen (parse_mode mode) (\<lambda>is_merge.
     andthen (map_err api_error_of
       (if is_merge then parse_patch L payload fmt else view_parse L payload fmt)) (\<lambda>payload_value.
     andthen (map_err api_error_of (check_precondition L M did dg s)) (\<lambda>_.
     andthen (read_stored L M did s) (\<lambda>stored.
     andthen (check_repairable stored view_path is_merge) (\<lambda>_.
     andthen (fst (plan_write (\<not> is_merge \<and> \<not> comments)
         (put_mutation is_merge (\<not> is_merge \<and> \<not> comments) view_path payload_value) (st_value stored))) (\<lambda>ts.
     let planned = snd (plan_write (\<not> is_merge \<and> \<not> comments)
         (put_mutation is_merge (\<not> is_merge \<and> \<not> comments) view_path payload_value) (st_value stored)) in
     andthen (check_registry_shape L did (dump L disk_format planned)) (\<lambda>_.
     andthen (if force then Inr () else check_enforced L pfs did (st_value stored) planned ts) (\<lambda>_.
     Inr (did, is_merge, stored, ts, planned)))))))))))))"

definition put_unchanged :: "libs \<Rightarrow> stored \<Rightarrow> touched list \<Rightarrow> json \<Rightarrow> bool" where
  "put_unchanged L stored ts planned \<longleftrightarrow>
     ts = [] \<and> st_unrecoverable stored = None \<and> st_raw stored = Some (dump L disk_format planned)"

definition put_commit where
  "put_commit L E M vw dg dry_run acl = (\<lambda>(did, is_merge, stored, ts, planned).
     let text = dump L disk_format planned in
     then_do (if dry_run \<or> put_unchanged L stored ts planned
              then then_do (lift_res (if put_unchanged L stored ts planned then Inr ()
                                      else map_err api_error_of (check_size (length text)))) (\<lambda>_.
                   lift_res (Inr (sha256_hex L text)))
              else then_do (act api_error_of (put_raw L E M did text dg)) (\<lambda>doc.
                   then_do (audit (put_audit acl did vw is_merge ts (dc_digest doc))) (\<lambda>_.
                   lift_res (Inr (dc_digest doc))))) (\<lambda>new_digest.
     lift_res (Inr (put_result did vw new_digest ts))))"

lemma put_document_factors:
  "put_document L E M pfs ident vw format_name payload mode dg dry_run force comments acl
     = then_do (ask id (put_plan L M pfs ident vw format_name payload mode dg force comments acl))
         (put_commit L E M vw dg dry_run acl)"
  unfolding put_document_def put_plan_def
  by (simp only: ask_bind_pure ask_bind ask_bind_id ask_return Let_def split_beta put_commit_def put_unchanged_def
      fst_conv snd_conv prod.case)

section \<open>Commits\<close>

lemma normalize_dump: "normalize_trailing_newline (dump L f v) = dump L f v"
  by (simp add: normalize_trailing_newline_def dump_def ensure_single_trailing_newline_def trim_end_nl_def)

lemma put_document_Inr:
  assumes "put_document L E M pfs ident vw format_name payload mode dg dry_run force comments acl w = (Inr r, w')"
  shows "\<exists>did is_merge stored ts planned.
    put_plan L M pfs ident vw format_name payload mode dg force comments acl (w_fs w) = Inr (did, is_merge, stored, ts, planned)
    \<and> put_commit L E M vw dg dry_run acl (did, is_merge, stored, ts, planned) w = (Inr r, w')"
  using assms unfolding put_document_factors
  by (auto simp: then_do_Inr ask_Inr)

lemma put_commit_dry: "snd (put_commit L E M vw dg True acl pl w) = w"
  by (cases pl) (auto simp: put_commit_def Let_def then_do_def split: sum.splits)

lemma put_commit_unchanged:
  "put_unchanged L stored ts planned \<Longrightarrow>
    put_commit L E M vw dg dry_run acl (did, is_merge, stored, ts, planned) w
      = (Inr (put_result did vw (sha256_hex L (dump L disk_format planned)) ts), w)"
  by (simp add: put_commit_def Let_def then_do_def)

lemma put_commit_written:
  assumes "put_commit L E M vw dg False acl (did, is_merge, stored, ts, planned) w = (Inr r, w')"
    and "\<not> put_unchanged L stored ts planned"
  shows "\<exists>doc t. put_raw L E M did (dump L disk_format planned) dg (w_fs w) = (Inr doc, t)
    \<and> w' = \<lparr>w_fs = t, w_log = w_log w
         @ [syslog_line ''pve-meta audit'' (put_audit acl did vw is_merge ts (sha256_hex L (dump L disk_format planned)))]\<rparr>
    \<and> r = put_result did vw (sha256_hex L (dump L disk_format planned)) ts"
proof -
  from assms obtain doc t where p: "put_raw L E M did (dump L disk_format planned) dg (w_fs w) = (Inr doc, t)"
    and r: "r = put_result did vw (dc_digest doc) ts"
    and w: "w' = snd (audit (put_audit acl did vw is_merge ts (dc_digest doc)) (w\<lparr>w_fs := t\<rparr>) :: (api_error + unit) \<times> world)"
    by (auto simp: put_commit_def Let_def then_do_Inr act_Inr audit_def simp del: then_do_lift)
  have "dc_digest doc = sha256_hex L (dump L disk_format planned)"
    using put_raw_Inr(6) [OF p] by (simp add: normalize_dump)
  with p r w show ?thesis by (simp add: audit_def world.equality)
qed

text \<open>The dry run gives the answer the real run gives.\<close>

lemma put_commit_dry_same:
  assumes "put_commit L E M vw dg False acl pl w = (Inr r, w')"
  shows "put_commit L E M vw dg True acl pl w = (Inr r, w)"
proof -
  obtain did is_merge stored ts planned where pl: "pl = (did, is_merge, stored, ts, planned)" by (cases pl) auto
  show ?thesis
  proof (cases "put_unchanged L stored ts planned")
    case True
    with assms pl show ?thesis by (simp add: put_commit_unchanged)
  next
    case False
    from put_commit_written [OF assms [unfolded pl] this] obtain doc t where
      p: "put_raw L E M did (dump L disk_format planned) dg (w_fs w) = (Inr doc, t)"
      and r: "r = put_result did vw (sha256_hex L (dump L disk_format planned)) ts" by blast
    have "check_size (length (dump L disk_format planned)) = Inr ()"
      using put_raw_Inr(3) [OF p] by (simp add: normalize_dump check_size_def)
    with False r pl show ?thesis by (simp add: put_commit_def Let_def then_do_def)
  qed
qed

text \<open>Every way a commit can succeed.\<close>

lemma put_commit_outcome:
  assumes "put_commit L E M vw dg dry_run acl (did, is_merge, stored, ts, planned) w = (Inr r, w')"
    and "writable E (w_fs w) (path_for M did)"
  shows "r = put_result did vw (sha256_hex L (dump L Yaml planned)) ts
    \<and> (if dry_run \<or> put_unchanged L stored ts planned then w' = w
       else content (w_fs w') (path_for M did) = Some (dump L Yaml planned)
         \<and> (\<forall>q. q \<noteq> path_for M did \<and> q \<noteq> tmp_path E (w_fs w) (path_for M did) \<longrightarrow> content (w_fs w') q = content (w_fs w) q)
         \<and> w_log w' = w_log w @ [syslog_line ''pve-meta audit'' (put_audit acl did vw is_merge ts (pr_digest r))])"
proof -
  consider (same) "put_unchanged L stored ts planned" | (dry) "dry_run" "\<not> put_unchanged L stored ts planned"
    | (written) "\<not> dry_run" "\<not> put_unchanged L stored ts planned" by blast
  then show ?thesis
  proof cases
    case same
    with assms(1) show ?thesis by (simp add: put_commit_unchanged disk_format_def)
  next
    case dry
    with assms(1) show ?thesis
      by (auto simp: put_commit_def Let_def then_do_def disk_format_def split: sum.splits)
  next
    case written
    from assms(1) written(1) have "put_commit L E M vw dg False acl (did, is_merge, stored, ts, planned) w = (Inr r, w')" by simp
    from put_commit_written [OF this written(2)] obtain doc t where
      p: "put_raw L E M did (dump L Yaml planned) dg (w_fs w) = (Inr doc, t)"
      and w: "w' = \<lparr>w_fs = t, w_log = w_log w
         @ [syslog_line ''pve-meta audit'' (put_audit acl did vw is_merge ts (sha256_hex L (dump L Yaml planned)))]\<rparr>"
      and r: "r = put_result did vw (sha256_hex L (dump L Yaml planned)) ts"
      unfolding disk_format_def by blast
    note wa = put_raw_Inr(5) [OF p, unfolded normalize_dump]
    from aw.wr_ok [OF assms(2) wa] aw.wr_frame [OF assms(2) wa] w r written show ?thesis
      by (simp add: put_result_def)
  qed
qed

section \<open>Plans\<close>

text \<open>What a plan that was accepted has passed.\<close>

lemma put_plan_Inr:
  assumes "put_plan L M pfs ident vw format_name payload mode dg force comments acl s = Inr (did, is_merge, stored, ts, planned)"
  shows "parse_id ident = Inr did" and "acl_write acl" and "parse_mode mode = Inr is_merge"
    and "check_precondition L M did dg s = Inr ()" and "read_stored L M did s = Inr stored"
    and "\<exists>vp. parse_view vw = Inr vp \<and> check_repairable stored vp is_merge = Inr ()"
    and "Documents.lint planned = []"
    and "check_registry_shape L did (dump L disk_format planned) = Inr ()"
    and "\<not> force \<Longrightarrow> check_enforced L pfs did (st_value stored) planned ts = Inr ()"
    and "\<exists>fmt vp pv. parse_view_format format_name = Inr fmt \<and> parse_view vw = Inr vp
      \<and> (if is_merge then parse_patch L payload fmt else view_parse L payload fmt) = Inr pv
      \<and> put_mutation is_merge (\<not> is_merge \<and> \<not> comments) vp pv (st_value stored) = (Inr ts, planned)"
proof -
  let ?pw = "\<lambda>vp pv. plan_write (\<not> is_merge \<and> \<not> comments)
    (put_mutation is_merge (\<not> is_merge \<and> \<not> comments) vp pv) (st_value stored)"
  from assms obtain fmt vp pv where b: "parse_id ident = Inr did" "acl_write acl" "parse_mode mode = Inr is_merge"
      "check_precondition L M did dg s = Inr ()" "read_stored L M did s = Inr stored"
      "parse_view_format format_name = Inr fmt" "parse_view vw = Inr vp" "check_repairable stored vp is_merge = Inr ()"
      "(if is_merge then parse_patch L payload fmt else view_parse L payload fmt) = Inr pv"
      "check_registry_shape L did (dump L disk_format (snd (?pw vp pv))) = Inr ()"
      "(if force then Inr () else check_enforced L pfs did (st_value stored) (snd (?pw vp pv)) ts) = Inr ()"
      "fst (?pw vp pv) = Inr ts" "planned = snd (?pw vp pv)"
    unfolding put_plan_def Let_def andthen_eq_Inr map_err_eq_Inr sum.inject prod.inject authorize_write_def guard_err_Inr
    by (elim exE conjE) (hypsubst, rule that, (assumption | (erule trans, simp (no_asm)))+)
  note a = b [folded b(13)]
  have "?pw vp pv = (Inr ts, planned)" using b(12,13) by (simp add: prod_eq_iff)
  then have m: "put_mutation is_merge (\<not> is_merge \<and> \<not> comments) vp pv (st_value stored) = (Inr ts, planned)"
    "Documents.lint planned = []"
    unfolding plan_write_def then_do_Inr by (auto simp: Let_def split: if_splits)
  from a(1) show "parse_id ident = Inr did" .
  from a(2) show "acl_write acl" .
  from a(3) show "parse_mode mode = Inr is_merge" .
  from a(4) show "check_precondition L M did dg s = Inr ()" .
  from a(5) show "read_stored L M did s = Inr stored" .
  from a(7,8) show "\<exists>vp. parse_view vw = Inr vp \<and> check_repairable stored vp is_merge = Inr ()" by blast
  from m(2) show "Documents.lint planned = []" .
  from a(10) show "check_registry_shape L did (dump L disk_format planned) = Inr ()" .
  from a(11) show "\<not> force \<Longrightarrow> check_enforced L pfs did (st_value stored) planned ts = Inr ()" by simp
  from a m show "\<exists>fmt vp pv. parse_view_format format_name = Inr fmt \<and> parse_view vw = Inr vp
      \<and> (if is_merge then parse_patch L payload fmt else view_parse L payload fmt) = Inr pv
      \<and> put_mutation is_merge (\<not> is_merge \<and> \<not> comments) vp pv (st_value stored) = (Inr ts, planned)" by blast
qed

lemma check_enforced_guest:
  "check_enforced L pfs (Guest v) old new ts = Inr () \<longleftrightarrow>
     introduced (enforced_findings L (of_guest pfs) old) (enforced_findings L (of_guest pfs) new) (map t_path ts) = []"
  by (simp add: check_enforced_def Let_def)

section \<open>Reading back\<close>

text \<open>What the store relies on of the YAML library: a text it printed for a document reads as that
  document, if it reads at all.\<close>

definition yaml_reads_back :: "libs \<Rightarrow> bool" where
  "yaml_reads_back L \<longleftrightarrow> (\<forall>v x. parse_raw L Yaml (dump L Yaml v) = Inr x \<longrightarrow> x = v)"

text \<open>A stored document that could be recovered is the file's text and what it parses to.\<close>

lemma read_stored_of_read:
  assumes "read L M did s = Inr d" "dc_parse_error d = None" "is_object (dc_value d)"
  shows "read_stored L M did s
    = Inr \<lparr>st_value = dc_value d, st_digest = dc_digest d, st_unrecoverable = None, st_raw = Some (dc_raw d)\<rparr>"
  using assms by (simp add: read_stored_def)

lemma read_document_Inr:
  assumes "read L M did s = Inr d" "dc_parse_error d = None"
  shows "parse_raw L disk_format (dc_raw d) = Inr (dc_value d)" "dc_digest d = sha256_hex L (dc_raw d)"
proof -
  from assms(1) obtain b n where "(let (v, perr) = (case parse_raw L disk_format b of
         Inr v \<Rightarrow> (v, None) | Inl e \<Rightarrow> (VObj [], Some (error_text e)))
       in Inr \<lparr>dc_id = did, dc_path = read_path_for M did s, dc_raw = b, dc_value = v, dc_parse_error = perr,
             dc_digest = sha256_hex L b, dc_mtime = modified n\<rparr>) = (Inr d :: error + document)"
    by (auto simp: read_def read_document_def andthen_eq_Inr split: option.splits)
  with assms(2) show "parse_raw L disk_format (dc_raw d) = Inr (dc_value d)" "dc_digest d = sha256_hex L (dc_raw d)"
    by (cases "parse_raw L disk_format b"; auto)+
qed

lemma read_stored_recovered:
  assumes "read_stored L M did s = Inr st" "st_unrecoverable st = None" "st_raw st = Some raw"
  shows "parse_raw L disk_format raw = Inr (st_value st)" "st_digest st = sha256_hex L raw"
proof -
  from assms obtain d where d: "read L M did s = Inr d" "dc_parse_error d = None" "st_value st = dc_value d"
      "dc_raw d = raw" "st_digest st = dc_digest d"
    by (auto simp: read_stored_def absent_def unrecoverable_def andthen_eq_Inr
        split: sum.splits error.splits option.splits if_splits)
  with read_document_Inr [OF d(1,2)]
  show "parse_raw L disk_format raw = Inr (st_value st)" "st_digest st = sha256_hex L raw" by simp_all
qed

lemma lint_object: "Documents.lint v = [] \<Longrightarrow> is_object v"
  by (simp add: lint_Nil_iff doc_ok_def)

text \<open>After a PUT that was accepted and not a dry run, the document reads as planned.\<close>

lemma stored_after_put:
  assumes plan: "put_plan L M pfs ident vw format_name payload mode dg force comments acl (w_fs w)
      = Inr (did, is_merge, stored, ts, planned)"
    and commit: "put_commit L E M vw dg False acl (did, is_merge, stored, ts, planned) w = (Inr r, w')"
    and yaml: "yaml_reads_back L"
    and ready: "writable E (w_fs w) (path_for M did)" "check_available M (w_fs w') = Inr ()"
      "fault (w_fs w') OpMetadata (path_for M did) = None" "fault (w_fs w') OpRead (path_for M did) = None"
      "utf8_error (dump L disk_format planned) = None"
  shows "\<exists>st. read_stored L M did (w_fs w') = Inr st \<and> st_unrecoverable st = None \<and> st_value st = planned
    \<and> st_digest st = pr_digest r"
proof (cases "put_unchanged L stored ts planned")
  case True
  with put_commit_unchanged [OF this, of E M vw dg False acl did is_merge w] commit
  have w: "w' = w" and r: "r = put_result did vw (sha256_hex L (dump L disk_format planned)) ts" by simp_all
  from True have u: "st_unrecoverable stored = None" "st_raw stored = Some (dump L disk_format planned)"
    by (simp_all add: put_unchanged_def)
  from read_stored_recovered [OF put_plan_Inr(5) [OF plan] u] yaml
  have "st_value stored = planned" by (auto simp: yaml_reads_back_def disk_format_def)
  with read_stored_recovered(2) [OF put_plan_Inr(5) [OF plan] u] put_plan_Inr(5) [OF plan] u w r show ?thesis
    by (simp add: put_result_def)
next
  case False
  from put_commit_written [OF commit this] obtain doc t where
    p: "put_raw L E M did (dump L disk_format planned) dg (w_fs w) = (Inr doc, t)" and t: "w_fs w' = t"
    and r: "r = put_result did vw (sha256_hex L (dump L disk_format planned)) ts" by auto
  have ut: "utf8_error (normalize_trailing_newline (dump L disk_format planned)) = None"
    using ready(5) by (simp add: normalize_dump)
  from read_after_put [OF ready(1) p ready(2-4) [unfolded t] ut] obtain d where
    d: "read L M did t = Inr d" "dc_value d = dc_value doc" "dc_parse_error d = None" "dc_digest d = dc_digest doc" by blast
  have v: "parse_raw L disk_format (dump L disk_format planned) = Inr (dc_value doc)" "Documents.lint (dc_value doc) = []"
    "dc_digest doc = sha256_hex L (dump L disk_format planned)"
    using put_raw_Inr(4,6) [OF p] by (simp_all add: normalize_dump parse_Inr_iff)
  from v(1) yaml have "dc_value doc = planned" by (auto simp: yaml_reads_back_def disk_format_def)
  with read_stored_of_read [OF d(1,3)] lint_object [OF v(2)] d r v(3) t show ?thesis by (simp add: put_result_def)
qed

section \<open>Access\<close>

lemma get_without_read:
  assumes "\<not> acl_read acl"
  shows "\<exists>e. \<forall>s. get_document L M ident vw format_name comments acl s = Inl e"
  using assms
  by (cases "parse_id ident"; cases "parse_view_format format_name"; cases "parse_view vw")
    (auto simp: get_document_def guard_err_def)

lemma write_without_write:
  assumes "\<not> acl_write acl"
  shows "\<exists>e. \<forall>w. put_document L E M pfs ident vw format_name payload mode dg dry_run force comments acl w = (Inl e, w)"
    and "\<exists>e. \<forall>w. delete_document L E M ident vw dg acl w = (Inl e, w)"
  using assms
  by (cases "parse_id ident"; cases "parse_view_format format_name"; cases "parse_view vw";
      auto simp: put_document_def delete_document_def authorize_write_def guard_err_def)+

lemma map_res_append_skip:
  "f x = Inr [] \<Longrightarrow> andthen (map_res f (x # xs)) (\<lambda>rows. Inr (concat rows)) = andthen (map_res f xs) (\<lambda>rows. Inr (concat rows))"
  by (cases "map_res f xs") (simp_all add: andthen_def)

lemma list_guests_readable: "list_guests L M guests has s = list_guests L M (filter gi_read guests) has s"
proof -
  have "andthen (map_res (list_one L M hp s) guests) (\<lambda>rows. Inr (concat rows))
      = andthen (map_res (list_one L M hp s) (filter gi_read guests)) (\<lambda>rows. Inr (concat rows))" for hp
  proof (induction guests)
    case (Cons g gs)
    show ?case
    proof (cases "gi_read g")
      case True
      with Cons show ?thesis
        by (cases "list_one L M hp s g"; cases "map_res (list_one L M hp s) gs";
            cases "map_res (list_one L M hp s) (filter gi_read gs)") auto
    next
      case False
      then have "list_one L M hp s g = Inr []" by (simp add: list_one_def)
      from map_res_append_skip [where f = "list_one L M hp s", OF this, of gs] Cons False show ?thesis
        by (simp del: map_res.simps)
    qed
  qed simp
  then show ?thesis by (simp add: list_guests_def)
qed

section \<open>Deletion\<close>

definition delete_plan where
  "delete_plan L M ident vw dg acl s =
     andthen (parse_id ident) (\<lambda>did.
     andthen (parse_view vw) (\<lambda>view_path.
     andthen (authorize_write acl) (\<lambda>_.
     andthen (map_err api_error_of (check_precondition L M did dg s)) (\<lambda>_.
     andthen (read_stored L M did s) (\<lambda>stored.
     andthen (check_repairable stored view_path False) (\<lambda>_.
     andthen (map_err api_error_of (has_own_file M did s)) (\<lambda>own_file.
     andthen (check_own_file did own_file view_path stored) (\<lambda>_.
     andthen (fst (plan_write False (\<lambda>v. api_err (remove view_path v)) (st_value stored))) (\<lambda>ts.
     Inr (did, view_path, stored, own_file, ts,
       snd (plan_write False (\<lambda>v. api_err (remove view_path v)) (st_value stored))))))))))))"

definition delete_commit where
  "delete_commit L E M vw dg acl = (\<lambda>(did, view_path, stored, own_file, ts, planned).
     then_do (if is_root view_path
              then then_do (act api_error_of (delete M did)) (\<lambda>gone.
                   then_do (if gone then audit (acl_authid acl @ '' removed '' @ show_doc_id did) else lift_res (Inr ())) (\<lambda>_.
                   lift_res (Inr [])))
              else if ts = [] then lift_res (Inr (st_digest stored))
              else if st_digest stored \<noteq> []
              then let text = dump L disk_format planned in
                   then_do (lift_res (check_registry_shape L did text)) (\<lambda>_.
                   then_do (act api_error_of (put_raw L E M did text dg)) (\<lambda>doc.
                   then_do (audit (delete_audit acl did vw (is_packaged_only did own_file) ts (dc_digest doc))) (\<lambda>_.
                   lift_res (Inr (dc_digest doc)))))
              else lift_res (Inr [])) (\<lambda>new_digest.
     lift_res (Inr (put_result did vw new_digest ts))))"

lemma delete_document_factors:
  "delete_document L E M ident vw dg acl
     = then_do (ask id (delete_plan L M ident vw dg acl)) (delete_commit L E M vw dg acl)"
  unfolding delete_document_def delete_plan_def
  by (simp only: ask_bind_pure ask_bind ask_bind_id ask_return Let_def split_beta delete_commit_def fst_conv snd_conv prod.case)

lemma delete_plan_Inr:
  assumes "delete_plan L M ident vw dg acl s = Inr (did, vp, stored, own_file, ts, planned)"
  shows "parse_id ident = Inr did" "parse_view vw = Inr vp" "acl_write acl" "check_precondition L M did dg s = Inr ()"
    "has_own_file M did s = Inr own_file" "check_own_file did own_file vp stored = Inr ()" "read_stored L M did s = Inr stored"
  using assms
  unfolding delete_plan_def andthen_eq_Inr map_err_eq_Inr sum.inject prod.inject authorize_write_def guard_err_Inr
  by - (elim exE conjE, hypsubst, (assumption | (erule trans, simp (no_asm))))+

lemma delete_commit_root:
  assumes "delete_commit L E M vw dg acl (did, [], stored, own_file, ts, planned) w = (Inr r, w')"
  shows "\<exists>gone t. delete M did (w_fs w) = (Inr gone, t) \<and> w_fs w' = t \<and> r = put_result did vw [] ts
    \<and> w_log w' = w_log w @ (if gone then [syslog_line ''pve-meta audit'' (acl_authid acl @ '' removed '' @ show_doc_id did)] else [])"
proof -
  obtain x t where d: "delete M did (w_fs w) = (x, t)" by (cases "delete M did (w_fs w)")
  from assms d show ?thesis
    by (cases x) (auto simp: delete_commit_def then_do_def act_def is_root_def audit_def split: if_splits)
qed

section \<open>Properties\<close>

text \<open>A caller and a YAML library for the witnesses: the library prints and reads one document.\<close>

definition sample_acl :: caller_acl where
  "sample_acl = \<lparr>acl_authid = ''root@pam'', acl_read = True, acl_write = True, acl_tags = [], acl_node = None\<rparr>"

definition one_document :: "json \<Rightarrow> json \<Rightarrow> libs" where
  "one_document doc payload = (sample_libs payload)
     \<lparr>yaml_to_string := (\<lambda>v. if v = doc then ''x'' else []),
      yaml_from_str := (\<lambda>t. if t = ''x'' @ [nl] then Inr doc else Inl (''bad'', None))\<rparr>"

definition sample_world :: world where
  "sample_world = \<lparr>w_fs = sample_fs [([], Dir), ([''r''], Dir)], w_log = []\<rparr>"

lemma one_document_reads_back: "yaml_reads_back (one_document doc payload)"
  by (simp add: yaml_reads_back_def one_document_def sample_libs_def parse_raw_def parse_yaml_def scan_yaml_safety_def
      dump_def ensure_single_trailing_newline_def trim_end_nl_def drop_end_def)





text \<open>C2: A caller without read access learns nothing of the store: what a GET answers it, always an error,
  is the same whatever the files hold, and a listing is the listing of the readable guests alone. A
  caller without write access changes nothing: PUT and DELETE fail, with an error that does not depend
  on the store either, and leave the world as it was.\<close>

theorem no_access_no_effect_no_information:
  "(\<not> acl_read acl \<longrightarrow> (\<exists>e. \<forall>s. get_document L M ident vw format_name comments acl s = Inl e))
   \<and> list_guests L M guests has s = list_guests L M (filter gi_read guests) has s
   \<and> (\<not> acl_write acl \<longrightarrow>
       (\<exists>e. \<forall>w. put_document L E M pfs ident vw format_name payload mode dg dry_run force comments acl w = (Inl e, w))
       \<and> (\<exists>e. \<forall>w. delete_document L E M ident vw dg acl w = (Inl e, w)))"
  by (intro conjI impI get_without_read list_guests_readable write_without_write)

theorem no_access_no_effect_no_information_witness:
  "\<exists>e. \<forall>s. get_document (sample_libs (VObj [])) sample_store ''105'' None ''json'' False (sample_acl\<lparr>acl_read := False\<rparr>) s = Inl e"
  using no_access_no_effect_no_information [of "sample_acl\<lparr>acl_read := False\<rparr>"] by simp



text \<open>A DELETE of a whole document that succeeds came from a caller with write access; the
  document's own file is gone, nothing else in the file system has changed (no snapshot, no packaged
  file), the answer's digest is that of no document, and the log has a line exactly if there was a file
  to remove. A prefix that exists only as a packaged file is refused with 404.\<close>

theorem delete_document_removes_only_the_document:
  assumes "delete_document L E M ident None dg acl w = (Inr r, w')" "honest (w_fs w)"
  shows "\<exists>did stored. parse_id ident = Inr did \<and> acl_write acl \<and> read_stored L M did (w_fs w) = Inr stored
    \<and> node_at (w_fs w') q = (if q = path_for M did then None else node_at (w_fs w) q)
    \<and> pr_digest r = [] \<and> (w_log w' = w_log w \<longleftrightarrow> node_at (w_fs w) (path_for M did) = None)
    \<and> (\<forall>k n. did = Registry k n \<and> has_own_file M did (w_fs w) = Inr False \<longrightarrow> st_digest stored = [])"
proof -
  obtain did vp stored own ts planned where
    plan: "delete_plan L M ident None dg acl (w_fs w) = Inr (did, vp, stored, own, ts, planned)"
    and commit: "delete_commit L E M None dg acl (did, vp, stored, own, ts, planned) w = (Inr r, w')"
    using assms(1) unfolding delete_document_factors by (auto simp: then_do_Inr ask_Inr)
  note p = delete_plan_Inr [OF plan]
  have vp: "vp = []" using p(2) by (simp add: parse_view_def root_def)
  obtain gone t where d: "delete M did (w_fs w) = (Inr gone, t)" "w_fs w' = t" "r = put_result did None [] ts"
      "w_log w' = w_log w @ (if gone then [syslog_line ''pve-meta audit'' (acl_authid acl @ '' removed '' @ show_doc_id did)] else [])"
    using delete_commit_root [OF commit [unfolded vp]] by blast
  have "st_digest stored = []" if "did = Registry k n" "has_own_file M did (w_fs w) = Inr False" for k n
    using that p(5,6) vp by (simp add: check_own_file_def is_root_def)
  with p(1,3,7) d delete_Inr(1,4) [OF assms(2) d(1)] show ?thesis
    by (intro exI [of _ did] exI [of _ stored]) (auto simp: put_result_def)
qed

theorem delete_document_removes_only_the_document_witness:
  "\<exists>w' :: world. node_at (w_fs w') [''r'', ''105.yaml''] = None \<and> w_log w' \<noteq> []"
proof -
  define w where "w = \<lparr>w_fs = sample_fs sample_nodes, w_log = []\<rparr>"
  define x where "x = delete_document (sample_libs (VObj [])) sample_env sample_store ''105'' None None sample_acl w"
  have "\<not> isl (fst x)" unfolding x_def w_def by code_simp
  then obtain r where x: "x = (Inr r, snd x)" by (cases "fst x") (auto simp: prod_eq_iff)
  have h: "honest (w_fs w)" by (simp add: honest_def sample_fs_def w_def)
  have pid: "parse_id ''105'' = Inr (Guest 105)" "path_for sample_store (Guest 105) = [''r'', ''105.yaml'']" by code_simp+
  have l: "w_log (snd x) \<noteq> []" unfolding x_def w_def by code_simp
  from delete_document_removes_only_the_document [OF x [unfolded x_def] h, of "[''r'', ''105.yaml'']"] pid
  have "node_at (w_fs (snd x)) [''r'', ''105.yaml''] = None" by (auto simp: x_def)
  with l show ?thesis by (intro exI [of _ "snd x"]) simp
qed

end
