(* ===== verification/Calendar.thy ===== *)
theory Calendar
  imports Prelude
begin

text \<open>
  The calendar arithmetic of the backup block's time stamp (backup.rs, \<open>rfc3339_utc\<close>), against a
  reference definition of the Gregorian calendar: leap years, month lengths and the day number of a date.
\<close>

section \<open>The computation\<close>

text \<open>The source computes on signed 64-bit integers; for every \<open>u64\<close> of seconds the intermediate
  values stay far below the type's bounds, so they are mathematical integers here.\<close>

definition civil_from_days :: "int \<Rightarrow> int \<times> int \<times> int" where
  "civil_from_days days =
     (let z = days + 719468;
          era = z div 146097;
          doe = z mod 146097;
          yoe = (doe - doe div 1460 + doe div 36524 - doe div 146096) div 365;
          y = yoe + era * 400;
          doy = doe - (365 * yoe + yoe div 4 - yoe div 100);
          mp = (5 * doy + 2) div 153;
          d = doy - (153 * mp + 2) div 5 + 1;
          m = (if mp < 10 then mp + 3 else mp - 9);
          y' = (if m \<le> 2 then y + 1 else y)
      in (y', m, d))"

section \<open>The calendar\<close>

definition leap :: "int \<Rightarrow> bool" where
  "leap y \<longleftrightarrow> 4 dvd y \<and> (\<not> 100 dvd y \<or> 400 dvd y)"

definition month_days :: "int \<Rightarrow> int \<Rightarrow> int" where
  "month_days y m = (if m = 2 then (if leap y then 29 else 28) else if m \<in> {4, 6, 9, 11} then 30 else 31)"

definition valid_date :: "int \<Rightarrow> int \<Rightarrow> int \<Rightarrow> bool" where
  "valid_date y m d \<longleftrightarrow> 1 \<le> m \<and> m \<le> 12 \<and> 1 \<le> d \<and> d \<le> month_days y m"

text \<open>The days before a year, from the first of January of the year 1, and before a month in its year.\<close>

definition days_before_year :: "int \<Rightarrow> int" where
  "days_before_year y = 365 * (y - 1) + (y - 1) div 4 - (y - 1) div 100 + (y - 1) div 400"

definition days_before_month :: "int \<Rightarrow> int \<Rightarrow> int" where
  "days_before_month y m = (\<Sum>k \<in> {1..<m}. month_days y k)"

text \<open>Days since the first of January 1970.\<close>

definition day_number :: "int \<Rightarrow> int \<Rightarrow> int \<Rightarrow> int" where
  "day_number y m d = days_before_year y + days_before_month y m + (d - 1) - days_before_year 1970"

section \<open>Years\<close>

lemma div_eqI: "(b::int) * k \<le> a \<Longrightarrow> a < b * k + b \<Longrightarrow> a div b = k"
proof -
  assume a: "b * k \<le> a" "a < b * k + b"
  then have "a - b * k < b" "0 \<le> a - b * k" by simp_all
  then have "(a - b * k) div b = 0" by (rule div_pos_pos_trivial [rotated])
  moreover have "a div b = k + (a - b * k) div b"
    using a by (metis add.commute diff_add_cancel div_mult_self2 less_add_same_cancel1 linorder_not_le order_le_less_trans order_less_irrefl)
  ultimately show ?thesis by simp
qed

text \<open>A day of the 400-year era is a century, a four-year cycle in it and a day of that cycle.\<close>

lemma era_split:
  assumes "0 \<le> doe" "doe < (146097::int)"
  obtains c q s where "doe = 36524 * c + 1461 * q + s" "0 \<le> c" "c \<le> 3" "0 \<le> q" "q \<le> 24" "0 \<le> s" "s \<le> 1460"
    "q = 24 \<and> s = 1460 \<longrightarrow> c = 3"
proof -
  define c where "c = min (doe div 36524) 3"
  define r where "r = doe - 36524 * c"
  have r: "0 \<le> c" "c \<le> 3" "0 \<le> r" "r \<le> 36524" "r = 36524 \<Longrightarrow> c = 3"
    using assms unfolding r_def c_def by (auto simp: min_def)
  show thesis
  proof (rule that [of c "r div 1461" "r mod 1461"])
    show "doe = 36524 * c + 1461 * (r div 1461) + r mod 1461" unfolding r_def by simp
    show "r div 1461 \<le> 24" using zdiv_mono1 [OF r(4), of 1461] by simp
    show "r div 1461 = 24 \<and> r mod 1461 = 1460 \<longrightarrow> c = 3" 
    proof
      assume "r div 1461 = 24 \<and> r mod 1461 = 1460"
      then have "r = 36524" using mult_div_mod_eq [of 1461 r] by linarith
      then show "c = 3" by (rule r(5))
    qed
  qed (use r in \<open>auto simp: pos_imp_zdiv_nonneg_iff\<close>)
qed

text \<open>The year of the era and the day of the year, counted from March.\<close>

lemma year_of_era:
  assumes "doe = 36524 * c + 1461 * q + s" "0 \<le> c" "c \<le> 3" "0 \<le> q" "q \<le> 24" "0 \<le> s" "s \<le> (1460::int)"
    and "q = 24 \<and> s = 1460 \<longrightarrow> c = 3"
  defines "t \<equiv> min (s div 365) 3"
  shows "(doe - doe div 1460 + doe div 36524 - doe div 146096) div 365 = 100 * c + 4 * q + t"
    and "0 \<le> t" and "t \<le> 3" and "0 \<le> s - 365 * t" and "s - 365 * t \<le> 365" and "s - 365 * t = 365 \<Longrightarrow> t = 3 \<and> s = 1460"
proof -
  have t: "0 \<le> t" "t \<le> 3" "365 * t \<le> s" "s \<le> 365 * t + 365" "s < 365 * t + 365 \<or> t = 3 \<and> s = 1460"
    using assms(6,7) unfolding t_def by (auto simp: min_def)
  then show "0 \<le> t" "t \<le> 3" "0 \<le> s - 365 * t" "s - 365 * t \<le> 365" "s - 365 * t = 365 \<Longrightarrow> t = 3 \<and> s = 1460"
    by auto
  define b where "b = (if 24 * c + q + s \<ge> 1460 then 1 else 0 :: int)"
  have far: "q = 24 \<and> s = 1460 \<and> c = 3 \<or> 1461 * q + s < 36524"
    using assms(4-8) by (cases "q = 24") auto
  define l where "l = (if doe = 146096 then 1 else 0 :: int)"
  have "doe div 1460 = 25 * c + q + b"
    using assms(1-7) unfolding b_def by (intro div_eqI) (auto split: if_splits)
  moreover have "doe div 146096 = l"
    using assms(1-7) unfolding l_def by (intro div_eqI) (auto split: if_splits)
  moreover have "doe div 36524 = c + l"
    using assms(1-7) far unfolding l_def by (intro div_eqI) (auto split: if_splits)
  ultimately have e: "doe - doe div 1460 + doe div 36524 - doe div 146096 = 36500 * c + 1460 * q + s - b"
    using assms(1) by simp
  show "(doe - doe div 1460 + doe div 36524 - doe div 146096) div 365 = 100 * c + 4 * q + t"
    unfolding e using assms(2-7) t unfolding b_def by (intro div_eqI) (auto split: if_splits)
qed

lemma leap_step: "(k::int) > 0 \<Longrightarrow> (y - 1) div k + (if k dvd y then 1 else 0) = y div k"
proof (cases "k dvd y")
  case True
  assume k: "k > 0"
  from True obtain j where j: "y = k * j" by blast
  have "(k * j - 1) div k = j - 1" using k by (intro div_eqI) (auto simp: algebra_simps)
  with True j k show ?thesis by simp
next
  case False
  assume k: "k > 0"
  have "0 < y mod k" using False k by (simp add: dvd_eq_mod_eq_0 order_le_neq_trans)
  then have "k * (y div k) \<le> y - 1" "y - 1 < k * (y div k) + k"
    using k pos_mod_bound [OF k, of y] mult_div_mod_eq [of k y] by linarith+
  then have "(y - 1) div k = y div k" by (rule div_eqI)
  with False show ?thesis by simp
qed

lemma leap_days: "(y - 1) div 4 - (y - 1) div 100 + (y - 1) div 400 + (if leap y then 1 else 0) = y div 4 - y div 100 + y div 400"
proof -
  define a b c where "a = (4 dvd y)" and "b = (100 dvd y)" and "c = (400 dvd y)"
  have cb: "c \<Longrightarrow> b" unfolding b_def c_def by (rule dvd_trans [of 100 400]) simp_all
  have ba: "b \<Longrightarrow> a" unfolding a_def b_def by (rule dvd_trans [of 4 100]) simp_all
  have e: "(y - 1) div 4 + (if a then 1 else 0) = y div 4" "(y - 1) div 100 + (if b then 1 else 0) = y div 100"
    "(y - 1) div 400 + (if c then 1 else 0) = y div 400"
    unfolding a_def b_def c_def by (rule leap_step, simp)+
  have l: "leap y \<longleftrightarrow> a \<and> (\<not> b \<or> c)" by (simp only: leap_def a_def b_def c_def)
  from cb ba show ?thesis unfolding l e [symmetric] by (cases a; cases b; cases c) simp_all
qed

section \<open>Months\<close>

text \<open>The first day of each month, counted from March.\<close>

definition march_offset :: "int \<Rightarrow> int" where
  "march_offset mp = [0, 31, 61, 92, 122, 153, 184, 214, 245, 275, 306, 337] ! nat mp"

definition doy_ok :: "int \<Rightarrow> bool" where
  "doy_ok doy \<longleftrightarrow> (let mp = (5 * doy + 2) div 153; d = doy - (153 * mp + 2) div 5 + 1 in
     0 \<le> mp \<and> mp \<le> 11 \<and> 1 \<le> d \<and> doy = march_offset mp + d - 1
     \<and> (if mp = 11 then d \<le> 29 else if mp \<in> {1, 3, 6, 8} then d \<le> 30 else d \<le> 31))"

lemma mp_cases:
  assumes "0 \<le> mp" "mp \<le> (11::int)"
  shows "mp \<in> {0, 1, 2, 3, 4, 5, 6, 7, 8, 9, 10, 11}"
proof -
  have "mp \<in> set [0..11]" using assms by simp
  moreover have "[0..11] = [0, 1, 2, 3, 4, 5, 6, 7, 8, 9, 10, 11::int]" by code_simp
  ultimately show ?thesis by (simp del: set_upto)
qed

lemma doy_ok_all:
  assumes "0 \<le> doy" "doy \<le> 365"
  shows "doy_ok doy"
proof -
  define mp where "mp = (5 * doy + 2) div 153"
  have b: "153 * mp \<le> 5 * doy + 2" "5 * doy + 2 < 153 * mp + 153" 
    using mult_div_mod_eq [of 153 "5 * doy + 2"] pos_mod_sign [of 153 "5 * doy + 2"] pos_mod_bound [of 153 "5 * doy + 2"]
    unfolding mp_def by linarith+
  with assms have "0 \<le> mp" "mp \<le> 11" by linarith+
  from mp_cases [OF this] show ?thesis
    unfolding doy_ok_def Let_def mp_def [symmetric] using b assms by (elim insertE emptyE) (simp_all add: march_offset_def)
qed

lemma days_before_month_step: "1 \<le> m \<Longrightarrow> days_before_month y (m + 1) = days_before_month y m + month_days y m"
proof -
  assume "1 \<le> m"
  then have "{1..<m + 1} = insert m {1..<m}" by auto
  then show ?thesis by (simp add: days_before_month_def)
qed

lemma days_before_months:
  "days_before_month y 1 = 0" "days_before_month y 2 = 31" "days_before_month y 3 = 59 + (if leap y then 1 else 0)"
  "days_before_month y 4 = 90 + (if leap y then 1 else 0)" "days_before_month y 5 = 120 + (if leap y then 1 else 0)"
  "days_before_month y 6 = 151 + (if leap y then 1 else 0)" "days_before_month y 7 = 181 + (if leap y then 1 else 0)"
  "days_before_month y 8 = 212 + (if leap y then 1 else 0)" "days_before_month y 9 = 243 + (if leap y then 1 else 0)"
  "days_before_month y 10 = 273 + (if leap y then 1 else 0)" "days_before_month y 11 = 304 + (if leap y then 1 else 0)"
  "days_before_month y 12 = 334 + (if leap y then 1 else 0)"
proof -
  show 1: "days_before_month y 1 = 0" by (simp add: days_before_month_def)
  show 2: "days_before_month y 2 = 31" using 1 days_before_month_step [of 1 y] by (simp add: month_days_def)
  show 3: "days_before_month y 3 = 59 + (if leap y then 1 else 0)"
    using 2 days_before_month_step [of 2 y] by (simp add: month_days_def)
  show 4: "days_before_month y 4 = 90 + (if leap y then 1 else 0)"
    using 3 days_before_month_step [of 3 y] by (simp add: month_days_def)
  show 5: "days_before_month y 5 = 120 + (if leap y then 1 else 0)"
    using 4 days_before_month_step [of 4 y] by (simp add: month_days_def)
  show 6: "days_before_month y 6 = 151 + (if leap y then 1 else 0)"
    using 5 days_before_month_step [of 5 y] by (simp add: month_days_def)
  show 7: "days_before_month y 7 = 181 + (if leap y then 1 else 0)"
    using 6 days_before_month_step [of 6 y] by (simp add: month_days_def)
  show 8: "days_before_month y 8 = 212 + (if leap y then 1 else 0)"
    using 7 days_before_month_step [of 7 y] by (simp add: month_days_def)
  show 9: "days_before_month y 9 = 243 + (if leap y then 1 else 0)"
    using 8 days_before_month_step [of 8 y] by (simp add: month_days_def)
  show 10: "days_before_month y 10 = 273 + (if leap y then 1 else 0)"
    using 9 days_before_month_step [of 9 y] by (simp add: month_days_def)
  show 11: "days_before_month y 11 = 304 + (if leap y then 1 else 0)"
    using 10 days_before_month_step [of 10 y] by (simp add: month_days_def)
  show "days_before_month y 12 = 334 + (if leap y then 1 else 0)"
    using 11 days_before_month_step [of 11 y] by (simp add: month_days_def)
qed

text \<open>The month after the shift of the year back to January.\<close>

lemma month_spring:
  assumes "0 \<le> mp" "mp < 10"
  shows "days_before_month y (mp + 3) = march_offset mp + 59 + (if leap y then 1 else 0)"
    and "month_days y (mp + 3) = (if mp \<in> {1, 3, 6, 8} then 30 else 31)"
  using mp_cases [of mp] assms by (auto simp: days_before_months march_offset_def month_days_def)

lemma month_winter:
  assumes "mp = 10 \<or> mp = 11"
  shows "days_before_month y (mp - 9) = march_offset mp - 306"
    and "month_days y (mp - 9) = (if mp = 10 then 31 else if leap y then 29 else 28)"
  using assms by (auto simp: days_before_months march_offset_def month_days_def)

section \<open>The date\<close>

lemma era_years:
  assumes "0 \<le> c" "c \<le> 3" "0 \<le> q" "q \<le> 24" "0 \<le> t" "t \<le> (3::int)"
  shows "(100 * c + 4 * q + t) div 4 = 25 * c + q" "(100 * c + 4 * q + t) div 100 = c"
    "(100 * c + 4 * q + t + e * 400) div 4 = 25 * c + q + 100 * e"
    "(100 * c + 4 * q + t + e * 400) div 100 = c + 4 * e" "(100 * c + 4 * q + t + e * 400) div 400 = e"
  using assms by (intro div_eqI; simp)+

text \<open>The numbers the computation goes through, for any day.\<close>

lemma civil_parts:
  obtains e c q t doy where "n + 719468 = 146097 * e + 36524 * c + 1461 * q + 365 * t + doy"
    "0 \<le> c" "c \<le> 3" "0 \<le> q" "q \<le> 24" "0 \<le> t" "t \<le> 3" "0 \<le> doy" "doy \<le> 365"
    "doy = 365 \<longrightarrow> leap (100 * c + 4 * q + t + e * 400 + 1)"
    "civil_from_days n = (let mp = (5 * doy + 2) div 153; d = doy - (153 * mp + 2) div 5 + 1;
       m = (if mp < 10 then mp + 3 else mp - 9); y = 100 * c + 4 * q + t + e * 400
     in (if m \<le> 2 then y + 1 else y, m, d))"
proof -
  define e where "e = (n + 719468) div 146097"
  define doe where "doe = (n + 719468) mod 146097"
  have "0 \<le> doe" "doe < 146097" by (simp_all add: doe_def)
  then obtain c q s where d: "doe = 36524 * c + 1461 * q + s" "0 \<le> c" "c \<le> 3" "0 \<le> q" "q \<le> 24" "0 \<le> s" "s \<le> 1460"
      "q = 24 \<and> s = 1460 \<longrightarrow> c = 3" by (rule era_split)
  note ye = year_of_era [OF d]
  define t where "t = min (s div 365) 3"
  note yt = ye [folded t_def]
  have doy: "doe - (365 * (100 * c + 4 * q + t) + (100 * c + 4 * q + t) div 4 - (100 * c + 4 * q + t) div 100) = s - 365 * t"
    using era_years(1,2) [OF d(2-5) yt(2,3)] d(1) by simp
  have lp: "leap (100 * c + 4 * q + t + e * 400 + 1)" if "s - 365 * t = 365"
  proof -
    from yt(6) [OF that] have t: "t = 3" "s = 1460" by auto
    have y: "100 * c + 4 * q + t + e * 400 + 1 = 4 * (25 * c + q + 1 + 100 * e)" using t by simp
    have "400 dvd 4 * (25 * c + q + 1 + 100 * e)" if "100 dvd 4 * (25 * c + q + 1 + 100 * e)"
    proof -
      from that obtain k where "4 * (25 * c + q + 1 + 100 * e) = 100 * k" by (rule dvdE)
      then have "q + 1 = 25 * (k - c - 4 * e)" by simp
      then have "25 dvd q + 1" by (rule dvdI)
      then have "q = 24" using zdvd_imp_le [of 25 "q + 1"] d(4,5) by simp
      with d(8) t have "c = 3" by simp
      with \<open>q = 24\<close> have "4 * (25 * c + q + 1 + 100 * e) = 400 * (1 + e)" by simp
      then show ?thesis by simp
    qed
    then show ?thesis unfolding y leap_def by auto
  qed
  show thesis
  proof (rule that [of e c q t "s - 365 * t"])
    show "n + 719468 = 146097 * e + 36524 * c + 1461 * q + 365 * t + (s - 365 * t)"
      using mult_div_mod_eq [of 146097 "n + 719468"] d(1) unfolding e_def doe_def by linarith
    show "civil_from_days n = (let mp = (5 * (s - 365 * t) + 2) div 153; d = (s - 365 * t) - (153 * mp + 2) div 5 + 1;
       m = (if mp < 10 then mp + 3 else mp - 9); y = 100 * c + 4 * q + t + e * 400
     in (if m \<le> 2 then y + 1 else y, m, d))"
      unfolding civil_from_days_def Let_def e_def [symmetric] doe_def [symmetric] yt(1) doy ..
    show "s - 365 * t = 365 \<longrightarrow> leap (100 * c + 4 * q + t + e * 400 + 1)" using lp by (rule impI)
  qed (fact d(2) d(3) d(4) d(5) yt(2) yt(3) yt(4) yt(5))+
qed

lemma civil_correct:
  assumes "civil_from_days n = (y, m, d)"
  shows "valid_date y m d" "day_number y m d = n"
proof -
  obtain e c q t doy where p: "n + 719468 = 146097 * e + 36524 * c + 1461 * q + 365 * t + doy"
    "0 \<le> c" "c \<le> 3" "0 \<le> q" "q \<le> 24" "0 \<le> t" "t \<le> 3" "0 \<le> doy" "doy \<le> 365"
    "doy = 365 \<longrightarrow> leap (100 * c + 4 * q + t + e * 400 + 1)"
    "civil_from_days n = (let mp = (5 * doy + 2) div 153; d = doy - (153 * mp + 2) div 5 + 1;
       m = (if mp < 10 then mp + 3 else mp - 9); y = 100 * c + 4 * q + t + e * 400
     in (if m \<le> 2 then y + 1 else y, m, d))" by (rule civil_parts)
  define Y where "Y = 100 * c + 4 * q + t + e * 400"
  define mp where "mp = (5 * doy + 2) div 153"
  have dd: "d = doy - (153 * mp + 2) div 5 + 1" and mm: "m = (if mp < 10 then mp + 3 else mp - 9)"
    and yy: "y = (if m \<le> 2 then Y + 1 else Y)"
    using assms p(11) by (simp_all add: Let_def Y_def mp_def split: if_splits)
  have ok: "0 \<le> mp" "mp \<le> 11" "1 \<le> d" "doy = march_offset mp + d - 1"
      "if mp = 11 then d \<le> 29 else if mp \<in> {1, 3, 6, 8} then d \<le> 30 else d \<le> 31"
    using doy_ok_all [OF p(8,9)] unfolding doy_ok_def Let_def mp_def [symmetric] dd [symmetric] by blast+
  note yr = era_years(3-5) [OF p(2-7), of e, folded Y_def]
  have Y365: "365 * Y = 36500 * c + 1460 * q + 365 * t + 146000 * e" by (simp add: Y_def)
  have e1970: "days_before_year 1970 = 719162" by (simp add: days_before_year_def)
  have "valid_date y m d \<and> day_number y m d = n"
  proof (cases "mp < 10")
    case True
    then have *: "m = mp + 3" "y = Y" using mm yy ok(1) by auto
    have b: "days_before_year Y + (if leap Y then 1 else 0) = 365 * (Y - 1) + (Y div 4 - Y div 100 + Y div 400)"
      unfolding days_before_year_def using leap_days [of Y] by linarith
    have "d \<le> month_days Y (mp + 3)" using month_spring(2) [OF ok(1) True, of Y] ok(5) True by (simp split: if_splits)
    then have "valid_date Y (mp + 3) d" using ok(1,3) True by (simp add: valid_date_def)
    moreover have "day_number Y (mp + 3) d = n"
      using month_spring(1) [OF ok(1) True, of Y] b ok(4) p(1) e1970 Y365
      unfolding day_number_def yr by (cases "leap Y") simp_all
    ultimately show ?thesis unfolding * by simp
  next
    case False
    then have w: "mp = 10 \<or> mp = 11" using ok(2) by auto
    then have *: "m = mp - 9" "y = Y + 1" using mm yy by auto
    have b: "days_before_year (Y + 1) = 365 * Y + (Y div 4 - Y div 100 + Y div 400)" by (simp add: days_before_year_def)
    have "mp = 11 \<and> d = 29 \<longrightarrow> leap (Y + 1)"
      using ok(4) p(10) by (auto simp: march_offset_def Y_def)
    then have "mp = 10 \<or> d \<le> 28 \<or> leap (Y + 1)" using w ok(5) by auto
    then have "d \<le> month_days (Y + 1) (mp - 9)" using month_winter(2) [OF w, of "Y + 1"] w ok(5) by (auto split: if_splits)
    then have "valid_date (Y + 1) (mp - 9) d" using w ok(3) by (auto simp: valid_date_def)
    moreover have "day_number (Y + 1) (mp - 9) d = n"
      using month_winter(1) [OF w, of "Y + 1"] b ok(4) p(1) e1970 Y365 unfolding day_number_def yr by linarith
    ultimately show ?thesis unfolding * by simp
  qed
  then show "valid_date y m d" "day_number y m d = n" by simp_all
qed

lemma civil_year_nonneg:
  assumes "civil_from_days n = (y, m, d)" "0 \<le> n"
  shows "0 \<le> y"
proof -
  obtain e c q t doy where p: "n + 719468 = 146097 * e + 36524 * c + 1461 * q + 365 * t + doy"
    "0 \<le> c" "c \<le> 3" "0 \<le> q" "q \<le> 24" "0 \<le> t" "t \<le> 3" "0 \<le> doy" "doy \<le> 365"
    "doy = 365 \<longrightarrow> leap (100 * c + 4 * q + t + e * 400 + 1)"
    "civil_from_days n = (let mp = (5 * doy + 2) div 153; d = doy - (153 * mp + 2) div 5 + 1;
       m = (if mp < 10 then mp + 3 else mp - 9); y = 100 * c + 4 * q + t + e * 400
     in (if m \<le> 2 then y + 1 else y, m, d))" by (rule civil_parts)
  have "0 \<le> e" using p(1-9) assms(2) by linarith
  then have "0 \<le> 100 * c + 4 * q + t + e * 400" using p(2-7) by linarith
  with assms(1) p(11) show ?thesis by (auto simp: Let_def split: if_splits)
qed

end
