(* ===== verification/Backup.thy ===== *)
theory Backup
  imports Store Syslog Calendar
begin

text \<open>
  The notes block of a backup (backup.rs): how a guest's document is carried in the notes of a vzdump
  archive. \<open>render\<close> of the source is \<open>render_block\<close> here, \<open>find\<close> is \<open>find_block\<close>. Texts are
  byte strings and a block's place is a pair of byte offsets, as in the source.
\<close>

section \<open>The block's parts\<close>

definition block_version :: nat where "block_version = 1"

definition max_yaml_bytes :: nat where "max_yaml_bytes = 16 * 1024"

definition begin_prefix :: string where "begin_prefix = ''[pve-meta v''"

definition end_line :: string where "end_line = ''[/pve-meta]''"

definition fence_close :: string where "fence_close = replicate 4 (CHR 0x60)"

definition fence_open :: string where "fence_open = fence_close @ ''yaml''"

record header =
  hd_version :: vmid
  hd_vmid :: "vmid option"
  hd_time :: "string option"
  hd_sha256 :: "string option"

record found =
  fo_start :: nat
  fo_end :: nat
  fo_header :: header
  fo_yaml :: string

datatype import_mode = Restore | Install

definition import_mode_parse :: "string \<Rightarrow> error + import_mode" where
  "import_mode_parse s =
     (if s = ''restore'' then Inr Restore
      else if s = ''install'' then Inr Install
      else Inl (EInvalidName (''unknown import mode '' @ quoted s @ '' (expected '' @ quoted ''restore'' @ '' or ''
        @ quoted ''install'' @ '')'')))"

datatype import_action = NoBlock | Imported | Stripped

record import_result =
  im_action :: import_action
  im_description :: "string option"

section \<open>Time stamps\<close>

definition pad :: "nat \<Rightarrow> string \<Rightarrow> string" where
  "pad w s = replicate (w - length s) (CHR ''0'') @ s"

definition rfc3339_utc :: "nat \<Rightarrow> string" where
  "rfc3339_utc unix =
     (let days = int (unix div 86400);
          secs = unix mod 86400;
          (y, m, d) = civil_from_days days
      in pad 4 (show_nat (nat y)) @ ''-'' @ pad 2 (show_nat (nat m)) @ ''-'' @ pad 2 (show_nat (nat d)) @ ''T''
         @ pad 2 (show_nat (secs div 3600)) @ '':'' @ pad 2 (show_nat (secs mod 3600 div 60)) @ '':''
         @ pad 2 (show_nat (secs mod 60)) @ ''Z'')"

section \<open>Rendering\<close>

definition header_line :: "vmid \<Rightarrow> string \<Rightarrow> nat \<Rightarrow> string" where
  "header_line v dg now =
     begin_prefix @ show_nat block_version @ '' vmid='' @ show_vmid v @ '' time='' @ rfc3339_utc now @ '' sha256='' @ dg @ '']''"

definition render_block :: "vmid \<Rightarrow> string \<Rightarrow> string \<Rightarrow> nat \<Rightarrow> error + string" where
  "render_block v yaml0 dg now =
     (let yaml = trim_end_nl yaml0 in
      if length yaml > max_yaml_bytes then Inl (ETooLarge (length yaml) max_yaml_bytes)
      else Inr (header_line v dg now @ [nl] @ fence_open @ [nl] @ yaml @ [nl] @ fence_close @ [nl] @ end_line))"

section \<open>Finding\<close>

fun split_inclusive :: "string \<Rightarrow> string list" where
  "split_inclusive [] = []"
| "split_inclusive (c # s) =
     (if c = nl then [c] # split_inclusive s
      else (case split_inclusive s of [] \<Rightarrow> [[c]] | l # ls \<Rightarrow> (c # l) # ls))"

definition trim_crlf :: "string \<Rightarrow> string" where
  "trim_crlf l = drop_end (\<lambda>c. c = nl \<or> c = CHR 0x0D) l"

definition is_header_line :: "string \<Rightarrow> bool" where
  "is_header_line l \<longleftrightarrow> prefix begin_prefix l \<and> suffix '']'' l"

fun last_header_loop :: "nat \<Rightarrow> nat option \<Rightarrow> nat option \<Rightarrow> string list \<Rightarrow> nat option" where
  "last_header_loop offset hdr block [] = block"
| "last_header_loop offset hdr block (l0 # ls) =
     (let l = trim_crlf l0 in
      if is_header_line l then last_header_loop (offset + length l0) (Some offset) block ls
      else if trim_end l = end_line \<and> hdr \<noteq> None then last_header_loop (offset + length l0) hdr hdr ls
      else last_header_loop (offset + length l0) hdr block ls)"

definition last_header :: "string \<Rightarrow> nat option" where
  "last_header text = last_header_loop 0 None None (split_inclusive text)"

definition header_field :: "header \<Rightarrow> string \<Rightarrow> header" where
  "header_field h field =
     (case split_once CHR ''='' field of
        None \<Rightarrow> h
      | Some (k, v) \<Rightarrow>
          if k = ''vmid'' then h\<lparr>hd_vmid := parse_u32 v\<rparr>
          else if k = ''time'' then h\<lparr>hd_time := Some v\<rparr>
          else if k = ''sha256'' then h\<lparr>hd_sha256 := Some v\<rparr>
          else h)"

definition parse_header :: "string \<Rightarrow> header option" where
  "parse_header l0 =
     Option.bind (strip_prefix begin_prefix (trim_end l0)) (\<lambda>rest.
     Option.bind (strip_suffix '']'' rest) (\<lambda>inner.
     (case split_whitespace inner of
        [] \<Rightarrow> None
      | v # fs' \<Rightarrow>
          Option.bind (parse_u32 v) (\<lambda>ver.
          Some (foldl header_field \<lparr>hd_version = ver, hd_vmid = None, hd_time = None, hd_sha256 = None\<rparr> fs')))))"

definition malformed :: "string \<Rightarrow> error" where
  "malformed msg = EParse Yaml (''malformed pve-meta notes block: '' @ msg) None"

text \<open>The loop over the lines after the opening fence: the body, and whether the end line was met.\<close>

fun body_until_end :: "string list \<Rightarrow> string list \<times> bool" where
  "body_until_end [] = ([], False)"
| "body_until_end (l0 # ls) =
     (if trim_end l0 = end_line then ([], True)
      else (let (body, closed) = body_until_end ls in (l0 # body, closed)))"

definition find_block :: "string \<Rightarrow> error + found option" where
  "find_block description =
     (case last_header description of
        None \<Rightarrow> Inr None
      | Some start \<Rightarrow>
          let rest = drop start description;
              lns = split_on nl rest in
          andthen (ok_or (malformed ''unreadable header line'') (parse_header (hd lns))) (\<lambda>h.
          andthen (guard_err (unat (hd_version h) = block_version)
            (malformed (''unsupported version v'' @ show_vmid (hd_version h)))) (\<lambda>_.
          andthen (guard_err (case tl lns of l # _ \<Rightarrow> trim_end l = fence_open | [] \<Rightarrow> False)
            (malformed ''the header is not followed by the opening fence'')) (\<lambda>_.
          let (body, closed) = body_until_end (tl (tl lns)) in
          andthen (guard_err closed (malformed ''no end line'')) (\<lambda>_.
          andthen (guard_err (body \<noteq> [] \<and> trim_end (last body) = fence_close)
            (malformed ''the end line is not preceded by the closing fence'')) (\<lambda>_.
          let yaml = join [nl] (butlast body);
              consumed_lines = 2 + length (butlast body) + 2;
              e = start + sum_list (map length (take consumed_lines (split_inclusive rest)));
              e' = (if suffix [nl] (take e description) then e - 1 else e)
          in Inr (Some \<lparr>fo_start = start, fo_end = e', fo_header = h, fo_yaml = yaml\<rparr>)))))))"

definition strip :: "string \<Rightarrow> found \<Rightarrow> string" where
  "strip description f =
     (let before = trim_end (take (fo_start f) description);
          after = dropWhile (\<lambda>c. c = nl) (drop (fo_end f) description)
      in trim_end (before @ (if before \<noteq> [] \<and> trim after \<noteq> [] then [nl] else []) @ after))"

section \<open>Lines\<close>

text \<open>The pieces \<open>split_inclusive\<close> gives, from the lines \<open>split_on\<close> gives.\<close>

fun incl_lines :: "string list \<Rightarrow> string list" where
  "incl_lines [] = []"
| "incl_lines [l] = (if l = [] then [] else [l])"
| "incl_lines (l # m # ls) = (l @ [nl]) # incl_lines (m # ls)"

lemma split_inclusive_lines: "split_inclusive s = incl_lines (split_on nl s)"
proof (induction s)
  case Nil
  then show ?case by (simp add: split_on_def)
next
  case (Cons c s)
  obtain y ys where y: "split_on nl s = y # ys" by (metis neq_Nil_conv split_on_nonempty)
  with Cons show ?case by (cases ys) (auto simp: split_on_def)
qed

lemma concat_split_inclusive: "concat (split_inclusive s) = s"
  by (induction s) (auto split: list.splits)

lemma split_on_append: "split_on c (a @ c # b) = split_on c a @ split_on c b"
proof (induction a)
  case Nil
  then show ?case by (simp add: split_on_def)
next
  case (Cons x a)
  obtain y ys where "split_on c a = y # ys" by (metis neq_Nil_conv split_on_nonempty)
  with Cons show ?case by (auto simp: split_on_def)
qed

lemma split_on_single: "c \<notin> set l \<Longrightarrow> split_on c l = [l]"
  unfolding split_on_def by (rule split_by_none) auto

lemma incl_lines_append: "ys \<noteq> [] \<Longrightarrow> incl_lines (xs @ ys) = map (\<lambda>l. l @ [nl]) xs @ incl_lines ys"
proof (induction xs)
  case (Cons x xs)
  then show ?case by (cases "xs @ ys") auto
qed simp

lemma incl_lines_length: "length (incl_lines ls) \<le> length ls"
  by (induction ls rule: incl_lines.induct) auto

lemma concat_incl_lines: "concat (incl_lines ls) = join [nl] ls"
  by (induction ls rule: incl_lines.induct) auto

section \<open>The scan for the last header\<close>

definition note_step :: "nat \<times> nat option \<times> nat option \<Rightarrow> string \<Rightarrow> nat \<times> nat option \<times> nat option" where
  "note_step = (\<lambda>(offset, hdr, block) l.
     (offset + length l + 1,
      if is_header_line (trim_crlf l) then Some offset else hdr,
      if \<not> is_header_line (trim_crlf l) \<and> trim_end (trim_crlf l) = end_line \<and> hdr \<noteq> None then hdr else block))"

lemma trim_crlf_nl [simp]: "trim_crlf (l @ [nl]) = trim_crlf l"
  by (simp add: trim_crlf_def)

lemma not_marker_empty [simp]: "\<not> is_header_line []" "trim_end [] \<noteq> end_line" "trim_crlf [] = []"
  by (simp_all add: is_header_line_def begin_prefix_def trim_end_def end_line_def trim_crlf_def)

lemma last_header_loop_scan:
  "last_header_loop off h b (incl_lines ls) = snd (snd (foldl note_step (off, h, b) ls))"
  by (induction ls arbitrary: off h b rule: incl_lines.induct) (auto simp: note_step_def Let_def)

lemma last_header_scan: "last_header text = snd (snd (foldl note_step (0, None, None) (split_on nl text)))"
  by (simp add: last_header_def split_inclusive_lines last_header_loop_scan)

definition quiet :: "string \<Rightarrow> bool" where
  "quiet l \<longleftrightarrow> \<not> is_header_line (trim_crlf l) \<and> trim_end (trim_crlf l) \<noteq> end_line"

lemma scan_quiet:
  "list_all quiet ls \<Longrightarrow> foldl note_step (off, h, b) ls = (off + sum_list (map (\<lambda>l. length l + 1) ls), h, b)"
  by (induction ls arbitrary: off) (auto simp: note_step_def quiet_def)

lemma scan_offset: "fst (foldl note_step (off, h, b) ls) = off + sum_list (map (\<lambda>l. length l + 1) ls)"
  by (induction ls arbitrary: off h b) (auto simp: note_step_def)

lemma length_lines: "sum_list (map (\<lambda>l. length l + 1) (split_on nl s)) = length s + 1"
proof -
  have "length (join [nl] ls) + 1 = sum_list (map (\<lambda>l. length l + 1) ls)" if "ls \<noteq> []" for ls
    using that by (induction ls rule: incl_lines.induct) auto
  from this [of "split_on nl s"] show ?thesis by (simp add: join_split_on)
qed

section \<open>Stripping shortens\<close>

lemma length_trim_start: "length (dropWhile P s) \<le> length s"
  by (rule length_dropWhile_le)

lemma parse_header_length: "parse_header l = Some h \<Longrightarrow> 11 \<le> length l"
proof -
  assume "parse_header l = Some h"
  then obtain r where "trim_end l = begin_prefix @ r"
    by (auto simp: parse_header_def bind_eq_Some_conv strip_prefix_Some)
  then have "11 \<le> length (trim_end l)" by (simp add: begin_prefix_def)
  with length_trim_end [of l] show ?thesis by simp
qed

lemma find_block_Some:
  assumes "find_block d = Inr (Some f)"
  shows "\<exists>n. parse_header (hd (split_on nl (drop (fo_start f) d))) = Some (fo_header f) \<and> 0 < n
    \<and> fo_end f \<le> fo_start f + sum_list (map length (take n (split_inclusive (drop (fo_start f) d))))
    \<and> fo_start f + sum_list (map length (take n (split_inclusive (drop (fo_start f) d)))) \<le> fo_end f + 1"
proof -
  define body where "body = fst (body_until_end (tl (tl (split_on nl (drop (fo_start f) d)))))"
  from assms have f: "parse_header (hd (split_on nl (drop (fo_start f) d))) = Some (fo_header f)"
    and e: "fo_end f = (let e = fo_start f + sum_list (map length (take (2 + length (butlast body) + 2)
          (split_inclusive (drop (fo_start f) d)))) in if suffix [nl] (take e d) then e - 1 else e)"
    unfolding body_def by (auto simp: find_block_def Let_def andthen_eq_Inr ok_or_def split_beta split: option.splits)
  then show ?thesis by (intro exI [of _ "2 + length (butlast body) + 2"]) (auto simp: Let_def split: if_splits)
qed

lemma sum_take_le: "sum_list (map length (take n xs)) \<le> length (concat xs)"
proof -
  have "length (concat xs) = length (concat (take n xs)) + length (concat (drop n xs))"
    by (metis append_take_drop_id concat_append length_append)
  then show ?thesis by (simp add: length_concat)
qed

lemma find_block_bounds:
  assumes "find_block d = Inr (Some f)"
  shows "fo_start f + 10 \<le> fo_end f \<and> fo_end f \<le> length d"
proof -
  let ?rest = "drop (fo_start f) d"
  from find_block_Some [OF assms] obtain n where
    h: "parse_header (hd (split_on nl ?rest)) = Some (fo_header f)" "0 < n"
    and e: "fo_end f \<le> fo_start f + sum_list (map length (take n (split_inclusive ?rest)))"
      "fo_start f + sum_list (map length (take n (split_inclusive ?rest))) \<le> fo_end f + 1" by blast
  obtain l ls where l: "split_on nl ?rest = l # ls" by (metis neq_Nil_conv split_on_nonempty)
  from h(1) l have ll: "11 \<le> length l" using parse_header_length by simp
  obtain p ps where p: "split_inclusive ?rest = p # ps" "length l \<le> length p"
    using l ll by (cases ls; cases l) (auto simp: split_inclusive_lines)
  have "11 \<le> sum_list (map length (take n (split_inclusive ?rest)))"
    using p ll h(2) by (cases n) auto
  moreover have "sum_list (map length (take n (split_inclusive ?rest))) \<le> length ?rest"
    using sum_take_le [of n "split_inclusive ?rest"] by (simp add: concat_split_inclusive)
  ultimately show ?thesis using e by auto
qed

lemma strip_shorter:
  assumes "find_block d = Inr (Some f)"
  shows "length (strip d f) < length d"
proof -
  let ?b = "trim_end (take (fo_start f) d)" and ?a = "dropWhile (\<lambda>c. c = nl) (drop (fo_end f) d)"
  have "length (strip d f) \<le> length ?b + 1 + length ?a"
    unfolding strip_def Let_def by (rule order.trans [OF length_trim_end]) auto
  moreover have "length ?b \<le> fo_start f" using length_trim_end [of "take (fo_start f) d"] by simp
  moreover have "length ?a \<le> length d - fo_end f"
    using length_dropWhile_le [of "\<lambda>c. c = nl" "drop (fo_end f) d"] by simp
  ultimately show ?thesis using find_block_bounds [OF assms] by linarith
qed

function strip_all :: "string \<Rightarrow> string" where
  "strip_all description =
     (case find_block description of
        Inr (Some f) \<Rightarrow> strip_all (strip description f)
      | _ \<Rightarrow> description)"
  by pat_completeness auto
termination
  by (relation "measure length") (simp_all add: strip_shorter)

declare strip_all.simps [simp del]

lemma strip_all_done: "find_block (strip_all d) \<noteq> Inr (Some f)"
proof (induction d rule: strip_all.induct)
  case (1 d)
  then show ?case
    by (subst strip_all.simps) (auto split: sum.splits option.splits)
qed

section \<open>Export and import\<close>

definition export :: "libs \<Rightarrow> meta_store \<Rightarrow> vmid \<Rightarrow> nat \<Rightarrow> fs \<Rightarrow> error + string option" where
  "export L M v now s =
     (case read L M (Guest v) s of
        Inl (ENotFound _) \<Rightarrow> Inr None
      | Inl e \<Rightarrow> Inl e
      | Inr doc \<Rightarrow>
          (case dc_parse_error doc of
             Some msg \<Rightarrow> Inl (EParse Yaml (''the stored document does not parse: '' @ msg) None)
           | None \<Rightarrow> andthen (render_block v (dc_raw doc) (dc_digest doc) now) (\<lambda>b. Inr (Some b))))"

definition mismatch_warning :: "libs \<Rightarrow> doc_id \<Rightarrow> found \<Rightarrow> world \<Rightarrow> (error + unit) \<times> world" where
  "mismatch_warning L did f =
     (case hd_sha256 (fo_header f) of
        None \<Rightarrow> lift_res (Inr ())
      | Some expected \<Rightarrow>
          let actual = sha256_hex L (fo_yaml f @ [nl]) in
          if expected \<noteq> actual
          then warn (''backup notes block on '' @ show_doc_id did @ '': digest '' @ short expected
                 @ '' does not match its text ('' @ short actual @ ''); importing the text as it is'')
          else lift_res (Inr ()))"

definition import_audit :: "doc_id \<Rightarrow> found \<Rightarrow> nat \<Rightarrow> string \<Rightarrow> string" where
  "import_audit did f dropped written =
     ''backup notes block imported into '' @ show_doc_id did @ '' (from vmid ''
     @ (case hd_vmid (fo_header f) of None \<Rightarrow> ''?'' | Some v \<Rightarrow> show_vmid v)
     @ '', taken '' @ unwrap_or ''?'' (hd_time (fo_header f)) @ '', '' @ show_nat dropped
     @ '' old snapshot copies removed): digest '' @ short written"

definition drop_snapshots :: "meta_store \<Rightarrow> vmid \<Rightarrow> import_mode \<Rightarrow> world \<Rightarrow> (error + nat) \<times> world" where
  "drop_snapshots M v mode =
     (case mode of
        Restore \<Rightarrow> then_do (ask id (list_snapshots M v)) (\<lambda>names. act id (delete_snapshots M v names 0))
      | Install \<Rightarrow> lift_res (Inr 0))"

definition import_text :: "libs \<Rightarrow> env \<Rightarrow> meta_store \<Rightarrow> vmid \<Rightarrow> found \<Rightarrow> string \<Rightarrow> import_mode \<Rightarrow> world
    \<Rightarrow> (error + import_result) \<times> world" where
  "import_text L E M v f stripped mode =
     then_do (mismatch_warning L (Guest v) f) (\<lambda>_.
     then_do (act id (put_raw L E M (Guest v) (fo_yaml f @ [nl]) None)) (\<lambda>written.
     then_do (drop_snapshots M v mode) (\<lambda>dropped.
     then_do (audit (import_audit (Guest v) f dropped (dc_digest written))) (\<lambda>_.
     lift_res (Inr \<lparr>im_action = Imported, im_description = Some stripped\<rparr>)))))"

definition import_block :: "libs \<Rightarrow> env \<Rightarrow> meta_store \<Rightarrow> vmid \<Rightarrow> string \<Rightarrow> import_mode \<Rightarrow> world
    \<Rightarrow> (error + import_result) \<times> world" where
  "import_block L E M v description mode =
     then_do (lift_res (find_block description)) (\<lambda>r.
     (case r of
        None \<Rightarrow> lift_res (Inr \<lparr>im_action = NoBlock, im_description = None\<rparr>)
      | Some f \<Rightarrow>
          let did = Guest v;
              stripped = strip_all (strip description f) in
          then_do (case mode of
              Restore \<Rightarrow> lift_res (Inr False)
            | Install \<Rightarrow> ask id (\<lambda>s. andthen (digest_of L M did s) (\<lambda>d. Inr (d \<noteq> None)))) (\<lambda>existing.
          if existing
          then then_do (audit (''backup notes block on '' @ show_doc_id did @ '' stripped: a document is already there'')) (\<lambda>_.
               lift_res (Inr \<lparr>im_action = Stripped, im_description = Some stripped\<rparr>))
          else import_text L E M v f stripped mode)))"

section \<open>Words of the header line\<close>

lemma trim_end_prefix: "prefix (trim_end s) s"
proof -
  from drop_end_decomp [of "chars s" is_ws] obtain ys where ys: "chars s = drop_end is_ws (chars s) @ ys" by (elim exE conjE)
  have "concat (chars s) = trim_end s @ concat ys"
    using arg_cong [OF ys, of concat] by (simp only: concat_append trim_end_def)
  then show ?thesis by (simp only: concat_chars) (metis prefixI)
qed

lemma trim_crlf_prefix: "prefix (trim_crlf l) l"
  using drop_end_decomp [of l "\<lambda>c. c = nl \<or> c = CHR 0x0D"] by (auto simp: trim_crlf_def intro: prefixI)

definition word :: "string \<Rightarrow> bool" where
  "word s \<longleftrightarrow> s \<noteq> [] \<and> is_ascii s \<and> (\<forall>c \<in> set s. \<not> is_ws [c])"

lemma is_ascii_append [simp]: "is_ascii (s @ t) \<longleftrightarrow> is_ascii s \<and> is_ascii t"
  by (auto simp: is_ascii_def)

lemma trim_end_word: "word t \<Longrightarrow> is_ascii s \<Longrightarrow> trim_end (s @ t) = s @ t"
proof -
  assume *: "word t" "is_ascii s"
  then have c: "chars (s @ t) = map (\<lambda>c. [c]) (s @ t)" by (intro chars_ascii) (simp add: word_def)
  have "\<not> is_ws (last (map (\<lambda>c. [c]) (s @ t)))" using * by (simp add: word_def last_map)
  then show ?thesis by (simp add: trim_end_def c drop_end_id)
qed

lemma split_whitespace_words:
  assumes "list_all word ws"
  shows "split_whitespace (join '' '' ws) = ws"
proof (cases "ws = []")
  case True
  then show ?thesis by (simp add: split_whitespace_def)
next
  case False
  have asc: "is_ascii (join '' '' ws)"
    using assms by (intro is_ascii_join) (auto simp: is_ascii_def word_def list_all_iff)
  have j: "map (\<lambda>c. [c]) (join '' '' ws) = join ['' ''] (map (map (\<lambda>c. [c])) ws)" by (simp add: map_join)
  have "split_by is_ws (join ['' ''] (map (map (\<lambda>c. [c])) ws)) = map (map (\<lambda>c. [c])) ws"
  proof (rule split_by_join)
    fix x y assume "x \<in> set (map (map (\<lambda>c. [c])) ws)" "y \<in> set x"
    then show "\<not> is_ws y" using assms by (auto simp: word_def list_all_iff)
  qed (use False in \<open>simp_all add: is_ws_def ws_chars_def\<close>)
  then have "split_whitespace (join '' '' ws) = map concat (filter (\<lambda>w. w \<noteq> []) (map (map (\<lambda>c. [c])) ws))"
    by (simp add: split_whitespace_def chars_ascii [OF asc] j)
  also have "filter (\<lambda>w. w \<noteq> []) (map (map (\<lambda>c. [c])) ws) = map (map (\<lambda>c. [c])) ws"
    using assms by (auto simp: filter_id_conv word_def list_all_iff)
  also have "map concat (map (map (\<lambda>c. [c])) ws) = ws" by (simp add: comp_def map_idI)
  finally show ?thesis .
qed

text \<open>Letters, digits and the punctuation of a header are words.\<close>

definition word_char :: "char \<Rightarrow> bool" where
  "word_char c \<longleftrightarrow> is_alnum c \<or> c \<in> set ''=-:]''"

lemma word_chars: "s \<noteq> [] \<Longrightarrow> list_all word_char s \<Longrightarrow> word s"
proof -
  have "code c < 128 \<and> \<not> is_ws [c]" if "word_char c" for c
  proof -
    have "code c \<ge> 45 \<and> code c < 128" using that by (auto simp: word_char_def ascii_class_defs)
    moreover have "c \<noteq> CHR 0x09 \<and> c \<noteq> CHR 0x0A \<and> c \<noteq> CHR 0x0B \<and> c \<noteq> CHR 0x0C \<and> c \<noteq> CHR 0x0D \<and> c \<noteq> CHR 0x20"
      using calculation by auto
    ultimately show ?thesis by (simp add: is_ws_def ws_chars_def)
  qed
  then show "s \<noteq> [] \<Longrightarrow> list_all word_char s \<Longrightarrow> word s" by (auto simp: word_def is_ascii_def list_all_iff)
qed

lemma digits_word_chars: "list_all is_digit s \<Longrightarrow> list_all word_char s"
  by (auto simp: list_all_iff word_char_def is_alnum_def)

lemma pad_word_chars: "list_all word_char s \<Longrightarrow> list_all word_char (pad w s)"
  by (auto simp: pad_def list_all_iff word_char_def ascii_class_defs)

lemma rfc3339_word_chars: "list_all word_char (rfc3339_utc now)"
proof -
  have "list_all word_char (show_nat n)" for n by (rule digits_word_chars [OF show_nat_digits])
  then have "list_all word_char (pad w (show_nat n))" for w n by (rule pad_word_chars)
  moreover have "list_all word_char ''-''" "list_all word_char '':''" "list_all word_char ''T''" "list_all word_char ''Z''"
    by (simp_all add: word_char_def ascii_class_defs)
  ultimately show ?thesis unfolding rfc3339_utc_def Let_def split_beta list_all_append by blast
qed

definition block_header :: "vmid \<Rightarrow> string \<Rightarrow> nat \<Rightarrow> header" where
  "block_header v dg now = \<lparr>hd_version = 1, hd_vmid = Some v, hd_time = Some (rfc3339_utc now), hd_sha256 = Some dg\<rparr>"

lemma show_one: "show_nat block_version = ''1''"
  by code_simp

lemma header_line_words:
  "header_line v dg now = begin_prefix
     @ join '' '' [''1'', ''vmid='' @ show_vmid v, ''time='' @ rfc3339_utc now, ''sha256='' @ dg] @ '']''"
  by (simp add: header_line_def show_one)

lemma header_words:
  assumes "list_all is_alnum dg"
  shows "list_all word [''1'', ''vmid='' @ show_vmid v, ''time='' @ rfc3339_utc now, ''sha256='' @ dg]"
proof -
  have "list_all word_char dg" using assms by (auto simp: list_all_iff word_char_def)
  moreover have "list_all word_char (show_vmid v)" by (rule digits_word_chars [OF show_vmid_digits])
  moreover have "list_all word_char ''1''" "list_all word_char ''vmid=''" "list_all word_char ''time=''"
    "list_all word_char ''sha256=''" by (simp_all add: word_char_def ascii_class_defs)
  ultimately have "word ''1''" "word (''vmid='' @ show_vmid v)" "word (''time='' @ rfc3339_utc now)" "word (''sha256='' @ dg)"
    using rfc3339_word_chars [of now] by (simp_all only: word_chars list_all_append append_is_Nil_conv list.distinct simp_thms)
  then show ?thesis by (simp only: list.pred_inject simp_thms)
qed

lemma header_line_ascii:
  assumes "list_all is_alnum dg"
  shows "is_ascii (join '' '' [''1'', ''vmid='' @ show_vmid v, ''time='' @ rfc3339_utc now, ''sha256='' @ dg])"
  using header_words [OF assms, of v now] by (intro is_ascii_join) (auto simp: word_def list_all_iff is_ascii_def)

lemma split_once_field: "c \<notin> set k \<Longrightarrow> split_once c (k @ c # v) = Some (k, v)"
  by (simp add: split_once_Some)

lemma parse_header_line:
  assumes "list_all is_alnum dg"
  shows "parse_header (header_line v dg now) = Some (block_header v dg now)"
proof -
  let ?ws = "[''1'', ''vmid='' @ show_vmid v, ''time='' @ rfc3339_utc now, ''sha256='' @ dg]"
  have "trim_end ((begin_prefix @ join '' '' ?ws) @ '']'') = (begin_prefix @ join '' '' ?ws) @ '']''"
  proof (rule trim_end_word)
    show "word '']''" by (rule word_chars) (simp_all add: word_char_def)
    have "is_ascii begin_prefix" by (simp add: begin_prefix_def is_ascii_def)
    then show "is_ascii (begin_prefix @ join '' '' ?ws)" unfolding is_ascii_append using header_line_ascii [OF assms] by blast
  qed
  then have t: "trim_end (header_line v dg now) = begin_prefix @ (join '' '' ?ws @ '']'')"
    by (simp only: header_line_words append_assoc)
  have fields: "split_once CHR ''='' (''vmid='' @ show_vmid v) = Some (''vmid'', show_vmid v)"
    "split_once CHR ''='' (''time='' @ rfc3339_utc now) = Some (''time'', rfc3339_utc now)"
    "split_once CHR ''='' (''sha256='' @ dg) = Some (''sha256'', dg)"
    by (simp_all add: split_once_Some)
  have one: "parse_u32 ''1'' = Some 1" by code_simp
  show ?thesis
    unfolding parse_header_def t strip_prefix_append bind.bind_lunit strip_suffix_append
      split_whitespace_words [OF header_words [OF assms]] list.case one
    by (simp only: foldl.simps header_field_def fields option.case prod.case parse_show_vmid)
      (simp add: block_header_def)
qed

lemma header_line_no_nl:
  assumes "list_all is_alnum dg"
  shows "nl \<notin> set (header_line v dg now)"
proof -
  have w: "nl \<notin> set x" if "word x" for x using that by (auto simp: word_def is_ws_def ws_chars_def)
  from header_words [OF assms, of v now] show ?thesis
    unfolding header_line_words by (auto simp: begin_prefix_def dest: w)
qed

lemma header_line_is_header: "trim_crlf (header_line v dg now) = header_line v dg now \<and> is_header_line (header_line v dg now)"
proof -
  obtain x where x: "header_line v dg now = begin_prefix @ x @ [CHR 0x5D]" by (simp add: header_line_words)
  have "trim_crlf ((begin_prefix @ x) @ [CHR 0x5D]) = (begin_prefix @ x) @ [CHR 0x5D]"
    unfolding trim_crlf_def drop_end_snoc by simp
  then show ?thesis by (simp add: x is_header_line_def suffix_def)
qed

section \<open>A rendered block is found\<close>

definition no_end :: "string \<Rightarrow> bool" where
  "no_end text \<longleftrightarrow> (\<forall>l \<in> set (split_on nl text). \<not> prefix end_line l)"

definition no_delimiter :: "string \<Rightarrow> bool" where
  "no_delimiter text \<longleftrightarrow> (\<forall>l \<in> set (split_on nl text). \<not> prefix begin_prefix l \<and> \<not> prefix end_line l)"

lemma trim_end_not_end: "\<not> prefix end_line l \<Longrightarrow> trim_end l \<noteq> end_line \<and> trim_end (trim_crlf l) \<noteq> end_line"
  using trim_end_prefix [of l] trim_end_prefix [of "trim_crlf l"] trim_crlf_prefix [of l] by (metis prefix_order.trans)

lemma no_delimiter_quiet: "no_delimiter y \<Longrightarrow> list_all quiet (split_on nl y)"
  unfolding no_delimiter_def quiet_def list_all_iff is_header_line_def
  using trim_end_not_end trim_crlf_prefix by (metis prefix_order.trans)

lemma scan_no_end:
  assumes "list_all (\<lambda>l. \<not> prefix end_line l) ls"
  shows "snd (snd (foldl note_step (off, h, b) ls)) = b"
  using assms trim_end_not_end by (induction ls arbitrary: off h) (auto simp: note_step_def)

lemma body_of_block:
  assumes "list_all (\<lambda>l. \<not> prefix end_line l) ys" "trim_end c \<noteq> end_line" "trim_end e = end_line"
  shows "body_until_end (ys @ c # e # rest) = (ys @ [c], True)"
  using assms trim_end_not_end by (induction ys) auto

lemma fences:
  "trim_end fence_open = fence_open" "trim_end fence_close = fence_close" "trim_end end_line = end_line" "trim_crlf end_line = end_line"
  "fence_close \<noteq> end_line" "nl \<notin> set fence_open" "nl \<notin> set fence_close" "nl \<notin> set end_line"
  "quiet fence_open" "quiet fence_close" "\<not> is_header_line end_line"
  by code_simp+

lemma block_lines:
  assumes "render_block v yaml dg now = Inr block" "list_all is_alnum dg"
  shows "split_on nl block = header_line v dg now # fence_open # split_on nl (trim_end_nl yaml) @ [fence_close, end_line]"
proof -
  have b: "block = header_line v dg now @ nl # fence_open @ nl # trim_end_nl yaml @ nl # fence_close @ nl # end_line"
    using assms(1) by (simp add: render_block_def Let_def split: if_splits)
  show ?thesis
    unfolding b using header_line_no_nl [OF assms(2)] fences by (simp add: split_on_append split_on_single)
qed

lemma foldl_ends: "foldl f s (x # q @ [e]) = f (foldl f (f s x) q) e"
  by simp

lemma last_header_of_block:
  assumes "render_block v yaml dg now = Inr block" "list_all is_alnum dg" "no_delimiter (trim_end_nl yaml)"
    and "before = [] \<or> (\<exists>b. before = b @ [nl])" "after = [] \<or> (\<exists>a. after = nl # a \<and> no_end a)"
  shows "last_header (before @ block @ after) = Some (length before)"
proof -
  let ?bl = "header_line v dg now # fence_open # split_on nl (trim_end_nl yaml) @ [fence_close, end_line]"
  obtain post where post: "split_on nl (block @ after) = ?bl @ post" "list_all (\<lambda>l. \<not> prefix end_line l) post"
    using assms(5) block_lines [OF assms(1,2)] by (auto simp: split_on_append no_end_def list_all_iff)
  obtain pre where pre: "split_on nl (before @ block @ after) = pre @ ?bl @ post"
      "sum_list (map (\<lambda>l. length l + 1) pre) = length before"
  proof (cases "before = []")
    case True
    then show ?thesis using post that [of "[]"] by simp
  next
    case False
    with assms(4) obtain b where b: "before = b @ [nl]" by blast
    show ?thesis using post length_lines [of b] that [of "split_on nl b"] by (simp add: b split_on_append)
  qed
  obtain h' b' where st: "foldl note_step (0, None, None) pre = (length before, h', b')"
    using scan_offset [of 0 None None pre] pre(2) by (cases "foldl note_step (0, None, None) pre") auto
  let ?q = "fence_open # split_on nl (trim_end_nl yaml) @ [fence_close]"
  have q: "list_all quiet ?q" using no_delimiter_quiet [OF assms(3)] fences by simp
  have s1: "note_step (off, x, y) (header_line v dg now) = (off + length (header_line v dg now) + 1, Some off, y)" for off x y
    using header_line_is_header [of v dg now] by (simp add: note_step_def)
  have s2: "note_step (off, Some x, y) end_line = (off + length end_line + 1, Some x, Some x)" for off x y
    using fences by (simp add: note_step_def)
  have "foldl note_step (length before, h', b') (header_line v dg now # q @ [end_line])
      = (length before + length (header_line v dg now) + 1 + sum_list (map (\<lambda>l. length l + 1) q) + length end_line + 1,
         Some (length before), Some (length before))" if "list_all quiet q" for q
    unfolding foldl_ends s1 scan_quiet [OF that] s2 ..
  from this [OF q]
  obtain o1 where "foldl note_step (length before, h', b') ?bl = (o1, Some (length before), Some (length before))"
    by simp
  then show ?thesis
    unfolding last_header_scan pre(1) foldl_append st using scan_no_end [OF post(2)] by simp
qed

lemma length_incl: "sum_list (map length (map (\<lambda>l. l @ [nl]) xs)) = sum_list (map (\<lambda>l. length l + 1) xs)"
  by (induction xs) auto

lemma block_length:
  assumes "render_block v yaml dg now = Inr block" "list_all is_alnum dg"
  shows "sum_list (map (\<lambda>l. length l + 1) (header_line v dg now # fence_open # split_on nl (trim_end_nl yaml) @ [fence_close, end_line]))
    = length block + 1"
  using length_lines [of block] block_lines [OF assms] by simp

lemma block_end:
  assumes "render_block v yaml dg now = Inr block" "list_all is_alnum dg" "after = [] \<or> (\<exists>a. after = nl # a)"
  shows "sum_list (map length (take (2 + length (split_on nl (trim_end_nl yaml)) + 2) (split_inclusive (block @ after))))
    = length block + (if after = [] then 0 else 1)"
proof -
  let ?bl = "header_line v dg now # fence_open # split_on nl (trim_end_nl yaml) @ [fence_close, end_line]"
  have n: "2 + length (split_on nl (trim_end_nl yaml)) + 2 = length ?bl" by simp
  show ?thesis
  proof (cases "after = []")
    case True
    have "length (split_inclusive block) \<le> length ?bl"
      unfolding split_inclusive_lines block_lines [OF assms(1,2)]
      by (metis incl_lines_length)
    then have "take (length ?bl) (split_inclusive block) = split_inclusive block" by simp
    with True show ?thesis
      unfolding n by (simp add: length_concat [symmetric] concat_split_inclusive)
  next
    case False
    then obtain a where a: "after = nl # a" using assms(3) by blast
    have "split_inclusive (block @ after) = map (\<lambda>l. l @ [nl]) ?bl @ incl_lines (split_on nl a)"
      unfolding a split_inclusive_lines split_on_append block_lines [OF assms(1,2)] by (rule incl_lines_append) simp
    then have "take (length ?bl) (split_inclusive (block @ after)) = map (\<lambda>l. l @ [nl]) ?bl"
      by (simp only: take_append length_map diff_self_eq_0 take_0 append_Nil2 take_all_iff order_refl)
    then show ?thesis
      unfolding n by (simp only: length_incl block_length [OF assms(1,2)]) (simp add: False)
  qed
qed

text \<open>A block rendered into notes is found where it is, with its document, whatever the notes before it
  hold and as long as no end line follows.\<close>

lemma find_of_block:
  assumes "render_block v yaml dg now = Inr block" "list_all is_alnum dg" "no_delimiter (trim_end_nl yaml)"
    and "before = [] \<or> (\<exists>b. before = b @ [nl])" "after = [] \<or> (\<exists>a. after = nl # a \<and> no_end a)"
  shows "find_block (before @ block @ after)
    = Inr (Some \<lparr>fo_start = length before, fo_end = length before + length block, fo_header = block_header v dg now,
        fo_yaml = trim_end_nl yaml\<rparr>)"
proof -
  let ?y = "split_on nl (trim_end_nl yaml)" and ?d = "before @ block @ after"
  obtain post where lns: "split_on nl (block @ after) = header_line v dg now # fence_open # ?y @ fence_close # end_line # post"
    using assms(5) block_lines [OF assms(1,2)] by (auto simp: split_on_append)
  have body: "body_until_end (?y @ fence_close # end_line # post) = (?y @ [fence_close], True)"
    using assms(3) fences by (intro body_of_block) (auto simp: no_delimiter_def list_all_iff)
  have aft: "after = [] \<or> (\<exists>a. after = nl # a)" using assms(5) by blast
  have e: "length before + sum_list (map length (take (2 + length ?y + 2) (split_inclusive (block @ after))))
      = length before + length block + (if after = [] then 0 else 1)" (is "?e = _")
    using block_end [OF assms(1,2) aft] by simp
  have last: "\<exists>x. block = x @ [CHR 0x5D]"
    using assms(1) by (auto simp: render_block_def Let_def end_line_def split: if_splits)
  have stop: "(if suffix [nl] (take ?e ?d) then ?e - 1 else ?e) = length before + length block"
    using last aft unfolding e by (auto simp: suffix_def)
  have v: "hd_version (block_header v dg now) = 1" by (simp add: block_header_def)
  show ?thesis
    unfolding find_block_def last_header_of_block [OF assms] option.case append_eq_conv_conj
    using parse_header_line [OF assms(2), of v now] fences stop
    by (simp add: lns body v block_version_def join_split_on Let_def guard_err_def ok_or_def del: take_append split: if_splits)
qed

section \<open>Import\<close>

lemma mismatch_warning_fs: "\<exists>w1. mismatch_warning L did f w = (Inr (), w1) \<and> w_fs w1 = w_fs w"
  by (auto simp: mismatch_warning_def warn_def Let_def split: option.splits)

lemma import_text_Inr:
  assumes "import_text L E M v f stripped mode w = (Inr r, w')"
  shows "im_action r = Imported" and "im_description r = Some stripped"
    and "\<exists>doc t. put_raw L E M (Guest v) (fo_yaml f @ [nl]) None (w_fs w) = (Inr doc, t)
      \<and> (case mode of
           Restore \<Rightarrow> \<exists>names n. list_snapshots M v t = Inr names \<and> delete_snapshots M v names 0 t = (Inr n, w_fs w')
         | Install \<Rightarrow> w_fs w' = t)"
proof -
  obtain w1 where w1: "mismatch_warning L (Guest v) f w = (Inr (), w1)" "w_fs w1 = w_fs w"
    using mismatch_warning_fs by blast
  with assms obtain doc t n w2 where p: "put_raw L E M (Guest v) (fo_yaml f @ [nl]) None (w_fs w) = (Inr doc, t)"
    and d: "drop_snapshots M v mode (w1\<lparr>w_fs := t\<rparr>) = (Inr n, w2)" and fs: "w_fs w' = w_fs w2"
    and r: "r = \<lparr>im_action = Imported, im_description = Some stripped\<rparr>"
    by (auto simp: import_text_def then_do_Inr act_Inr audit_def simp del: then_do_lift)
  from r show "im_action r = Imported" "im_description r = Some stripped" by simp_all
  from d fs have "case mode of
      Restore \<Rightarrow> \<exists>names n. list_snapshots M v t = Inr names \<and> delete_snapshots M v names 0 t = (Inr n, w_fs w')
    | Install \<Rightarrow> w_fs w' = t"
    by (cases mode) (auto simp: drop_snapshots_def then_do_Inr act_Inr ask_Inr simp del: then_do_lift)
  with p show "\<exists>doc t. put_raw L E M (Guest v) (fo_yaml f @ [nl]) None (w_fs w) = (Inr doc, t)
      \<and> (case mode of
           Restore \<Rightarrow> \<exists>names n. list_snapshots M v t = Inr names \<and> delete_snapshots M v names 0 t = (Inr n, w_fs w')
         | Install \<Rightarrow> w_fs w' = t)" by blast
qed

lemma import_restore:
  assumes "find_block description = Inr (Some f)"
  shows "import_block L E M v description Restore w = import_text L E M v f (strip_all (strip description f)) Restore w"
  using assms by (simp add: import_block_def Let_def)

lemma import_install:
  assumes "find_block description = Inr (Some f)" "digest_of L M (Guest v) (w_fs w) = Inr d"
  shows "import_block L E M v description Install w =
    (if d = None then import_text L E M v f (strip_all (strip description f)) Install w
     else (Inr \<lparr>im_action = Stripped, im_description = Some (strip_all (strip description f))\<rparr>,
           snd (audit (''backup notes block on '' @ show_doc_id (Guest v) @ '' stripped: a document is already there'') w
             :: (error + unit) \<times> world)))"
  using assms by (simp add: import_block_def Let_def then_do_def ask_def audit_def)

lemma remove_frame: "gone_st (remove_file p) s = (r, t) \<Longrightarrow> q \<noteq> p \<Longrightarrow> node_at t q = node_at s q"
  by (auto simp: gone_st_def remove_file_def split: option.splits fnode.splits prod.splits)

lemma delete_snapshots_frame:
  assumes "delete_snapshots M v names n s = (Inr k, t)" "\<And>name. q \<noteq> snapshot_path M v name"
  shows "node_at t q = node_at s q"
  using assms(1)
proof (induction names arbitrary: n s)
  case (Cons name names)
  from Cons.prems obtain g s1 where d: "delete_snapshot M v name s = (Inr g, s1)"
    and rest: "delete_snapshots M v names (if g then n + 1 else n) s1 = (Inr k, t)"
    by (auto simp: then_do_Inr)
  from d obtain r where "gone_st (remove_file (snapshot_path M v name)) s = (Inr r, s1)"
    by (auto simp: delete_snapshot_def then_do_Inr simp del: then_do_lift)
  from remove_frame [OF this assms(2)] Cons.IH [OF rest] show ?case by simp
qed simp

lemma path_not_snapshot: "path_for M (Guest v) \<noteq> snapshot_path M v name"
  by (simp add: path_for_def snapshot_path_def Let_def disk_format_def)

lemma content_node: "node_at t q = node_at s q \<Longrightarrow> content t q = content s q"
  by (simp add: content_def)

lemma import_text_content:
  assumes "import_text L E M v f stripped mode w = (Inr r, w')" "writable E (w_fs w) (path_for M (Guest v))"
  shows "content (w_fs w') (path_for M (Guest v)) = Some (normalize_trailing_newline (fo_yaml f @ [nl]))"
proof -
  from import_text_Inr(3) [OF assms(1)] obtain doc t where
    p: "put_raw L E M (Guest v) (fo_yaml f @ [nl]) None (w_fs w) = (Inr doc, t)"
    and m: "case mode of
           Restore \<Rightarrow> \<exists>names n. list_snapshots M v t = Inr names \<and> delete_snapshots M v names 0 t = (Inr n, w_fs w')
         | Install \<Rightarrow> w_fs w' = t" by blast
  have "node_at (w_fs w') (path_for M (Guest v)) = node_at t (path_for M (Guest v))"
    using m delete_snapshots_frame [OF _ path_not_snapshot] by (cases mode) auto
  then show ?thesis using aw.wr_ok [OF assms(2) put_raw_Inr(5) [OF p]] by (simp add: content_def)
qed

lemma export_Some:
  assumes "export L M v now s = Inr (Some block)"
  shows "\<exists>doc. read L M (Guest v) s = Inr doc \<and> render_block v (dc_raw doc) (dc_digest doc) now = Inr block"
  using assms by (auto simp: export_def andthen_eq_Inr split: sum.splits error.splits option.splits)

section \<open>Evaluation\<close>

text \<open>The same computations on binary integers, so that the definitions evaluate.\<close>

lemma render_block_code [code]:
  "render_block v yaml0 dg now =
     (let yaml = trim_end_nl yaml0 in
      if int (length yaml) > 16384 then Inl (ETooLarge (length yaml) max_yaml_bytes)
      else Inr (header_line v dg now @ [nl] @ fence_open @ [nl] @ yaml @ [nl] @ fence_close @ [nl] @ end_line))"
proof -
  have "(int k > 16384) = (k > max_yaml_bytes)" for k by (auto simp: max_yaml_bytes_def)
  then show ?thesis by (simp only: render_block_def)
qed

lemma rfc3339_utc_code [code]:
  "rfc3339_utc unix =
     (let u = int unix; secs = u mod 86400; (y, m, d) = civil_from_days (u div 86400)
      in pad 4 (show_nat (nat y)) @ ''-'' @ pad 2 (show_nat (nat m)) @ ''-'' @ pad 2 (show_nat (nat d)) @ ''T''
         @ pad 2 (show_nat (nat (secs div 3600))) @ '':'' @ pad 2 (show_nat (nat (secs mod 3600 div 60))) @ '':''
         @ pad 2 (show_nat (nat (secs mod 60))) @ ''Z'')"
proof -
  have "unix mod 86400 div 3600 = nat (int unix mod 86400 div 3600)"
    "unix mod 86400 mod 3600 div 60 = nat (int unix mod 86400 mod 3600 div 60)"
    "unix mod 86400 mod 60 = nat (int unix mod 86400 mod 60)" "int (unix div 86400) = int unix div 86400"
    by (metis nat_int of_nat_mod zdiv_int of_nat_numeral)+
  then show ?thesis by (simp only: rfc3339_utc_def Let_def)
qed

section \<open>Properties\<close>

text \<open>A block rendered into a guest's notes is found again exactly where it is, with its header and its
  document, whatever the notes before it hold, older blocks included, and whatever follows it but an end
  line, provided no line of the document looks like a delimiter of the block and the digest is
  alphanumeric.\<close>

theorem rendered_block_is_found:
  assumes "render_block v yaml dg now = Inr block" "list_all is_alnum dg" "no_delimiter (trim_end_nl yaml)"
    and "before = [] \<or> (\<exists>b. before = b @ [nl])" "after = [] \<or> (\<exists>a. after = nl # a \<and> no_end a)"
  shows "find_block (before @ block @ after)
    = Inr (Some \<lparr>fo_start = length before, fo_end = length before + length block, fo_header = block_header v dg now,
        fo_yaml = trim_end_nl yaml\<rparr>)"
  by (rule find_of_block [OF assms])

theorem rendered_block_is_found_witness:
  "\<exists>block. render_block 105 ''a: 1'' ''9f'' 0 = Inr block
     \<and> find_block ((''notes'' @ [nl]) @ block @ nl # ''see [pve-meta v1]'')
       = Inr (Some \<lparr>fo_start = 6, fo_end = 6 + length block, fo_header = block_header 105 ''9f'' 0, fo_yaml = ''a: 1''\<rparr>)"
proof -
  have "length (trim_end_nl ''a: 1'') \<le> max_yaml_bytes" by (simp add: trim_end_nl_def drop_end_def max_yaml_bytes_def)
  then obtain block where b: "render_block 105 ''a: 1'' ''9f'' 0 = Inr block" by (simp add: render_block_def Let_def)
  have h: "list_all is_alnum ''9f''" "no_delimiter (trim_end_nl ''a: 1'')" "no_end ''see [pve-meta v1]''"
    "trim_end_nl ''a: 1'' = ''a: 1''" by code_simp+
  from rendered_block_is_found [OF b h(1,2), of "''notes'' @ [nl]" "nl # ''see [pve-meta v1]''"] h(3,4) b
  show ?thesis by (intro exI [of _ block]) simp
qed



text \<open>An import at install never overwrites: a guest that already has a document keeps its files as
  they are, and the notes lose their blocks all the same.\<close>

theorem install_keeps_documents:
  assumes "digest_of L M (Guest v) (w_fs w) = Inr (Some d)" "import_block L E M v description Install w = (Inr r, w')"
  shows "w_fs w' = w_fs w \<and> (case find_block description of
      Inr (Some f) \<Rightarrow> r = \<lparr>im_action = Stripped, im_description = Some (strip_all (strip description f))\<rparr>
    | _ \<Rightarrow> r = \<lparr>im_action = NoBlock, im_description = None\<rparr>)"
proof (cases "find_block description")
  case (Inl e)
  with assms show ?thesis by (simp add: import_block_def)
next
  case (Inr fo)
  show ?thesis
  proof (cases fo)
    case None
    with Inr assms show ?thesis by (simp add: import_block_def)
  next
    case (Some f)
    with Inr have "find_block description = Inr (Some f)" by simp
    with import_install [OF this assms(1)] assms(2) show ?thesis by (auto simp: audit_def)
  qed
qed

theorem install_keeps_documents_witness:
  "\<exists>r w'. import_block (sample_libs (VObj [])) sample_env sample_store 105 ''no block'' Install
       \<lparr>w_fs = sample_fs sample_nodes, w_log = []\<rparr> = (Inr r, w') \<and> w_fs w' = sample_fs sample_nodes"
proof -
  define w where "w = \<lparr>w_fs = sample_fs sample_nodes, w_log = []\<rparr>"
  have d: "digest_of (sample_libs (VObj [])) sample_store (Guest 105) (w_fs w) = Inr (Some ''old'')" unfolding w_def by code_simp
  define x where "x = import_block (sample_libs (VObj [])) sample_env sample_store 105 ''no block'' Install w"
  have "\<not> isl (fst x)" unfolding x_def w_def by code_simp
  then obtain r where x: "x = (Inr r, snd x)" by (cases "fst x") (auto simp: prod_eq_iff)
  from install_keeps_documents [OF d x [unfolded x_def]] have "w_fs (snd x) = w_fs w" unfolding x_def by (rule conjunct1)
  with x show ?thesis unfolding x_def w_def by (intro exI [of _ r] exI conjI) simp_all
qed

text \<open>C34: Removing every block ends: each block found lies inside the notes and is at least ten bytes long,
  so every removal shortens them, and what is left holds no well-formed block.\<close>

theorem strip_all_terminates_without_blocks:
  "(find_block d = Inr (Some f) \<longrightarrow>
      fo_start f + 10 \<le> fo_end f \<and> fo_end f \<le> length d \<and> length (strip d f) < length d)
   \<and> find_block (strip_all d) \<noteq> Inr (Some g)"
  using find_block_bounds strip_shorter strip_all_done by auto

theorem strip_all_terminates_without_blocks_witness:
  "\<exists>d f. find_block d = Inr (Some f) \<and> length (strip d f) < length d"
proof -
  define d where "d = join [nl] [''[pve-meta v1]'', fence_open, ''a: 1'', fence_close, end_line]"
  have "map_option (\<lambda>f. f \<noteq> None) (ok_of (find_block d)) = Some True" unfolding d_def by code_simp
  then obtain f where f: "find_block d = Inr (Some f)" by (auto simp: ok_of_def split: sum.splits)
  from strip_all_terminates_without_blocks [THEN conjunct1, THEN mp, OF f] f show ?thesis by blast
qed

text \<open>C28: The time stamp in a block's header is the date and time of day of its seconds since 1970: its
  year, month and day are a date of the Gregorian calendar whose day number, with the hours, minutes and
  seconds written after it, is that number of seconds.\<close>

theorem time_stamp_is_the_date:
  "\<exists>y m d h mi sec. valid_date y m d \<and> 0 \<le> y \<and> h < 24 \<and> mi < 60 \<and> sec < 60
     \<and> day_number y m d * 86400 + int (h * 3600 + mi * 60 + sec) = int unix
     \<and> rfc3339_utc unix = pad 4 (show_nat (nat y)) @ ''-'' @ pad 2 (show_nat (nat m)) @ ''-'' @ pad 2 (show_nat (nat d)) @ ''T''
         @ pad 2 (show_nat h) @ '':'' @ pad 2 (show_nat mi) @ '':'' @ pad 2 (show_nat sec) @ ''Z''"
proof -
  obtain y m d where c: "civil_from_days (int (unix div 86400)) = (y, m, d)"
    by (cases "civil_from_days (int (unix div 86400))")
  have "0 \<le> int (unix div 86400)" by simp
  note v = civil_correct [OF c] civil_year_nonneg [OF c this]
  define sd where "sd = unix mod 86400"
  have b: "sd div 3600 < 24" "sd mod 3600 div 60 < 60" "sd mod 60 < 60" by (simp_all add: sd_def less_mult_imp_div_less)
  have "sd mod 3600 mod 60 = sd mod 60" by (simp add: mod_mod_cancel)
  then have "sd div 3600 * 3600 + sd mod 3600 div 60 * 60 + sd mod 60 = sd"
    using div_mult_mod_eq [of sd 3600] div_mult_mod_eq [of "sd mod 3600" 60] by linarith
  then have "unix div 86400 * 86400 + (sd div 3600 * 3600 + sd mod 3600 div 60 * 60 + sd mod 60) = unix"
    using div_mult_mod_eq [of unix 86400] unfolding sd_def by linarith
  then have e: "day_number y m d * 86400 + int (sd div 3600 * 3600 + sd mod 3600 div 60 * 60 + sd mod 60) = int unix"
    unfolding v(2) by (metis of_nat_add of_nat_mult of_nat_numeral)
  have "rfc3339_utc unix = pad 4 (show_nat (nat y)) @ ''-'' @ pad 2 (show_nat (nat m)) @ ''-'' @ pad 2 (show_nat (nat d)) @ ''T''
      @ pad 2 (show_nat (sd div 3600)) @ '':'' @ pad 2 (show_nat (sd mod 3600 div 60)) @ '':'' @ pad 2 (show_nat (sd mod 60)) @ ''Z''"
    unfolding rfc3339_utc_def Let_def c prod.case sd_def by (rule refl)
  with v(1,3) b e show ?thesis by (intro exI conjI) assumption+
qed


end
