(* ===== verification/Gf_Prelude.thy ===== *)
theory Gf_Prelude
  imports Store
begin

text \<open>
  What the theories of the guest-files crate share: ordered maps (\<open>BTreeMap\<close>), the \<open>Debug\<close> form of
  strings, the error chains of anyhow, lines, octal numbers, and the record \<open>gf_libs\<close> of the library
  functions the crate calls besides those of \<^typ>\<open>libs\<close>.
\<close>

named_theorems bmap_simps \<open>laws of ordered maps\<close>

section \<open>Ordered maps\<close>

text \<open>A \<open>BTreeMap\<close> is its entries in the order of the keys; lookup is \<^const>\<open>map_of\<close>, removal
  \<^const>\<open>odel\<close>. A \<open>BTreeSet\<close> is the list of its members in order.\<close>

type_synonym ('k, 'v) bmap = "('k \<times> 'v) list"

fun bput :: "'k :: linorder \<Rightarrow> 'v \<Rightarrow> ('k, 'v) bmap \<Rightarrow> ('k, 'v) bmap" where
  "bput k v [] = [(k, v)]"
| "bput k v ((j, w) # m) =
     (if k < j then (k, v) # (j, w) # m else if k = j then (k, v) # m else (j, w) # bput k v m)"

definition bsorted :: "('k :: linorder, 'v) bmap \<Rightarrow> bool" where
  "bsorted m \<longleftrightarrow> sorted_wrt (<) (map fst m)"

definition bmap_of :: "('k :: linorder \<times> 'v) list \<Rightarrow> ('k, 'v) bmap" where
  "bmap_of kvs = foldl (\<lambda>m (k, v). bput k v m) [] kvs"

definition bset_of :: "'a :: linorder list \<Rightarrow> 'a list" where
  "bset_of xs = sort (remdups xs)"

text \<open>What a map promises: the laws of lookup, that its operations keep its invariant, that its
  entries are in order, and that it is determined by its lookups.\<close>

locale lookup_map =
  fixes get :: "'m \<Rightarrow> 'k \<Rightarrow> 'v option"
    and put :: "'k \<Rightarrow> 'v \<Rightarrow> 'm \<Rightarrow> 'm"
    and del :: "'k \<Rightarrow> 'm \<Rightarrow> 'm"
    and inv :: "'m \<Rightarrow> bool"
  assumes get_put: "inv m \<Longrightarrow> get (put k v m) j = (if j = k then Some v else get m j)"
    and get_del: "inv m \<Longrightarrow> get (del k m) j = (if j = k then None else get m j)"
    and inv_put: "inv m \<Longrightarrow> inv (put k v m)"
    and inv_del: "inv m \<Longrightarrow> inv (del k m)"

locale sorted_map = lookup_map get put del inv
  for get :: "'m \<Rightarrow> 'k :: linorder \<Rightarrow> 'v option"
    and put :: "'k \<Rightarrow> 'v \<Rightarrow> 'm \<Rightarrow> 'm"
    and del :: "'k \<Rightarrow> 'm \<Rightarrow> 'm"
    and inv :: "'m \<Rightarrow> bool" +
  fixes keys :: "'m \<Rightarrow> 'k list"
  assumes keys_get: "inv m \<Longrightarrow> k \<in> set (keys m) \<longleftrightarrow> get m k \<noteq> None"
    and keys_sorted: "inv m \<Longrightarrow> sorted_wrt (<) (keys m)"
    and extensional: "inv m \<Longrightarrow> inv n \<Longrightarrow> (\<And>k. get m k = get n k) \<Longrightarrow> m = n"
begin

lemma put_same: "inv m \<Longrightarrow> get m k = Some v \<Longrightarrow> put k v m = m"
  by (rule extensional) (simp_all add: inv_put get_put)

lemma del_absent: "inv m \<Longrightarrow> get m k = None \<Longrightarrow> del k m = m"
  by (rule extensional) (simp_all add: inv_del get_del)

lemma put_put: "inv m \<Longrightarrow> put k v (put k w m) = put k v m"
  by (rule extensional) (simp_all add: inv_put get_put)

lemma put_commute: "inv m \<Longrightarrow> j \<noteq> k \<Longrightarrow> put j v (put k w m) = put k w (put j v m)"
  by (rule extensional) (simp_all add: inv_put get_put)

end

lemma bput_fst_image [simp]: "fst ` set (bput k v m) = insert k (fst ` set m)"
  by (induction k v m rule: bput.induct) (simp_all add: insert_commute)

lemma bsorted_Cons: "bsorted ((k, v) # m) \<longleftrightarrow> (\<forall>j \<in> fst ` set m. k < j) \<and> bsorted m"
  by (auto simp: bsorted_def)

lemma bsorted_bput: "bsorted m \<Longrightarrow> bsorted (bput k v m)"
  by (induction k v m rule: bput.induct) (auto simp: bsorted_Cons bsorted_def simp flip: bsorted_def)

lemma bsorted_odel: "bsorted m \<Longrightarrow> bsorted (odel k m)"
  by (simp add: bsorted_def fst_odel sorted_wrt_filter)

lemma bsorted_distinct: "bsorted m \<Longrightarrow> odistinct m"
  by (simp add: bsorted_def strict_sorted_iff)

lemma map_of_bput: "map_of (bput k v m) j = (if j = k then Some v else map_of m j)"
  by (induction m) auto

lemma bmap_ext:
  assumes "bsorted m" "bsorted n" "\<And>k. map_of m k = map_of n k"
  shows "m = n"
proof -
  have "set (map fst m) = set (map fst n)"
    by (metis assms(3) map_of_eq_None_iff set_map subsetI subset_antisym)
  then have "map fst m = map fst n"
    using assms(1,2) unfolding bsorted_def by (metis strict_sorted_equal)
  then show ?thesis using assms(3) bsorted_distinct [OF assms(1)] by (intro omap_eqI) auto
qed

interpretation bm: sorted_map map_of bput odel bsorted "map fst"
proof (unfold_locales, goal_cases)
  case (7 m n)
  then show ?case by (intro bmap_ext) simp_all
next
  case (6 m)
  then show ?case by (simp add: bsorted_def)
qed (simp_all add: map_of_bput map_of_odel bsorted_bput bsorted_odel map_of_eq_None_iff)

lemma bmap_laws [simp, bmap_simps]:
  "map_of (bput k v m) j = (if j = k then Some v else map_of m j)"
  "bsorted []"
  "bsorted m \<Longrightarrow> bsorted (bput k v m)"
  "bsorted m \<Longrightarrow> bsorted (odel k m)"
  by (simp_all add: map_of_bput bsorted_bput bsorted_odel) (simp add: bsorted_def)

lemma set_bset_of [simp]: "set (bset_of xs) = set xs"
  by (simp add: bset_of_def)

lemma bset_of_sorted: "sorted_wrt (<) (bset_of xs)"
  by (simp add: bset_of_def strict_sorted_iff)

section \<open>The text of a value\<close>

text \<open>\<open>Debug\<close> of a character and of a string. ASCII is as the standard library escapes it; which other
  characters are printed as they are is decided by Unicode tables, the parameter \<open>U\<close>.\<close>

definition hex_digit :: "nat \<Rightarrow> char" where
  "hex_digit d = (if d < 10 then char_of (48 + d) else char_of (87 + d))"

definition unicode_escape :: "nat \<Rightarrow> string" where
  "unicode_escape n =
     [CHR 0x5C] @ ''u{'' @ (if n < 16 then [hex_digit n] else [hex_digit (n div 16), hex_digit (n mod 16)]) @ ''}''"

definition escape_char :: "(string \<Rightarrow> string) \<Rightarrow> char \<Rightarrow> string \<Rightarrow> string" where
  "escape_char U q c =
     (case c of
        [b] \<Rightarrow>
          if b = CHR 0x00 then [CHR 0x5C, CHR ''0'']
          else if b = CHR 0x09 then [CHR 0x5C, CHR ''t'']
          else if b = CHR 0x0A then [CHR 0x5C, CHR ''n'']
          else if b = CHR 0x0D then [CHR 0x5C, CHR ''r'']
          else if b = CHR 0x5C then [CHR 0x5C, CHR 0x5C]
          else if b = q then [CHR 0x5C, q]
          else if code b < 32 \<or> code b = 127 then unicode_escape (code b)
          else if code b < 128 then [b] else U c
      | _ \<Rightarrow> U c)"

definition debug_char :: "(string \<Rightarrow> string) \<Rightarrow> string \<Rightarrow> string" where
  "debug_char U c = [CHR 0x27] @ escape_char U CHR 0x27 c @ [CHR 0x27]"

definition debug_str :: "(string \<Rightarrow> string) \<Rightarrow> string \<Rightarrow> string" where
  "debug_str U s = [CHR 0x22] @ concat (map (escape_char U CHR 0x22) (chars s)) @ [CHR 0x22]"

text \<open>No output of \<open>Debug\<close> holds a line break, if the parameter's has none.\<close>

lemma escape_char_one_line:
  assumes "\<And>c. nl \<notin> set (U c)" "q \<noteq> nl"
  shows "nl \<notin> set (escape_char U q c)"
proof (cases c)
  case Nil
  then show ?thesis using assms by (simp add: escape_char_def)
next
  case (Cons b bs)
  have h: "nl \<noteq> hex_digit d" if "d < 16" for d
  proof
    assume "nl = hex_digit d"
    then have "code nl = (of_char (hex_digit d) :: nat)" by simp
    with that show False by (auto simp: hex_digit_def split: if_splits)
  qed
  have u: "nl \<notin> set (unicode_escape n)" if "n < 256" for n
    using that h [of n] h [of "n div 16"] h [of "n mod 16"] by (auto simp: unicode_escape_def)
  show ?thesis
    using Cons assms u [of "code b"] by (cases bs) (auto simp: escape_char_def)
qed

lemma debug_str_one_line:
  assumes "\<And>c. nl \<notin> set (U c)"
  shows "nl \<notin> set (debug_str U s)"
  using escape_char_one_line [of U "CHR 0x22", OF assms] by (auto simp: debug_str_def)

section \<open>Lines and numbers\<close>

text \<open>\<open>str::lines\<close>: the pieces between line feeds, without a trailing carriage return and without an
  empty last piece.\<close>

definition drop_cr :: "string \<Rightarrow> string" where
  "drop_cr l = (if l \<noteq> [] \<and> last l = CHR 0x0D then butlast l else l)"

definition str_lines :: "string \<Rightarrow> string list" where
  "str_lines s =
     (let ps = split_on nl s in
      if last ps = [] then map drop_cr (butlast ps) else map drop_cr (butlast ps) @ [last ps])"

text \<open>\<open>u32::from_str_radix\<close> with base 8 of a string of octal digits, and \<open>{:04o}\<close>.\<close>

definition is_octal :: "char \<Rightarrow> bool" where
  "is_octal c \<longleftrightarrow> 48 \<le> code c \<and> code c \<le> 55"

definition octal_value :: "string \<Rightarrow> nat" where
  "octal_value s = foldl (\<lambda>n c. 8 * n + (code c - 48)) 0 s"

function show_octal :: "nat \<Rightarrow> string" where
  "show_octal n = (if n < 8 then [digit_char n] else show_octal (n div 8) @ [digit_char (n mod 8)])"
  by pat_completeness auto
termination
  by (relation "measure id") auto

declare show_octal.simps [simp del]

definition parse_octal :: "string \<Rightarrow> 32 word option" where
  "parse_octal s =
     (let ds = (case s of c # cs \<Rightarrow> if c = CHR ''+'' then cs else s | [] \<Rightarrow> []) in
      if ds \<noteq> [] \<and> list_all is_octal ds \<and> octal_value ds < 2 ^ 32 then Some (of_nat (octal_value ds)) else None)"

definition zero_pad :: "nat \<Rightarrow> string \<Rightarrow> string" where
  "zero_pad k s = replicate (k - length s) (CHR ''0'') @ s"

section \<open>Errors and libraries\<close>

text \<open>An anyhow error is its chain of messages, outermost context first; \<open>{:#}\<close> prints them all.\<close>

type_synonym anyhow = "string list"

definition alt_text :: "anyhow \<Rightarrow> string" where
  "alt_text e = join '': '' e"

definition with_context :: "string \<Rightarrow> anyhow + 'a \<Rightarrow> anyhow + 'a" where
  "with_context c r = map_err (\<lambda>e. c # e) r"

text \<open>The manifest's wire form, which serde derives the reader and the writer of.\<close>

record raw_record =
  rr_entry :: string
  rr_path :: string
  rr_sha256 :: string
  rr_source :: string

record raw_manifest =
  rm_version :: "32 word"
  rm_files :: "raw_record list"

record gf_libs =
  core_libs :: libs
  unicode_debug :: "string \<Rightarrow> string"
  manifest_from_slice :: "string \<Rightarrow> string + raw_manifest"
  manifest_to_string :: "raw_manifest \<Rightarrow> string"

abbreviation gf_sha :: "gf_libs \<Rightarrow> string \<Rightarrow> string" where
  "gf_sha G \<equiv> sha256_hex (core_libs G)"

end
