(* ===== verification/Lifecycle.thy ===== *)
theory Lifecycle
  imports Api Backup Gf_Prelude
begin

text \<open>
  The hooks Proxmox VE calls over the life of a guest and the entry points of the API, as the Perl bindings
  (pve-meta-perl, lib.rs) compose them from the store, the backup block and the handlers: taking and
  restoring snapshots, clearing metadata when a guest is created or destroyed, the marker a restore leaves
  for the first write of its configuration. Environment variables and the clock are read once per call and
  given as a record.
\<close>

section \<open>The environment\<close>

record perl_env =
  pe_root :: "string option"
  pe_run_dir :: "string option"
  pe_prefix_dirs :: "string option"
  pe_env :: env
  pe_now :: nat

definition prefix_packaged_dir :: string where "prefix_packaged_dir = ''/usr/share/pve-meta/prefixes''"

definition prefix_cluster_dir :: string where "prefix_cluster_dir = ''/etc/pve/meta.d/prefixes''"

definition registry_dirs_from :: "string option \<Rightarrow> string list \<Rightarrow> fspath list" where
  "registry_dirs_from var defaults =
     (case var of
        Some v \<Rightarrow> map fspath_of (filter (\<lambda>p. p \<noteq> []) (split_on CHR '':'' v))
      | None \<Rightarrow> map fspath_of defaults)"

definition registry_from_env :: "string option \<Rightarrow> registry" where
  "registry_from_env var = registry_dirs_from var [prefix_packaged_dir, prefix_cluster_dir]"

definition store_new :: "env \<Rightarrow> string option \<Rightarrow> fspath \<Rightarrow> meta_store" where
  "store_new E var rt = with_registry E rt (registry_from_env var)"

definition perl_open_store :: "perl_env \<Rightarrow> meta_store" where
  "perl_open_store P =
     store_new (pe_env P) (pe_prefix_dirs P) (fspath_of (case pe_root P of Some v \<Rightarrow> v | None \<Rightarrow> ''/etc/pve/meta''))"

definition run_dir :: "perl_env \<Rightarrow> fspath" where
  "run_dir P = fspath_of (case pe_run_dir P of Some v \<Rightarrow> v | None \<Rightarrow> ''/run/pve-meta'')"

section \<open>A vmid as Perl hands it over\<close>

text \<open>A float is the rational it denotes, or none for an infinity or not-a-number; its text is a parameter.\<close>

datatype scalar = SUInt "64 word" | SInt "64 word" | SFloat "rat option" | SStr string

definition out_of_range :: string where
  "out_of_range = ''out of range integral type conversion attempted''"

definition vmid_of_scalar :: "(rat option \<Rightarrow> string) \<Rightarrow> (string \<Rightarrow> string) \<Rightarrow> scalar \<Rightarrow> string + vmid" where
  "vmid_of_scalar show_f64 U x =
     (case x of
        SUInt n \<Rightarrow> if uint n < 4294967296 then Inr (word_of_int (uint n)) else Inl out_of_range
      | SInt n \<Rightarrow> if 0 \<le> sint n \<and> sint n < 4294967296 then Inr (word_of_int (sint n)) else Inl out_of_range
      | SFloat None \<Rightarrow> Inl (show_f64 None @ '' is not a vmid'')
      | SFloat (Some r) \<Rightarrow>
          if r \<noteq> of_int \<lfloor>r\<rfloor> \<or> r < 0 \<or> r > 4294967295 then Inl (show_f64 (Some r) @ '' is not a vmid'')
          else Inr (word_of_int \<lfloor>r\<rfloor>)
      | SStr s \<Rightarrow> (case parse_u32 (trim s) of Some v \<Rightarrow> Inr v | None \<Rightarrow> Inl (debug_str U s @ '' is not a vmid'')))"

section \<open>The hooks\<close>

definition on_snapshot :: "perl_env \<Rightarrow> vmid \<Rightarrow> string \<Rightarrow> fs \<Rightarrow> (error + bool) \<times> fs" where
  "on_snapshot P v name = snapshot (pe_env P) (perl_open_store P) v name"

fun rollback_text :: "rollback_outcome \<Rightarrow> string" where
  "rollback_text Restored = ''restored''"
| "rollback_text RemovedNoSnapshot = ''removed''"
| "rollback_text NoOp = ''none''"

definition on_rollback :: "perl_env \<Rightarrow> vmid \<Rightarrow> string \<Rightarrow> fs \<Rightarrow> (error + string) \<times> fs" where
  "on_rollback P v name =
     then_do (rollback (pe_env P) (perl_open_store P) v name) (\<lambda>r. lift_res (Inr (rollback_text r)))"

definition on_delsnap :: "perl_env \<Rightarrow> vmid \<Rightarrow> string \<Rightarrow> fs \<Rightarrow> (error + bool) \<times> fs" where
  "on_delsnap P v name = delete_snapshot (perl_open_store P) v name"

definition on_create :: "perl_env \<Rightarrow> vmid \<Rightarrow> fs \<Rightarrow> (error + nat) \<times> fs" where
  "on_create P v = purge (perl_open_store P) v"

definition restore_marker :: "perl_env \<Rightarrow> vmid \<Rightarrow> fspath" where
  "restore_marker P v = run_dir P @ [show_vmid v]"

definition on_destroy :: "perl_env \<Rightarrow> vmid \<Rightarrow> fs \<Rightarrow> (error + nat) \<times> fs" where
  "on_destroy P v =
     then_do (purge (perl_open_store P) v) (\<lambda>removed s.
     (Inr removed, snd (remove_file (restore_marker P v) s)))"

definition mark_created :: "perl_env \<Rightarrow> vmid \<Rightarrow> fs \<Rightarrow> (io_error + unit) \<times> fs" where
  "mark_created P v =
     then_do (create_dir_all (run_dir P)) (\<lambda>_. fs_write (restore_marker P v) [])"

definition take_created :: "perl_env \<Rightarrow> vmid \<Rightarrow> fs \<Rightarrow> (io_error + bool) \<times> fs" where
  "take_created P v s =
     (case remove_file (restore_marker P v) s of
        (Inr u, t) \<Rightarrow> (Inr True, t)
      | (Inl NotFound, t) \<Rightarrow> (Inr False, t)
      | (Inl e, t) \<Rightarrow> (Inl e, t))"

definition perl_stored_vmids :: "perl_env \<Rightarrow> fs \<Rightarrow> error + vmid list" where
  "perl_stored_vmids P s = stored_vmids (perl_open_store P) s"

definition perl_unknown_files :: "perl_env \<Rightarrow> fs \<Rightarrow> error + string list" where
  "perl_unknown_files P s = unknown_files (perl_open_store P) s"

definition export_for_backup :: "libs \<Rightarrow> perl_env \<Rightarrow> vmid \<Rightarrow> fs \<Rightarrow> error + string option" where
  "export_for_backup L P v s = export L (perl_open_store P) v (pe_now P) s"

definition notes_import :: "libs \<Rightarrow> perl_env \<Rightarrow> vmid \<Rightarrow> string \<Rightarrow> string \<Rightarrow> world \<Rightarrow> (error + import_result) \<times> world" where
  "notes_import L P v description mode =
     then_do (lift_res (import_mode_parse mode)) (\<lambda>m. import_block L (pe_env P) (perl_open_store P) v description m)"

definition perl_split_tags :: "string option \<Rightarrow> string list" where
  "perl_split_tags raw = split_tags (unwrap_or [] raw)"

section \<open>The API entry points\<close>

definition perl_api_version :: "libs \<Rightarrow> perl_env \<Rightarrow> fs \<Rightarrow> api_error + string" where
  "perl_api_version L P s = api_version L (perl_open_store P) s"

definition perl_prefixes :: "libs \<Rightarrow> perl_env \<Rightarrow> string option \<Rightarrow> string list option \<Rightarrow> fs \<Rightarrow> api_error + prefix_entry list" where
  "perl_prefixes L P n tags s =
     andthen (map_err api_error_of (store_registry (perl_open_store P) s)) (\<lambda>reg. api_prefixes L reg n tags s)"

definition check_id :: "string \<Rightarrow> api_error + unit" where
  "check_id ident = andthen (parse_id ident) (\<lambda>_. Inr ())"

definition perl_access :: "perl_env \<Rightarrow> string \<Rightarrow> caller_acl \<Rightarrow> fs \<Rightarrow> api_error + api_access" where
  "perl_access P ident acl s = andthen (parse_id ident) (\<lambda>_. access (perl_open_store P) acl s)"

definition perl_list_guests :: "libs \<Rightarrow> perl_env \<Rightarrow> guest_input list \<Rightarrow> string option \<Rightarrow> fs \<Rightarrow> api_error + guest_list_entry list" where
  "perl_list_guests L P guests has s = list_guests L (perl_open_store P) guests has s"

definition perl_get :: "libs \<Rightarrow> perl_env \<Rightarrow> string \<Rightarrow> string option \<Rightarrow> string \<Rightarrow> caller_acl \<Rightarrow> bool option \<Rightarrow> fs \<Rightarrow> api_error + api_view_document" where
  "perl_get L P ident vw fmt acl comments s = get_document L (perl_open_store P) ident vw fmt (unwrap_or False comments) acl s"

definition perl_put :: "libs \<Rightarrow> perl_env \<Rightarrow> string \<Rightarrow> string option \<Rightarrow> string \<Rightarrow> string \<Rightarrow> string \<Rightarrow> string option \<Rightarrow> bool
    \<Rightarrow> caller_acl \<Rightarrow> bool option \<Rightarrow> bool option \<Rightarrow> world \<Rightarrow> (api_error + api_put_result) \<times> world" where
  "perl_put L P ident vw fmt payload mode dg dry_run acl force comments =
     (let M = perl_open_store P in
      then_do (ask api_error_of (store_registry M)) (\<lambda>reg.
      then_do (lift_res (parse_id ident)) (\<lambda>did.
      then_do (ask id (effective_prefixes L reg did acl)) (\<lambda>pfs.
      put_document L (pe_env P) M pfs ident vw fmt payload mode dg dry_run (unwrap_or False force) (unwrap_or False comments) acl))))"

definition perl_delete :: "libs \<Rightarrow> perl_env \<Rightarrow> string \<Rightarrow> string option \<Rightarrow> string option \<Rightarrow> caller_acl \<Rightarrow> world
    \<Rightarrow> (api_error + api_put_result) \<times> world" where
  "perl_delete L P ident vw dg acl = delete_document L (pe_env P) (perl_open_store P) ident vw dg acl"

section \<open>Histories\<close>

text \<open>The life of the guests of a node as the hooks and the writes of the API see it: what one event
  leaves of the file system, however it ends.\<close>

datatype life_event =
    Snapshot vmid string | Rollback vmid string | Delsnap vmid string | Create vmid | Destroy vmid
  | Mark vmid | Take vmid | Write vmid string "string option"

fun event_guest :: "life_event \<Rightarrow> vmid" where
  "event_guest (Snapshot v _) = v"
| "event_guest (Rollback v _) = v"
| "event_guest (Delsnap v _) = v"
| "event_guest (Create v) = v"
| "event_guest (Destroy v) = v"
| "event_guest (Mark v) = v"
| "event_guest (Take v) = v"
| "event_guest (Write v _ _) = v"

fun run_event :: "libs \<Rightarrow> perl_env \<Rightarrow> life_event \<Rightarrow> fs \<Rightarrow> fs" where
  "run_event L P (Snapshot v name) s = snd (on_snapshot P v name s)"
| "run_event L P (Rollback v name) s = snd (on_rollback P v name s)"
| "run_event L P (Delsnap v name) s = snd (on_delsnap P v name s)"
| "run_event L P (Create v) s = snd (on_create P v s)"
| "run_event L P (Destroy v) s = snd (on_destroy P v s)"
| "run_event L P (Mark v) s = snd (mark_created P v s)"
| "run_event L P (Take v) s = snd (take_created P v s)"
| "run_event L P (Write v t dg) s = snd (put_raw L (pe_env P) (perl_open_store P) (Guest v) t dg s)"

definition run_events :: "libs \<Rightarrow> perl_env \<Rightarrow> life_event list \<Rightarrow> fs \<Rightarrow> fs" where
  "run_events L P es s = foldl (\<lambda>s e. run_event L P e s) s es"

text \<open>The files that belong to a guest: its document and its snapshots.\<close>

definition guest_file :: "meta_store \<Rightarrow> vmid \<Rightarrow> fspath \<Rightarrow> bool" where
  "guest_file M v q \<longleftrightarrow>
     q = path_for M (Guest v) \<or> (\<exists>name. is_valid_snapshot_name name \<and> q = snapshot_path M v name)"

section \<open>What is absent stays absent\<close>

lemma remove_file_absent: "node_at s q = None \<Longrightarrow> node_at (snd (remove_file p s)) q = None"
  by (cases "remove_file p s") (auto dest: remove_file_cases)

lemma fs_write_absent: "node_at s q = None \<Longrightarrow> q \<noteq> p \<Longrightarrow> node_at (snd (fs_write p b s)) q = None"
proof -
  assume a: "node_at s q = None" "q \<noteq> p"
  have "z \<noteq> q" if "follow f s x = Inr (z, n)" for f x z n
    using that a(1)
  proof (induction f arbitrary: x)
    case 0
    then show ?case by (auto simp: follow.simps [of 0] split: option.splits fnode.splits)
  next
    case (Suc f)
    then show ?case by (auto simp: follow.simps [of "Suc f"] split: option.splits fnode.splits)
  qed
  with a show ?thesis by (auto simp: fs_write_def split: sum.splits io_error.splits option.splits fnode.splits)
qed

lemma fs_rename_absent: "node_at s q = None \<Longrightarrow> q \<noteq> dst \<Longrightarrow> node_at (snd (fs_rename src dst s)) q = None"
  by (auto simp: fs_rename_def split: option.splits)

lemma create_dir_all_absent:
  assumes "node_at s q = None" "\<not> prefix q d"
  shows "node_at (snd (create_dir_all d s)) q = None"
proof -
  obtain r t where c: "create_dir_all d s = (r, t)" by fastforce
  from grown_same [OF create_dir_all_grown [OF c], of q] assms show ?thesis by (simp add: c)
qed

lemma write_atomic_absent:
  assumes "node_at s q = None" "q \<noteq> p" "p \<noteq> []" "\<not> prefix q (butlast p)" "\<not> prefix ''.'' (last q)" "q \<noteq> []"
  shows "node_at (snd (write_atomic E M p b s)) q = None"
proof -
  obtain r1 s1 where c: "create_dir_all (butlast p) s = (r1, s1)" by fastforce
  have s1: "node_at s1 q = None" using create_dir_all_absent [OF assms(1,4)] by (simp add: c)
  define tmp where "tmp = butlast p @ [tmp_name E (last p) (write_seq s1)]"
  have t: "q \<noteq> tmp" using assms(5) by (auto simp: tmp_def tmp_name_def)
  let ?s2 = "s1\<lparr>write_seq := write_seq s1 + 1\<rparr>"
  obtain r3 s3 where w: "fs_write tmp b ?s2 = (r3, s3)" by fastforce
  have s3: "node_at s3 q = None" using fs_write_absent [of ?s2 q tmp b] s1 t w by simp
  obtain r4 s4 where r: "fs_rename tmp p s3 = (r4, s4)" by fastforce
  have s4: "node_at s4 q = None" using fs_rename_absent [OF s3 assms(2), of tmp] r by simp
  show ?thesis
    using assms(3) c s1 s3 s4 remove_file_absent [OF s4, of tmp] w r
    by (auto simp: write_atomic_def then_do_def io_st_def guard_err_def next_seq_def Let_def tmp_def split: sum.splits prod.splits)
qed

lemma then_do_absent:
  assumes "node_at (snd (m s)) q = None" "\<And>x t. m s = (Inr x, t) \<Longrightarrow> node_at t q = None \<Longrightarrow> node_at (snd (f x t)) q = None"
  shows "node_at (snd (then_do m f s)) q = None"
  using assms by (auto simp: then_do_def split: sum.splits prod.splits)

lemma gone_st_absent: "node_at s q = None \<Longrightarrow> node_at (snd (gone_st (remove_file p) s)) q = None"
  using remove_file_absent [of s q p] by (auto simp: gone_st_def split: prod.splits)

lemma delete_absent: "node_at s q = None \<Longrightarrow> node_at (snd (delete M did s)) q = None"
  unfolding delete_def by (intro then_do_absent) (simp_all add: gone_st_absent)

lemma delete_snapshot_absent: "node_at s q = None \<Longrightarrow> node_at (snd (delete_snapshot M v name s)) q = None"
  unfolding delete_snapshot_def by (intro then_do_absent) (simp_all add: gone_st_absent)

lemma delete_snapshots_absent: "node_at s q = None \<Longrightarrow> node_at (snd (delete_snapshots M v names n s)) q = None"
proof (induction M v names n s rule: delete_snapshots.induct)
  case (2 M v name names n s)
  then show ?case by (simp only: delete_snapshots.simps) (intro then_do_absent delete_snapshot_absent)
qed simp

lemma purge_absent: "node_at s q = None \<Longrightarrow> node_at (snd (purge M v s)) q = None"
  unfolding purge_def by (intro then_do_absent delete_absent delete_snapshots_absent) simp_all

lemma take_created_state: "snd (take_created P v s) = snd (remove_file (restore_marker P v) s)"
  by (auto simp: take_created_def split: prod.splits sum.splits io_error.splits)

section \<open>The files of different guests\<close>

definition owner_text :: "fspath \<Rightarrow> string" where
  "owner_text q = takeWhile (\<lambda>c. c \<noteq> CHR ''.'') (last q)"

lemma takeWhile_until_dot: "CHR ''.'' \<notin> set a \<Longrightarrow> takeWhile (\<lambda>c. c \<noteq> CHR ''.'') (a @ CHR ''.'' # b) = a"
  by (induction a) auto

lemma owner_text_doc: "owner_text (path_for M (Guest v)) = show_vmid v"
  using takeWhile_until_dot [OF digits_no_dot] by (simp add: owner_text_def path_for_def Let_def)

lemma owner_text_snapshot: "owner_text (snapshot_path M v name) = show_vmid v"
  using takeWhile_until_dot [OF digits_no_dot] by (simp add: owner_text_def snapshot_path_def)

lemma guest_file_owner: "guest_file M v q \<Longrightarrow> owner_text q = show_vmid v"
  by (auto simp: guest_file_def owner_text_doc owner_text_snapshot)

lemma guest_file_shape:
  assumes "guest_file M v q"
  shows "q \<noteq> []" "butlast q = ms_root M" "\<not> prefix ''.'' (last q)" "CHR ''.'' \<in> set (last q)"
proof -
  from assms obtain r where q: "q = ms_root M @ [show_vmid v @ CHR ''.'' # r]"
    by (auto simp: guest_file_def path_for_def snapshot_path_def Let_def)
  obtain c cs where v: "show_vmid v = c # cs" by (meson neq_Nil_conv show_vmid_nonempty)
  with digits_no_dot [of v] q show "q \<noteq> []" "butlast q = ms_root M" "\<not> prefix ''.'' (last q)" "CHR ''.'' \<in> set (last q)" by auto
qed

lemma event_absent:
  assumes f: "guest_file (perl_open_store P) v q" and s: "node_at s q = None" and e: "event_guest e \<noteq> v"
    and out: "\<not> prefix (ms_root (perl_open_store P)) (run_dir P)"
  shows "node_at (run_event L P e s) q = None"
proof -
  let ?M = "perl_open_store P"
  note shape = guest_file_shape [OF f]
  have other: "q \<noteq> path_for ?M (Guest u)" "q \<noteq> snapshot_path ?M u name" if "u \<noteq> v" for u name
    using that guest_file_owner [OF f] owner_text_doc [of ?M u] owner_text_snapshot [of ?M u name] show_vmid_inj by metis+
  have notroot: "\<not> prefix q (ms_root ?M)"
    using shape(1,2) by (metis append_butlast_last_id not_Cons_self2 append_self_conv prefix_order.antisym prefixI)
  have w: "node_at (snd (write_atomic E ?M p b t)) q = None"
    if "node_at t q = None" "p = path_for ?M (Guest u) \<or> p = snapshot_path ?M u name" "u \<noteq> v" for E p b t u name
    using that other notroot shape
    by (intro write_atomic_absent) (auto simp: path_for_def snapshot_path_def Let_def)
  have m: "q \<noteq> restore_marker P u" for u
  proof
    assume "q = restore_marker P u"
    then have "last q = show_vmid u" by (simp add: restore_marker_def)
    with shape(4) digits_no_dot show False by simp
  qed
  have r: "\<not> prefix q (run_dir P)"
    using out shape(1,2) by (metis append_butlast_last_id prefixI prefix_order.trans)
  show ?thesis
  proof (cases e)
    case (Snapshot u name)
    with s e show ?thesis
      by (auto simp: on_snapshot_def snapshot_def simp del: then_do_simps then_do_lift intro!: then_do_absent w split: option.split)
  next
    case (Rollback u name)
    with s e show ?thesis
      by (auto simp: on_rollback_def rollback_def Let_def gone_st_absent simp del: then_do_simps then_do_lift intro!: then_do_absent w split: option.split)
  next
    case (Mark u)
    with s show ?thesis
      by (auto simp: mark_created_def simp del: then_do_simps then_do_lift intro!: then_do_absent create_dir_all_absent fs_write_absent r m)
  next
    case (Write u t dg)
    with s e show ?thesis
      by (auto simp: put_raw_def Let_def simp del: then_do_simps then_do_lift intro!: then_do_absent w)
  qed (use s in \<open>simp_all add: on_delsnap_def on_create_def on_destroy_def take_created_state delete_snapshot_absent
      purge_absent remove_file_absent then_do_absent\<close>)
qed

lemma run_events_absent:
  assumes "guest_file (perl_open_store P) v q" "node_at s q = None" "\<forall>e \<in> set es. event_guest e \<noteq> v"
    and "\<not> prefix (ms_root (perl_open_store P)) (run_dir P)"
  shows "node_at (run_events L P es s) q = None"
  using assms(2,3)
proof (induction es arbitrary: s)
  case (Cons e es)
  then have "node_at (run_event L P e s) q = None" using event_absent [OF assms(1) _ _ assms(4)] by simp
  with Cons show ?case by (simp add: run_events_def)
qed (simp add: run_events_def)

lemma purged_files:
  assumes "honest s" "node_at s (ms_root M) = Some Dir" "purge M v s = (Inr n, t)" "guest_file M v q"
  shows "node_at t q = None"
  using purge_Inr [OF assms(1,2,3), of q] assms(4) by (auto simp: guest_file_def)

section \<open>Properties\<close>

text \<open>C9: Metadata does not outlive its guest. Once the destroy hook of a guest has succeeded, neither
  its document nor any snapshot of it is there, and none appears again however long and in whatever order
  the hooks and writes of other guests run, fail or stop half way; reading the document says that it is
  not found, so the next owner of the id starts with nothing.\<close>

theorem destroyed_guest_leaves_nothing:
  assumes "honest s" "node_at s (ms_root (perl_open_store P)) = Some Dir" "on_destroy P v s = (Inr n, t)"
    and "\<not> prefix (ms_root (perl_open_store P)) (run_dir P)" "\<forall>e \<in> set es. event_guest e \<noteq> v"
    and "u = run_events L P es t"
  shows "(\<forall>q. guest_file (perl_open_store P) v q \<longrightarrow> node_at u q = None)
    \<and> (check_available (perl_open_store P) u = Inr () \<and> fault u OpMetadata (path_for (perl_open_store P) (Guest v)) = None
       \<longrightarrow> read L (perl_open_store P) (Guest v) u = Inl (ENotFound (Guest v)))"
proof -
  let ?M = "perl_open_store P"
  from assms(3) obtain t0 where p: "purge ?M v s = (Inr n, t0)" "t = snd (remove_file (restore_marker P v) t0)"
    by (auto simp: on_destroy_def then_do_Inr)
  have gone: "node_at u q = None" if "guest_file ?M v q" for q
  proof -
    have "node_at t q = None"
      using purged_files [OF assms(1,2) p(1) that] unfolding p(2) by (rule remove_file_absent)
    then show ?thesis unfolding assms(6) by (rule run_events_absent [OF that _ assms(5,4)])
  qed
  moreover have "read L ?M (Guest v) u = Inl (ENotFound (Guest v))"
    if "check_available ?M u = Inr ()" "fault u OpMetadata (path_for ?M (Guest v)) = None"
  proof -
    have "node_at u (path_for ?M (Guest v)) = None" by (rule gone) (simp add: guest_file_def)
    with that show ?thesis
      by (simp add: read_def read_path_for_def read_document_def metadata_def fallible_def follow_node gone_is_none_def)
  qed
  ultimately show ?thesis by blast
qed

text \<open>A restore's marker is taken exactly once: after it was left, and whatever happened to other
  files in between, the first write of the configuration takes it, and the next one finds none.\<close>

theorem marker_is_taken_once:
  assumes "mark_created P v s = (Inr (), t)" "node_at s (restore_marker P v) = None"
    and "node_at u (restore_marker P v) = node_at t (restore_marker P v)" "fault u OpRemove (restore_marker P v) = None"
  shows "\<exists>x. take_created P v u = (Inr True, x) \<and> take_created P v x = (Inr False, x)
    \<and> (\<forall>q. q \<noteq> restore_marker P v \<longrightarrow> node_at x q = node_at u q)"
proof -
  from assms(1) obtain s1 where c: "create_dir_all (run_dir P) s = (Inr (), s1)" and w: "fs_write (restore_marker P v) [] s1 = (Inr (), t)"
    by (auto simp: mark_created_def then_do_Inr)
  have "\<not> prefix (restore_marker P v) (run_dir P)" by (auto simp: restore_marker_def dest: prefix_length_le)
  with grown_same [OF create_dir_all_grown [OF c]] assms(2) have "node_at s1 (restore_marker P v) = None" by simp
  from fs_write_new [OF this w] obtain b k where "node_at t (restore_marker P v) = Some (File b k)" by auto
  with assms(3,4) have "take_created P v u = (Inr True, del_node (restore_marker P v) u)"
    by (simp add: take_created_def remove_file_def)
  moreover have "take_created P v (del_node (restore_marker P v) u) = (Inr False, del_node (restore_marker P v) u)"
    using assms(4) by (simp add: take_created_def remove_file_def)
  ultimately show ?thesis by (intro exI [of _ "del_node (restore_marker P v) u"]) simp
qed

text \<open>C37: Which scalars are vmids: an integer in the range of 32 bits, signed or not, a float that is one
  of these integers, or a text that is one after trimming. Every vmid is accepted back in each of these
  spellings.\<close>

theorem vmid_scalars:
  "(vmid_of_scalar F U x = Inr v \<longleftrightarrow>
      (case x of
         SUInt n \<Rightarrow> uint n = uint v
       | SInt n \<Rightarrow> sint n = uint v
       | SFloat r \<Rightarrow> r = Some (of_int (uint v))
       | SStr s \<Rightarrow> parse_u32 (trim s) = Some v))"
proof -
  have int: "0 \<le> i \<and> i < 4294967296 \<and> word_of_int i = v \<longleftrightarrow> i = uint v" for i
    using uint_bounded [of v] by (auto simp: uint_word_of_int_eq take_bit_int_eq_self)
  show ?thesis
  proof (cases x)
    case (SFloat r)
    show ?thesis
    proof (cases r)
      case (Some a)
      have "(a = of_int \<lfloor>a\<rfloor> \<and> 0 \<le> a \<and> a \<le> 4294967295 \<and> word_of_int \<lfloor>a\<rfloor> = v) \<longleftrightarrow> a = of_int (uint v)"
      proof
        assume a: "a = of_int \<lfloor>a\<rfloor> \<and> 0 \<le> a \<and> a \<le> 4294967295 \<and> word_of_int \<lfloor>a\<rfloor> = v"
        then have "\<lfloor>a\<rfloor> = uint v" using int [of "\<lfloor>a\<rfloor>"] by (simp add: floor_less_iff le_floor_iff)
        with a show "a = of_int (uint v)" by simp
      next
        assume a: "a = of_int (uint v)"
        define k where "k = uint v"
        have "0 \<le> k" "k \<le> 4294967295" "word_of_int k = v" using int [of k] by (simp_all add: k_def)
        moreover have "(of_int k :: rat) \<le> 4294967295" using \<open>k \<le> _\<close> by linarith
        ultimately show "a = of_int \<lfloor>a\<rfloor> \<and> 0 \<le> a \<and> a \<le> 4294967295 \<and> word_of_int \<lfloor>a\<rfloor> = v"
          using a unfolding k_def [symmetric] by simp
      qed
      then show ?thesis using SFloat Some by (auto simp: vmid_of_scalar_def not_less)
    qed (simp add: SFloat vmid_of_scalar_def)
  next
    case (SUInt n)
    obtain i where i: "uint n = i" "0 \<le> i" by simp
    have "vmid_of_scalar F U x = (if i < 4294967296 then Inr (word_of_int i) else Inl out_of_range)"
      by (simp only: SUInt vmid_of_scalar_def scalar.case i)
    with int [of i] i(2) show ?thesis by (simp only: SUInt scalar.case i) auto
  next
    case (SInt n)
    obtain i where i: "sint n = i" by simp
    have "vmid_of_scalar F U x = (if 0 \<le> i \<and> i < 4294967296 then Inr (word_of_int i) else Inl out_of_range)"
      by (simp only: SInt vmid_of_scalar_def scalar.case i)
    with int [of i] show ?thesis by (simp only: SInt scalar.case i) auto
  next
    case (SStr t)
    then show ?thesis by (simp add: vmid_of_scalar_def split: option.split)
  qed
qed

definition sample_perl :: perl_env where
  "sample_perl = \<lparr>pe_root = Some ''/r'', pe_run_dir = Some ''/run'', pe_prefix_dirs = Some [], pe_env = sample_env\<lparr>env_cluster_marker := Some []\<rparr>, pe_now = 0\<rparr>"

theorem destroyed_guest_leaves_nothing_witness:
  "\<exists>t. on_destroy sample_perl 105 (sample_fs sample_nodes) = (Inr 1, t)
     \<and> node_at (run_events (sample_libs (VObj [])) sample_perl [Create 106, Mark 106] t) [''r'', ''105.yaml''] = None"
proof -
  define r where "r = on_destroy sample_perl 105 (sample_fs sample_nodes)"
  have h: "honest (sample_fs sample_nodes)" by (simp add: honest_def sample_fs_def)
  have d: "node_at (sample_fs sample_nodes) (ms_root (perl_open_store sample_perl)) = Some Dir"
    "\<not> prefix (ms_root (perl_open_store sample_perl)) (run_dir sample_perl)"
    "path_for (perl_open_store sample_perl) (Guest 105) = [''r'', ''105.yaml'']" by code_simp+
  have "fst r = Inr 1" unfolding r_def by code_simp
  then have e: "on_destroy sample_perl 105 (sample_fs sample_nodes) = (Inr 1, snd r)" by (simp add: r_def prod_eq_iff)
  have "\<forall>e \<in> set [Create 106, Mark 106]. event_guest e \<noteq> 105" by simp
  from destroyed_guest_leaves_nothing [OF h d(1) e d(2) this refl, of "sample_libs (VObj [])"] d(3) e
  show ?thesis by (intro exI [of _ "snd r"]) (simp add: guest_file_def)
qed

theorem marker_is_taken_once_witness:
  "\<exists>t x. mark_created sample_perl 105 (sample_fs sample_nodes) = (Inr (), t)
     \<and> take_created sample_perl 105 t = (Inr True, x) \<and> take_created sample_perl 105 x = (Inr False, x)"
proof -
  define t where "t = snd (mark_created sample_perl 105 (sample_fs sample_nodes))"
  have "fst (mark_created sample_perl 105 (sample_fs sample_nodes)) = Inr ()" by code_simp
  then have m: "mark_created sample_perl 105 (sample_fs sample_nodes) = (Inr (), t)" by (simp add: t_def prod_eq_iff)
  have n: "node_at (sample_fs sample_nodes) (restore_marker sample_perl 105) = None"
    "fault t OpRemove (restore_marker sample_perl 105) = None" unfolding t_def by code_simp+
  from marker_is_taken_once [OF m n(1) refl n(2)] m show ?thesis by blast
qed

end
