(* ===== verification/Wasm.thy ===== *)
theory Wasm
  imports Api
begin

text \<open>
  The library the browser loads (pve-meta-wasm, lib.rs): one request is a function name and its JSON
  arguments, the answer a value or an error. The functions read the rows a listing of prefixes gave the
  browser as a shape and ask the core's own questions of it. A failed \<open>expect\<close> is the failure \<open>Panicked\<close>.
  The lemmas show that no request panics, and that on the rows the server serves the browser says what
  the server decides.
\<close>

section \<open>Requests and errors\<close>

definition abi :: "32 word" where "abi = 3"

record request =
  rq_name :: string
  rq_args :: "json list"

record call_error =
  ce_message :: string
  ce_line :: "nat option"
  ce_column :: "nat option"

datatype call_failure = Failed call_error | Panicked

datatype response = RespOk json | RespErr call_error

text \<open>The request as serde reads it from text, or its message, and its message for rows that are none.\<close>

record wasm_libs =
  wl_core :: libs
  request_from_str :: "string \<Rightarrow> string + request"
  wire_error :: "json \<Rightarrow> string"

definition call_error_of :: "error \<Rightarrow> call_failure" where
  "call_error_of e =
     (let loc = (case e of EParse _ _ x \<Rightarrow> x | _ \<Rightarrow> None)
      in Failed \<lparr>ce_message = error_text e, ce_line = map_option line loc, ce_column = map_option column loc\<rparr>)"

definition call_bad :: "string \<Rightarrow> call_failure" where
  "call_bad msg = Failed \<lparr>ce_message = msg, ce_line = None, ce_column = None\<rparr>"

section \<open>Arguments\<close>

record call_args =
  ca_name :: string
  ca_args :: "json list"
  ca_taken :: nat

definition args_new :: "string \<Rightarrow> json list \<Rightarrow> call_args" where
  "args_new name vs = \<lparr>ca_name = name, ca_args = vs, ca_taken = 0\<rparr>"

definition args_next :: "call_args \<Rightarrow> (call_failure + json) \<times> call_args" where
  "args_next a =
     (let b = a\<lparr>ca_taken := ca_taken a + 1\<rparr> in
      case ca_args a of
        v # vs \<Rightarrow> (Inr v, b\<lparr>ca_args := vs\<rparr>)
      | [] \<Rightarrow> (Inl (call_bad (ca_name b @ '': missing argument '' @ show_nat (ca_taken b))), b))"

definition args_done :: "call_args \<Rightarrow> call_failure + unit" where
  "args_done a =
     (case ca_args a of _ # _ \<Rightarrow> Inl (call_bad (ca_name a @ '': too many arguments'')) | [] \<Rightarrow> Inr ())"

definition args_str :: "call_args \<Rightarrow> (call_failure + string) \<times> call_args" where
  "args_str a =
     (let n = ca_taken a + 1 in
      then_do args_next (\<lambda>v. lift_res
        (ok_or (call_bad (ca_name a @ '': argument '' @ show_nat n @ '' must be a string'')) (as_str v))) a)"

definition args_value :: "call_args \<Rightarrow> (call_failure + json) \<times> call_args" where
  "args_value = then_do args_next (\<lambda>v. lift_res (Inr v))"

definition args_parsed :: "wasm_libs \<Rightarrow> (json \<Rightarrow> 'a option) \<Rightarrow> call_args \<Rightarrow> (call_failure + 'a) \<times> call_args" where
  "args_parsed W de a =
     (let n = ca_taken a + 1 in
      then_do args_next (\<lambda>v. lift_res
        (ok_or (call_bad (ca_name a @ '': argument '' @ show_nat n @ '': '' @ wire_error W v)) (de v))) a)"

definition args_format :: "call_args \<Rightarrow> (call_failure + format) \<times> call_args" where
  "args_format = then_do args_str (\<lambda>s. lift_res (map_err call_error_of (format_from_str s)))"

definition args_path :: "call_args \<Rightarrow> (call_failure + path) \<times> call_args" where
  "args_path = then_do args_str (\<lambda>s. lift_res (map_err call_error_of (parse_path s)))"

section \<open>Rows of a listing\<close>

definition truthy :: "json \<Rightarrow> bool" where
  "truthy v =
     (case v of
        VBool b \<Rightarrow> b
      | VNum n \<Rightarrow> num_as_f64 n \<noteq> 0
      | VStr s \<Rightarrow> \<not> (s = [] \<or> s = ''0'')
      | VNull \<Rightarrow> False
      | _ \<Rightarrow> True)"

record wire_prefix =
  wp_prefix :: string
  wp_description :: "string option"
  wp_schema :: "json option"
  wp_enforce :: "json option"
  wp_hidden :: "json option"
  wp_error :: "string option"

text \<open>What serde derives for a struct that ignores unknown keys: a map, or a list by position.\<close>

definition wire_names :: "string list" where
  "wire_names = [''prefix'', ''description'', ''schema'', ''enforce'', ''hidden'', ''error'']"

definition wire_fields :: "json \<Rightarrow> (string \<Rightarrow> json option) option" where
  "wire_fields v =
     (case v of
        VObj m \<Rightarrow> Some (map_of m)
      | VArr xs \<Rightarrow> if length xs \<le> length wire_names then Some (map_of (zip wire_names xs)) else None
      | _ \<Rightarrow> None)"

definition de_wire :: "json \<Rightarrow> wire_prefix option" where
  "de_wire v =
     Option.bind (wire_fields v) (\<lambda>get.
     Option.bind (Option.bind (get ''prefix'') as_str) (\<lambda>pf.
     Option.bind (de_opt as_str (get ''description'')) (\<lambda>de.
     Option.bind (de_opt Some (get ''schema'')) (\<lambda>sc.
     Option.bind (de_opt Some (get ''enforce'')) (\<lambda>en.
     Option.bind (de_opt Some (get ''hidden'')) (\<lambda>hi.
     Option.bind (de_opt as_str (get ''error'')) (\<lambda>er.
     Some \<lparr>wp_prefix = pf, wp_description = de, wp_schema = sc, wp_enforce = en, wp_hidden = hi,
           wp_error = er\<rparr>)))))))"

fun de_all :: "('a \<Rightarrow> 'b option) \<Rightarrow> 'a list \<Rightarrow> 'b list option" where
  "de_all f [] = Some []"
| "de_all f (x # xs) = Option.bind (f x) (\<lambda>y. Option.bind (de_all f xs) (\<lambda>ys. Some (y # ys)))"

definition de_vec :: "(json \<Rightarrow> 'b option) \<Rightarrow> json \<Rightarrow> 'b list option" where
  "de_vec f v = Option.bind (as_array v) (de_all f)"

definition is_some_and :: "('a \<Rightarrow> bool) \<Rightarrow> 'a option \<Rightarrow> bool" where
  "is_some_and P x \<longleftrightarrow> (case x of Some y \<Rightarrow> P y | None \<Rightarrow> False)"

definition wire_declared :: "wire_prefix \<Rightarrow> declared option" where
  "wire_declared w =
     (if wp_error w \<noteq> None then None
      else Option.bind (ok_of (parse_path (wp_prefix w))) (\<lambda>p.
        Some \<lparr>d_prefix = p, d_description = wp_description w, d_schema = wp_schema w,
              d_enforce = is_some_and truthy (wp_enforce w), d_hidden = is_some_and truthy (wp_hidden w)\<rparr>))"

definition args_shape :: "wasm_libs \<Rightarrow> call_args \<Rightarrow> (call_failure + shape) \<times> call_args" where
  "args_shape W =
     then_do (args_parsed W (de_vec de_wire)) (\<lambda>entries.
     lift_res (Inr (shape_new (List.map_filter wire_declared entries))))"

section \<open>The functions\<close>

type_synonym wasm_fn = "call_args \<Rightarrow> (call_failure + json) \<times> call_args"

definition fn_parse :: "wasm_libs \<Rightarrow> wasm_fn" where
  "fn_parse W =
     then_do args_format (\<lambda>fmt.
     then_do args_str (\<lambda>t.
     then_do (lift_res (map_err call_error_of (view_parse (wl_core W) t fmt))) (\<lambda>v.
     lift_res (Inr (case v of VNull \<Rightarrow> VObj [] | _ \<Rightarrow> v)))))"

definition fn_dump :: "wasm_libs \<Rightarrow> wasm_fn" where
  "fn_dump W =
     then_do args_format (\<lambda>fmt.
     then_do args_value (\<lambda>v.
     lift_res (Inr (VStr (dump (wl_core W) fmt v)))))"

definition path_verdict :: "string \<Rightarrow> call_failure + json" where
  "path_verdict t =
     (if t = [] then Inr (VObj [(''reason'', VStr ''empty'')])
      else (case find (\<lambda>s. \<not> is_valid_segment s) (split_on CHR ''.'' t) of
          Some bad_seg \<Rightarrow>
            if bad_seg = [] then Inr (VObj [(''reason'', VStr ''empty_segment'')])
            else (case invalid_char bad_seg of
                Some c \<Rightarrow> Inr (VObj [(''reason'', VStr ''char''), (''segment'', VStr bad_seg), (''char'', VStr c)])
              | None \<Rightarrow> Inl Panicked)
        | None \<Rightarrow> Inr VNull))"

definition fn_key_path_check :: wasm_fn where
  "fn_key_path_check = then_do args_str (\<lambda>t. lift_res (path_verdict t))"

definition fn_file_name_valid :: wasm_fn where
  "fn_file_name_valid = then_do args_str (\<lambda>t. lift_res (Inr (VBool (is_valid_file_name t))))"

definition fn_shape_prefixes :: "wasm_libs \<Rightarrow> wasm_fn" where
  "fn_shape_prefixes W =
     then_do (args_shape W) (\<lambda>sh. lift_res (Inr (VArr (map (\<lambda>d. VStr (show_path (d_prefix d))) sh))))"

definition fn_shape_governing :: "wasm_libs \<Rightarrow> wasm_fn" where
  "fn_shape_governing W =
     then_do (args_shape W) (\<lambda>sh.
     then_do args_path (\<lambda>p.
     lift_res (Inr (case governing sh p of Some d \<Rightarrow> VStr (show_path (d_prefix d)) | None \<Rightarrow> VNull))))"

definition index_row :: "shape \<Rightarrow> described \<Rightarrow> call_failure + json" where
  "index_row sh d =
     (case governing sh (ds_path d) of
        Some owner \<Rightarrow> Inr (VObj [(''path'', VStr (show_path (ds_path d))), (''prefix'', VStr (show_path (d_prefix owner))),
          (''schema'', ds_schema d), (''hidden'', VBool (ds_hidden d))])
      | None \<Rightarrow> Inl Panicked)"

definition fn_shape_schema_index :: "wasm_libs \<Rightarrow> wasm_fn" where
  "fn_shape_schema_index W =
     then_do (args_shape W) (\<lambda>sh.
     then_do (lift_res (map_res (index_row sh) (schema_index sh))) (\<lambda>rows.
     lift_res (Inr (VArr rows))))"

text \<open>What serde derives for a finding and a format check.\<close>

fun report_json :: "report \<Rightarrow> json" where
  "report_json (Finding f) =
     VObj ([(''path'', VStr (show_path (f_path f))), (''msg'', VStr (f_msg f))]
       @ (if f_enforced f then [(''enforced'', VBool True)] else []))"
| "report_json (Format f) =
     VObj [(''path'', VStr (show_path (fc_path f))), (''format'', VStr (fc_format f)), (''value'', VStr (fc_value f))]"

definition fn_shape_findings :: "wasm_libs \<Rightarrow> wasm_fn" where
  "fn_shape_findings W =
     then_do (args_shape W) (\<lambda>sh.
     then_do args_value (\<lambda>doc.
     lift_res (Inr (VArr (map report_json (findings (wl_core W) sh doc))))))"

definition fn_same :: wasm_fn where
  "fn_same =
     then_do args_value (\<lambda>x.
     then_do args_value (\<lambda>y.
     lift_res (Inr (VBool (veq x y)))))"

definition call_fn :: "wasm_libs \<Rightarrow> string \<Rightarrow> wasm_fn" where
  "call_fn W name =
     (if name = ''abi'' then lift_res (Inr (VNum (PosInt (ucast abi))))
      else if name = ''parse'' then fn_parse W
      else if name = ''dump'' then fn_dump W
      else if name = ''key_path_check'' then fn_key_path_check
      else if name = ''file_name_valid'' then fn_file_name_valid
      else if name = ''shape_prefixes'' then fn_shape_prefixes W
      else if name = ''shape_governing'' then fn_shape_governing W
      else if name = ''shape_schema_index'' then fn_shape_schema_index W
      else if name = ''shape_findings'' then fn_shape_findings W
      else if name = ''same'' then fn_same
      else lift_res (Inl (call_bad (''unknown function '' @ [CHR 0x27] @ name @ [CHR 0x27]))))"

definition call :: "wasm_libs \<Rightarrow> string \<Rightarrow> json list \<Rightarrow> call_failure + json" where
  "call W name vs =
     fst (then_do (call_fn W name) (\<lambda>out. query (\<lambda>a. andthen (args_done a) (\<lambda>_. Inr out))) (args_new name vs))"

section \<open>The exported call\<close>

definition dispatch :: "wasm_libs \<Rightarrow> string \<Rightarrow> response option" where
  "dispatch W input =
     (let run =
        andthen (case utf8_error input of
            Some e \<Rightarrow> Inl (call_bad (''request is not UTF-8: '' @ e)) | None \<Rightarrow> Inr input) (\<lambda>t.
        andthen (map_err (\<lambda>e. call_bad (''request is not JSON: '' @ e)) (request_from_str W t)) (\<lambda>req.
        call W (rq_name req) (rq_args req)))
      in case run of
           Inr v \<Rightarrow> Some (RespOk v)
         | Inl (Failed e) \<Rightarrow> Some (RespErr e)
         | Inl Panicked \<Rightarrow> None)"

definition usize_json :: "nat \<Rightarrow> json" where
  "usize_json n = VNum (PosInt (of_nat n))"

definition call_error_json :: "call_error \<Rightarrow> json" where
  "call_error_json e =
     VObj ([(''message'', VStr (ce_message e))]
       @ (case ce_line e of Some n \<Rightarrow> [(''line'', usize_json n)] | None \<Rightarrow> [])
       @ (case ce_column e of Some n \<Rightarrow> [(''column'', usize_json n)] | None \<Rightarrow> []))"

fun response_json :: "response \<Rightarrow> json" where
  "response_json (RespOk v) = VObj [(''ok'', v)]"
| "response_json (RespErr e) = VObj [(''err'', call_error_json e)]"

text \<open>The output buffer after the call and its length; nothing when the call traps.\<close>

definition pm_call :: "wasm_libs \<Rightarrow> string \<Rightarrow> (32 word \<times> string) option" where
  "pm_call W input =
     map_option (\<lambda>r. let out = json_to_string (wl_core W) (response_json r) in (of_nat (length out), out))
       (dispatch W input)"

definition pm_abi :: "32 word" where
  "pm_abi = abi"

section \<open>No request panics\<close>

named_theorems quiet_intros "operations that never panic"

definition quiet :: "('s \<Rightarrow> (call_failure + 'a) \<times> 's) \<Rightarrow> bool" where
  "quiet m \<longleftrightarrow> (\<forall>s. fst (m s) \<noteq> Inl Panicked)"

lemma quiet_then_do [quiet_intros]: "quiet m \<Longrightarrow> (\<And>x. quiet (f x)) \<Longrightarrow> quiet (then_do m f)"
proof -
  assume m: "quiet m" and f: "\<And>x. quiet (f x)"
  have "fst (then_do m f s) \<noteq> Inl Panicked" for s
    using m [unfolded quiet_def, rule_format, of s] f [unfolded quiet_def]
    by (cases "m s"; cases "fst (m s)") (auto simp: then_do_def)
  then show ?thesis by (simp add: quiet_def)
qed

lemma quiet_lift [quiet_intros]: "r \<noteq> Inl Panicked \<Longrightarrow> quiet (lift_res r)"
  by (simp add: quiet_def)

lemma not_panicked [simp]: "call_bad m \<noteq> Panicked" "call_error_of e \<noteq> Panicked"
  by (simp_all add: call_bad_def call_error_of_def Let_def)

lemma plain_results [quiet_intros]:
  "Inr x \<noteq> Inl Panicked" "map_err call_error_of r \<noteq> Inl Panicked" "ok_or (call_bad m) o' \<noteq> Inl Panicked"
  by (simp, cases r, simp_all, cases o', simp_all)

lemma quiet_args [quiet_intros]:
  "quiet args_next" "quiet args_str" "quiet args_value" "quiet args_format" "quiet args_path"
  "quiet (args_parsed W de)" "quiet (args_shape W)"
proof -
  show n: "quiet args_next" by (auto simp: quiet_def args_next_def Let_def split: list.split)
  have s: "fst (then_do args_next (\<lambda>v. lift_res (ok_or (call_bad (g v)) (h v))) a) \<noteq> Inl Panicked" for a g h
    using quiet_then_do [OF n, of "\<lambda>v. lift_res (ok_or (call_bad (g v)) (h v))"]
    by (simp add: quiet_def plain_results)
  show st: "quiet args_str" unfolding quiet_def args_str_def Let_def by (intro allI s)
  show p: "quiet (args_parsed W de)" for de :: "json \<Rightarrow> 'x option"
    unfolding quiet_def args_parsed_def Let_def by (intro allI s)
  show "quiet args_value" "quiet args_format" "quiet args_path" "quiet (args_shape W)"
    unfolding args_value_def args_format_def args_path_def args_shape_def by (intro quiet_intros n st p)+
qed

lemma path_verdict_quiet [quiet_intros]: "path_verdict t \<noteq> Inl Panicked"
  by (auto simp: path_verdict_def is_valid_segment_def split: option.splits dest!: find_Some_set)

lemma collect_owned:
  "d \<in> set (collect sh owner schema p h) \<Longrightarrow> owned sh owner (ds_path d)"
  "d \<in> set (collect_props sh owner props p h) \<Longrightarrow> owned sh owner (ds_path d)"
proof (induction sh owner schema p h and sh owner props p h rule: collect_collect_props.induct)
  case (1 sh owner schema p h)
  then show ?case
    by (cases "value_get schema ''properties''"; cases "the (value_get schema ''properties'')")
      (auto simp: collect.simps Let_def split: if_splits)
qed auto

lemma indexed_governed:
  assumes "d \<in> set (schema_index sh)"
  shows "\<exists>owner. governing sh (ds_path d) = Some owner"
  using assms by (auto simp: in_schema_index owned_def dest!: collect_owned(1))

lemma index_rows:
  "map_res (index_row sh) (schema_index sh) = Inr (map (\<lambda>d. VObj [(''path'', VStr (show_path (ds_path d))),
     (''prefix'', VStr (show_path (d_prefix (the (governing sh (ds_path d)))))), (''schema'', ds_schema d),
     (''hidden'', VBool (ds_hidden d))]) (schema_index sh))"
proof -
  have "index_row sh d = Inr (VObj [(''path'', VStr (show_path (ds_path d))),
     (''prefix'', VStr (show_path (d_prefix (the (governing sh (ds_path d)))))), (''schema'', ds_schema d),
     (''hidden'', VBool (ds_hidden d))])" if "d \<in> set (schema_index sh)" for d
    using indexed_governed [OF that] by (auto simp: index_row_def)
  then show ?thesis by (simp add: map_res_Inr list_all2_map2 list.rel_refl_strong)
qed

lemma quiet_fns [quiet_intros]:
  "quiet (fn_parse W)" "quiet (fn_dump W)" "quiet fn_key_path_check" "quiet fn_file_name_valid"
  "quiet (fn_shape_prefixes W)" "quiet (fn_shape_governing W)" "quiet (fn_shape_schema_index W)"
  "quiet (fn_shape_findings W)" "quiet fn_same"
  unfolding fn_parse_def fn_dump_def fn_key_path_check_def fn_file_name_valid_def fn_shape_prefixes_def
    fn_shape_governing_def fn_shape_schema_index_def fn_shape_findings_def fn_same_def index_rows
  by (intro quiet_intros)+

lemma call_quiet: "call W name vs \<noteq> Inl Panicked"
proof -
  have "quiet (call_fn W name)"
    unfolding call_fn_def by (auto intro!: quiet_intros simp: call_bad_def)
  moreover have "quiet (query (\<lambda>a. andthen (args_done a) (\<lambda>_. Inr out)))" for out :: json
    by (simp add: quiet_def args_done_def split: list.split)
  ultimately have "quiet (then_do (call_fn W name) (\<lambda>out. query (\<lambda>a. andthen (args_done a) (\<lambda>_. Inr out))))"
    by (rule quiet_then_do)
  then show ?thesis by (simp add: quiet_def call_def)
qed

section \<open>A listing on its way to the browser\<close>

text \<open>What serde derives for the rows of a listing, with the encoding the transport gives to flags.\<close>

fun selector_json :: "selector \<Rightarrow> json" where
  "selector_json All = VObj [(''all'', VBool True)]"
| "selector_json (Tag t) = VObj [(''tag'', VStr t)]"

fun origin_json :: "origin \<Rightarrow> json" where
  "origin_json Packaged = VStr ''packaged''"
| "origin_json Cluster = VStr ''cluster''"

definition opt_field :: "string \<Rightarrow> ('a \<Rightarrow> json) \<Rightarrow> 'a option \<Rightarrow> vmap" where
  "opt_field k f x = (case x of Some y \<Rightarrow> [(k, f y)] | None \<Rightarrow> [])"

definition node_override_json :: "(bool \<Rightarrow> json) \<Rightarrow> node_override \<Rightarrow> json" where
  "node_override_json enc over =
     VObj (opt_field ''schema'' id (no_schema over) @ opt_field ''enforce'' enc (no_enforce over)
       @ opt_field ''hidden'' enc (no_hidden over))"

definition prefix_def_json :: "(bool \<Rightarrow> json) \<Rightarrow> prefix_def \<Rightarrow> json" where
  "prefix_def_json enc p =
     VObj ([(''prefix'', VStr (show_path (pd_prefix p)))]
       @ opt_field ''description'' VStr (pd_description p)
       @ [(''selector'', selector_json (pd_selector p))]
       @ opt_field ''schema'' id (pd_schema p)
       @ [(''enforce'', enc (pd_enforce p)), (''hidden'', enc (pd_hidden p))]
       @ (if pd_nodes p = [] then []
          else [(''nodes'', VObj (map (\<lambda>(n, over). (n, node_override_json enc over)) (pd_nodes p)))])
       @ [(''origin'', origin_json (pd_origin p)), (''overrides'', enc (pd_overrides p))])"

fun prefix_entry_json :: "(bool \<Rightarrow> json) \<Rightarrow> prefix_entry \<Rightarrow> json" where
  "prefix_entry_json enc (LoadedPrefix p) = prefix_def_json enc p"
| "prefix_entry_json enc (FailedPrefix f) =
     VObj [(''prefix'', VStr (fp_prefix f)), (''origin'', origin_json (fp_origin f)), (''error'', VStr (fp_error f))]"

definition perl_flag :: "bool \<Rightarrow> json" where
  "perl_flag b = VNum (PosInt (if b then 1 else 0))"

text \<open>What the browser relies on of the encoding of a flag, and that both encodings in use have it.\<close>

locale flag_encoding =
  fixes enc :: "bool \<Rightarrow> json"
  assumes truthy_enc: "truthy (enc b) = b"
begin

lemma flag_arrives: "\<exists>x. de_opt Some (Some (enc b)) = Some x \<and> is_some_and truthy x = b"
  using truthy_enc [of b] by (cases "enc b") (auto simp: de_opt_def is_some_and_def truthy_def)

lemma loaded_row_arrives:
  assumes "valid_path (pd_prefix p)" "pd_schema p \<noteq> Some VNull"
  shows "\<exists>w. de_wire (prefix_entry_json enc (LoadedPrefix p)) = Some w \<and> wire_declared w = Some (declared_of p)"
proof -
  obtain x y where xy: "de_opt Some (Some (enc (pd_enforce p))) = Some x" "is_some_and truthy x = pd_enforce p"
    "de_opt Some (Some (enc (pd_hidden p))) = Some y" "is_some_and truthy y = pd_hidden p"
    using flag_arrives by metis
  have sc: "de_opt Some (pd_schema p) = Some (pd_schema p)"
    using assms(2) by (auto simp: de_opt_def split: option.split json.split)
  have de: "de_opt as_str (map_option VStr (pd_description p)) = Some (pd_description p)"
    by (cases "pd_description p") (simp_all add: de_opt_def as_str_def)
  let ?w = "\<lparr>wp_prefix = show_path (pd_prefix p), wp_description = pd_description p, wp_schema = pd_schema p,
     wp_enforce = x, wp_hidden = y, wp_error = None\<rparr>"
  have f: "wire_fields (prefix_def_json enc p) = Some g \<Longrightarrow>
      g ''prefix'' = Some (VStr (show_path (pd_prefix p))) \<and> g ''description'' = map_option VStr (pd_description p)
      \<and> g ''schema'' = pd_schema p \<and> g ''enforce'' = Some (enc (pd_enforce p))
      \<and> g ''hidden'' = Some (enc (pd_hidden p)) \<and> g ''error'' = None" for g
    by (cases "pd_description p"; cases "pd_schema p")
      (auto simp: wire_fields_def prefix_def_json_def opt_field_def)
  have "wire_fields (prefix_def_json enc p) \<noteq> None" by (simp add: wire_fields_def prefix_def_json_def)
  then have "de_wire (prefix_def_json enc p) = Some ?w"
    using f xy sc de by (auto simp: de_wire_def as_str_def de_opt_def [of _ None])
  moreover have "wire_declared ?w = Some (declared_of p)"
    using xy by (simp add: wire_declared_def parse_show_path [OF assms(1)] declared_of_def)
  ultimately show ?thesis by (intro exI [of _ ?w]) simp
qed

lemma failed_row_arrives:
  "\<exists>w. de_wire (prefix_entry_json enc (FailedPrefix f)) = Some w \<and> wire_declared w = None"
  by (simp add: de_wire_def wire_fields_def as_str_def de_opt_def wire_declared_def)

lemma rows_arrive:
  assumes "\<forall>p \<in> set ps. valid_path (pd_prefix p) \<and> pd_schema p \<noteq> Some VNull"
  shows "\<exists>ws. de_all de_wire (map (prefix_entry_json enc) (prefixes_list ps fs)) = Some ws
    \<and> List.map_filter wire_declared ws = map declared_of ps"
  using assms
proof (induction ps)
  case Nil
  then show ?case
  proof (induction fs)
    case (Cons f fs)
    with failed_row_arrives [of "failed_prefix_of f"] show ?case
      by (auto simp: prefixes_list_def List.map_filter_simps)
  qed (simp add: prefixes_list_def List.map_filter_simps)
next
  case (Cons p ps)
  with loaded_row_arrives [of p] show ?case by (auto simp: prefixes_list_def List.map_filter_simps)
qed

end

interpretation json_flags: flag_encoding VBool
  by unfold_locales (simp add: truthy_def)

interpretation perl_flags: flag_encoding perl_flag
  by unfold_locales (simp add: truthy_def perl_flag_def f64_of_nat.simps)

section \<open>The calls on a listing\<close>

lemma schema_checked_not_null: "check_schema_dialect L name loc s = Inr () \<Longrightarrow> s \<noteq> VNull"
  by (auto simp: check_schema_dialect.simps)

lemma loaded_schema_not_null:
  assumes "list_prefixes L reg s = Inr (ps, failures)" "p \<in> set ps"
  shows "pd_schema p \<noteq> Some VNull" "\<And>n over. (n, over) \<in> set (pd_nodes p) \<Longrightarrow> no_schema over \<noteq> Some VNull"
proof -
  let ?stamp = "\<lambda>p org over. p\<lparr>pd_origin := org, pd_overrides := over\<rparr>"
  from assms(1) obtain ok where l: "load_dirs (parse_prefix L) ?stamp (cluster_layers reg) s = Inr (ok, failures)"
    and ps: "ps = sort_key (\<lambda>p. by_specificity (pd_prefix p)) (map snd ok)"
    by (auto simp: list_prefixes_def prefixes_with_failures_def dirs_def andthen_eq_Inr)
  from assms(2) ps obtain n where "(n, p) \<in> set ok" by auto
  from load_dirs_parsed [OF l this] obtain t y where
    y: "parse_prefix L n t = Inr y" "pd_schema p = pd_schema y" "pd_nodes p = pd_nodes y" by auto
  show "pd_schema p \<noteq> Some VNull"
    using parse_prefix_Inr(3) [OF y(1)] schema_checked_not_null y(2) by metis
  show "no_schema over \<noteq> Some VNull" if "(m, over) \<in> set (pd_nodes p)" for m over
    using parse_prefix_Inr(4) [OF y(1)] schema_checked_not_null that y(3) by metis
qed

lemma resolved_in_order:
  assumes "prefixes_for_guest L reg nd tags s = Inr (ps, failures)" "p \<in> set ps"
  shows "valid_path (pd_prefix p) \<and> pd_schema p \<noteq> Some VNull"
proof -
  from assms obtain loaded q where q: "list_prefixes L reg s = Inr (loaded, failures)" "q \<in> set loaded"
    "p = resolve_for_node nd q"
    by (auto simp: prefixes_for_guest_def andthen_eq_Inr)
  have "pd_schema p \<noteq> Some VNull"
    using loaded_schema_not_null [OF q(1,2)] map_of_SomeD [of "pd_nodes q"]
    by (auto simp: q(3) resolve_fields(2) first_some_def bind_eq_Some_conv split: option.splits)
  with list_prefixes_rows(4) [OF q(1,2)] q(3) show ?thesis by simp
qed

lemma args_str_simps [simp]:
  "args_str \<lparr>ca_name = n, ca_args = VStr t # vs, ca_taken = k\<rparr> = (Inr t, \<lparr>ca_name = n, ca_args = vs, ca_taken = k + 1\<rparr>)"
  by (simp add: args_str_def args_next_def then_do_def as_str_def Let_def)

lemma args_value_simps [simp]:
  "args_value \<lparr>ca_name = n, ca_args = v # vs, ca_taken = k\<rparr> = (Inr v, \<lparr>ca_name = n, ca_args = vs, ca_taken = k + 1\<rparr>)"
  by (simp add: args_value_def args_next_def then_do_def Let_def)

lemma args_path_simps [simp]:
  "valid_path p \<Longrightarrow> args_path \<lparr>ca_name = n, ca_args = VStr (show_path p) # vs, ca_taken = k\<rparr>
     = (Inr p, \<lparr>ca_name = n, ca_args = vs, ca_taken = k + 1\<rparr>)"
  by (simp add: args_path_def then_do_def parse_show_path)

lemma args_shape_rows:
  assumes "de_all de_wire rows = Some ws" "List.map_filter wire_declared ws = map declared_of ps"
  shows "args_shape W \<lparr>ca_name = n, ca_args = VArr rows # vs, ca_taken = k\<rparr>
    = (Inr (of_guest ps), \<lparr>ca_name = n, ca_args = vs, ca_taken = k + 1\<rparr>)"
  using assms
  by (simp add: args_shape_def args_parsed_def args_next_def de_vec_def as_array_def then_do_def Let_def of_guest_def)

lemma listing_arrives:
  assumes "api_prefixes L reg (acl_node acl) (Some (acl_tags acl)) s = Inr rows" "enc = VBool \<or> enc = perl_flag"
  shows "\<exists>pfs ws. effective_prefixes L reg (Guest v) acl s = Inr pfs
    \<and> de_all de_wire (map (prefix_entry_json enc) rows) = Some ws \<and> List.map_filter wire_declared ws = map declared_of pfs"
proof -
  from assms(1) obtain pfs failures where p: "prefixes_for_guest L reg (acl_node acl) (acl_tags acl) s = Inr (pfs, failures)"
    and rows: "rows = prefixes_list pfs failures"
    by (auto simp: api_prefixes_def andthen_eq_Inr node_name_def node_name_new_def map_err_eq_Inr
        split: option.splits if_splits)
  have "effective_prefixes L reg (Guest v) acl s = Inr pfs" by (simp add: effective_prefixes_def p)
  moreover have "\<forall>p \<in> set pfs. valid_path (pd_prefix p) \<and> pd_schema p \<noteq> Some VNull"
    using resolved_in_order [OF p] by blast
  ultimately show ?thesis
    using json_flags.rows_arrive [of pfs failures] perl_flags.rows_arrive [of pfs failures] assms(2) rows by blast
qed

lemmas fn_defs = fn_parse_def fn_dump_def fn_key_path_check_def fn_file_name_valid_def fn_shape_prefixes_def
  fn_shape_governing_def fn_shape_schema_index_def fn_shape_findings_def fn_same_def

lemmas call_defs = call_def call_fn_def fn_defs args_new_def args_done_def then_do_def

lemma key_path_check_call: "call W ''key_path_check'' [VStr t] = path_verdict t"
  by (cases "path_verdict t") (simp_all add: call_defs)

lemma find_first: "find P xs = Some x \<longleftrightarrow> (\<exists>ys zs. xs = ys @ x # zs \<and> P x \<and> (\<forall>y \<in> set ys. \<not> P y))"
proof (induction xs)
  case (Cons a xs)
  show ?case
  proof (cases "P a")
    case True
    then show ?thesis by (auto simp: Cons_eq_append_conv)
  next
    case False
    have "(\<exists>ys zs. a # xs = ys @ x # zs \<and> P x \<and> (\<forall>y \<in> set ys. \<not> P y))
      \<longleftrightarrow> (\<exists>ys zs. xs = ys @ x # zs \<and> P x \<and> (\<forall>y \<in> set ys. \<not> P y))"
    proof
      assume "\<exists>ys zs. xs = ys @ x # zs \<and> P x \<and> (\<forall>y \<in> set ys. \<not> P y)"
      then obtain ys zs where "a # xs = (a # ys) @ x # zs" "P x" "\<forall>y \<in> set (a # ys). \<not> P y" using False by auto
      then show "\<exists>ys zs. a # xs = ys @ x # zs \<and> P x \<and> (\<forall>y \<in> set ys. \<not> P y)" by blast
    qed (use False in \<open>auto simp: Cons_eq_append_conv\<close>)
    with False Cons.IH show ?thesis by simp
  qed
qed simp

section \<open>Properties\<close>



text \<open>C38: No request traps. Whatever bytes the caller hands over there is an answer, and it carries a value
  exactly when the bytes are UTF-8, read as a request, and the function accepts its arguments; every
  \<open>expect\<close> on the way holds.\<close>

theorem every_request_is_answered:
  "(\<exists>r. pm_call W input = Some (of_nat (length (json_to_string (wl_core W) (response_json r))), json_to_string (wl_core W) (response_json r))
      \<and> dispatch W input = Some r)
   \<and> (\<forall>v. dispatch W input = Some (RespOk v) \<longleftrightarrow> utf8_error input = None
        \<and> (\<exists>req. request_from_str W input = Inr req \<and> call W (rq_name req) (rq_args req) = Inr v))"
proof -
  have "\<exists>r. dispatch W input = Some r"
    using call_quiet
    by (auto simp: dispatch_def Let_def call_bad_def split: option.split sum.split call_failure.split)
      (auto simp: andthen_eq_Inl map_err_eq_Inl call_bad_def)
  moreover have "dispatch W input = Some (RespOk v) \<longleftrightarrow> utf8_error input = None
        \<and> (\<exists>req. request_from_str W input = Inr req \<and> call W (rq_name req) (rq_args req) = Inr v)" for v
    by (cases "request_from_str W input")
      (auto simp: dispatch_def Let_def call_bad_def split: option.split sum.split call_failure.split)
  ultimately show ?thesis by (auto simp: pm_call_def Let_def)
qed

text \<open>The path check of the editor agrees with the parser of the server: it has no complaint exactly
  for the non-empty dotted paths the parser accepts, and a complaint about a character names the first
  segment that is not valid and the first character of it that is not allowed.\<close>

theorem path_check_agrees_with_the_parser:
  "(call W ''key_path_check'' [VStr t] = Inr VNull \<longleftrightarrow> t \<noteq> [] \<and> CHR ''/'' \<notin> set t \<and> (\<exists>p. parse_path t = Inr p))
   \<and> (\<forall>seg c. call W ''key_path_check'' [VStr t]
          = Inr (VObj [(''reason'', VStr ''char''), (''segment'', VStr seg), (''char'', VStr c)]) \<longleftrightarrow>
        t \<noteq> [] \<and> seg \<noteq> []
        \<and> (\<exists>before rest. split_on CHR ''.'' t = before @ seg # rest \<and> list_all is_valid_segment before)
        \<and> (\<exists>before rest. chars seg = before @ c # rest \<and> list_all segment_char before \<and> \<not> segment_char c))"
proof -
  have nul: "path_verdict t = Inr VNull \<longleftrightarrow> t \<noteq> [] \<and> list_all is_valid_segment (split_on CHR ''.'' t)"
    by (cases "find (\<lambda>s. \<not> is_valid_segment s) (split_on CHR ''.'' t)")
      (auto simp: path_verdict_def find_None_list_all list_all_iff split: option.split dest: find_Some_set)
  have dotted: "list_all is_valid_segment (split_on CHR ''.'' t) \<longleftrightarrow> CHR ''/'' \<notin> set t \<and> (\<exists>p. parse_path t = Inr p)" if "t \<noteq> []"
  proof
    assume "list_all is_valid_segment (split_on CHR ''.'' t)"
    then have "valid_path (split_on CHR ''.'' t)" by (simp add: valid_path_def)
    from parse_show_path [OF this] show_path_no_slash [OF this] show "CHR ''/'' \<notin> set t \<and> (\<exists>p. parse_path t = Inr p)"
      by (simp add: show_path_def join_split_on)
  qed (use that in \<open>auto simp: parse_path_def strip_slash_None Let_def split: if_splits\<close>)
  have complaint: "path_verdict t = Inr (VObj [(''reason'', VStr ''char''), (''segment'', VStr seg), (''char'', VStr c)]) \<longleftrightarrow>
        t \<noteq> [] \<and> seg \<noteq> [] \<and> find (\<lambda>s. \<not> is_valid_segment s) (split_on CHR ''.'' t) = Some seg \<and> invalid_char seg = Some c" for seg c
    by (auto simp: path_verdict_def split: option.splits)
  have first: "find (\<lambda>s. \<not> is_valid_segment s) xs = Some seg
      \<longleftrightarrow> (\<exists>before rest. xs = before @ seg # rest \<and> list_all is_valid_segment before) \<and> \<not> is_valid_segment seg" for xs seg
    by (auto simp: find_first list_all_iff)
  have inv: "invalid_char seg = Some c
      \<longleftrightarrow> (\<exists>before rest. chars seg = before @ c # rest \<and> list_all segment_char before \<and> \<not> segment_char c)" for seg c
    by (auto simp: invalid_char_def find_first list_all_iff)
  have notv: "invalid_char seg = Some c \<Longrightarrow> \<not> is_valid_segment seg" for seg c
    by (simp add: is_valid_segment_def)
  show ?thesis
    unfolding key_path_check_call nul complaint first inv [symmetric] using dotted notv by blast
qed

end
