(* ===== verification/Metaschema.thy ===== *)
theory Metaschema
  imports Shape
begin

text \<open>
  The meta-schema (metaschema.rs): the format of prefix files in the dialect prefixes use themselves, which the
  editor shows and lints a prefix file with. The text is the constant of the source, line by line; the value it
  denotes is written out, its descriptions taken from the text's lines, and that the YAML library reads the one
  as the other is the assumption \<open>reads_as\<close>. The theorem is the contract the source states for the two: what
  the schema says of a file is what the parser does with it.
\<close>

section \<open>The text\<close>

definition apos :: string where "apos = [CHR 0x27]"

definition quot :: string where "quot = [CHR 0x22]"

definition prefix_lines :: "string list" where
  "prefix_lines = [
    ''type: object'',
    ''description: >-'',
    ''  A prefix definition: what a prefix is, and which guests it reaches. Its file name'',
    ''  is the prefix it declares, so there is no field here for the two to disagree about.'',
    ''properties:'',
    ''  description:'',
    ''    type: string'',
    ''    optional: 1'',
    ''    description: What this prefix is for. Shown in the prefix list and on hover.'',
    ''  selector:'',
    ''    type: object'',
    ''    description: >-'',
    ''      Which guests this prefix reaches. Exactly one of '' @ apos @ ''all'' @ apos @ '' or '' @ apos @ ''tag'' @ apos @ ''. This is a'',
    ''      selector, not a permission boundary.'',
    ''    properties:'',
    ''      all:'',
    ''        type: boolean'',
    ''        optional: 1'',
    ''        description: Every guest in the cluster.'',
    ''      tag:'',
    ''        type: string'',
    ''        optional: 1'',
    ''        description: >-'',
    ''          Only guests carrying this PVE tag. Adding the tag to a guest is the'',
    ''          deliberate act of including it.'',
    ''  enforce:'',
    ''    type: boolean'',
    ''    optional: 1'',
    ''    default: false'',
    ''    description: >-'',
    ''      Refuse an API write that would leave this prefix'' @ apos @ ''s subtree not matching its'',
    ''      schema, for the paths the write changed; '' @ apos @ ''force=1'' @ apos @ '' stores it anyway (the'',
    ''      editor'' @ apos @ ''s '' @ quot @ ''Save anyway'' @ quot @ '' tick). Off by default: a schema is advisory unless the'',
    ''      prefix says otherwise. Format checks are never enforced. This is the default'',
    ''      for the whole subtree; any schema node may set its own '' @ apos @ ''enforce'' @ apos @ '' and every'',
    ''      node below inherits that instead.'',
    ''  hidden:'',
    ''    type: boolean'',
    ''    optional: 1'',
    ''    default: false'',
    ''    description: >-'',
    ''      Do not offer this prefix'' @ apos @ ''s declared-but-unset keys as rows. For a prefix whose'',
    ''      schema is a vocabulary rather than a handful of keys, where the useful default'',
    ''      is to show what a guest actually set. This is the default for the whole'',
    ''      subtree; any schema node may set its own '' @ apos @ ''hidden'' @ apos @ '' and every node below'',
    ''      inherits that instead. It never hides a key that IS set, and never affects'',
    ''      validation.'',
    ''  schema:'',
    ''    type: object'',
    ''    optional: 1'',
    ''    description: >-'',
    ''      What the subtree under this prefix looks like, in the PVE::JSONSchema dialect:'',
    ''      type, properties, items, description, default, optional, enum, minimum,'',
    ''      maximum, format, plus two editor hints of our own -- '' @ apos @ ''multiline'' @ apos @ '' (this string is a block'',
    ''      of text) and '' @ apos @ ''hidden'' @ apos @ '' (do not offer this as a row until it is set). A node may'',
    ''      also carry '' @ apos @ ''enforce'' @ apos @ ''. All three are inherited by everything below the node that'',
    ''      sets them. Free-form, so it is edited as text.''
  ]"

definition prefix_text :: string where
  "prefix_text = nl # concat (map (\<lambda>l. l @ [nl]) prefix_lines)"

text \<open>The block scalars of the text: \<open>n\<close> lines from the \<open>i\<close>-th on, folded into one; and the text after the
  key on one line.\<close>

definition folded :: "nat \<Rightarrow> nat \<Rightarrow> string" where
  "folded i n = join '' '' (map trim (take n (drop i prefix_lines)))"

definition plain :: "nat \<Rightarrow> string" where
  "plain i = drop (length ''description: '') (trim (prefix_lines ! i))"

text \<open>The value the text denotes.\<close>

definition typed :: "string \<Rightarrow> vmap \<Rightarrow> json" where
  "typed t m = VObj ((''type'', VStr t) # m)"

definition optional_key :: "string \<times> json" where
  "optional_key = (''optional'', VNum (PosInt 1))"

definition selector_schema :: json where
  "selector_schema = typed ''object'' [
     (''description'', VStr (folded 12 2)),
     (''properties'', VObj [
        (''all'', typed ''boolean'' [optional_key, (''description'', VStr (plain 18))]),
        (''tag'', typed ''string'' [optional_key, (''description'', VStr (folded 23 2))])])]"

definition flag_schema :: "string \<Rightarrow> json" where
  "flag_schema txt = typed ''boolean'' [optional_key, (''default'', VBool False), (''description'', VStr txt)]"

definition prefix_properties :: vmap where
  "prefix_properties = [
     (''description'', typed ''string'' [optional_key, (''description'', VStr (plain 8))]),
     (''selector'', selector_schema),
     (''enforce'', flag_schema (folded 30 6)),
     (''hidden'', flag_schema (folded 41 6)),
     (''schema'', typed ''object'' [optional_key, (''description'', VStr (folded 51 6))])]"

definition prefix_value :: json where
  "prefix_value = typed ''object'' [(''description'', VStr (folded 2 2)), (''properties'', VObj prefix_properties)]"

section \<open>Reading it\<close>

text \<open>\<open>None\<close> is the panic of the source, with the text in hand a failure of every call or of none.\<close>

definition meta_parse :: "libs \<Rightarrow> string \<Rightarrow> json option" where
  "meta_parse L text = (case parse_raw L Yaml text of Inr v \<Rightarrow> Some v | Inl _ \<Rightarrow> None)"

definition meta_prefix :: "libs \<Rightarrow> json option" where
  "meta_prefix L = meta_parse L prefix_text"

definition meta_schemas :: "libs \<Rightarrow> json option" where
  "meta_schemas L = map_option (\<lambda>v. VObj [(''prefix'', v)]) (meta_prefix L)"

definition api_schemas :: "libs \<Rightarrow> json option" where
  "api_schemas L = meta_schemas L"

text \<open>The entry point of the Perl package.\<close>

definition perl_api_schemas :: "libs \<Rightarrow> json option" where
  "perl_api_schemas L = api_schemas L"

definition reads_as :: "libs \<Rightarrow> string \<Rightarrow> json \<Rightarrow> bool" where
  "reads_as L text v \<longleftrightarrow> scan_yaml_safety L text = Inr () \<and> yaml_from_str L text = Inr v"

section \<open>What the schema admits\<close>

lemma typed_get [simp]:
  "value_get (typed t m) k = (if k = ''type'' then Some (VStr t) else map_of m k)"
  by (simp add: typed_def value_get_def)

lemma as_flag_one [simp]: "as_flag (VNum (PosInt 1)) = Some True"
  by code_simp

lemma fits_leaf:
  assumes "map_of m ''enum'' = None" "map_of m ''minimum'' = None" "map_of m ''maximum'' = None"
    "map_of m ''items'' = None" "map_of m ''properties'' = None"
  shows "fits L (typed t m) v \<longleftrightarrow> type_matches t v"
  using assms
  by (subst fits_iff) (auto simp: check_value_def check_type_def check_enum_value_def check_range_def check_max_def first_some_def
      as_str_def Let_def split: option.splits)

lemma fits_object:
  assumes "map_of m ''enum'' = None" "map_of m ''minimum'' = None" "map_of m ''maximum'' = None"
    "map_of m ''items'' = None" "map_of m ''properties'' = Some (VObj props)"
  shows "fits L (typed ''object'' m) (VObj kvs) \<longleftrightarrow> (\<forall>(k, w) \<in> set kvs. \<forall>sub. map_of props k = Some sub \<longrightarrow> fits L sub w)"
    "\<not> is_object v \<Longrightarrow> \<not> fits L (typed ''object'' m) v"
  using assms
  by (subst fits_iff; auto simp: check_value_def check_type_def check_enum_value_def check_range_def check_max_def first_some_def
      as_str_def as_f64_def as_object_def type_matches_def is_object_def Let_def split: option.splits)+

lemma meta_keys:
  "is_valid_segment ''description''" "is_valid_segment ''selector''" "is_valid_segment ''all''" "is_valid_segment ''tag''"
  "is_valid_segment ''enforce''" "is_valid_segment ''hidden''" "is_valid_segment ''schema''"
  by code_simp+

lemma prefix_value_checks: "check_schema_dialect L name loc prefix_value = Inr ()"
  by (simp add: prefix_value_def prefix_properties_def selector_schema_def flag_schema_def optional_key_def typed_def
      check_schema_dialect.simps declared_type_def check_texts_def check_flags_def check_enum_def
      check_bounds_def bound_def check_default_def no_meaning_def schema_types_def as_str_def type_matches_def
      is_string_def as_flag_def meta_keys andthen_eq_Inr)

lemma meta_prefix_reads: "reads_as L prefix_text prefix_value \<Longrightarrow> meta_prefix L = Some prefix_value"
  by (simp add: reads_as_def meta_prefix_def meta_parse_def parse_raw_def parse_yaml_def)

text \<open>A file without nulls and with its selector written as a map, which is how the editor writes one.\<close>

definition plainly_written :: "vmap \<Rightarrow> bool" where
  "plainly_written m \<longleftrightarrow>
     list_all (\<lambda>k. map_of m k \<noteq> Some VNull) [''description'', ''enforce'', ''hidden'', ''schema'']
     \<and> (case map_of m ''selector'' of
          Some (VObj s) \<Rightarrow> map_of s ''all'' \<noteq> Some VNull \<and> map_of s ''tag'' \<noteq> Some VNull
        | _ \<Rightarrow> False)"

definition is_optional :: "json \<Rightarrow> bool" where
  "is_optional s \<longleftrightarrow> flag s ''optional'' False"

lemma mem_map_of: "odistinct m \<Longrightarrow> (k, w) \<in> set m \<longleftrightarrow> map_of m k = Some w"
  by (metis map_of_SomeD map_of_is_SomeI)

lemma fits_selector: "fits L selector_schema v \<longleftrightarrow>
  (case v of VObj s \<Rightarrow> (\<forall>w. (''all'', w) \<in> set s \<longrightarrow> as_flag w \<noteq> None) \<and> (\<forall>w. (''tag'', w) \<in> set s \<longrightarrow> is_string w) | _ \<Rightarrow> False)"
proof (cases "is_object v")
  case True
  then obtain s where "v = VObj s" by (auto simp: is_object_def split: json.splits)
  then show ?thesis unfolding selector_schema_def
    by (auto simp: fits_object(1) fits_leaf optional_key_def type_matches_def split: if_splits)
next
  case False
  then show ?thesis unfolding selector_schema_def by (auto simp: fits_object(2) is_object_def split: json.splits)
qed

lemma fits_prefix: "fits L prefix_value (VObj m) \<longleftrightarrow>
    (\<forall>w. (''description'', w) \<in> set m \<longrightarrow> is_string w) \<and> (\<forall>w. (''selector'', w) \<in> set m \<longrightarrow> fits L selector_schema w)
    \<and> (\<forall>w. (''enforce'', w) \<in> set m \<longrightarrow> as_flag w \<noteq> None) \<and> (\<forall>w. (''hidden'', w) \<in> set m \<longrightarrow> as_flag w \<noteq> None)
    \<and> (\<forall>w. (''schema'', w) \<in> set m \<longrightarrow> is_object w)"
  unfolding prefix_value_def prefix_properties_def flag_schema_def
  by (auto simp: fits_object(1) fits_leaf optional_key_def type_matches_def split: if_splits)

section \<open>What the parser accepts\<close>

definition accepts :: "libs \<Rightarrow> string \<Rightarrow> raw_prefix_def \<Rightarrow> bool" where
  "accepts L name raw \<longleftrightarrow>
     \<not> isl (parse_selector name (rp_selector raw)) \<and> check_schema_opt L name ''schema'' (rp_schema raw) = Inr ()
     \<and> \<not> isl (map_res (parse_node L name) (rp_nodes raw))"

lemma not_isl: "\<not> isl x \<longleftrightarrow> (\<exists>y. x = Inr y)"
  by (cases x) auto

lemma parse_prefix_accepts:
  assumes "parse_raw L Yaml txt = Inr v"
  shows "(\<exists>d. parse_prefix L name txt = Inr d) \<longleftrightarrow>
    is_valid_file_name name \<and> (\<exists>raw. from_value v = Some raw \<and> accepts L name raw)"
proof -
  have "parse_path name = Inr (split_on CHR ''.'' name)" "\<not> is_root (split_on CHR ''.'' name)" if "is_valid_file_name name"
    using valid_file_name_path [OF that] by (auto simp: is_root_def)
  then show ?thesis using assms
    by (auto simp: parse_prefix_def andthen_eq_Inr ok_or_eq accepts_def not_isl)
qed

lemma from_value_obj: "from_value (VObj m) = Some raw \<longleftrightarrow>
    list_all (\<lambda>k. k \<in> set prefix_fields) (okeys m)
    \<and> de_opt as_str (map_of m ''description'') = Some (rp_description raw)
    \<and> de_opt de_selector (map_of m ''selector'') = Some (rp_selector raw)
    \<and> de_flag (map_of m ''enforce'') = Some (rp_enforce raw) \<and> de_flag (map_of m ''hidden'') = Some (rp_hidden raw)
    \<and> de_opt Some (map_of m ''schema'') = Some (rp_schema raw)
    \<and> de_btree de_node_override (map_of m ''nodes'') = Some (rp_nodes raw)"
  by (cases raw) (auto simp: from_value_def struct_fields_def bind_eq_Some_conv)

lemma de_opt_None [simp]: "de_opt f None = Some None" "de_flag None = Some None"
  by (simp_all add: de_opt_def de_flag_def)

lemma okeys_odel: "list_all P (okeys m) \<Longrightarrow> list_all P (okeys (odel k m))"
  by (auto simp: list_all_iff odel_def okeys_def)

text \<open>Leaving out a key the schema declares.\<close>

lemma drop_key:
  assumes "from_value (VObj m) = Some raw" "accepts L name raw" "map_of prefix_properties k = Some sub"
  shows "(\<exists>raw'. from_value (VObj (odel k m)) = Some raw' \<and> accepts L name raw') \<longleftrightarrow> is_optional sub"
proof -
  have f: "list_all (\<lambda>k. k \<in> set prefix_fields) (okeys (odel k m))" using assms(1) okeys_odel by (auto simp: from_value_obj)
  have opt: "is_optional sub \<longleftrightarrow> k \<noteq> ''selector''"
    using assms(3) by (auto simp: prefix_properties_def flag_schema_def selector_schema_def optional_key_def is_optional_def flag_def
        unwrap_or_def split: if_splits)
  define raw1 where "raw1 = raw\<lparr>rp_description := if k = ''description'' then None else rp_description raw,
    rp_enforce := if k = ''enforce'' then None else rp_enforce raw, rp_hidden := if k = ''hidden'' then None else rp_hidden raw,
    rp_schema := if k = ''schema'' then None else rp_schema raw\<rparr>"
  have k: "k \<in> {''description'', ''selector'', ''enforce'', ''hidden'', ''schema''}"
    using assms(3) by (auto simp: prefix_properties_def split: if_splits)
  show ?thesis
  proof (cases "k = ''selector''")
    case True
    then have "\<not> accepts L name raw'" if "from_value (VObj (odel k m)) = Some raw'" for raw'
      using that by (simp add: from_value_obj map_of_odel accepts_def parse_selector_def)
    with True opt show ?thesis by blast
  next
    case False
    with k f assms(1) have "from_value (VObj (odel k m)) = Some raw1"
      by (auto simp: from_value_obj map_of_odel raw1_def)
    moreover have "accepts L name raw1" using assms(2) by (simp add: accepts_def raw1_def check_schema_opt_def)
    ultimately show ?thesis using False opt by blast
  qed
qed

lemma accepted_schema_object: "check_schema_opt L name loc (Some s) = Inr () \<Longrightarrow> is_object s"
  by (cases s) (simp_all add: check_schema_opt_def check_schema_dialect.simps is_object_def)

text \<open>What an accepted file has at each key.\<close>

lemma de_opt_Some: "de_opt f x = Some y \<Longrightarrow> x = Some v \<Longrightarrow> v \<noteq> VNull \<Longrightarrow> \<exists>z. f v = Some z \<and> y = Some z"
  by (cases v) (auto simp: de_opt_def)

lemma as_str_string: "as_str v = Some s \<Longrightarrow> is_string v"
  by (cases v) (simp_all add: as_str_def is_string_def)

lemma as_bool_flag: "as_bool v = Some b \<Longrightarrow> as_flag v = Some b"
  by (cases v) (simp_all add: as_bool_def as_flag_def)

lemma selector_written:
  assumes "de_selector v = Some r" "wf_value v"
  shows "fits L selector_schema v \<longleftrightarrow>
    (case v of VObj s \<Rightarrow> map_of s ''all'' \<noteq> Some VNull \<and> map_of s ''tag'' \<noteq> Some VNull | _ \<Rightarrow> False)"
proof (cases v)
  case (VObj s)
  then have d: "odistinct s" using assms(2) by simp
  have r: "de_opt as_bool (map_of s ''all'') = Some (rs_all r)" "de_opt as_str (map_of s ''tag'') = Some (rs_tag r)"
    using assms(1) VObj by (auto simp: de_selector_def struct_fields_def bind_eq_Some_conv split: if_splits)
  have "w = VNull \<or> as_flag w \<noteq> None" if "map_of s ''all'' = Some w" for w
    using de_opt_Some [OF r(1) that] as_bool_flag by auto
  moreover have "w = VNull \<or> is_string w" if "map_of s ''tag'' = Some w" for w
    using de_opt_Some [OF r(2) that] as_str_string by auto
  moreover have "as_flag VNull = None" "\<not> is_string VNull" by (simp_all add: as_flag_def is_string_def)
  moreover have "fits L selector_schema v \<longleftrightarrow>
      (\<forall>w. map_of s ''all'' = Some w \<longrightarrow> as_flag w \<noteq> None) \<and> (\<forall>w. map_of s ''tag'' = Some w \<longrightarrow> is_string w)"
    by (simp only: VObj fits_selector json.case mem_map_of [OF d])
  ultimately show ?thesis unfolding VObj json.case by metis
qed (simp_all add: fits_selector)

lemma accepted_fits:
  assumes "from_value (VObj m) = Some raw" "accepts L name raw" "wf_value (VObj m)"
  shows "fits L prefix_value (VObj m) \<longleftrightarrow> plainly_written m"
proof -
  have d: "odistinct m" and wf: "\<And>k v. map_of m k = Some v \<Longrightarrow> wf_value v" using assms(3) by (auto dest!: map_of_SomeD simp: wf_entries_iff)
  note fv = assms(1) [unfolded from_value_obj]
  have nulls: "as_flag VNull = None" "\<not> is_string VNull" "\<not> is_object VNull" by (simp_all add: as_flag_def is_string_def is_object_def)
  obtain sv where sv: "map_of m ''selector'' = Some sv" "sv \<noteq> VNull"
    using fv assms(2) by (cases "map_of m ''selector''") (auto simp: accepts_def parse_selector_def de_opt_def split: json.splits)
  from fv have "de_opt de_selector (map_of m ''selector'') = Some (rp_selector raw)" by simp
  from de_opt_Some [OF this sv] obtain r where "de_selector sv = Some r" by blast
  note sel = selector_written [OF this wf [OF sv(1)], of L]
  have "is_string w \<or> w = VNull" if "map_of m ''description'' = Some w" for w
    using de_opt_Some [OF _ that, of as_str "rp_description raw"] fv as_str_string by auto
  moreover have "as_flag w \<noteq> None \<or> w = VNull" if "map_of m k = Some w" "k = ''enforce'' \<or> k = ''hidden''" for w k
    using de_opt_Some [OF _ that(1), of as_flag "rp_enforce raw"] de_opt_Some [OF _ that(1), of as_flag "rp_hidden raw"] fv that(2)
    by (auto simp: de_flag_def)
  moreover have "is_object w \<or> w = VNull" if "map_of m ''schema'' = Some w" for w
    using de_opt_Some [OF _ that, of Some "rp_schema raw"] fv assms(2) accepted_schema_object [of L name "''schema''" w]
    by (auto simp: accepts_def)
  ultimately show ?thesis using sel nulls sv(1) unfolding fits_prefix plainly_written_def mem_map_of [OF d]
    by (auto simp: list_all_iff)
qed

section \<open>Properties\<close>

text \<open>C27: The meta-schema says of a prefix file what the parser does with it. It is a schema the parser itself
  would accept. For every file the parser accepts: the editor's lint has no finding exactly when the file has
  no null and writes its selector as a map; leaving out a key the schema declares leaves a file the parser accepts
  exactly when the schema calls the key optional; and a flag that is left out has the default the schema
  states.\<close>

theorem meta_schema_agrees_with_the_parser:
  assumes "reads_as L prefix_text prefix_value" "parse_raw L Yaml txt = Inr (VObj m)" "wf_value (VObj m)"
    and "parse_prefix L name txt = Inr d"
  shows "\<exists>schema props. api_schemas L = Some (VObj [(''prefix'', schema)]) \<and> value_get schema ''properties'' = Some (VObj props)
    \<and> (\<forall>n loc. check_schema_dialect L n loc schema = Inr ())
    \<and> ((\<forall>r \<in> set (findings L (rooted schema) (VObj m)). \<not> is_finding r) \<longleftrightarrow> plainly_written m)
    \<and> (\<forall>k sub txt'. map_of props k = Some sub \<and> parse_raw L Yaml txt' = Inr (VObj (odel k m)) \<longrightarrow>
         ((\<exists>d'. parse_prefix L name txt' = Inr d') \<longleftrightarrow> is_optional sub))
    \<and> (\<forall>k sub v. map_of props k = Some sub \<and> value_get sub ''default'' = Some v \<and> map_of m k = None \<longrightarrow>
         k = ''enforce'' \<and> v = VBool (pd_enforce d) \<or> k = ''hidden'' \<and> v = VBool (pd_hidden d))"
proof -
  obtain raw where raw: "from_value (VObj m) = Some raw" "accepts L name raw" and name: "is_valid_file_name name"
    using parse_prefix_accepts [OF assms(2), of name] assms(4) by blast
  have d: "pd_enforce d = unwrap_or False (rp_enforce raw)" "pd_hidden d = unwrap_or False (rp_hidden raw)"
    using assms(2,4) raw(1) by (auto simp: parse_prefix_def andthen_eq_Inr ok_or_eq)
  have "api_schemas L = Some (VObj [(''prefix'', prefix_value)])"
    using meta_prefix_reads [OF assms(1)] by (simp add: api_schemas_def meta_schemas_def)
  moreover have "value_get prefix_value ''properties'' = Some (VObj prefix_properties)" by (simp add: prefix_value_def)
  moreover have "(\<exists>d'. parse_prefix L name txt' = Inr d') \<longleftrightarrow> is_optional sub"
    if "map_of prefix_properties k = Some sub" "parse_raw L Yaml txt' = Inr (VObj (odel k m))" for k sub txt'
    using parse_prefix_accepts [OF that(2), of name] name drop_key [OF raw that(1)] by blast
  moreover have "k = ''enforce'' \<and> v = VBool (pd_enforce d) \<or> k = ''hidden'' \<and> v = VBool (pd_hidden d)"
    if "map_of prefix_properties k = Some sub" "value_get sub ''default'' = Some v" "map_of m k = None" for k sub v
    using that raw(1) d by (auto simp: prefix_properties_def selector_schema_def flag_schema_def optional_key_def from_value_obj
        unwrap_or_def split: if_splits)
  moreover have "(\<forall>r \<in> set (findings L (rooted prefix_value) (VObj m)). \<not> is_finding r) \<longleftrightarrow> plainly_written m"
    unfolding no_findings_iff_fits by (rule accepted_fits [OF raw assms(3)])
  ultimately show ?thesis using prefix_value_checks by (intro exI [of _ prefix_value] exI [of _ prefix_properties]) blast
qed

definition sample_meta_libs :: libs where
  "sample_meta_libs = \<lparr>yaml_events = (\<lambda>_. []),
      yaml_from_str = (\<lambda>t. Inr (if t = ''x'' then VObj [(''selector'', VObj [(''all'', VBool True)])] else prefix_value)),
      yaml_to_string = (\<lambda>_. []), json_from_str = (\<lambda>_. Inr (VObj [])), json_to_string_pretty = (\<lambda>_. []),
      json_to_string = (\<lambda>_. []), sha256_hex = (\<lambda>_. []), f64_text = (\<lambda>_. []), serde_error = (\<lambda>_. [])\<rparr>"

theorem meta_schema_agrees_with_the_parser_witness:
  "\<exists>schema. api_schemas sample_meta_libs = Some (VObj [(''prefix'', schema)])
    \<and> list_all (\<lambda>r. \<not> is_finding r) (findings sample_meta_libs (rooted schema) (VObj [(''selector'', VObj [(''all'', VBool True)])]))"
proof -
  let ?m = "[(''selector'', VObj [(''all'', VBool True)])]"
  have r: "reads_as sample_meta_libs prefix_text prefix_value"
    by (simp add: reads_as_def sample_meta_libs_def scan_yaml_safety_def prefix_text_def)
  have p: "parse_raw sample_meta_libs Yaml ''x'' = Inr (VObj ?m)"
    by (simp add: parse_raw_def parse_yaml_def scan_yaml_safety_def sample_meta_libs_def)
  have "ok_of (parse_prefix sample_meta_libs ''a.b'' ''x'') \<noteq> None" by code_simp
  then obtain d where d: "parse_prefix sample_meta_libs ''a.b'' ''x'' = Inr d"
    by (cases "parse_prefix sample_meta_libs ''a.b'' ''x''") auto
  have "plainly_written ?m" by (simp add: plainly_written_def)
  with meta_schema_agrees_with_the_parser [OF r p _ d] show ?thesis by (fastforce simp: list_all_iff)
qed

end
