(* ===== verification/Gf_Entry.thy ===== *)
theory Gf_Entry
  imports Gf_Prelude Views
begin

text \<open>
  The \<open>guest-files\<close> key of a guest's document (entry.rs): the fields of an entry, the paths inside a
  guest, rendering a view to the content of a file, and the files a document asks for. The lemmas say
  which paths are accepted, that no two files of a document or an operator's list collide, and that
  every field of an accepted entry is within its bounds.
\<close>

section \<open>Constants\<close>

definition gf_prefix :: string where "gf_prefix = ''guest-files''"

definition guest_root :: string where "guest_root = ''/etc/pve-meta''"

definition max_content_bytes :: nat where "max_content_bytes = max_bytes"

definition forbidden_roots :: "string list" where
  "forbidden_roots = [''/proc'', ''/sys'', ''/dev'']"

definition temp_mark :: string where "temp_mark = ''.pve-meta-guest-files''"

definition manifest_name :: string where "manifest_name = ''.guest-files''"

definition manifest_path :: string where
  "manifest_path = guest_root @ ''/'' @ manifest_name"

definition quoted :: "string \<Rightarrow> string" where
  "quoted s = [CHR 0x27] @ s @ [CHR 0x27]"

section \<open>Formats, modes and owners\<close>

datatype file_format = FYaml | FJson | FRaw

definition parse_file_format :: "string \<Rightarrow> file_format option" where
  "parse_file_format s =
     (if s = ''yaml'' then Some FYaml else if s = ''json'' then Some FJson
      else if s = ''raw'' then Some FRaw else None)"

datatype local_edits = Keep | Overwrite

record owner =
  uid :: "32 word"
  gid :: "32 word"

definition owner_root :: owner where "owner_root = \<lparr>uid = 0, gid = 0\<rparr>"

definition owner_num :: "string \<Rightarrow> 32 word option" where
  "owner_num t = (if t \<noteq> [] \<and> length t \<le> 10 \<and> list_all is_digit t then parse_u32 t else None)"

definition parse_owner :: "string \<Rightarrow> owner option" where
  "parse_owner s =
     (case split_once CHR '':'' s of
        None \<Rightarrow> None
      | Some (u, g) \<Rightarrow>
          (case owner_num u of
             None \<Rightarrow> None
           | Some nu \<Rightarrow> (case owner_num g of None \<Rightarrow> None | Some ng \<Rightarrow> Some \<lparr>uid = nu, gid = ng\<rparr>)))"

definition show_owner :: "owner \<Rightarrow> string" where
  "show_owner ow = show_nat (unat (uid ow)) @ '':'' @ show_nat (unat (gid ow))"

definition parse_file_mode :: "string \<Rightarrow> 32 word option" where
  "parse_file_mode s =
     (case (if length s = 4 then strip_prefix ''0'' s else if length s = 3 then Some s else None) of
        None \<Rightarrow> None
      | Some digits \<Rightarrow> if list_all is_octal digits then parse_octal digits else None)"

definition mode_text :: "32 word \<Rightarrow> string" where
  "mode_text m = zero_pad 4 (show_octal (unat m))"

section \<open>Paths in the guest\<close>

datatype guest_path = GuestPath (gp_str: string)

instantiation guest_path :: linorder
begin

definition less_eq_guest_path :: "guest_path \<Rightarrow> guest_path \<Rightarrow> bool" where
  "less_eq_guest_path p q \<longleftrightarrow> gp_str p \<le> gp_str q"

definition less_guest_path :: "guest_path \<Rightarrow> guest_path \<Rightarrow> bool" where
  "less_guest_path p q \<longleftrightarrow> gp_str p < gp_str q"

instance
  by intro_classes
    (auto simp: less_eq_guest_path_def less_guest_path_def guest_path.expand)

end

definition is_under :: "string \<Rightarrow> string \<Rightarrow> bool" where
  "is_under a b \<longleftrightarrow> length b > length a \<and> prefix a b \<and> b ! length a = CHR ''/''"

definition is_at_or_under :: "string \<Rightarrow> string \<Rightarrow> bool" where
  "is_at_or_under a b \<longleftrightarrow> a = b \<or> is_under a b"

definition check_gp_segment :: "(string \<Rightarrow> string) \<Rightarrow> string \<Rightarrow> string + unit" where
  "check_gp_segment U seg =
     (if seg = [] then Inl ''empty segment''
      else if seg = ''.'' \<or> seg = ''..'' then Inl (quoted seg @ '' segment'')
      else case find (\<lambda>c. c \<noteq> ''.'' \<and> invalid_char c \<noteq> None) (chars seg) of
             Some c \<Rightarrow> Inl (debug_char U c @ '' is not allowed'')
           | None \<Rightarrow>
               if sublist temp_mark seg then Inl (quoted temp_mark @ '' is reserved'')
               else Inr ())"

definition gp_absolute :: "(string \<Rightarrow> string) \<Rightarrow> string \<Rightarrow> string + guest_path" where
  "gp_absolute U p =
     (case strip_prefix ''/'' p of
        None \<Rightarrow> Inl ''not absolute''
      | Some rest \<Rightarrow>
          if rest = [] then Inl (quoted ''/'' @ '' is not a file'')
          else andthen (for_each (check_gp_segment U) (split_on CHR ''/'' rest)) (\<lambda>_.
            case find (\<lambda>r. is_at_or_under r p) forbidden_roots of
              Some r \<Rightarrow> Inl (r @ '' is not a filesystem files are written to'')
            | None \<Rightarrow>
                if is_at_or_under p manifest_path \<or> is_under manifest_path p
                then Inl (''collides with the manifest '' @ manifest_path)
                else Inr (GuestPath p)))"

definition gp_parse :: "(string \<Rightarrow> string) \<Rightarrow> string \<Rightarrow> string + guest_path" where
  "gp_parse U s =
     (if s = [] then Inl ''path is empty''
      else let absolute = (if prefix ''/'' s then s else guest_root @ ''/'' @ s) in
        map_err (\<lambda>why. ''path '' @ quoted s @ '': '' @ why) (gp_absolute U absolute))"

fun dirs_from :: "string \<Rightarrow> string list \<Rightarrow> string list" where
  "dirs_from cur [] = []"
| "dirs_from cur (seg # segs) = (cur @ ''/'' @ seg) # dirs_from (cur @ ''/'' @ seg) segs"

definition directories :: "guest_path \<Rightarrow> string list" where
  "directories p = dirs_from [] (butlast (split_on CHR ''/'' (drop 1 (gp_str p))))"

definition temp_for :: "string \<Rightarrow> string" where
  "temp_for absolute =
     (case (case rsplit_once CHR ''/'' absolute of Some r \<Rightarrow> r | None \<Rightarrow> ([], absolute)) of
        (dir, base) \<Rightarrow> dir @ ''/.'' @ base @ temp_mark @ ''.tmp'')"

definition nests_with :: "guest_path \<Rightarrow> guest_path \<Rightarrow> bool" where
  "nests_with p q \<longleftrightarrow> is_under (gp_str p) (gp_str q) \<or> is_under (gp_str q) (gp_str p)"

section \<open>Sources\<close>

definition user_source :: "string \<Rightarrow> string" where
  "user_source name = ''user/'' @ name"

definition managed_source :: "string \<Rightarrow> string \<Rightarrow> string" where
  "managed_source operator name = ''managed/'' @ operator @ ''/'' @ name"

definition is_managed_source :: "string \<Rightarrow> bool" where
  "is_managed_source s \<longleftrightarrow> prefix ''managed/'' s"

definition managed_operator :: "string \<Rightarrow> string option" where
  "managed_operator s = map_option (\<lambda>r. hd (split_on CHR ''/'' r)) (strip_prefix ''managed/'' s)"

definition sources_conflict :: "string \<Rightarrow> string \<Rightarrow> bool" where
  "sources_conflict a b \<longleftrightarrow>
     a \<noteq> b \<and>
     (case (managed_operator a, managed_operator b) of
        (Some x, Some y) \<Rightarrow> x \<noteq> y
      | (None, None) \<Rightarrow> False
      | _ \<Rightarrow> True)"

section \<open>Entries\<close>

record entry =
  en_name :: string
  en_view :: "path option"
  en_path :: guest_path
  en_format :: file_format
  en_mode :: "32 word"
  en_owner :: owner
  en_local_edits :: local_edits
  en_source :: string

record desired =
  de_entry :: entry
  de_content :: string
  de_sha256 :: string

datatype resolved = RFile desired | RAbsent string | RRefused string string

fun resolved_name :: "resolved \<Rightarrow> string" where
  "resolved_name (RFile d) = en_name (de_entry d)"
| "resolved_name (RAbsent n) = n"
| "resolved_name (RRefused n _) = n"

datatype guest_files = Nothing | Held string | Entries "resolved list" | Managed "desired list"

definition mode_error :: "string \<Rightarrow> string" where
  "mode_error m = ''mode '' @ quoted m @ '' is not an octal mode such as '' @ [CHR 0x22] @ ''0444'' @ [CHR 0x22]"

definition owner_error :: "string \<Rightarrow> string" where
  "owner_error ow = ''owner '' @ quoted ow @ '' is not uid:gid''"

definition managed_entry ::
  "(string \<Rightarrow> string) \<Rightarrow> string \<Rightarrow> string \<Rightarrow> string \<Rightarrow> file_format \<Rightarrow> string \<Rightarrow> string \<Rightarrow> local_edits \<Rightarrow> string + entry" where
  "managed_entry U operator name p fmt mode ownr edits =
     andthen (gp_parse U p) (\<lambda>gp.
     andthen (ok_or (mode_error mode) (parse_file_mode mode)) (\<lambda>md.
     andthen (ok_or (owner_error ownr) (parse_owner ownr)) (\<lambda>ow.
     Inr \<lparr>en_name = name, en_view = None, en_path = gp, en_format = fmt, en_mode = md,
          en_owner = ow, en_local_edits = edits, en_source = managed_source operator name\<rparr>)))"

definition check_content_len :: "string \<Rightarrow> string + unit" where
  "check_content_len c =
     guard_err (\<not> length c > max_content_bytes)
       (''content is '' @ show_nat (length c) @ '' bytes, above the '' @ show_nat max_content_bytes @ ''-byte cap'')"

definition direct :: "gf_libs \<Rightarrow> entry \<Rightarrow> string \<Rightarrow> string + desired" where
  "direct G e c =
     andthen (check_content_len c) (\<lambda>_. Inr \<lparr>de_entry = e, de_content = c, de_sha256 = gf_sha G c\<rparr>)"

definition render_file :: "gf_libs \<Rightarrow> json \<Rightarrow> file_format \<Rightarrow> string + string" where
  "render_file G v fmt =
     andthen (case fmt of
         FYaml \<Rightarrow> Inr (render (core_libs G) (strip_comments v) Yaml)
       | FJson \<Rightarrow> Inr (render (core_libs G) (strip_comments v) Json)
       | FRaw \<Rightarrow> (case v of VStr s \<Rightarrow> Inr s | _ \<Rightarrow> Inl ''format raw needs the view to be a string'')) (\<lambda>c.
     andthen (check_content_len c) (\<lambda>_. Inr c))"

text \<open>The closure \<open>text\<close> of \<open>parse_entry\<close>: a field that is there has to be a string.\<close>

definition text_field :: "vmap \<Rightarrow> string \<Rightarrow> string + string option" where
  "text_field m key =
     (case map_of m key of
        None \<Rightarrow> Inr None
      | Some (VStr s) \<Rightarrow> Inr (Some s)
      | Some _ \<Rightarrow> Inl (quoted key @ '' must be a string''))"

definition entry_fields :: "string list" where
  "entry_fields = [''view'', ''path'', ''format'', ''mode'', ''owner'', ''local_edits'']"

definition view_error :: "string \<Rightarrow> string" where
  "view_error v = ''view '' @ quoted v @ '' is not a dotted key path''"

definition default_mode :: "32 word" where
  "default_mode = 4 * 64 + 4 * 8 + 4"

definition parse_entry :: "(string \<Rightarrow> string) \<Rightarrow> string \<Rightarrow> json \<Rightarrow> string + entry" where
  "parse_entry U name spec =
     andthen (ok_or ''an entry must be a map'' (as_object spec)) (\<lambda>m.
     andthen (for_each (\<lambda>key. guard_err (is_comment_key key \<or> key \<in> set entry_fields)
         (''unknown field '' @ quoted key)) (okeys m)) (\<lambda>_.
     andthen (text_field m ''view'') (\<lambda>vo.
     andthen (ok_or (quoted ''view'' @ '' is required'') vo) (\<lambda>view_text.
     andthen (guard_err (\<not> (view_text = [] \<or> CHR ''/'' \<in> set view_text)) (view_error view_text)) (\<lambda>_.
     andthen (map_err (\<lambda>_. view_error view_text) (parse_path view_text)) (\<lambda>vw.
     andthen (text_field m ''path'') (\<lambda>po.
     andthen (ok_or (quoted ''path'' @ '' is required'') po) (\<lambda>ptext.
     andthen (gp_parse U ptext) (\<lambda>gp.
     andthen (text_field m ''format'') (\<lambda>fo.
     andthen (case fo of
         None \<Rightarrow> Inr FYaml
       | Some f \<Rightarrow> ok_or (''format '' @ quoted f @ '' is not yaml, json or raw'') (parse_file_format f)) (\<lambda>fmt.
     andthen (text_field m ''mode'') (\<lambda>mo.
     andthen (case mo of
         None \<Rightarrow> Inr default_mode
       | Some md \<Rightarrow> ok_or (mode_error md) (parse_file_mode md)) (\<lambda>mode.
     andthen (text_field m ''owner'') (\<lambda>oo.
     andthen (case oo of
         None \<Rightarrow> Inr owner_root
       | Some ow \<Rightarrow> ok_or (owner_error ow) (parse_owner ow)) (\<lambda>ownr.
     andthen (text_field m ''local_edits'') (\<lambda>lo.
     andthen (case lo of
         None \<Rightarrow> Inr Keep
       | Some t \<Rightarrow>
           if t = ''keep'' then Inr Keep
           else if t = ''overwrite'' then Inr Overwrite
           else Inl (''local_edits '' @ quoted t @ '' is not keep or overwrite'')) (\<lambda>edits.
     Inr \<lparr>en_name = name, en_view = Some vw, en_path = gp, en_format = fmt, en_mode = mode,
          en_owner = ownr, en_local_edits = edits, en_source = user_source name\<rparr>)))))))))))))))))"

section \<open>The files of a document\<close>

definition resolve :: "gf_libs \<Rightarrow> json \<Rightarrow> string \<Rightarrow> json \<Rightarrow> resolved" where
  "resolve G doc name spec =
     (case parse_entry (unicode_debug G) name spec of
        Inl reason \<Rightarrow> RRefused name reason
      | Inr e \<Rightarrow>
          (case en_view e of
             None \<Rightarrow> RRefused name ''a document entry always has a view''
           | Some vw \<Rightarrow>
               (case ok_of (extract_view doc vw) of
                  Some (Some v) \<Rightarrow>
                    (case render_file G v (en_format e) of
                       Inr c \<Rightarrow> RFile \<lparr>de_entry = e, de_content = c, de_sha256 = gf_sha G c\<rparr>
                     | Inl reason \<Rightarrow> RRefused name reason)
                | _ \<Rightarrow> RAbsent name)))"

definition resolved_path :: "resolved \<Rightarrow> guest_path option" where
  "resolved_path r = (case r of RFile d \<Rightarrow> Some (en_path (de_entry d)) | _ \<Rightarrow> None)"

definition paths_clash :: "guest_path \<Rightarrow> guest_path \<Rightarrow> bool" where
  "paths_clash a b \<longleftrightarrow> a = b \<or> nests_with a b"

definition collision_text :: "guest_path \<Rightarrow> string \<Rightarrow> string" where
  "collision_text a name = ''path '' @ quoted (gp_str a) @ '' collides with entry '' @ quoted name"

text \<open>The reason the \<open>i\<close>-th entry is refused for, if its path collides: it names the first other
  entry it collides with.\<close>

definition clash_reason :: "resolved list \<Rightarrow> nat \<Rightarrow> string option" where
  "clash_reason es i =
     (case resolved_path (es ! i) of
        None \<Rightarrow> None
      | Some a \<Rightarrow>
          map_option (\<lambda>j. collision_text a (resolved_name (es ! j)))
            (find (\<lambda>j. i \<noteq> j \<and>
                (case resolved_path (es ! j) of None \<Rightarrow> False | Some b \<Rightarrow> paths_clash a b))
              [0..<length es]))"

definition refuse_collisions :: "resolved list \<Rightarrow> resolved list" where
  "refuse_collisions es =
     map (\<lambda>i. case clash_reason es i of
                None \<Rightarrow> es ! i
              | Some reason \<Rightarrow> RRefused (resolved_name (es ! i)) reason) [0..<length es]"

definition of_document :: "gf_libs \<Rightarrow> json \<Rightarrow> guest_files" where
  "of_document G doc =
     (case value_get doc gf_prefix of
        None \<Rightarrow> Nothing
      | Some tree \<Rightarrow>
          (case as_object tree of
             None \<Rightarrow> Held (quoted gf_prefix @ '' is not a map'')
           | Some m \<Rightarrow>
               Entries (refuse_collisions
                 (map (\<lambda>(name, spec). resolve G doc name spec)
                   (filter (\<lambda>(name, _). \<not> is_comment_key name) m)))))"

definition has_guest_files_key :: "guest_files \<Rightarrow> bool" where
  "has_guest_files_key f \<longleftrightarrow> f \<noteq> Nothing"

fun managed_files :: "desired list \<Rightarrow> string + unit" where
  "managed_files [] = Inr ()"
| "managed_files (a # rest) =
     (case find (\<lambda>b. paths_clash (en_path (de_entry a)) (en_path (de_entry b))) rest of
        Some b \<Rightarrow> Inl (collision_text (en_path (de_entry a)) (en_name (de_entry b)))
      | None \<Rightarrow> managed_files rest)"

definition managed :: "desired list \<Rightarrow> string + guest_files" where
  "managed items = andthen (managed_files items) (\<lambda>_. Inr (Managed items))"

definition wants_files :: "guest_files \<Rightarrow> bool" where
  "wants_files f =
     (case f of
        Entries es \<Rightarrow> list_ex (\<lambda>r. case r of RFile _ \<Rightarrow> True | _ \<Rightarrow> False) es
      | Managed items \<Rightarrow> items \<noteq> []
      | _ \<Rightarrow> False)"

definition store_root :: "string option \<Rightarrow> fspath" where
  "store_root pve_meta_root = fspath_of (case pve_meta_root of Some v \<Rightarrow> v | None \<Rightarrow> ''/etc/pve/meta'')"

definition read_guest_files :: "gf_libs \<Rightarrow> meta_store \<Rightarrow> vmid \<Rightarrow> fs \<Rightarrow> anyhow + guest_files" where
  "read_guest_files G M v s =
     (case read (core_libs G) M (Guest v) s of
        Inr doc \<Rightarrow>
          Inr (case dc_parse_error doc of
                 Some e \<Rightarrow> Held (''the document does not parse: '' @ e)
               | None \<Rightarrow> of_document G (dc_value doc))
      | Inl (ENotFound _) \<Rightarrow> Inr Nothing
      | Inl (ETooLarge sz mx) \<Rightarrow> Inr (Held (error_text (ETooLarge sz mx)))
      | Inl e \<Rightarrow> Inl [''reading the document of '' @ show_vmid v, error_text e])"

section \<open>Paths as lists of segments\<close>

definition abs_text :: "string list \<Rightarrow> string" where
  "abs_text segs = concat (map (\<lambda>s. CHR ''/'' # s) segs)"

definition slash_free :: "string list \<Rightarrow> bool" where
  "slash_free segs \<longleftrightarrow> (\<forall>s \<in> set segs. CHR ''/'' \<notin> set s)"

definition gp_segs :: "guest_path \<Rightarrow> string list" where
  "gp_segs p = split_on CHR ''/'' (drop 1 (gp_str p))"

definition seg_byte :: "char \<Rightarrow> bool" where
  "seg_byte b \<longleftrightarrow> segment_byte b \<or> b = CHR ''.''"

definition seg_ok :: "string \<Rightarrow> bool" where
  "seg_ok s \<longleftrightarrow> s \<noteq> [] \<and> s \<noteq> ''.'' \<and> s \<noteq> ''..'' \<and> list_all seg_byte s \<and> \<not> sublist temp_mark s"

definition manifest_segs :: "string list" where
  "manifest_segs = [''etc'', ''pve-meta'', ''.guest-files'']"

definition segs_ok :: "string list \<Rightarrow> bool" where
  "segs_ok segs \<longleftrightarrow> segs \<noteq> [] \<and> list_all seg_ok segs \<and> hd segs \<notin> {''proc'', ''sys'', ''dev''}
     \<and> \<not> prefix segs manifest_segs \<and> \<not> prefix manifest_segs segs"

definition valid_gp :: "guest_path \<Rightarrow> bool" where
  "valid_gp p \<longleftrightarrow> segs_ok (gp_segs p) \<and> gp_str p = abs_text (gp_segs p)"

lemma slash_free_simps [simp]:
  "slash_free []" "slash_free (s # segs) \<longleftrightarrow> CHR ''/'' \<notin> set s \<and> slash_free segs"
  "slash_free (a @ b) \<longleftrightarrow> slash_free a \<and> slash_free b"
  by (auto simp: slash_free_def)

lemma abs_text_simps [simp]:
  "abs_text [] = []" "abs_text (s # segs) = CHR ''/'' # s @ abs_text segs"
  "abs_text (a @ b) = abs_text a @ abs_text b"
  by (simp_all add: abs_text_def)

lemma split_abs_text:
  "CHR ''/'' \<notin> set s \<Longrightarrow> slash_free segs \<Longrightarrow> split_on CHR ''/'' (s @ abs_text segs) = s # segs"
proof (induction segs arbitrary: s)
  case Nil
  then show ?case by (auto simp: split_on_def intro!: split_by_none)
next
  case (Cons r rs)
  have "split_on CHR ''/'' (s @ CHR ''/'' # (r @ abs_text rs)) = s # split_on CHR ''/'' (r @ abs_text rs)"
    unfolding split_on_def using Cons.prems by (intro split_by_append) auto
  with Cons show ?case by simp
qed

lemma abs_text_inj: "slash_free a \<Longrightarrow> slash_free b \<Longrightarrow> abs_text a = abs_text b \<longleftrightarrow> a = b"
  using split_abs_text [of "[]" a] split_abs_text [of "[]" b] by (metis append_Nil empty_iff empty_set list.inject)

lemma abs_text_of_split: "abs_text (split_on CHR ''/'' r) = CHR ''/'' # r"
proof -
  have "abs_text segs = CHR ''/'' # join ''/'' segs" if "segs \<noteq> []" for segs
    using that by (induction segs rule: induct_list012) simp_all
  then show ?thesis by (simp add: join_split_on)
qed

lemma slash_free_split [simp]: "slash_free (split_on CHR ''/'' r)"
  using split_on_piece by (auto simp: slash_free_def)

lemma is_under_append: "is_under a b \<longleftrightarrow> (\<exists>r. b = a @ CHR ''/'' # r)"
proof
  assume u: "is_under a b"
  then obtain r where b: "b = a @ r" by (auto simp: is_under_def prefix_def)
  with u show "\<exists>r. b = a @ CHR ''/'' # r" by (cases r) (auto simp: is_under_def)
qed (auto simp: is_under_def nth_append)

lemma is_under_segs:
  assumes "slash_free a" "slash_free b"
  shows "is_under (abs_text a) (abs_text b) \<longleftrightarrow> strict_prefix a b"
proof
  assume "is_under (abs_text a) (abs_text b)"
  then obtain r where "abs_text b = abs_text (a @ split_on CHR ''/'' r)"
    by (auto simp: is_under_append abs_text_of_split)
  then have "b = a @ split_on CHR ''/'' r" using assms by (subst (asm) abs_text_inj) auto
  then show "strict_prefix a b" by (auto simp: strict_prefix_def)
next
  assume "strict_prefix a b"
  then obtain c cs where "b = a @ c # cs" by (auto elim: strict_prefixE')
  then show "is_under (abs_text a) (abs_text b)" by (auto simp: is_under_append)
qed

lemma is_at_or_under_segs:
  "slash_free a \<Longrightarrow> slash_free b \<Longrightarrow> is_at_or_under (abs_text a) (abs_text b) \<longleftrightarrow> prefix a b"
  unfolding is_at_or_under_def by (metis abs_text_inj is_under_segs prefix_order.le_less)

lemma seg_byte_not_slash: "\<not> seg_byte CHR ''/''"
  by (simp add: seg_byte_def segment_byte_def ascii_class_defs)

lemma seg_ok_slash_free: "list_all seg_ok segs \<Longrightarrow> slash_free segs"
  unfolding slash_free_def list_all_iff seg_ok_def using seg_byte_not_slash by blast

lemma manifest_path_segs: "manifest_path = abs_text manifest_segs" "slash_free manifest_segs"
  by (simp_all add: manifest_path_def manifest_segs_def guest_root_def manifest_name_def)

lemma seg_chars_bytes:
  "list_all (\<lambda>c. c = ''.'' \<or> invalid_char c = None) (chars s) \<longleftrightarrow> list_all seg_byte s"
proof (induction s rule: chars.induct)
  case (2 b bs)
  show ?case
  proof (cases "code b < 192")
    case True
    then have "chars [b] = [[b]]" by (simp add: utf8_tail_def)
    then have "invalid_char [b] = None \<longleftrightarrow> segment_byte b" by (simp add: invalid_char_def)
    with 2 True show ?thesis by (auto simp: utf8_tail_def seg_byte_def)
  next
    case False
    let ?c = "b # take (utf8_tail b) bs"
    have nb: "\<not> seg_byte b" using False by (auto simp: seg_byte_def dest: segment_byte_ascii)
    have "\<not> list_all segment_byte ?c" using nb by (simp add: seg_byte_def)
    then have "invalid_char ?c \<noteq> None"
      by (simp only: invalid_char_def find_None_list_all not_not segment_chars_bytes simp_thms)
    moreover have "?c \<noteq> ''.''" using nb by (auto simp: seg_byte_def)
    ultimately show ?thesis using nb by simp
  qed
qed simp

lemma check_gp_segment_ok: "check_gp_segment U s = Inr () \<longleftrightarrow> seg_ok s"
proof -
  have "find (\<lambda>c. c \<noteq> ''.'' \<and> invalid_char c \<noteq> None) (chars s) = None \<longleftrightarrow> list_all seg_byte s"
    by (simp add: find_None_list_all flip: seg_chars_bytes)
  then show ?thesis by (auto simp: check_gp_segment_def seg_ok_def split: option.splits)
qed

lemma forbidden_segs:
  assumes "slash_free segs" "segs \<noteq> []"
  shows "find (\<lambda>r. is_at_or_under r (abs_text segs)) forbidden_roots = None
    \<longleftrightarrow> hd segs \<notin> {''proc'', ''sys'', ''dev''}"
proof -
  have one: "is_at_or_under (CHR ''/'' # r) (abs_text segs) \<longleftrightarrow> hd segs = r" if "CHR ''/'' \<notin> set r" for r
    using is_at_or_under_segs [of "[r]" segs] assms that by (cases segs) auto
  show ?thesis by (auto simp: forbidden_roots_def one)
qed

lemma gp_absolute_Inr:
  "gp_absolute U p = Inr gp \<longleftrightarrow> gp = GuestPath p \<and> (\<exists>segs. segs_ok segs \<and> p = abs_text segs)"
proof
  assume a: "gp_absolute U p = Inr gp"
  then obtain rest where rest: "p = CHR ''/'' # rest"
    by (auto simp: gp_absolute_def strip_prefix_Some split: option.splits)
  let ?segs = "split_on CHR ''/'' rest"
  have p: "p = abs_text ?segs" using rest abs_text_of_split by simp
  from a rest have segs: "for_each (check_gp_segment U) ?segs = Inr ()" and gp: "gp = GuestPath p"
    and f: "find (\<lambda>r. is_at_or_under r p) forbidden_roots = None"
    and m: "\<not> is_at_or_under p manifest_path" "\<not> is_under manifest_path p"
    by (auto simp: gp_absolute_def strip_prefix_Some andthen_eq_Inr split: option.splits if_splits)
  have ok: "list_all seg_ok ?segs" using segs by (simp add: for_each_Inr check_gp_segment_ok list_all_iff)
  have "segs_ok ?segs"
    using ok f m forbidden_segs [of ?segs] unfolding p segs_ok_def manifest_path_segs
    by (auto simp: is_at_or_under_segs is_under_segs manifest_path_segs strict_prefix_def)
  with gp p show "gp = GuestPath p \<and> (\<exists>segs. segs_ok segs \<and> p = abs_text segs)" by blast
next
  assume "gp = GuestPath p \<and> (\<exists>segs. segs_ok segs \<and> p = abs_text segs)"
  then obtain segs where gp: "gp = GuestPath p" and ok: "segs_ok segs" and p: "p = abs_text segs" by blast
  from ok have sf: "slash_free segs" by (simp add: segs_ok_def seg_ok_slash_free)
  obtain s ss where ss: "segs = s # ss" using ok by (cases segs) (auto simp: segs_ok_def)
  have split: "split_on CHR ''/'' (s @ abs_text ss) = segs" using split_abs_text [of s ss] sf ss by simp
  have "s \<noteq> []" using ok ss by (simp add: segs_ok_def seg_ok_def)
  moreover have "for_each (check_gp_segment U) segs = Inr ()"
    using ok by (simp add: for_each_Inr check_gp_segment_ok segs_ok_def list_all_iff)
  moreover have "find (\<lambda>r. is_at_or_under r p) forbidden_roots = None"
    using forbidden_segs [OF sf] ok p by (simp add: segs_ok_def)
  moreover have "\<not> is_at_or_under p manifest_path" "\<not> is_under manifest_path p"
    using ok sf unfolding p manifest_path_segs
    by (auto simp: is_at_or_under_segs is_under_segs manifest_path_segs segs_ok_def strict_prefix_def)
  moreover have "strip_prefix ''/'' p = Some (s @ abs_text ss)" using p ss by (simp add: strip_prefix_Some)
  ultimately show "gp_absolute U p = Inr gp" using gp split by (simp add: gp_absolute_def)
qed

lemma gp_segs_abs: "segs_ok segs \<Longrightarrow> gp_segs (GuestPath (abs_text segs)) = segs"
proof -
  assume ok: "segs_ok segs"
  then obtain s ss where "segs = s # ss" by (cases segs) (auto simp: segs_ok_def)
  with ok seg_ok_slash_free [of segs] show ?thesis
    by (simp add: gp_segs_def split_abs_text segs_ok_def)
qed

lemma gp_absolute_valid: "gp_absolute U p = Inr gp \<longleftrightarrow> gp = GuestPath p \<and> valid_gp gp"
  by (auto simp: gp_absolute_Inr valid_gp_def gp_segs_abs)

lemma gp_absolute_of_valid: "valid_gp p \<Longrightarrow> gp_absolute U (gp_str p) = Inr p"
  by (simp add: gp_absolute_valid)

lemma gp_parse_valid: "gp_parse U s = Inr gp \<Longrightarrow> valid_gp gp"
  by (auto simp: gp_parse_def Let_def gp_absolute_valid split: if_splits)

lemma valid_gp_slash_free: "valid_gp p \<Longrightarrow> slash_free (gp_segs p)"
  by (simp add: valid_gp_def segs_ok_def seg_ok_slash_free)

lemma valid_gp_eq: "valid_gp p \<Longrightarrow> valid_gp q \<Longrightarrow> p = q \<longleftrightarrow> gp_segs p = gp_segs q"
  by (metis guest_path.expand valid_gp_def)

lemma nests_with_segs:
  "valid_gp p \<Longrightarrow> valid_gp q \<Longrightarrow> nests_with p q \<longleftrightarrow> strict_prefix (gp_segs p) (gp_segs q) \<or> strict_prefix (gp_segs q) (gp_segs p)"
  using valid_gp_slash_free [of p] valid_gp_slash_free [of q]
  by (simp add: nests_with_def valid_gp_def is_under_segs)

lemma paths_clash_segs:
  "valid_gp p \<Longrightarrow> valid_gp q \<Longrightarrow> paths_clash p q \<longleftrightarrow> prefix (gp_segs p) (gp_segs q) \<or> prefix (gp_segs q) (gp_segs p)"
  by (auto simp: paths_clash_def nests_with_segs valid_gp_eq strict_prefix_def)

section \<open>Directories and temporary files\<close>

lemma dirs_from_segs: "dirs_from (abs_text pre) segs = map (\<lambda>k. abs_text (pre @ take (Suc k) segs)) [0..<length segs]"
proof (induction segs arbitrary: pre)
  case (Cons s segs)
  have "dirs_from (abs_text (pre @ [s])) segs = map (\<lambda>k. abs_text ((pre @ [s]) @ take (Suc k) segs)) [0..<length segs]"
    by (rule Cons.IH)
  then show ?case
    by (simp add: map_upt_Suc del: upt_Suc)
qed simp

lemma directories_segs:
  assumes "valid_gp p"
  shows "set (directories p) = {abs_text q |q. q \<noteq> [] \<and> strict_prefix q (gp_segs p)}"
proof -
  let ?s = "gp_segs p"
  have ne: "?s \<noteq> []" using assms by (simp add: valid_gp_def segs_ok_def)
  have "directories p = map (\<lambda>k. abs_text (take (Suc k) (butlast ?s))) [0..<length ?s - 1]"
    using dirs_from_segs [of "[]" "butlast ?s"] by (simp add: directories_def gp_segs_def)
  moreover have "take (Suc k) (butlast ?s) = take (Suc k) ?s" if "k < length ?s - 1" for k
    using that by (simp add: take_butlast)
  ultimately have d: "set (directories p) = (\<lambda>k. abs_text (take (Suc k) ?s)) ` {0..<length ?s - 1}"
    by auto
  have "\<exists>k < length ?s - 1. q = take (Suc k) ?s" if qne: "q \<noteq> []" and qs: "strict_prefix q ?s" for q
  proof -
    obtain r where r: "?s = q @ r" "r \<noteq> []" using qs by (auto simp: strict_prefix_def prefix_def)
    then have "length q - 1 < length ?s - 1" "q = take (Suc (length q - 1)) ?s"
      using qne by (auto simp: neq_Nil_conv Suc_le_eq length_greater_0_conv)
    then show ?thesis by blast
  qed
  moreover have "take (Suc k) ?s \<noteq> [] \<and> strict_prefix (take (Suc k) ?s) ?s" if "k < length ?s - 1" for k
    using that ne by (auto simp: strict_prefix_def take_is_prefix)
  ultimately show ?thesis unfolding d image_def by (auto simp: Bex_def)
qed

lemma temp_for_segs:
  assumes "slash_free (segs @ [b])"
  shows "temp_for (abs_text (segs @ [b])) = abs_text (segs @ [''.'' @ b @ temp_mark @ ''.tmp''])"
proof -
  have "rsplit_once CHR ''/'' (abs_text (segs @ [b])) = Some (abs_text segs, b)"
    using assms by (simp add: rsplit_once_Some)
  then show ?thesis by (simp add: temp_for_def)
qed

lemma sublist_middle: "sublist m (a @ m @ b)"
  by (auto simp: sublist_def)

text \<open>No temporary file is a file an entry or a record can name, and none has one above it.\<close>

lemma temp_segment_refused: "\<not> seg_ok (''.'' @ b @ temp_mark @ ''.tmp'')"
  using sublist_middle [of temp_mark "''.'' @ b" "''.tmp''"] by (simp add: seg_ok_def)

lemma temp_for_last:
  assumes "slash_free segs" "segs \<noteq> []"
  shows "temp_for (abs_text segs) = abs_text (butlast segs @ [''.'' @ last segs @ temp_mark @ ''.tmp''])"
  using temp_for_segs [of "butlast segs" "last segs"] assms by simp

lemma temp_for_not_valid:
  assumes "valid_gp p" "valid_gp q"
  shows "temp_for (gp_str p) \<noteq> gp_str q"
proof
  let ?t = "butlast (gp_segs p) @ [''.'' @ last (gp_segs p) @ temp_mark @ ''.tmp'']"
  have ne: "gp_segs p \<noteq> []" using assms(1) by (simp add: valid_gp_def segs_ok_def)
  then have sf: "slash_free (butlast (gp_segs p) @ [last (gp_segs p)])"
    using valid_gp_slash_free [OF assms(1)] by simp
  then have "slash_free ?t" by (simp add: temp_mark_def)
  moreover assume "temp_for (gp_str p) = gp_str q"
  then have "abs_text ?t = abs_text (gp_segs q)"
    using temp_for_last [OF valid_gp_slash_free [OF assms(1)] ne] assms by (simp add: valid_gp_def)
  ultimately have "gp_segs q = ?t"
    using valid_gp_slash_free [OF assms(2)] by (metis abs_text_inj)
  then have "seg_ok (''.'' @ last (gp_segs p) @ temp_mark @ ''.tmp'')"
    using assms(2) by (simp add: valid_gp_def segs_ok_def)
  then show False using temp_segment_refused by blast
qed

section \<open>Modes and owners\<close>

lemma octal_value_snoc: "octal_value (s @ [c]) = 8 * octal_value s + (code c - 48)"
  by (simp add: octal_value_def)

lemma octal_value_bound: "list_all is_octal s \<Longrightarrow> octal_value s < 8 ^ length s"
proof (induction s rule: rev_induct)
  case (snoc c s)
  then have "octal_value s < 8 ^ length s" "code c - 48 \<le> 7" by (auto simp: is_octal_def)
  then have "8 * octal_value s + (code c - 48) < 8 * 8 ^ length s" by linarith
  then show ?case by (simp add: octal_value_snoc)
qed (simp add: octal_value_def)

lemma octal_value_zeros: "octal_value (replicate k (CHR ''0'') @ s) = octal_value s"
  by (induction k) (simp_all add: octal_value_def)

lemma show_octal_octal: "list_all is_octal (show_octal n)"
proof (induction n rule: show_octal.induct)
  case (1 n)
  have "d < 8 \<Longrightarrow> is_octal (digit_char d)" for d by (simp add: is_octal_def code_digit_char)
  with 1 show ?case by (subst show_octal.simps) auto
qed

lemma octal_value_show: "octal_value (show_octal n) = n"
proof (induction n rule: show_octal.induct)
  case (1 n)
  show ?case
  proof (cases "n < 8")
    case True
    then show ?thesis by (subst show_octal.simps) (simp add: octal_value_def code_digit_char)
  next
    case False
    with 1 show ?thesis by (subst show_octal.simps) (simp add: octal_value_snoc code_digit_char)
  qed
qed

lemma length_show_octal: "n < 8 ^ Suc k \<Longrightarrow> length (show_octal n) \<le> Suc k"
proof (induction k arbitrary: n)
  case 0
  then show ?case by (subst show_octal.simps) simp
next
  case (Suc k)
  have "length (show_octal (n div 8)) \<le> Suc k" by (rule Suc.IH) (use Suc.prems in auto)
  then show ?case by (subst show_octal.simps) simp
qed

lemma length_show_nat: "n < 10 ^ Suc k \<Longrightarrow> length (show_nat n) \<le> Suc k"
proof (induction k arbitrary: n)
  case 0
  then show ?case by (subst show_nat.simps) simp
next
  case (Suc k)
  have "length (show_nat (n div 10)) \<le> Suc k" by (rule Suc.IH) (use Suc.prems in auto)
  then show ?case by (subst show_nat.simps) simp
qed

lemma parse_file_mode_bound: "parse_file_mode s = Some m \<Longrightarrow> unat m < 512"
proof -
  assume a: "parse_file_mode s = Some m"
  then obtain ds where ds: "length ds = 3" "list_all is_octal ds" "parse_octal ds = Some m"
    by (auto simp: parse_file_mode_def strip_prefix_Some split: if_splits option.splits)
  have "octal_value ds < 512" using octal_value_bound [OF ds(2)] ds(1) by simp
  moreover have "m = of_nat (octal_value ds)"
    using ds by (cases ds) (auto simp: parse_octal_def Let_def is_octal_def split: if_splits)
  ultimately show ?thesis by (simp add: unat_of_nat)
qed

lemma parse_mode_text: "unat m < 512 \<Longrightarrow> parse_file_mode (mode_text m) = Some m"
proof -
  assume m: "unat m < 512"
  let ?s = "show_octal (unat m)" and ?d = "zero_pad 3 (show_octal (unat m))"
  have len: "length ?s \<le> 3" using length_show_octal [of "unat m" 2] m by simp
  then have t: "mode_text m = CHR ''0'' # ?d" and d3: "length ?d = 3"
    by (simp_all add: mode_text_def zero_pad_def Suc_diff_le numeral_eq_Suc)
  have oct: "list_all is_octal ?d" using show_octal_octal [of "unat m"] by (auto simp: zero_pad_def is_octal_def list_all_iff)
  have v: "octal_value ?d = unat m" by (simp add: zero_pad_def octal_value_zeros octal_value_show)
  have "(case ?d of c # cs \<Rightarrow> if c = CHR ''+'' then cs else ?d | [] \<Rightarrow> []) = ?d"
    using oct by (auto simp: is_octal_def split: list.splits)
  then have "parse_octal ?d = Some m" using oct v m d3 by (auto simp: parse_octal_def Let_def)
  then show ?thesis using t oct d3 by (simp add: parse_file_mode_def strip_prefix_def)
qed

lemma owner_num_show: "owner_num (show_nat (unat w)) = Some w"
proof -
  have "unat w < 2 ^ 32" using unsigned_less [of w] by simp
  then have "length (show_nat (unat w)) \<le> 10" by (intro length_show_nat [of _ 9, simplified]) simp
  then show ?thesis
    using show_nat_digits [of "unat w"] parse_show_vmid [of w] by (simp add: owner_num_def show_vmid_def)
qed

lemma parse_show_owner: "parse_owner (show_owner ow) = Some ow"
proof -
  have "CHR '':'' \<notin> set (show_nat n)" for n
    using show_nat_digits [of n] by (intro digits_avoid) (simp_all add: is_digit_def)
  then have "split_once CHR '':'' (show_owner ow) = Some (show_nat (unat (uid ow)), show_nat (unat (gid ow)))"
    by (simp add: show_owner_def split_once_Some)
  then show ?thesis by (simp add: parse_owner_def owner_num_show)
qed

section \<open>Well-formed files\<close>

text \<open>What the plan relies on: every file wanted has a valid path, permission bits only, content
  within the cap with its digest, and no two of them collide.\<close>

definition wf_desired :: "gf_libs \<Rightarrow> desired \<Rightarrow> bool" where
  "wf_desired G d \<longleftrightarrow> valid_gp (en_path (de_entry d)) \<and> unat (en_mode (de_entry d)) < 512
     \<and> length (de_content d) \<le> max_content_bytes \<and> de_sha256 d = gf_sha G (de_content d)"

fun files_of :: "resolved list \<Rightarrow> desired list" where
  "files_of [] = []"
| "files_of (RFile d # rs) = d # files_of rs"
| "files_of (RAbsent n # rs) = files_of rs"
| "files_of (RRefused n r # rs) = files_of rs"

definition wanted_files :: "guest_files \<Rightarrow> desired list" where
  "wanted_files f = (case f of Entries es \<Rightarrow> files_of es | Managed ds \<Rightarrow> ds | _ \<Rightarrow> [])"

definition no_clashes :: "desired list \<Rightarrow> bool" where
  "no_clashes ds \<longleftrightarrow> sorted_wrt (\<lambda>d e. \<not> paths_clash (en_path (de_entry d)) (en_path (de_entry e))) ds"

definition wf_files :: "gf_libs \<Rightarrow> guest_files \<Rightarrow> bool" where
  "wf_files G f \<longleftrightarrow> list_all (wf_desired G) (wanted_files f) \<and> no_clashes (wanted_files f)"

lemma no_clashes_Nil: "no_clashes []"
  by (simp add: no_clashes_def)

lemma set_files_of: "d \<in> set (files_of rs) \<longleftrightarrow> RFile d \<in> set rs"
  by (induction rs rule: files_of.induct) auto

lemma sorted_wrt_files_of:
  assumes "sorted_wrt (\<lambda>r s. \<forall>d e. r = RFile d \<and> s = RFile e \<longrightarrow> P d e) rs"
  shows "sorted_wrt P (files_of rs)"
  using assms by (induction rs rule: files_of.induct) (auto simp: set_files_of)

lemma paths_clash_sym: "paths_clash a b \<longleftrightarrow> paths_clash b a"
  by (auto simp: paths_clash_def nests_with_def)

lemma refuse_collisions_nth:
  "i < length es \<Longrightarrow> refuse_collisions es ! i =
     (case clash_reason es i of None \<Rightarrow> es ! i | Some reason \<Rightarrow> RRefused (resolved_name (es ! i)) reason)"
  by (simp add: refuse_collisions_def split: option.split)

lemma length_refuse_collisions [simp]: "length (refuse_collisions es) = length es"
  by (simp add: refuse_collisions_def)

lemma clash_reason_None:
  assumes "es ! i = RFile d"
  shows "clash_reason es i = None \<longleftrightarrow>
    (\<forall>j e. j < length es \<longrightarrow> j \<noteq> i \<longrightarrow> es ! j = RFile e \<longrightarrow> \<not> paths_clash (en_path (de_entry d)) (en_path (de_entry e)))"
  using assms by (auto simp: clash_reason_def resolved_path_def find_None_iff split: resolved.splits option.splits)

text \<open>An entry stays a file exactly when it was one and collides with no other.\<close>

lemma refuse_collisions_file:
  assumes "i < length es"
  shows "refuse_collisions es ! i = RFile d \<longleftrightarrow> es ! i = RFile d \<and>
    (\<forall>j e. j < length es \<longrightarrow> j \<noteq> i \<longrightarrow> es ! j = RFile e \<longrightarrow> \<not> paths_clash (en_path (de_entry d)) (en_path (de_entry e)))"
  using clash_reason_None [of es i d] by (auto simp: refuse_collisions_nth [OF assms] split: option.splits)

lemma refuse_collisions_no_clashes: "no_clashes (files_of (refuse_collisions es))"
  unfolding no_clashes_def
proof (rule sorted_wrt_files_of, unfold sorted_wrt_iff_nth_less, intro allI impI)
  fix i j d e
  assume ij: "i < j" "j < length (refuse_collisions es)"
    and f: "refuse_collisions es ! i = RFile d \<and> refuse_collisions es ! j = RFile e"
  then show "\<not> paths_clash (en_path (de_entry d)) (en_path (de_entry e))"
    using refuse_collisions_file [of i es d] refuse_collisions_file [of j es e] by auto
qed

lemma managed_files_ok: "managed_files ds = Inr () \<longleftrightarrow> no_clashes ds"
  by (induction ds) (auto simp: no_clashes_def find_None_iff find_Some_iff split: option.splits)

lemma managed_ok: "managed ds = Inr f \<longleftrightarrow> f = Managed ds \<and> no_clashes ds"
  by (auto simp: managed_def andthen_eq_Inr managed_files_ok)

lemma parse_entry_ok:
  assumes "parse_entry U name spec = Inr e"
  shows "valid_gp (en_path e)" "unat (en_mode e) < 512" "en_name e = name" "en_source e = user_source name"
    "en_view e \<noteq> None"
proof -
  from assms obtain ptext gp vw fmt mo mode ownr edits where gp: "gp_parse U ptext = Inr gp"
    and mode: "(case mo of None \<Rightarrow> Inr default_mode | Some md \<Rightarrow> ok_or (mode_error md) (parse_file_mode md)) = Inr mode"
    and e: "e = \<lparr>en_name = name, en_view = Some vw, en_path = gp, en_format = fmt, en_mode = mode,
          en_owner = ownr, en_local_edits = edits, en_source = user_source name\<rparr>"
    unfolding parse_entry_def andthen_eq_Inr sum.inject by (elim exE conjE) (hypsubst, rule that, (assumption | rule refl)+)
  show "valid_gp (en_path e)" using gp_parse_valid [OF gp] e by simp
  have "unat mode < 512"
    using mode parse_file_mode_bound by (cases mo) (auto simp: default_mode_def ok_or_eq)
  then show "unat (en_mode e) < 512" using e by simp
  show "en_name e = name" "en_source e = user_source name" "en_view e \<noteq> None" using e by simp_all
qed

lemma managed_entry_ok:
  assumes "managed_entry U operator name p fmt mode ownr edits = Inr e"
  shows "valid_gp (en_path e)" "unat (en_mode e) < 512" "en_source e = managed_source operator name"
  using assms unfolding managed_entry_def andthen_eq_Inr
  by (auto intro: gp_parse_valid parse_file_mode_bound simp: ok_or_eq)

lemma render_file_bound: "render_file G v fmt = Inr c \<Longrightarrow> length c \<le> max_content_bytes"
  by (auto simp: render_file_def check_content_len_def andthen_eq_Inr guard_err_Inr)

lemma resolve_file:
  assumes "resolve G doc name spec = RFile d"
  obtains vw v where "parse_entry (unicode_debug G) name spec = Inr (de_entry d)"
    "en_view (de_entry d) = Some vw" "extract_view doc vw = Inr (Some v)"
    "render_file G v (en_format (de_entry d)) = Inr (de_content d)" "de_sha256 d = gf_sha G (de_content d)"
  using assms unfolding resolve_def
  by (auto simp: ok_of_def split: sum.splits option.splits)

lemma resolve_wf: "resolve G doc name spec = RFile d \<Longrightarrow> wf_desired G d"
  by (elim resolve_file) (auto simp: wf_desired_def intro: parse_entry_ok render_file_bound)

lemma in_refuse_collisions: "RFile d \<in> set (refuse_collisions es) \<Longrightarrow> RFile d \<in> set es"
  by (auto simp: in_set_conv_nth refuse_collisions_file)

lemma of_document_file:
  assumes "d \<in> set (wanted_files (of_document G doc))"
  obtains m name spec where "value_get doc gf_prefix = Some (VObj m)" "(name, spec) \<in> set m"
    "\<not> is_comment_key name" "resolve G doc name spec = RFile d"
proof -
  from assms obtain m where m: "value_get doc gf_prefix = Some (VObj m)"
    and d: "RFile d \<in> set (refuse_collisions (map (\<lambda>(name, spec). resolve G doc name spec)
        (filter (\<lambda>(name, _). \<not> is_comment_key name) m)))"
    by (auto simp: wanted_files_def of_document_def set_files_of as_object_def split: option.splits json.splits)
  from in_refuse_collisions [OF d] obtain name spec where
    "(name, spec) \<in> set m" "\<not> is_comment_key name" "RFile d = resolve G doc name spec" by auto
  with m show thesis by (intro that) auto
qed

lemma of_document_wf: "wf_files G (of_document G doc)"
proof -
  have "list_all (wf_desired G) (wanted_files (of_document G doc))"
    unfolding list_all_iff by (auto elim!: of_document_file intro: resolve_wf)
  moreover have "no_clashes (wanted_files (of_document G doc))"
    by (auto simp: of_document_def wanted_files_def refuse_collisions_no_clashes no_clashes_Nil split: option.splits)
  ultimately show ?thesis by (simp add: wf_files_def)
qed

lemma direct_wf:
  assumes "managed_entry U operator name p fmt mode ownr edits = Inr e" "direct G e c = Inr d"
  shows "wf_desired G d"
  using managed_entry_ok [OF assms(1)] assms(2)
  by (auto simp: direct_def wf_desired_def check_content_len_def andthen_eq_Inr guard_err_Inr)

lemma managed_wf: "managed ds = Inr f \<Longrightarrow> list_all (wf_desired G) ds \<Longrightarrow> wf_files G f"
  by (auto simp: managed_ok wf_files_def wanted_files_def)

lemma no_clashes_distinct:
  assumes "no_clashes ds" "d \<in> set ds" "e \<in> set ds" "paths_clash (en_path (de_entry d)) (en_path (de_entry e))"
  shows "d = e"
  using assms unfolding no_clashes_def
  by (induction ds) (auto simp: paths_clash_sym)

section \<open>Properties\<close>

lemma check_content_len_code [code]:
  "check_content_len c =
     (if int (length c) > 524288
      then Inl (''content is '' @ show_nat (length c) @ '' bytes, above the '' @ show_nat max_content_bytes @ ''-byte cap'')
      else Inr ())"
proof -
  have "length c > max_content_bytes \<longleftrightarrow> int (length c) > 524288"
    by (simp add: max_content_bytes_def max_bytes_def)
  then show ?thesis by (simp only: check_content_len_def guard_err_def if_not_P not_not) (auto)
qed

text \<open>A library and a document for the witnesses: one file at \<open>/etc/pve-meta/a\<close>, one entry without
  a view in the document, one colliding pair.\<close>

definition sample_gf :: gf_libs where
  "sample_gf = \<lparr>core_libs = sample_libs (VObj []), unicode_debug = (\<lambda>c. c),
     manifest_from_slice = (\<lambda>_. Inl ''not JSON''), manifest_to_string = (\<lambda>_. [])\<rparr>"

definition sample_entry :: "string \<Rightarrow> string \<Rightarrow> json" where
  "sample_entry v p = VObj [(''view'', VStr v), (''path'', VStr p), (''format'', VStr ''raw'')]"

definition sample_gf_doc :: json where
  "sample_gf_doc = VObj [(''x'', VStr ''hello''),
     (''guest-files'', VObj [(''one'', sample_entry ''x'' ''a''), (''two'', sample_entry ''y'' ''b''),
        (''three'', sample_entry ''x'' ''d''), (''four'', sample_entry ''x'' ''d/e'')])]"

text \<open>C30: Which paths an entry may name. A path is accepted exactly when, taken as it is if it starts
  with a slash and under \<open>/etc/pve-meta\<close> otherwise, it is a slash before each of its segments, no segment
  is empty, dot or dot-dot, has a character outside the key charset and the dot, or carries the mark of
  temporary files, its first segment is none of proc, sys and dev, and it is neither the manifest nor
  above nor below it. The accepted path is the text itself, nothing is normalised.\<close>

theorem guest_path_accepts_exactly:
  "gp_parse U s = Inr gp \<longleftrightarrow>
     s \<noteq> [] \<and> gp = GuestPath (if prefix ''/'' s then s else guest_root @ ''/'' @ s)
     \<and> (\<exists>segs. segs_ok segs \<and> gp_str gp = abs_text segs)"
  by (auto simp: gp_parse_def Let_def gp_absolute_Inr)

text \<open>C15: What a document's entries become is well formed: every file wanted has a valid path inside
  the guest, permission bits only, content within the cap together with its digest, and no two files of
  one document share a path or lie one below the other. Each is the rendering, in the entry's format, of
  the view its entry names, and carries its entry's name and source.\<close>

theorem document_files_are_well_formed:
  "wf_files G (of_document G doc) \<and>
   (\<forall>d \<in> set (wanted_files (of_document G doc)).
      \<exists>m spec vw v. value_get doc gf_prefix = Some (VObj m) \<and> (en_name (de_entry d), spec) \<in> set m
        \<and> parse_entry (unicode_debug G) (en_name (de_entry d)) spec = Inr (de_entry d)
        \<and> en_source (de_entry d) = user_source (en_name (de_entry d))
        \<and> en_view (de_entry d) = Some vw \<and> extract_view doc vw = Inr (Some v)
        \<and> render_file G v (en_format (de_entry d)) = Inr (de_content d))"
proof (intro conjI ballI)
  show "wf_files G (of_document G doc)" by (rule of_document_wf)
next
  fix d assume "d \<in> set (wanted_files (of_document G doc))"
  then obtain m name spec where m: "value_get doc gf_prefix = Some (VObj m)" "(name, spec) \<in> set m"
    and r: "resolve G doc name spec = RFile d" by (elim of_document_file)
  from r obtain vw v where p: "parse_entry (unicode_debug G) name spec = Inr (de_entry d)"
    and v: "en_view (de_entry d) = Some vw" "extract_view doc vw = Inr (Some v)"
    "render_file G v (en_format (de_entry d)) = Inr (de_content d)" by (elim resolve_file)
  from parse_entry_ok [OF p] have "en_name (de_entry d) = name" "en_source (de_entry d) = user_source name" by simp_all
  then show "\<exists>m spec vw v. value_get doc gf_prefix = Some (VObj m) \<and> (en_name (de_entry d), spec) \<in> set m
        \<and> parse_entry (unicode_debug G) (en_name (de_entry d)) spec = Inr (de_entry d)
        \<and> en_source (de_entry d) = user_source (en_name (de_entry d))
        \<and> en_view (de_entry d) = Some vw \<and> extract_view doc vw = Inr (Some v)
        \<and> render_file G v (en_format (de_entry d)) = Inr (de_content d)"
    using m p v by (intro exI [of _ m] exI [of _ spec] exI [of _ vw] exI [of _ v]) simp
qed

theorem document_files_are_well_formed_witness:
  "map (\<lambda>d. (gp_str (en_path (de_entry d)), de_content d)) (wanted_files (of_document sample_gf sample_gf_doc))
     = [(''/etc/pve-meta/a'', ''hello'')]
   \<and> (\<exists>m. value_get sample_gf_doc gf_prefix = Some (VObj m))"
proof
  show w: "map (\<lambda>d. (gp_str (en_path (de_entry d)), de_content d)) (wanted_files (of_document sample_gf sample_gf_doc))
     = [(''/etc/pve-meta/a'', ''hello'')]" by code_simp
  then obtain d where "d \<in> set (wanted_files (of_document sample_gf sample_gf_doc))" by force
  with document_files_are_well_formed [of sample_gf sample_gf_doc]
  show "\<exists>m. value_get sample_gf_doc gf_prefix = Some (VObj m)" by blast
qed

text \<open>Modes and owners keep their bounds and their spelling: a mode that is accepted has permission
  bits only (no setuid, setgid or sticky bit), the four octal digits a mode is written with read back as
  the mode, and an owner as written, of any 32-bit ids, reads back as the owner.\<close>

theorem modes_and_owners_round_trip:
  "(parse_file_mode s = Some m \<longrightarrow> unat m < 8 ^ 3)
   \<and> (unat m < 8 ^ 3 \<longrightarrow> parse_file_mode (mode_text m) = Some m)
   \<and> parse_owner (show_owner ow) = Some ow"
  using parse_file_mode_bound [of s m] parse_mode_text [of m] parse_show_owner [of ow] by simp

theorem modes_and_owners_round_trip_witness:
  "parse_file_mode ''0640'' = Some 416 \<and> unat (416 :: 32 word) < 8 ^ 3
    \<and> parse_file_mode (mode_text 416) = Some 416"
proof -
  have "length ''0640'' = 4" "strip_prefix ''0'' ''0640'' = Some ''640''" "list_all is_octal ''640''"
    "octal_value ''640'' = 416" by (simp_all add: strip_prefix_def is_octal_def octal_value_def)
  then have "parse_file_mode ''0640'' = Some 416" by (simp add: parse_file_mode_def parse_octal_def)
  with modes_and_owners_round_trip [of "''0640''" 416] show ?thesis by simp
qed

end
