(* ===== verification/Gf_Manifest.thy ===== *)
theory Gf_Manifest
  imports Gf_Entry
begin

text \<open>
  The manifest inside a guest (manifest.rs): one record per file written, by path. Reading refuses the
  whole manifest for one bad record; what reads is well formed, and what is written reads back. The JSON
  reader and writer of the wire form are the fields \<^const>\<open>manifest_from_slice\<close> and
  \<^const>\<open>manifest_to_string\<close> of \<^typ>\<open>gf_libs\<close>.
\<close>

definition manifest_version :: "32 word" where "manifest_version = 1"

definition manifest_mode :: "32 word" where "manifest_mode = 6 * 64"

definition manifest_max_bytes :: nat where "manifest_max_bytes = 1024 * 1024"

definition manifest_directories :: "string list" where
  "manifest_directories = [''/etc'', guest_root]"

record file_record =
  rc_entry :: string
  rc_path :: guest_path
  rc_sha256 :: string
  rc_source :: string

record manifest =
  records :: "(guest_path, file_record) bmap"

definition manifest_default :: manifest where
  "manifest_default = \<lparr>records = []\<rparr>"

definition record_of_raw :: "raw_record \<Rightarrow> guest_path \<Rightarrow> file_record" where
  "record_of_raw r p = \<lparr>rc_entry = rr_entry r, rc_path = p, rc_sha256 = rr_sha256 r,
     rc_source = (if rr_source r = [] then user_source (rr_entry r) else rr_source r)\<rparr>"

fun add_records ::
  "(string \<Rightarrow> string) \<Rightarrow> raw_record list \<Rightarrow> (guest_path, file_record) bmap \<Rightarrow> string + (guest_path, file_record) bmap" where
  "add_records U [] out = Inr out"
| "add_records U (r # rs) out =
     andthen (map_err (\<lambda>why. ''record '' @ debug_str U (rr_path r) @ '': '' @ why) (gp_absolute U (rr_path r))) (\<lambda>p.
      if map_of out p \<noteq> None then Inl (quoted (gp_str p) @ '' is recorded twice'')
      else add_records U rs (bput p (record_of_raw r p) out))"

definition manifest_parse :: "gf_libs \<Rightarrow> string \<Rightarrow> string + manifest" where
  "manifest_parse G bytes =
     andthen (map_err (\<lambda>e. ''not a manifest: '' @ e) (manifest_from_slice G bytes)) (\<lambda>raw.
     andthen (guard_err (rm_version raw = manifest_version)
         (''manifest version '' @ show_nat (unat (rm_version raw)) @ '' is not '' @ show_nat (unat manifest_version))) (\<lambda>_.
     andthen (add_records (unicode_debug G) (rm_files raw) []) (\<lambda>rs. Inr \<lparr>records = rs\<rparr>)))"

definition raw_of_record :: "file_record \<Rightarrow> raw_record" where
  "raw_of_record r = \<lparr>rr_entry = rc_entry r, rr_path = gp_str (rc_path r), rr_sha256 = rc_sha256 r, rr_source = rc_source r\<rparr>"

definition raw_of_manifest :: "manifest \<Rightarrow> raw_manifest" where
  "raw_of_manifest m = \<lparr>rm_version = manifest_version, rm_files = map (raw_of_record \<circ> snd) (records m)\<rparr>"

definition manifest_render :: "gf_libs \<Rightarrow> manifest \<Rightarrow> string" where
  "manifest_render G m = manifest_to_string G (raw_of_manifest m) @ [nl]"

definition manifest_is_empty :: "manifest \<Rightarrow> bool" where
  "manifest_is_empty m \<longleftrightarrow> records m = []"

section \<open>Well-formed manifests\<close>

definition wf_record :: "guest_path \<Rightarrow> file_record \<Rightarrow> bool" where
  "wf_record p r \<longleftrightarrow> rc_path r = p \<and> valid_gp p \<and> rc_source r \<noteq> []"

definition wf_manifest :: "manifest \<Rightarrow> bool" where
  "wf_manifest m \<longleftrightarrow> bsorted (records m) \<and> (\<forall>(p, r) \<in> set (records m). wf_record p r)"

lemma wf_manifest_default [simp]: "wf_manifest manifest_default"
  by (simp add: wf_manifest_def manifest_default_def)

lemma in_set_bput: "(j, w) \<in> set (bput k v m) \<Longrightarrow> (j, w) = (k, v) \<or> (j, w) \<in> set m"
  by (induction k v m rule: bput.induct) (auto split: if_splits)

lemma wf_manifest_put:
  "wf_manifest m \<Longrightarrow> wf_record p r \<Longrightarrow> wf_manifest (m\<lparr>records := bput p r (records m)\<rparr>)"
  by (auto simp: wf_manifest_def dest: in_set_bput)

lemma wf_manifest_del: "wf_manifest m \<Longrightarrow> wf_manifest (m\<lparr>records := odel p (records m)\<rparr>)"
  by (auto simp: wf_manifest_def dest: in_set_odel)

lemma wf_manifest_lookup: "wf_manifest m \<Longrightarrow> map_of (records m) p = Some r \<Longrightarrow> wf_record p r"
  by (auto simp: wf_manifest_def dest: map_of_SomeD)

lemma add_records_wf:
  assumes "add_records U rs out = Inr out'" "wf_manifest \<lparr>records = out\<rparr>"
  shows "wf_manifest \<lparr>records = out'\<rparr>"
  using assms
proof (induction rs arbitrary: out)
  case (Cons r rs)
  from Cons.prems(1) obtain p where p: "gp_absolute U (rr_path r) = Inr p"
    and go: "add_records U rs (bput p (record_of_raw r p) out) = Inr out'"
    by (auto simp: andthen_eq_Inr split: if_splits)
  have "wf_record p (record_of_raw r p)"
    using p by (auto simp: wf_record_def gp_absolute_valid record_of_raw_def user_source_def)
  with Cons.prems(2) have "wf_manifest (\<lparr>records = out\<rparr>\<lparr>records := bput p (record_of_raw r p) out\<rparr>)"
    using wf_manifest_put by fastforce
  with Cons.IH [OF go] show ?case by simp
qed simp

lemma manifest_parse_wf: "manifest_parse G b = Inr m \<Longrightarrow> wf_manifest m"
  using add_records_wf [of "unicode_debug G" _ "[]"] wf_manifest_default
  unfolding manifest_parse_def andthen_eq_Inr manifest_default_def by blast

lemma bput_last: "(\<And>j. j \<in> fst ` set m \<Longrightarrow> j < k) \<Longrightarrow> bput k v m = m @ [(k, v)]"
proof (induction m)
  case (Cons x m)
  obtain j w where x: "x = (j, w)" by fastforce
  with Cons.prems [of j] have "j < k" by simp
  then have "\<not> k < j" "k \<noteq> j" by auto
  with Cons x show ?case by simp
qed simp

lemma add_records_sorted:
  assumes "bsorted (out @ ms)" "\<forall>(p, r) \<in> set ms. wf_record p r"
  shows "add_records U (map (raw_of_record \<circ> snd) ms) out = Inr (out @ ms)"
  using assms
proof (induction ms arbitrary: out)
  case (Cons x ms)
  obtain p r where x: "x = (p, r)" by fastforce
  with Cons.prems(2) have r: "rc_path r = p" "valid_gp p" "rc_source r \<noteq> []" by (auto simp: wf_record_def)
  have lt: "\<And>j. j \<in> fst ` set out \<Longrightarrow> j < p" using Cons.prems(1) x by (auto simp: bsorted_def sorted_wrt_append)
  then have "map_of out p = None" by (auto simp: map_of_eq_None_iff)
  moreover have "bput p r out = out @ [(p, r)]" by (rule bput_last) (rule lt)
  moreover have "add_records U (map (raw_of_record \<circ> snd) ms) (out @ [(p, r)]) = Inr ((out @ [(p, r)]) @ ms)"
    using Cons.prems x by (intro Cons.IH) auto
  moreover have "record_of_raw (raw_of_record r) p = r" "rr_path (raw_of_record r) = gp_str p"
    using r by (simp_all add: record_of_raw_def raw_of_record_def)
  ultimately show ?case
    using r(2) x by (simp add: gp_absolute_of_valid comp_def)
qed simp

section \<open>Properties\<close>

text \<open>The documented behaviour of serde\_json the manifest relies on: the text written for a value, with
  a newline after it, reads back as the value.\<close>

definition serde_reads_back :: "gf_libs \<Rightarrow> manifest \<Rightarrow> bool" where
  "serde_reads_back G m \<longleftrightarrow> manifest_from_slice G (manifest_to_string G (raw_of_manifest m) @ [nl]) = Inr (raw_of_manifest m)"

lemma manifest_parse_render:
  assumes "serde_reads_back G m" "wf_manifest m"
  shows "manifest_parse G (manifest_render G m) = Inr m"
proof -
  have "add_records (unicode_debug G) (map (raw_of_record \<circ> snd) (records m)) [] = Inr ([] @ records m)"
    using assms(2) by (intro add_records_sorted) (auto simp: wf_manifest_def)
  then show ?thesis
    using assms(1) by (simp add: manifest_parse_def manifest_render_def serde_reads_back_def
        raw_of_manifest_def guard_err_def)
qed

text \<open>A manifest and a library for the witnesses: the one text the library writes is the one it reads.\<close>

definition sample_manifest :: manifest where
  "sample_manifest = \<lparr>records = [(GuestPath ''/etc/pve-meta/a'',
     \<lparr>rc_entry = ''one'', rc_path = GuestPath ''/etc/pve-meta/a'', rc_sha256 = ''hello'', rc_source = ''user/one''\<rparr>)]\<rparr>"

definition sample_gf_with :: "manifest \<Rightarrow> gf_libs" where
  "sample_gf_with m = sample_gf\<lparr>manifest_from_slice := (\<lambda>_. Inr (raw_of_manifest m)), manifest_to_string := (\<lambda>_. ''m'')\<rparr>"

lemma sample_manifest_wf: "wf_manifest sample_manifest"
proof -
  have "gp_absolute id ''/etc/pve-meta/a'' = Inr (GuestPath ''/etc/pve-meta/a'')" by code_simp
  then have "valid_gp (GuestPath ''/etc/pve-meta/a'')" by (simp only: gp_absolute_valid)
  then show ?thesis by (simp add: wf_manifest_def sample_manifest_def wf_record_def bsorted_def)
qed

text \<open>C36: A manifest that reads is well formed: its records are in the order of their paths, each path
  is one an entry could name and is recorded once, and each record has a source. A well-formed manifest,
  written and read again, is the same manifest.\<close>

theorem manifest_round_trip:
  assumes "serde_reads_back G m"
  shows "(manifest_parse G b = Inr m \<longrightarrow> wf_manifest m) \<and>
    (wf_manifest m \<longrightarrow> manifest_parse G (manifest_render G m) = Inr m)"
  using manifest_parse_wf manifest_parse_render [OF assms] by blast

theorem manifest_round_trip_witness:
  "manifest_parse (sample_gf_with sample_manifest) (manifest_render (sample_gf_with sample_manifest) sample_manifest)
     = Inr sample_manifest"
proof -
  have "serde_reads_back (sample_gf_with sample_manifest) sample_manifest"
    by (simp add: serde_reads_back_def sample_gf_with_def)
  from manifest_round_trip [OF this] sample_manifest_wf show ?thesis by blast
qed

end
