(* ===== verification/Gf_Plan.thy ===== *)
theory Gf_Plan
  imports Gf_Manifest
begin

text \<open>
  The decision of one sync (plan.rs): from the files wanted, the manifest and the nodes the probe found
  to the file operations and the manifest they leave. The lemmas say what each operation may do: nothing
  but a regular file whose content the probe saw is replaced, and only what the manifest records is
  removed.
\<close>

section \<open>Nodes and states\<close>

datatype gnode =
    NMissing
  | NSymlink
  | NDir
  | NFile (nf_uid: "32 word") (nf_gid: "32 word") (nf_mode: "32 word") (nf_sha256: string)
  | NOther

type_synonym probe = "(string, gnode) bmap"

datatype file_state = FMissing | FPresent string "32 word" owner | FUnsafe string

datatype action =
    InSync | Create | Update | OverwriteEdit | KeptLocalEdit | Delete | Forget
  | Left string | Refused string

definition writes :: "action \<Rightarrow> bool" where
  "writes a \<longleftrightarrow> a = Create \<or> a = Update \<or> a = OverwriteEdit \<or> a = Delete"

fun show_action :: "action \<Rightarrow> string" where
  "show_action InSync = ''in sync''"
| "show_action Create = ''create''"
| "show_action Update = ''update''"
| "show_action OverwriteEdit = ''overwrite local edit''"
| "show_action KeptLocalEdit = ''local edit kept''"
| "show_action Delete = ''delete''"
| "show_action Forget = ''forget (already gone)''"
| "show_action (Left why) = ''left in place, no longer managed ('' @ why @ '')''"
| "show_action (Refused why) = ''refused ('' @ why @ '')''"

record item =
  it_entry :: string
  it_path :: "guest_path option"
  it_action :: action

datatype expect = ExMissing | ExSha256 string | ExAny

datatype fop =
    Place string string "32 word" owner expect
  | Remove string string

fun op_path :: "fop \<Rightarrow> string" where
  "op_path (Place p _ _ _ _) = p"
| "op_path (Remove p _) = p"

record plan =
  pl_items :: "item list"
  pl_ops :: "fop list"
  pl_dirs :: "string list"
  pl_manifest :: manifest

section \<open>The plan's own operations\<close>

definition changes :: "plan \<Rightarrow> manifest \<Rightarrow> bool" where
  "changes p old \<longleftrightarrow> pl_ops p \<noteq> [] \<or> pl_manifest p \<noteq> old"

text \<open>The path of an operation is one that was planned, so that it validates (\<open>expect\<close> in the code); the
  model of a path that does not leaves the manifest as it is.\<close>

definition undo_record :: "manifest \<Rightarrow> guest_path \<Rightarrow> manifest \<Rightarrow> manifest" where
  "undo_record old p m =
     (case map_of (records old) p of
        Some r \<Rightarrow> m\<lparr>records := bput p r (records m)\<rparr>
      | None \<Rightarrow> m\<lparr>records := odel p (records m)\<rparr>)"

definition undo_step :: "gf_libs \<Rightarrow> manifest \<Rightarrow> manifest \<Rightarrow> fop \<times> bool \<Rightarrow> manifest" where
  "undo_step G old m od =
     (case od of (oper, d) \<Rightarrow>
      if d then m
      else case gp_absolute (unicode_debug G) (op_path oper) of Inr gp \<Rightarrow> undo_record old gp m | Inl _ \<Rightarrow> m)"

definition manifest_after :: "gf_libs \<Rightarrow> plan \<Rightarrow> manifest \<Rightarrow> bool list \<Rightarrow> manifest" where
  "manifest_after G p old dones =
     foldl (undo_step G old) (pl_manifest p) (zip (pl_ops p) dones)"

section \<open>Reading the probe\<close>

definition files_paths :: "guest_files \<Rightarrow> guest_path list" where
  "files_paths f =
     (case f of
        Entries es \<Rightarrow> concat (map (\<lambda>r. case r of RFile d \<Rightarrow> [en_path (de_entry d)] | _ \<Rightarrow> []) es)
      | Managed ds \<Rightarrow> map (\<lambda>d. en_path (de_entry d)) ds
      | _ \<Rightarrow> [])"

definition probe_paths :: "guest_files \<Rightarrow> manifest \<Rightarrow> string list" where
  "probe_paths f m =
     bset_of (manifest_directories @
       concat (map (\<lambda>p. directories p @ [gp_str p]) (files_paths f @ map fst (records m))))"

definition node_of :: "probe \<Rightarrow> string \<Rightarrow> gnode" where
  "node_of pb p = (case map_of pb p of Some n \<Rightarrow> n | None \<Rightarrow> NMissing)"

fun dir_problem :: "string \<Rightarrow> gnode \<Rightarrow> string option" where
  "dir_problem dir NMissing = None"
| "dir_problem dir NSymlink = Some (dir @ '' is a symlink'')"
| "dir_problem dir NDir = None"
| "dir_problem dir (NFile _ _ _ _) = Some (dir @ '' is not a directory'')"
| "dir_problem dir NOther = Some (dir @ '' is not a directory'')"

fun assess_dirs :: "probe \<Rightarrow> string list \<Rightarrow> file_state option" where
  "assess_dirs pb [] = None"
| "assess_dirs pb (dir # ds) =
     (case dir_problem dir (node_of pb dir) of
        Some why \<Rightarrow> Some (FUnsafe why)
      | None \<Rightarrow> if node_of pb dir = NMissing then Some FMissing else assess_dirs pb ds)"

definition assess :: "guest_path \<Rightarrow> probe \<Rightarrow> file_state" where
  "assess p pb =
     (case assess_dirs pb (directories p) of
        Some st \<Rightarrow> st
      | None \<Rightarrow>
          (case node_of pb (gp_str p) of
             NMissing \<Rightarrow> FMissing
           | NSymlink \<Rightarrow> FUnsafe (gp_str p @ '' is a symlink'')
           | NDir \<Rightarrow> FUnsafe (gp_str p @ '' is not a regular file'')
           | NOther \<Rightarrow> FUnsafe (gp_str p @ '' is not a regular file'')
           | NFile u g md sha \<Rightarrow> FPresent sha md \<lparr>uid = u, gid = g\<rparr>))"

definition deletion_owner :: "guest_files \<Rightarrow> string \<Rightarrow> bool" where
  "deletion_owner f src = (case f of Managed _ \<Rightarrow> False | _ \<Rightarrow> \<not> is_managed_source src)"

section \<open>The plan\<close>

text \<open>What is built up while the entries and the records are gone through: the plan without its
  directories, the directories to create, the wanted paths.\<close>

record plan_state =
  ps_items :: "item list"
  ps_ops :: "fop list"
  ps_manifest :: "(guest_path, file_record) bmap"
  ps_dirs :: "string list"
  ps_wanted :: "guest_path list"

definition root_problem :: "probe \<Rightarrow> string option" where
  "root_problem pb = find_map (\<lambda>d. dir_problem d (node_of pb d)) manifest_directories"

definition hold_reason :: "guest_files \<Rightarrow> probe \<Rightarrow> string option" where
  "hold_reason f pb = (case f of Held why \<Rightarrow> Some why | _ \<Rightarrow> root_problem pb)"

definition held_plan :: "string \<Rightarrow> manifest \<Rightarrow> plan" where
  "held_plan why old =
     \<lparr>pl_items = map (\<lambda>(_, r). \<lparr>it_entry = rc_entry r, it_path = Some (rc_path r), it_action = Refused why\<rparr>) (records old),
      pl_ops = [], pl_dirs = [], pl_manifest = old\<rparr>"

definition plan_entries :: "guest_files \<Rightarrow> resolved list" where
  "plan_entries f = (case f of Entries es \<Rightarrow> es | Managed ds \<Rightarrow> map RFile ds | _ \<Rightarrow> [])"

definition held_names :: "resolved list \<Rightarrow> string list" where
  "held_names es = map resolved_name (filter (\<lambda>r. case r of RRefused _ _ \<Rightarrow> True | _ \<Rightarrow> False) es)"

definition decide :: "bool \<Rightarrow> desired \<Rightarrow> file_record option \<Rightarrow> file_state \<Rightarrow> action \<times> expect option" where
  "decide force d rec st =
     (let e = de_entry d in
      case st of
        FUnsafe why \<Rightarrow> (Refused why, None)
      | FMissing \<Rightarrow> (Create, Some ExMissing)
      | FPresent sha md ow \<Rightarrow>
          if sha = de_sha256 d \<and> md = en_mode e \<and> ow = en_owner e then (InSync, None)
          else if (case rec of Some r \<Rightarrow> rc_sha256 r = sha | None \<Rightarrow> False) then (Update, Some (ExSha256 sha))
          else if en_local_edits e = Overwrite \<or> force then (OverwriteEdit, Some (ExSha256 sha))
          else (KeptLocalEdit, None))"

definition new_record :: "desired \<Rightarrow> file_record" where
  "new_record d = \<lparr>rc_entry = en_name (de_entry d), rc_path = en_path (de_entry d), rc_sha256 = de_sha256 d,
     rc_source = en_source (de_entry d)\<rparr>"

definition conflict_text :: "entry \<Rightarrow> file_record \<Rightarrow> string" where
  "conflict_text e r = ''path '' @ quoted (gp_str (en_path e)) @ '' is recorded for source '' @ quoted (rc_source r)
     @ '', not '' @ quoted (en_source e)"

definition keep_record :: "guest_path \<Rightarrow> file_record option \<Rightarrow> (guest_path, file_record) bmap \<Rightarrow> (guest_path, file_record) bmap" where
  "keep_record p rec m = (case rec of Some r \<Rightarrow> bput p r m | None \<Rightarrow> m)"

definition claims :: "action \<Rightarrow> bool" where
  "claims a \<longleftrightarrow> a = InSync \<or> a = Create \<or> a = Update \<or> a = OverwriteEdit"

text \<open>One file of the loop over the entries.\<close>

definition plan_file :: "manifest \<Rightarrow> probe \<Rightarrow> bool \<Rightarrow> desired \<Rightarrow> plan_state \<Rightarrow> plan_state" where
  "plan_file old pb force d ps0 =
     (let e = de_entry d; p = en_path e; rec = map_of (records old) p;
          ps = ps0\<lparr>ps_wanted := ps_wanted ps0 @ [p]\<rparr>;
          conflict = (case rec of Some r \<Rightarrow> sources_conflict (en_source e) (rc_source r) | None \<Rightarrow> False)
      in if conflict
         then ps\<lparr>ps_items := ps_items ps @ [\<lparr>it_entry = en_name e, it_path = Some p, it_action = Refused (conflict_text e (the rec))\<rparr>],
                 ps_manifest := keep_record p rec (ps_manifest ps)\<rparr>
         else
           (case decide force d rec (assess p pb) of
              (act, ex) \<Rightarrow>
                ps\<lparr>ps_manifest := (if claims act then bput p (new_record d) (ps_manifest ps)
                                   else keep_record p rec (ps_manifest ps)),
                   ps_dirs := (if act = Create
                               then ps_dirs ps @ filter (\<lambda>dir. map_of pb dir \<noteq> Some NDir) (directories p)
                               else ps_dirs ps),
                   ps_ops := (case ex of
                                Some x \<Rightarrow> ps_ops ps @ [Place (gp_str p) (de_content d) (en_mode e) (en_owner e) x]
                              | None \<Rightarrow> ps_ops ps),
                   ps_items := ps_items ps @ [\<lparr>it_entry = en_name e, it_path = Some p, it_action = act\<rparr>]\<rparr>))"

fun plan_entry :: "manifest \<Rightarrow> probe \<Rightarrow> bool \<Rightarrow> resolved \<Rightarrow> plan_state \<Rightarrow> plan_state" where
  "plan_entry old pb force (RFile d) ps = plan_file old pb force d ps"
| "plan_entry old pb force (RAbsent n) ps = ps"
| "plan_entry old pb force (RRefused n reason) ps =
     ps\<lparr>ps_items := ps_items ps @ [\<lparr>it_entry = n, it_path = None, it_action = Refused reason\<rparr>]\<rparr>"

text \<open>One record of the loop over the old manifest. The second look at the file's state sees what the
  first saw, so that a missing file was dealt with before.\<close>

definition plan_record :: "guest_files \<Rightarrow> string list \<Rightarrow> probe \<Rightarrow> guest_path \<times> file_record \<Rightarrow> plan_state \<Rightarrow> plan_state" where
  "plan_record f hn pb pr ps =
     (case pr of (p, r) \<Rightarrow>
      let item_of = (\<lambda>a. \<lparr>it_entry = rc_entry r, it_path = Some p, it_action = a\<rparr>) in
      if p \<in> set (ps_wanted ps) then ps
      else if assess p pb = FMissing then ps\<lparr>ps_items := ps_items ps @ [item_of Forget]\<rparr>
      else if \<not> deletion_owner f (rc_source r) \<or> rc_entry r \<in> set hn
      then ps\<lparr>ps_manifest := bput p r (ps_manifest ps)\<rparr>
      else
        (case assess p pb of
           FMissing \<Rightarrow> ps\<lparr>ps_items := ps_items ps @ [item_of Forget]\<rparr>
         | FPresent sha _ _ \<Rightarrow>
             if sha = rc_sha256 r
             then ps\<lparr>ps_ops := ps_ops ps @ [Remove (gp_str p) sha], ps_items := ps_items ps @ [item_of Delete]\<rparr>
             else ps\<lparr>ps_items := ps_items ps @ [item_of (Left ''changed since it was written'')]\<rparr>
         | FUnsafe why \<Rightarrow> ps\<lparr>ps_items := ps_items ps @ [item_of (Left why)]\<rparr>))"

definition plan_start :: plan_state where
  "plan_start = \<lparr>ps_items = [], ps_ops = [], ps_manifest = [], ps_dirs = [], ps_wanted = []\<rparr>"

definition after_entries :: "guest_files \<Rightarrow> manifest \<Rightarrow> probe \<Rightarrow> bool \<Rightarrow> plan_state" where
  "after_entries f old pb force =
     foldl (\<lambda>ps r. plan_entry old pb force r ps) plan_start (plan_entries f)"

definition after_records :: "guest_files \<Rightarrow> manifest \<Rightarrow> probe \<Rightarrow> bool \<Rightarrow> plan_state" where
  "after_records f old pb force =
     foldl (\<lambda>ps pr. plan_record f (held_names (plan_entries f)) pb pr ps)
       (after_entries f old pb force) (records old)"

definition plan_of_state :: "manifest \<Rightarrow> probe \<Rightarrow> plan_state \<Rightarrow> plan" where
  "plan_of_state old pb ps =
     (let p = \<lparr>pl_items = ps_items ps, pl_ops = ps_ops ps, pl_dirs = [], pl_manifest = \<lparr>records = ps_manifest ps\<rparr>\<rparr>;
          dirs = (if changes p old \<and> map_of pb guest_root \<noteq> Some NDir
                  then ps_dirs ps @ [guest_root] else ps_dirs ps)
      in p\<lparr>pl_dirs := bset_of dirs\<rparr>)"

definition plan_sync :: "guest_files \<Rightarrow> manifest \<Rightarrow> probe \<Rightarrow> bool \<Rightarrow> plan" where
  "plan_sync f old pb force =
     (case hold_reason f pb of
        Some why \<Rightarrow> held_plan why old
      | None \<Rightarrow> plan_of_state old pb (after_records f old pb force))"

section \<open>The plan in closed form\<close>

text \<open>What one wanted file and one record contribute, whatever came before them.\<close>

abbreviation de_path :: "desired \<Rightarrow> guest_path" where
  "de_path d \<equiv> en_path (de_entry d)"

definition conflicts :: "manifest \<Rightarrow> desired \<Rightarrow> bool" where
  "conflicts old d \<longleftrightarrow>
     (case map_of (records old) (de_path d) of
        Some r \<Rightarrow> sources_conflict (en_source (de_entry d)) (rc_source r) | None \<Rightarrow> False)"

definition decision :: "manifest \<Rightarrow> probe \<Rightarrow> bool \<Rightarrow> desired \<Rightarrow> action \<times> expect option" where
  "decision old pb force d =
     (if conflicts old d then (Refused (conflict_text (de_entry d) (the (map_of (records old) (de_path d)))), None)
      else decide force d (map_of (records old) (de_path d)) (assess (de_path d) pb))"

definition file_ops :: "manifest \<Rightarrow> probe \<Rightarrow> bool \<Rightarrow> desired \<Rightarrow> fop list" where
  "file_ops old pb force d =
     (case snd (decision old pb force d) of
        Some x \<Rightarrow> [Place (gp_str (de_path d)) (de_content d) (en_mode (de_entry d)) (en_owner (de_entry d)) x]
      | None \<Rightarrow> [])"

definition file_keeps :: "manifest \<Rightarrow> probe \<Rightarrow> bool \<Rightarrow> desired \<Rightarrow> file_record option" where
  "file_keeps old pb force d =
     (if claims (fst (decision old pb force d)) then Some (new_record d) else map_of (records old) (de_path d))"

definition file_dirs :: "manifest \<Rightarrow> probe \<Rightarrow> bool \<Rightarrow> desired \<Rightarrow> string list" where
  "file_dirs old pb force d =
     (if fst (decision old pb force d) = Create
      then filter (\<lambda>dir. map_of pb dir \<noteq> Some NDir) (directories (de_path d)) else [])"

definition file_item :: "manifest \<Rightarrow> probe \<Rightarrow> bool \<Rightarrow> desired \<Rightarrow> item" where
  "file_item old pb force d =
     \<lparr>it_entry = en_name (de_entry d), it_path = Some (de_path d), it_action = fst (decision old pb force d)\<rparr>"

fun entry_items :: "manifest \<Rightarrow> probe \<Rightarrow> bool \<Rightarrow> resolved \<Rightarrow> item list" where
  "entry_items old pb force (RFile d) = [file_item old pb force d]"
| "entry_items old pb force (RAbsent n) = []"
| "entry_items old pb force (RRefused n why) = [\<lparr>it_entry = n, it_path = None, it_action = Refused why\<rparr>]"

lemma plan_file_effect:
  "plan_file old pb force d ps =
     ps\<lparr>ps_wanted := ps_wanted ps @ [de_path d],
        ps_items := ps_items ps @ [file_item old pb force d],
        ps_ops := ps_ops ps @ file_ops old pb force d,
        ps_manifest := keep_record (de_path d) (file_keeps old pb force d) (ps_manifest ps),
        ps_dirs := ps_dirs ps @ file_dirs old pb force d\<rparr>"
proof (cases "conflicts old d")
  case True
  then obtain r where "map_of (records old) (de_path d) = Some r" by (auto simp: conflicts_def split: option.splits)
  with True show ?thesis
    by (simp add: plan_file_def Let_def conflicts_def decision_def file_item_def file_ops_def file_keeps_def
        file_dirs_def claims_def)
next
  case False
  obtain a x where "decide force d (map_of (records old) (de_path d)) (assess (de_path d) pb) = (a, x)" by fastforce
  with False show ?thesis
    by (simp add: plan_file_def Let_def decision_def file_item_def file_ops_def file_keeps_def
        file_dirs_def keep_record_def flip: conflicts_def split: option.split)
qed

definition all_files :: "guest_files \<Rightarrow> desired list" where
  "all_files f = files_of (plan_entries f)"

lemma all_files_wanted: "all_files f = wanted_files f"
proof -
  have "files_of (map RFile ds) = ds" for ds by (induction ds) auto
  then show ?thesis by (simp add: all_files_def plan_entries_def wanted_files_def split: guest_files.split)
qed

lemma fold_entries:
  fixes old pb force
  defines "go \<equiv> \<lambda>ps r. plan_entry old pb force r ps"
  shows "ps_wanted (foldl go ps es) = ps_wanted ps @ map de_path (files_of es)"
    "ps_items (foldl go ps es) = ps_items ps @ concat (map (entry_items old pb force) es)"
    "ps_ops (foldl go ps es) = ps_ops ps @ concat (map (file_ops old pb force) (files_of es))"
    "ps_dirs (foldl go ps es) = ps_dirs ps @ concat (map (file_dirs old pb force) (files_of es))"
    "ps_manifest (foldl go ps es) =
       foldl (\<lambda>m d. keep_record (de_path d) (file_keeps old pb force d) m) (ps_manifest ps) (files_of es)"
  unfolding go_def by (induction es arbitrary: ps rule: files_of.induct) (simp_all add: plan_file_effect)

definition removes :: "guest_files \<Rightarrow> probe \<Rightarrow> guest_path \<times> file_record \<Rightarrow> bool" where
  "removes f pb pr \<longleftrightarrow>
     fst pr \<notin> set (map de_path (all_files f)) \<and> deletion_owner f (rc_source (snd pr))
     \<and> rc_entry (snd pr) \<notin> set (held_names (plan_entries f))
     \<and> (\<exists>md ow. assess (fst pr) pb = FPresent (rc_sha256 (snd pr)) md ow)"

definition stays :: "guest_files \<Rightarrow> probe \<Rightarrow> guest_path \<times> file_record \<Rightarrow> bool" where
  "stays f pb pr \<longleftrightarrow>
     fst pr \<notin> set (map de_path (all_files f)) \<and> assess (fst pr) pb \<noteq> FMissing
     \<and> (\<not> deletion_owner f (rc_source (snd pr)) \<or> rc_entry (snd pr) \<in> set (held_names (plan_entries f)))"

definition record_ops :: "guest_files \<Rightarrow> probe \<Rightarrow> guest_path \<times> file_record \<Rightarrow> fop list" where
  "record_ops f pb pr = (if removes f pb pr then [Remove (gp_str (fst pr)) (rc_sha256 (snd pr))] else [])"

definition record_items :: "guest_files \<Rightarrow> probe \<Rightarrow> guest_path \<times> file_record \<Rightarrow> item list" where
  "record_items f pb pr =
     (if fst pr \<in> set (map de_path (all_files f)) \<or> stays f pb pr then []
      else [\<lparr>it_entry = rc_entry (snd pr), it_path = Some (fst pr),
             it_action = (case assess (fst pr) pb of
                FMissing \<Rightarrow> Forget
              | FPresent sha _ _ \<Rightarrow> if sha = rc_sha256 (snd pr) then Delete else Left ''changed since it was written''
              | FUnsafe why \<Rightarrow> Left why)\<rparr>])"

lemma plan_record_effect:
  assumes "ps_wanted ps = map de_path (all_files f)"
  shows "plan_record f (held_names (plan_entries f)) pb pr ps =
     ps\<lparr>ps_items := ps_items ps @ record_items f pb pr,
        ps_ops := ps_ops ps @ record_ops f pb pr,
        ps_manifest := keep_record (fst pr) (if stays f pb pr then Some (snd pr) else None) (ps_manifest ps)\<rparr>"
  using assms
  by (cases pr; cases "assess (fst pr) pb")
    (auto simp: plan_record_def record_items_def record_ops_def stays_def removes_def keep_record_def Let_def)

lemma fold_records:
  fixes f pb
  defines "go \<equiv> \<lambda>ps pr. plan_record f (held_names (plan_entries f)) pb pr ps"
  assumes "ps_wanted ps = map de_path (all_files f)"
  shows "ps_items (foldl go ps rs) = ps_items ps @ concat (map (record_items f pb) rs)
    \<and> ps_ops (foldl go ps rs) = ps_ops ps @ concat (map (record_ops f pb) rs)
    \<and> ps_dirs (foldl go ps rs) = ps_dirs ps
    \<and> ps_manifest (foldl go ps rs) =
        foldl (\<lambda>m pr. keep_record (fst pr) (if stays f pb pr then Some (snd pr) else None) m) (ps_manifest ps) rs"
  using assms(2) unfolding go_def
proof (induction rs arbitrary: ps)
  case (Cons pr rs)
  show ?case using Cons.IH [of "plan_record f (held_names (plan_entries f)) pb pr ps"] Cons.prems
    by (simp add: plan_record_effect)
qed simp

lemma fold_keep:
  assumes "distinct (map pth xs)"
  shows "map_of (foldl (\<lambda>m x. keep_record (pth x) (k x) m) m0 xs) p =
    (case find (\<lambda>x. pth x = p) xs of
       Some x \<Rightarrow> (case k x of Some r \<Rightarrow> Some r | None \<Rightarrow> map_of m0 p)
     | None \<Rightarrow> map_of m0 p)"
  using assms
proof (induction xs arbitrary: m0)
  case (Cons x xs)
  have "find (\<lambda>y. pth y = p) xs = None" if "pth x = p" using Cons.prems that by (auto simp: find_None_iff) (metis image_eqI)
  with Cons show ?case by (auto simp: keep_record_def split: option.splits)
qed simp

lemma fold_keep_sorted: "bsorted m0 \<Longrightarrow> bsorted (foldl (\<lambda>m x. keep_record (pth x) (k x) m) m0 xs)"
  by (induction xs arbitrary: m0) (auto simp: keep_record_def split: option.splits)

lemma plan_sync_closed:
  assumes "hold_reason f pb = None"
  shows "pl_ops (plan_sync f old pb force) =
      concat (map (file_ops old pb force) (wanted_files f)) @ concat (map (record_ops f pb) (records old))"
    "pl_items (plan_sync f old pb force) =
      concat (map (entry_items old pb force) (plan_entries f)) @ concat (map (record_items f pb) (records old))"
    "records (pl_manifest (plan_sync f old pb force)) =
      foldl (\<lambda>m pr. keep_record (fst pr) (if stays f pb pr then Some (snd pr) else None) m)
        (foldl (\<lambda>m d. keep_record (de_path d) (file_keeps old pb force d) m) [] (wanted_files f)) (records old)"
    "set (pl_dirs (plan_sync f old pb force)) =
      set (concat (map (file_dirs old pb force) (wanted_files f))) \<union>
      (if changes (plan_sync f old pb force) old \<and> map_of pb guest_root \<noteq> Some NDir then {guest_root} else {})"
proof -
  have w: "ps_wanted (after_entries f old pb force) = map de_path (all_files f)"
    by (simp add: after_entries_def fold_entries(1) plan_start_def all_files_def)
  note r = fold_records [of "after_entries f old pb force" f pb "records old", OF w, folded after_records_def]
  note e = fold_entries [of old pb force plan_start "plan_entries f", folded after_entries_def all_files_def,
      unfolded all_files_wanted]
  have p: "plan_sync f old pb force = plan_of_state old pb (after_records f old pb force)"
    using assms by (simp add: plan_sync_def)
  show "pl_ops (plan_sync f old pb force) =
      concat (map (file_ops old pb force) (wanted_files f)) @ concat (map (record_ops f pb) (records old))"
    "pl_items (plan_sync f old pb force) =
      concat (map (entry_items old pb force) (plan_entries f)) @ concat (map (record_items f pb) (records old))"
    "records (pl_manifest (plan_sync f old pb force)) =
      foldl (\<lambda>m pr. keep_record (fst pr) (if stays f pb pr then Some (snd pr) else None) m)
        (foldl (\<lambda>m d. keep_record (de_path d) (file_keeps old pb force d) m) [] (wanted_files f)) (records old)"
    using r e by (simp_all add: p plan_of_state_def Let_def plan_start_def)
  show "set (pl_dirs (plan_sync f old pb force)) =
      set (concat (map (file_dirs old pb force) (wanted_files f))) \<union>
      (if changes (plan_sync f old pb force) old \<and> map_of pb guest_root \<noteq> Some NDir then {guest_root} else {})"
    using r e by (simp add: p plan_of_state_def Let_def plan_start_def changes_def)
qed

lemma held_plan_ops: "hold_reason f pb = Some why \<Longrightarrow>
    pl_ops (plan_sync f old pb force) = [] \<and> pl_manifest (plan_sync f old pb force) = old \<and> pl_dirs (plan_sync f old pb force) = []"
  by (simp add: plan_sync_def held_plan_def)

definition plan_keeps :: "guest_files \<Rightarrow> manifest \<Rightarrow> probe \<Rightarrow> bool \<Rightarrow> guest_path \<Rightarrow> file_record option" where
  "plan_keeps f old pb force p =
     (case find (\<lambda>d. de_path d = p) (wanted_files f) of
        Some d \<Rightarrow> file_keeps old pb force d
      | None \<Rightarrow>
          (case map_of (records old) p of
             Some r \<Rightarrow> if stays f pb (p, r) then Some r else None
           | None \<Rightarrow> None))"

lemma no_clashes_paths: "no_clashes ds \<Longrightarrow> distinct (map de_path ds)"
  by (induction ds) (auto simp: no_clashes_def paths_clash_def)

lemma find_key: "find (\<lambda>x. fst x = p) m = map_option (\<lambda>v. (p, v)) (map_of m p)"
  by (induction m) auto

lemma plan_manifest_lookup:
  assumes "hold_reason f pb = None" "no_clashes (wanted_files f)" "wf_manifest old"
  shows "map_of (records (pl_manifest (plan_sync f old pb force))) p = plan_keeps f old pb force p"
proof -
  let ?ds = "wanted_files f"
  have d: "distinct (map de_path ?ds)" using assms(2) by (rule no_clashes_paths)
  have r: "distinct (map fst (records old))" using assms(3) by (simp add: wf_manifest_def bsorted_distinct)
  have "\<not> stays f pb (p, r)" if "find (\<lambda>d. de_path d = p) ?ds = Some d" for r d
    using that by (auto simp: stays_def all_files_wanted find_Some_iff)
  then show ?thesis
    unfolding plan_sync_closed(3) [OF assms(1)] fold_keep [OF r] find_key fold_keep [OF d] plan_keeps_def
    by (auto split: option.splits)
qed

lemma plan_manifest_sorted:
  assumes "wf_manifest old"
  shows "bsorted (records (pl_manifest (plan_sync f old pb force)))"
proof (cases "hold_reason f pb")
  case None
  then show ?thesis by (simp add: plan_sync_closed(3) fold_keep_sorted)
next
  case (Some why)
  with assms show ?thesis by (simp add: held_plan_ops wf_manifest_def)
qed

lemma wf_new_record: "wf_desired G d \<Longrightarrow> en_source (de_entry d) \<noteq> [] \<Longrightarrow> wf_record (de_path d) (new_record d)"
  by (simp add: wf_record_def new_record_def wf_desired_def)

section \<open>What the operations may do\<close>

definition place_ok :: "guest_files \<Rightarrow> manifest \<Rightarrow> probe \<Rightarrow> bool \<Rightarrow> desired \<Rightarrow> expect \<Rightarrow> bool" where
  "place_ok f old pb force d ex \<longleftrightarrow> \<not> conflicts old d \<and>
     (case ex of
        ExMissing \<Rightarrow> assess (de_path d) pb = FMissing
      | ExSha256 sha \<Rightarrow>
          (\<exists>md ow. assess (de_path d) pb = FPresent sha md ow
             \<and> (sha, md, ow) \<noteq> (de_sha256 d, en_mode (de_entry d), en_owner (de_entry d)))
          \<and> ((\<exists>r. map_of (records old) (de_path d) = Some r \<and> rc_sha256 r = sha)
             \<or> en_local_edits (de_entry d) = Overwrite \<or> force)
      | ExAny \<Rightarrow> False)"

lemma file_ops_place:
  assumes "oper \<in> set (file_ops old pb force d)"
  obtains ex where "oper = Place (gp_str (de_path d)) (de_content d) (en_mode (de_entry d)) (en_owner (de_entry d)) ex"
    "place_ok f old pb force d ex"
proof -
  from assms obtain ex where o: "oper = Place (gp_str (de_path d)) (de_content d) (en_mode (de_entry d)) (en_owner (de_entry d)) ex"
    and ex: "snd (decision old pb force d) = Some ex"
    by (auto simp: file_ops_def split: option.splits)
  then have "\<not> conflicts old d" "snd (decide force d (map_of (records old) (de_path d)) (assess (de_path d) pb)) = Some ex"
    by (auto simp: decision_def split: if_splits)
  then have "place_ok f old pb force d ex"
    by (auto simp: place_ok_def decide_def Let_def split: file_state.splits if_splits option.splits)
  with o show thesis by (rule that)
qed

definition remove_ok :: "guest_files \<Rightarrow> manifest \<Rightarrow> probe \<Rightarrow> guest_path \<Rightarrow> file_record \<Rightarrow> bool" where
  "remove_ok f old pb p r \<longleftrightarrow>
     map_of (records old) p = Some r \<and> p \<notin> set (map de_path (wanted_files f))
     \<and> \<not> is_managed_source (rc_source r) \<and> (\<forall>ds. f \<noteq> Managed ds)
     \<and> rc_entry r \<notin> set (held_names (plan_entries f))
     \<and> (\<exists>md ow. assess p pb = FPresent (rc_sha256 r) md ow)"

lemma record_ops_remove:
  assumes "oper \<in> set (concat (map (record_ops f pb) (records old)))" "wf_manifest old"
  obtains p r where "oper = Remove (gp_str p) (rc_sha256 r)" "remove_ok f old pb p r"
proof -
  from assms(1) obtain p r where "(p, r) \<in> set (records old)" "removes f pb (p, r)" "oper = Remove (gp_str p) (rc_sha256 r)"
    by (auto simp: record_ops_def split: if_splits)
  moreover have "map_of (records old) p = Some r"
    using assms(2) \<open>(p, r) \<in> set (records old)\<close> by (simp add: wf_manifest_def bsorted_distinct)
  ultimately show thesis
    by (intro that [of p r]) (auto simp: remove_ok_def removes_def all_files_wanted deletion_owner_def split: guest_files.splits)
qed

text \<open>A file that is judged present lies under real directories only.\<close>

lemma assess_dirs_None: "assess_dirs pb ds = None \<Longrightarrow> d \<in> set ds \<Longrightarrow> node_of pb d = NDir"
  by (induction ds) (auto split: option.splits if_splits elim!: dir_problem.elims)

lemma assess_dirs_cases: "assess_dirs pb ds = Some st \<Longrightarrow> st = FMissing \<or> (\<exists>why. st = FUnsafe why)"
  by (induction ds) (auto split: option.splits if_splits)

lemma assess_present:
  assumes "assess p pb = FPresent sha md ow"
  shows "node_of pb (gp_str p) = NFile (uid ow) (gid ow) md sha" "\<forall>d \<in> set (directories p). node_of pb d = NDir"
  using assms assess_dirs_None [of pb "directories p"] assess_dirs_cases [of pb "directories p"]
  by (auto simp: assess_def split: option.splits gnode.splits)

lemma assess_missing_dirs:
  "assess_dirs pb ds = Some FMissing \<Longrightarrow>
    \<exists>a d b. ds = a @ d # b \<and> (\<forall>x \<in> set a. node_of pb x = NDir) \<and> node_of pb d = NMissing"
proof (induction ds)
  case (Cons d ds)
  show ?case
  proof (cases "node_of pb d")
    case NMissing
    then show ?thesis by (intro exI [of _ "[]"] exI [of _ d] exI [of _ ds]) simp
  next
    case NDir
    with Cons obtain a e b where "ds = a @ e # b" "\<forall>x \<in> set a. node_of pb x = NDir" "node_of pb e = NMissing" by auto
    with NDir show ?thesis by (intro exI [of _ "d # a"] exI [of _ e] exI [of _ b]) simp
  qed (use Cons.prems in auto)
qed simp

section \<open>Items, operations and the manifest after a commit\<close>

lemma decision_writes: "snd (decision old pb force d) \<noteq> None \<longleftrightarrow> writes (fst (decision old pb force d))"
  by (auto simp: decision_def decide_def Let_def writes_def split: file_state.splits option.splits)

lemma entry_items_ops:
  "map (\<lambda>i. gp_str (the (it_path i))) (filter (\<lambda>i. writes (it_action i)) (concat (map (entry_items old pb force) es)))
    = map op_path (concat (map (file_ops old pb force) (files_of es)))"
proof (induction es rule: files_of.induct)
  case (2 d rs)
  then show ?case
    using decision_writes [of old pb force d] by (auto simp: file_item_def file_ops_def split: option.splits)
qed (simp_all add: writes_def)

lemma record_items_ops:
  "map (\<lambda>i. gp_str (the (it_path i))) (filter (\<lambda>i. writes (it_action i)) (record_items f pb pr))
    = map op_path (record_ops f pb pr)"
  by (auto simp: record_items_def record_ops_def removes_def stays_def writes_def split: file_state.splits)

lemma writes_match_ops:
  "map (\<lambda>i. gp_str (the (it_path i))) (filter (\<lambda>i. writes (it_action i)) (pl_items (plan_sync f old pb force)))
    = map op_path (pl_ops (plan_sync f old pb force))"
proof (cases "hold_reason f pb")
  case None
  have "map (\<lambda>i. gp_str (the (it_path i))) (filter (\<lambda>i. writes (it_action i)) (concat (map (record_items f pb) rs)))
    = map op_path (concat (map (record_ops f pb) rs))" for rs
    by (induction rs) (simp_all add: record_items_ops)
  with None show ?thesis
    by (simp add: plan_sync_closed entry_items_ops flip: all_files_wanted) (simp add: all_files_def)
next
  case (Some why)
  then show ?thesis by (simp add: plan_sync_def held_plan_def writes_def split_def)
qed

definition undone :: "gf_libs \<Rightarrow> plan \<Rightarrow> bool list \<Rightarrow> guest_path \<Rightarrow> bool" where
  "undone G P dones p \<longleftrightarrow>
     (\<exists>(oper, d) \<in> set (zip (pl_ops P) dones). \<not> d \<and> gp_absolute (unicode_debug G) (op_path oper) = Inr p)"

lemma undo_record_lookup:
  "map_of (records (undo_record old p m)) q = (if q = p then map_of (records old) p else map_of (records m) q)"
  by (simp add: undo_record_def split: option.split)

lemma manifest_after_lookup:
  "map_of (records (manifest_after G P old dones)) p =
     (if undone G P dones p then map_of (records old) p else map_of (records (pl_manifest P)) p)"
proof -
  have "map_of (records (foldl (undo_step G old) m0 zs)) p =
     (if \<exists>(oper, d) \<in> set zs. \<not> d \<and> gp_absolute (unicode_debug G) (op_path oper) = Inr p
      then map_of (records old) p else map_of (records m0) p)" for m0 zs
  proof (induction zs arbitrary: m0)
    case (Cons z zs)
    obtain oper d where z: "z = (oper, d)" by fastforce
    show ?case
      unfolding foldl_Cons Cons.IH
      by (cases d; cases "gp_absolute (unicode_debug G) (op_path oper)")
        (simp_all add: z undo_step_def undo_record_lookup)
  qed simp
  then show ?thesis by (simp add: manifest_after_def undone_def)
qed

lemma manifest_after_wf:
  assumes "wf_manifest old" "wf_manifest (pl_manifest P)"
  shows "wf_manifest (manifest_after G P old dones)"
proof -
  have undo: "wf_manifest (undo_record old p m)" if "wf_manifest m" for p m
    using that wf_manifest_lookup [OF assms(1)]
    by (auto simp: undo_record_def intro: wf_manifest_put wf_manifest_del split: option.split)
  have "wf_manifest (foldl (undo_step G old) m0 zs)" if "wf_manifest m0" for m0 zs
    using that by (induction zs arbitrary: m0) (auto simp: undo undo_step_def split: sum.splits)
  then show ?thesis using assms(2) by (simp add: manifest_after_def)
qed

definition sourced :: "guest_files \<Rightarrow> bool" where
  "sourced f \<longleftrightarrow> (\<forall>d \<in> set (wanted_files f). en_source (de_entry d) \<noteq> [])"

lemma of_document_sourced: "sourced (of_document G doc)"
proof (unfold sourced_def, intro ballI)
  fix d assume "d \<in> set (wanted_files (of_document G doc))"
  then obtain name spec where "resolve G doc name spec = RFile d" by (elim of_document_file)
  then have "parse_entry (unicode_debug G) name spec = Inr (de_entry d)" by (elim resolve_file)
  from parse_entry_ok(4) [OF this] show "en_source (de_entry d) \<noteq> []" by (simp add: user_source_def)
qed

lemma plan_manifest_wf:
  assumes "wf_manifest old" "wf_files G f" "sourced f"
  shows "wf_manifest (pl_manifest (plan_sync f old pb force))"
proof (cases "hold_reason f pb")
  case None
  let ?m = "records (pl_manifest (plan_sync f old pb force))"
  have s: "bsorted ?m" using assms(1) by (rule plan_manifest_sorted)
  have "wf_record p r" if "(p, r) \<in> set ?m" for p r
  proof -
    have "map_of ?m p = Some r" using that s by (simp add: bsorted_distinct)
    then have k: "plan_keeps f old pb force p = Some r"
      using plan_manifest_lookup [OF None _ assms(1)] assms(2) by (simp add: wf_files_def)
    show ?thesis
    proof (cases "find (\<lambda>d. de_path d = p) (wanted_files f)")
      case (Some d)
      then have d: "d \<in> set (wanted_files f)" "de_path d = p" by (auto simp: find_Some_iff)
      with assms(2,3) have "wf_desired G d" "en_source (de_entry d) \<noteq> []"
        by (auto simp: wf_files_def list_all_iff sourced_def)
      with k Some d assms(1) show ?thesis
        by (auto simp: plan_keeps_def file_keeps_def wf_new_record dest: wf_manifest_lookup split: if_splits)
    next
      case None
      with k assms(1) show ?thesis
        by (auto simp: plan_keeps_def dest: wf_manifest_lookup split: option.splits if_splits)
    qed
  qed
  with s show ?thesis by (auto simp: wf_manifest_def)
next
  case (Some why)
  with assms(1) show ?thesis by (simp add: held_plan_ops)
qed

lemma plan_op_cases:
  assumes "oper \<in> set (pl_ops (plan_sync f old pb force))" "wf_manifest old"
  shows "hold_reason f pb = None \<and>
    ((\<exists>d \<in> set (wanted_files f). \<exists>ex.
        oper = Place (gp_str (de_path d)) (de_content d) (en_mode (de_entry d)) (en_owner (de_entry d)) ex
        \<and> place_ok f old pb force d ex)
     \<or> (\<exists>p r. oper = Remove (gp_str p) (rc_sha256 r) \<and> remove_ok f old pb p r))"
proof (cases "hold_reason f pb")
  case None
  show ?thesis
  proof (cases "oper \<in> set (concat (map (record_ops f pb) (records old)))")
    case True
    then obtain p r where "oper = Remove (gp_str p) (rc_sha256 r)" "remove_ok f old pb p r"
      using assms(2) by (rule record_ops_remove)
    with None show ?thesis by (intro conjI disjI2 exI [of _ p] exI [of _ r])
  next
    case False
    with assms(1) obtain d where d: "d \<in> set (wanted_files f)" and o: "oper \<in> set (file_ops old pb force d)"
      by (auto simp: plan_sync_closed [OF None])
    from o obtain ex where
      "oper = Place (gp_str (de_path d)) (de_content d) (en_mode (de_entry d)) (en_owner (de_entry d)) ex"
      "place_ok f old pb force d ex" by (rule file_ops_place)
    with d None show ?thesis by blast
  qed
next
  case (Some why)
  with assms(1) show ?thesis by (simp add: held_plan_ops)
qed

section \<open>Properties\<close>

definition sample_probe :: "string \<Rightarrow> probe" where
  "sample_probe sha = [(''/etc'', NDir), (''/etc/pve-meta'', NDir), (''/etc/pve-meta/a'', NFile 0 0 default_mode sha)]"

text \<open>C8: What a planned operation may do. A write is of a file the document or the operator wants,
  with its content, mode and owner, at a path no other writer's record holds; it creates the file where
  the probe found none, or replaces content the probe saw which differs from what is wanted and which
  either is what the manifest records or may be overwritten. A removal is of a file a document entry
  wrote, that is not wanted any more, whose entry is not merely refused, and whose content is still what
  the manifest records; an operator's list removes nothing. Nothing is planned at all while the document
  is held or the manifest's directories are not safe.\<close>

theorem plan_touches_only_its_own:
  assumes "oper \<in> set (pl_ops (plan_sync f old pb force))" "wf_manifest old"
  shows "hold_reason f pb = None \<and>
    ((\<exists>d \<in> set (wanted_files f). \<exists>ex.
        oper = Place (gp_str (de_path d)) (de_content d) (en_mode (de_entry d)) (en_owner (de_entry d)) ex
        \<and> place_ok f old pb force d ex)
     \<or> (\<exists>p r. oper = Remove (gp_str p) (rc_sha256 r) \<and> remove_ok f old pb p r))"
  using assms by (rule plan_op_cases)

theorem plan_touches_only_its_own_witness:
  "hold_reason Nothing (sample_probe ''hello'') = None
    \<and> pl_ops (plan_sync Nothing sample_manifest (sample_probe ''hello'') False) = [Remove ''/etc/pve-meta/a'' ''hello'']
    \<and> (\<exists>p r. remove_ok Nothing sample_manifest (sample_probe ''hello'') p r)"
proof -
  have ops: "pl_ops (plan_sync Nothing sample_manifest (sample_probe ''hello'') False) = [Remove ''/etc/pve-meta/a'' ''hello'']"
    by code_simp
  then have "Remove ''/etc/pve-meta/a'' ''hello'' \<in> set (pl_ops (plan_sync Nothing sample_manifest (sample_probe ''hello'') False))"
    by simp
  from plan_touches_only_its_own [OF this sample_manifest_wf] ops show ?thesis by blast
qed

text \<open>C29: The manifest a sync leaves tells what was done. For a path whose operation was not done it keeps
  the old record, or none. For every other path of a wanted file it holds the file's new record when the
  file is in sync, created, updated or overwritten, and the old record when it is refused or a local edit
  is kept; a record of a file that is not wanted stays only while the file is there and either belongs to
  another plane or its entry is refused. The manifest stays well formed.\<close>

theorem manifest_after_tells_what_was_done:
  assumes "hold_reason f pb = None" "wf_files G f" "sourced f" "wf_manifest old"
  shows "wf_manifest (manifest_after G (plan_sync f old pb force) old dones)
    \<and> map_of (records (manifest_after G (plan_sync f old pb force) old dones)) p =
        (if undone G (plan_sync f old pb force) dones p then map_of (records old) p
         else case find (\<lambda>d. de_path d = p) (wanted_files f) of
           Some d \<Rightarrow> if claims (fst (decision old pb force d)) then Some (new_record d) else map_of (records old) p
         | None \<Rightarrow>
             (case map_of (records old) p of
                Some r \<Rightarrow>
                  if assess p pb \<noteq> FMissing
                     \<and> (\<not> deletion_owner f (rc_source r) \<or> rc_entry r \<in> set (held_names (plan_entries f)))
                  then Some r else None
              | None \<Rightarrow> None))"
proof
  show "wf_manifest (manifest_after G (plan_sync f old pb force) old dones)"
    by (rule manifest_after_wf [OF assms(4) plan_manifest_wf [OF assms(4,2,3)]])
  have k: "plan_keeps f old pb force p =
      (case find (\<lambda>d. de_path d = p) (wanted_files f) of
           Some d \<Rightarrow> if claims (fst (decision old pb force d)) then Some (new_record d) else map_of (records old) p
         | None \<Rightarrow>
             (case map_of (records old) p of
                Some r \<Rightarrow>
                  if assess p pb \<noteq> FMissing
                     \<and> (\<not> deletion_owner f (rc_source r) \<or> rc_entry r \<in> set (held_names (plan_entries f)))
                  then Some r else None
              | None \<Rightarrow> None))"
  proof (cases "find (\<lambda>d. de_path d = p) (wanted_files f)")
    case None
    then have "p \<notin> de_path ` set (wanted_files f)" by (auto simp: find_None_iff)
    with None show ?thesis by (simp add: plan_keeps_def stays_def all_files_wanted split: option.split)
  next
    case (Some d)
    then have "de_path d = p" by (auto simp: find_Some_iff)
    with Some show ?thesis by (simp add: plan_keeps_def file_keeps_def)
  qed
  show "map_of (records (manifest_after G (plan_sync f old pb force) old dones)) p =
        (if undone G (plan_sync f old pb force) dones p then map_of (records old) p
         else case find (\<lambda>d. de_path d = p) (wanted_files f) of
           Some d \<Rightarrow> if claims (fst (decision old pb force d)) then Some (new_record d) else map_of (records old) p
         | None \<Rightarrow>
             (case map_of (records old) p of
                Some r \<Rightarrow>
                  if assess p pb \<noteq> FMissing
                     \<and> (\<not> deletion_owner f (rc_source r) \<or> rc_entry r \<in> set (held_names (plan_entries f)))
                  then Some r else None
              | None \<Rightarrow> None))"
    using assms(2) plan_manifest_lookup [OF assms(1) _ assms(4)]
    by (simp only: manifest_after_lookup wf_files_def k [symmetric])
qed

theorem manifest_after_tells_what_was_done_witness:
  "map_of (records (manifest_after sample_gf (plan_sync Nothing sample_manifest (sample_probe ''hello'') False) sample_manifest [False]))
      (GuestPath ''/etc/pve-meta/a'') = map_of (records sample_manifest) (GuestPath ''/etc/pve-meta/a'')"
proof -
  let ?P = "plan_sync Nothing sample_manifest (sample_probe ''hello'') False"
  have h: "hold_reason Nothing (sample_probe ''hello'') = None" by code_simp
  have "wf_files sample_gf Nothing" "sourced Nothing"
    by (simp_all add: wf_files_def sourced_def wanted_files_def no_clashes_Nil)
  from manifest_after_tells_what_was_done [OF h this sample_manifest_wf, of False "[False]" "GuestPath ''/etc/pve-meta/a''"]
  have *: "map_of (records (manifest_after sample_gf ?P sample_manifest [False])) (GuestPath ''/etc/pve-meta/a'') =
      (if undone sample_gf ?P [False] (GuestPath ''/etc/pve-meta/a'') then map_of (records sample_manifest) (GuestPath ''/etc/pve-meta/a'')
       else plan_keeps Nothing sample_manifest (sample_probe ''hello'') False (GuestPath ''/etc/pve-meta/a''))"
    by (simp add: plan_keeps_def wanted_files_def stays_def all_files_wanted split: option.split)
  have "undone sample_gf ?P [False] (GuestPath ''/etc/pve-meta/a'')" by code_simp
  with * show ?thesis by (simp only: if_True)
qed

end
