(* ===== verification/Gf_Base64.thy ===== *)
theory Gf_Base64
  imports Gf_Prelude
begin

unbundle bit_operations_syntax

text \<open>
  The base64 encoder the commit script carries file content with (pct.rs), and what \<open>base64 -d\<close> reads:
  the decoder of RFC 4648, which takes no notice of line feeds. Encoding then decoding is the identity,
  and the encoding has no character but the alphabet, the padding and line feeds.
\<close>

section \<open>Encoding\<close>

definition alphabet :: string where
  "alphabet = ''ABCDEFGHIJKLMNOPQRSTUVWXYZabcdefghijklmnopqrstuvwxyz0123456789+/''"

fun chunks3 :: "'a list \<Rightarrow> 'a list list" where
  "chunks3 [] = []"
| "chunks3 [a] = [[a]]"
| "chunks3 [a, b] = [[a, b]]"
| "chunks3 (a # b # c # rest) = [a, b, c] # chunks3 rest"

definition chunk_bits :: "string \<Rightarrow> 32 word" where
  "chunk_bits chunk =
     push_bit (8 * (3 - length chunk)) (foldl (\<lambda>acc b. push_bit 8 acc OR of_nat (code b)) 0 chunk)"

definition b64_chunk :: "string \<Rightarrow> string" where
  "b64_chunk chunk =
     map (\<lambda>k. if k \<le> length chunk
              then alphabet ! unat (drop_bit (18 - 6 * k) (chunk_bits chunk) AND 63)
              else CHR ''='') [0..<4]"

definition base64 :: "string \<Rightarrow> string" where
  "base64 bytes =
     concat (map (\<lambda>(i, chunk). (if i > 0 \<and> i mod 19 = 0 then [nl] else []) @ b64_chunk chunk)
       (enumerate 0 (chunks3 bytes)))"

section \<open>Decoding\<close>

definition b64_index :: "char \<Rightarrow> nat option" where
  "b64_index c = find (\<lambda>i. alphabet ! i = c) [0..<64]"

definition decode4 :: "nat \<Rightarrow> nat \<Rightarrow> nat \<Rightarrow> nat \<Rightarrow> string" where
  "decode4 i j k l =
     (let v = ((i * 64 + j) * 64 + k) * 64 + l in
      map char_of [v div 65536 mod 256, v div 256 mod 256, v mod 256])"

fun b64_quads :: "string \<Rightarrow> string option" where
  "b64_quads [] = Some []"
| "b64_quads (a # b # c # d # rest) =
     (case (b64_index a, b64_index b, b64_index c, b64_index d) of
        (Some i, Some j, Some k, Some l) \<Rightarrow> map_option (\<lambda>r. decode4 i j k l @ r) (b64_quads rest)
      | (Some i, Some j, Some k, None) \<Rightarrow>
          if d = CHR ''='' \<and> rest = [] then Some (take 2 (decode4 i j k 0)) else None
      | (Some i, Some j, None, None) \<Rightarrow>
          if c = CHR ''='' \<and> d = CHR ''='' \<and> rest = [] then Some (take 1 (decode4 i j 0 0)) else None
      | _ \<Rightarrow> None)"
| "b64_quads _ = None"

definition b64_decode :: "string \<Rightarrow> string option" where
  "b64_decode s = b64_quads (filter (\<lambda>c. c \<noteq> nl) s)"

section \<open>The bits of a chunk\<close>

lemma or_byte:
  fixes acc :: "32 word"
  assumes "unat acc < 2 ^ 24" "b < 256"
  shows "unat (push_bit 8 acc OR of_nat b) = unat acc * 256 + b"
proof -
  have "push_bit 8 acc OR of_nat b = push_bit 8 acc + of_nat b"
  proof (rule disjunctive_add [symmetric])
    fix n
    have "bit (of_nat b :: 32 word) n \<Longrightarrow> n < 8"
    proof (rule ccontr)
      assume "bit (of_nat b :: 32 word) n" "\<not> n < 8"
      moreover have "b < 2 ^ n"
        using assms(2) \<open>\<not> n < 8\<close> power_increasing [of 8 n "2 :: nat"] by simp
      then have "b div 2 ^ n = 0" by simp
      ultimately show False by (simp add: bit_simps bit_nat_def)
    qed
    then show "\<not> bit (push_bit 8 acc) n \<or> \<not> bit (of_nat b :: 32 word) n" by (auto simp: bit_simps)
  qed
  moreover have "unat (push_bit 8 acc) = unat acc * 256"
    using assms(1) by (simp add: push_bit_eq_mult unat_word_ariths)
  moreover have "unat (of_nat b :: 32 word) = b" using assms(2) by (simp add: unat_of_nat)
  ultimately show ?thesis using assms by (simp add: unat_word_ariths)
qed

lemma or_first: "b < 256 \<Longrightarrow> unat (push_bit 8 (0 :: 32 word) OR of_nat b) = b"
  using or_byte [of 0 b] by simp

lemma sextet: "unat (drop_bit s (w :: 32 word) AND 63) = unat w div 2 ^ s mod 64"
proof -
  have "drop_bit s w AND 63 = take_bit 6 (drop_bit s w)" by (simp add: take_bit_eq_mask mask_eq_exp_minus_1)
  then have "unat (drop_bit s w AND 63) = take_bit 6 (drop_bit s (take_bit LENGTH(32) (unat w)))"
    by (simp only: unsigned_take_bit_eq unsigned_drop_bit_eq)
  also have "take_bit LENGTH(32) (unat w) = unat w"
  proof -
    have "unat w < 2 ^ 32" using unsigned_less [of w] by simp
    then show ?thesis by (simp add: take_bit_nat_eq_self)
  qed
  finally show ?thesis by (simp add: take_bit_eq_mod drop_bit_eq_div)
qed

lemma sextet0: "unat ((w :: 32 word) AND 63) = unat w mod 64"
  using sextet [of 0 w] by simp

lemma code_lt: "code (c :: char) < 256"
  by simp

lemma chunk_bits_value:
  "unat (chunk_bits [a]) = code a * 65536"
  "unat (chunk_bits [a, b]) = code a * 65536 + code b * 256"
  "unat (chunk_bits [a, b, c]) = code a * 65536 + code b * 256 + code c"
proof -
  have 1: "unat (push_bit 8 (0 :: 32 word) OR of_nat (code a)) = code a" by (rule or_first) simp
  have a: "code a < 256" and b: "code b < 256" by simp_all
  from a have "code a < 16777216" by linarith
  then have a24: "code a < 2 ^ 24" by simp
  from a have a16: "code a < 65536" by linarith
  from a b have ab: "code a * 256 + code b < 16777216" by linarith
  have 2: "unat (push_bit 8 (push_bit 8 (0 :: 32 word) OR of_nat (code a)) OR of_nat (code b)) = code a * 256 + code b"
    using or_byte [of "push_bit 8 (0 :: 32 word) OR of_nat (code a)" "code b"] 1 a24 by simp
  have 3: "unat (push_bit 8 (push_bit 8 (push_bit 8 (0 :: 32 word) OR of_nat (code a)) OR of_nat (code b)) OR of_nat (code c))
      = (code a * 256 + code b) * 256 + code c"
  proof -
    have "code a * 256 + code b < 16777216" using a b by linarith
    then show ?thesis
      using or_byte [of "push_bit 8 (push_bit 8 (0 :: 32 word) OR of_nat (code a)) OR of_nat (code b)" "code c"] 2 by simp
  qed
  have shift: "unat (push_bit k w) = unat w * 2 ^ k" if "unat w * 2 ^ k < 2 ^ 32" for k and w :: "32 word"
  proof -
    have "unat (push_bit k w) = take_bit LENGTH(32) (push_bit k (unat w))" by (simp only: unsigned_push_bit_eq)
    also have "\<dots> = unat w * 2 ^ k" using that by (simp add: push_bit_eq_mult take_bit_nat_eq_self)
    finally show ?thesis .
  qed
  show "unat (chunk_bits [a]) = code a * 65536"
    using shift [of "push_bit 8 0 OR of_nat (code a)" 16] 1 a16 by (simp add: chunk_bits_def)
  show "unat (chunk_bits [a, b]) = code a * 65536 + code b * 256"
    using shift [of "push_bit 8 (push_bit 8 0 OR of_nat (code a)) OR of_nat (code b)" 8] 2 ab by (simp add: chunk_bits_def)
  show "unat (chunk_bits [a, b, c]) = code a * 65536 + code b * 256 + code c"
    using 3 by (simp add: chunk_bits_def)
qed

lemma recombine:
  fixes n :: nat
  assumes "n < 16777216"
  shows "((n div 262144 mod 64 * 64 + n div 4096 mod 64) * 64 + n div 64 mod 64) * 64 + n mod 64 = n"
proof -
  have q: "n div 4096 = n div 64 div 64" "n div 262144 = n div 64 div 64 div 64"
    by (simp_all flip: div_mult2_eq)
  have "n div 262144 mod 64 = n div 262144" using assms by (simp add: div_less_iff_less_mult)
  then show ?thesis by (simp only: q div_mult_mod_eq)
qed

section \<open>The alphabet\<close>

lemma four: "[0..<4] = [0, 1, 2, 3 :: nat]"
  by code_simp

lemma length_alphabet: "length alphabet = 64"
  by code_simp

lemma b64_index_nth: "i < 64 \<Longrightarrow> b64_index (alphabet ! i) = Some i"
proof -
  have "list_all (\<lambda>i. b64_index (alphabet ! i) = Some i) [0..<64]" by code_simp
  then show "i < 64 \<Longrightarrow> b64_index (alphabet ! i) = Some i" by (simp add: list_all_iff)
qed

lemma b64_index_pad: "b64_index CHR ''='' = None" "b64_index nl = None"
  by code_simp+

lemma alphabet_not_pad: "i < 64 \<Longrightarrow> alphabet ! i \<noteq> nl \<and> alphabet ! i \<noteq> CHR ''=''"
  using b64_index_nth [of i] b64_index_pad by auto

lemma b64_chunk_sextets:
  fixes chunk :: string
  defines "n \<equiv> unat (chunk_bits chunk)"
  shows "b64_chunk chunk =
    [alphabet ! (n div 262144 mod 64),
     if 1 \<le> length chunk then alphabet ! (n div 4096 mod 64) else CHR ''='',
     if 2 \<le> length chunk then alphabet ! (n div 64 mod 64) else CHR ''='',
     if 3 \<le> length chunk then alphabet ! (n mod 64) else CHR ''='']"
  unfolding b64_chunk_def n_def four by (simp add: sextet) (simp add: sextet0)

lemma b64_chunk_no_nl: "nl \<notin> set (b64_chunk chunk)"
proof -
  have "nl \<noteq> alphabet ! (k mod 64)" for k
    using alphabet_not_pad [of "k mod 64"] by (metis mod_less_divisor zero_less_numeral)
  then show ?thesis by (simp add: b64_chunk_sextets)
qed

lemma decode_full:
  assumes "n < 16777216"
  shows "decode4 (n div 262144 mod 64) (n div 4096 mod 64) (n div 64 mod 64) (n mod 64)
    = map char_of [n div 65536 mod 256, n div 256 mod 256, n mod 256]"
  by (simp only: decode4_def Let_def recombine [OF assms])

lemma char_of_code_mod: "k mod 256 = code c \<Longrightarrow> char_of k = c"
  by (metis char_of_mod_256 char_of_char)

lemma char_of_code: "char_of (code c) = (c :: char)"
  by simp

lemma three_bytes:
  fixes a b c :: nat
  assumes "a < 256" "b < 256" "c < 256"
  shows "(a * 65536 + b * 256 + c) div 65536 mod 256 = a" "(a * 65536 + b * 256 + c) div 256 mod 256 = b"
    "(a * 65536 + b * 256 + c) mod 256 = c" "a * 65536 + b * 256 + c < 16777216"
proof -
  have e: "a * 65536 + b * 256 + c = c + (a * 256 + b) * 256" by simp
  have d: "(a * 65536 + b * 256 + c) div 256 = a * 256 + b"
    unfolding e using assms(3) by (simp only: div_mult_self1 div_less)
  then show "(a * 65536 + b * 256 + c) div 256 mod 256 = b" using assms(2) by simp
  have "(a * 65536 + b * 256 + c) div 65536 = (a * 65536 + b * 256 + c) div 256 div 256"
    by (simp flip: div_mult2_eq)
  then show "(a * 65536 + b * 256 + c) div 65536 mod 256 = a" using d assms by simp
  show "(a * 65536 + b * 256 + c) mod 256 = c"
    unfolding e using assms(3) by (simp only: mod_mult_self1 mod_less)
  show "a * 65536 + b * 256 + c < 16777216" using assms by linarith
qed

lemma low_sextets_zero:
  fixes a b :: nat
  shows "(a * 65536 + b * 256) mod 64 = 0" "a * 65536 mod 64 = 0" "a * 65536 div 64 mod 64 = 0"
proof -
  have e: "a * 65536 + b * 256 = (a * 1024 + b * 4) * 64" "a * 65536 = a * 16 * 64 * 64" by simp_all
  show "(a * 65536 + b * 256) mod 64 = 0" unfolding e(1) by (rule mod_mult_self2_is_0)
  show "a * 65536 mod 64 = 0" unfolding e(2) by (rule mod_mult_self2_is_0)
  have "a * 16 * 64 * 64 div 64 = a * 16 * 64" by (rule nonzero_mult_div_cancel_right) simp
  then show "a * 65536 div 64 mod 64 = 0" unfolding e(2) by (simp only: mod_mult_self2_is_0)
qed

lemma b64_quads_chunk3: "b64_quads (b64_chunk [a, b, c] @ rest) = map_option (\<lambda>r. [a, b, c] @ r) (b64_quads rest)"
proof -
  let ?n = "code a * 65536 + code b * 256 + code c"
  have n: "?n < 16777216" by (rule three_bytes(4)) simp_all
  have "decode4 (?n div 262144 mod 64) (?n div 4096 mod 64) (?n div 64 mod 64) (?n mod 64) = [a, b, c]"
    by (simp only: decode_full [OF n] three_bytes [OF code_lt code_lt code_lt] list.map char_of_code)
  then show ?thesis
    by (cases "b64_quads rest") (simp_all add: b64_chunk_sextets chunk_bits_value b64_index_nth)
qed

lemma b64_quads_chunk2: "b64_quads (b64_chunk [a, b]) = Some [a, b]"
proof -
  let ?n = "code a * 65536 + code b * 256"
  have n: "?n + 0 < 16777216" by (rule three_bytes(4)) simp_all
  note l = low_sextets_zero(1) [of "code a" "code b"]
  have "decode4 (?n div 262144 mod 64) (?n div 4096 mod 64) (?n div 64 mod 64) (?n mod 64)
      = map char_of [?n div 65536 mod 256, ?n div 256 mod 256, ?n mod 256]"
    using n by (intro decode_full) simp
  then have "take 2 (decode4 (?n div 262144 mod 64) (?n div 4096 mod 64) (?n div 64 mod 64) 0) = [a, b]"
    using three_bytes [OF code_lt code_lt, of 0 a b] l by simp
  then show ?thesis by (simp add: b64_chunk_sextets chunk_bits_value b64_index_nth b64_index_pad)
qed

lemma b64_quads_chunk1: "b64_quads (b64_chunk [a]) = Some [a]"
proof -
  let ?n = "code a * 65536"
  have n: "?n + 0 * 256 + 0 < 16777216" by (rule three_bytes(4)) simp_all
  note l = low_sextets_zero(2,3) [of "code a"]
  have "decode4 (?n div 262144 mod 64) (?n div 4096 mod 64) (?n div 64 mod 64) (?n mod 64)
      = map char_of [?n div 65536 mod 256, ?n div 256 mod 256, ?n mod 256]"
    using n by (intro decode_full) simp
  then have "take 1 (decode4 (?n div 262144 mod 64) (?n div 4096 mod 64) 0 0) = [a]"
    using three_bytes [OF code_lt, of 0 0 a] l by simp
  then show ?thesis by (simp add: b64_chunk_sextets chunk_bits_value b64_index_nth b64_index_pad)
qed

lemma b64_quads_chunks: "b64_quads (concat (map b64_chunk (chunks3 s))) = Some s"
  by (induction s rule: chunks3.induct)
    (simp_all add: b64_quads_chunk1 b64_quads_chunk2 b64_quads_chunk3)

lemma base64_without_breaks: "filter (\<lambda>c. c \<noteq> nl) (base64 s) = concat (map b64_chunk (chunks3 s))"
proof -
  have f: "filter (\<lambda>c. c \<noteq> nl) (b64_chunk ch) = b64_chunk ch" for ch
    using b64_chunk_no_nl [of ch] by (auto simp: filter_id_conv)
  have "filter (\<lambda>c. c \<noteq> nl) (concat (map (\<lambda>(i, ch). (if i > 0 \<and> i mod 19 = 0 then [nl] else []) @ b64_chunk ch) (enumerate k chs)))
      = concat (map b64_chunk chs)" for k chs
    by (induction chs arbitrary: k) (simp_all add: f)
  then show ?thesis by (simp add: base64_def)
qed

lemma base64_chars: "c \<in> set (base64 s) \<Longrightarrow> c = nl \<or> c = CHR ''='' \<or> c \<in> set alphabet"
proof -
  assume "c \<in> set (base64 s)"
  then obtain chunk where "c = nl \<or> c \<in> set (b64_chunk chunk)" by (auto simp: base64_def split: if_splits)
  moreover have "c \<in> set (b64_chunk chunk) \<Longrightarrow> c = CHR ''='' \<or> c \<in> set alphabet"
    by (auto simp: b64_chunk_sextets length_alphabet)
  ultimately show ?thesis by blast
qed

section \<open>Properties\<close>

text \<open>C16: File content survives its way into the guest: whatever the bytes, decoding their base64 form,
  with the line break the here-document adds, gives the bytes back; and the encoded text consists of
  the alphabet, the padding and line feeds only.\<close>

theorem base64_round_trip:
  "b64_decode (base64 s @ [nl]) = Some s \<and> set (base64 s) \<subseteq> set alphabet \<union> {CHR ''='', nl}"
  using base64_chars [of _ s] by (auto simp: b64_decode_def base64_without_breaks b64_quads_chunks)

end
