(* ===== verification/Gf_Pct.thy ===== *)
theory Gf_Pct
  imports Gf_Plan Gf_Base64
begin

text \<open>
  Acting inside a guest through \<open>pct exec\<close> (pct.rs): the scripts and their text, what the shell reads
  from that text, what the shell functions of the scripts do to the guest's file system, and how their
  answers are read. The constants \<open>PRELUDE\<close>, \<open>PROBE\<close> and \<open>COMMIT\<close> are shell code: their functions are
  translated one by one (\<open>sh_p\<close>, \<open>sh_d\<close>, \<open>sh_w\<close>, \<open>sh_rmf\<close>), and a script is a constructor for its
  function library with the text that follows it. The text is read by a lexer of the part of the shell
  language the scripts keep to (\<open>sh_lex\<close>, \<open>sh_read\<close>).

  The guest is a tree of nodes with everything that may go wrong: what other processes do to the tree
  before each command, which tools fail, and whether a call runs, is killed part way or does not start.
  One command of a script is taken as one step.
\<close>

section \<open>Scripts\<close>

definition max_output :: nat where "max_output = 4 * 1024 * 1024"

definition eof_mark :: string where "eof_mark = ''PVE_META_GUEST_FILES_EOF''"

definition sh_quote :: "string \<Rightarrow> string" where
  "sh_quote s = [CHR 0x27] @ s @ [CHR 0x27]"

datatype script = ProbeScript string | CommitScript string | ReadScript string nat

definition probe_script :: "string list \<Rightarrow> script" where
  "probe_script ps = ProbeScript (concat (map (\<lambda>p. ''p '' @ sh_quote p @ [nl]) ps))"

fun expect_arg :: "expect \<Rightarrow> string" where
  "expect_arg ExMissing = ''-''"
| "expect_arg ExAny = ''*''"
| "expect_arg (ExSha256 sha) = sha"

fun op_text_lines :: "nat \<Rightarrow> fop \<Rightarrow> string" where
  "op_text_lines i (Place p c md ow ex) =
     ''w '' @ show_nat i @ '' '' @ sh_quote p @ '' '' @ sh_quote (temp_for p) @ '' '' @ sh_quote (expect_arg ex)
     @ '' '' @ mode_text md @ '' '' @ show_owner ow @ '' <<'' @ sh_quote eof_mark @ [nl]
     @ base64 c @ [nl] @ eof_mark @ [nl]"
| "op_text_lines i (Remove p sha) =
     ''rmf '' @ show_nat i @ '' '' @ sh_quote p @ '' '' @ sh_quote sha @ [nl]"

definition commit_script :: "string list \<Rightarrow> fop list \<Rightarrow> script" where
  "commit_script ds ops =
     CommitScript (concat (map (\<lambda>d. ''d '' @ sh_quote d @ [nl]) ds)
       @ concat (map (\<lambda>(i, oper). op_text_lines i oper) (enumerate 0 ops)))"

section \<open>Reading a script\<close>

text \<open>A simple command is its words and its here-document. Outside single quotes only characters without
  a meaning to the shell, blanks and one \<open><<\<close> with a quoted delimiter at the end are read; anything else
  is outside the language and gives \<^const>\<open>None\<close>.\<close>

definition sh_plain :: "char \<Rightarrow> bool" where
  "sh_plain c \<longleftrightarrow> is_alnum c \<or> c \<in> set ''-_./:@+,=''"

type_synonym sh_command = "string list \<times> string option"

definition word_of :: "string option \<Rightarrow> string" where
  "word_of w = (case w of None \<Rightarrow> [] | Some x \<Rightarrow> x)"

definition words_of :: "string option \<Rightarrow> string list" where
  "words_of w = (case w of None \<Rightarrow> [] | Some x \<Rightarrow> [x])"

definition sh_heredoc :: "string \<Rightarrow> string option" where
  "sh_heredoc s =
     (case strip_prefix [CHR ''<'', CHR 0x27] s of
        None \<Rightarrow> None
      | Some r \<Rightarrow>
          if r \<noteq> [] \<and> last r = CHR 0x27 \<and> CHR 0x27 \<notin> set (butlast r) then Some (butlast r) else None)"

fun sh_lex :: "bool \<Rightarrow> string option \<Rightarrow> string \<Rightarrow> (string list \<times> string option) option" where
  "sh_lex True w [] = None"
| "sh_lex False w [] = Some (words_of w, None)"
| "sh_lex True w (c # cs) =
     (if c = CHR 0x27 then sh_lex False w cs else sh_lex True (Some (word_of w @ [c])) cs)"
| "sh_lex False w (c # cs) =
     (if c = CHR 0x27 then sh_lex True (Some (word_of w)) cs
      else if c = CHR '' '' then map_option (\<lambda>(ws, h). (words_of w @ ws, h)) (sh_lex False None cs)
      else if c = CHR ''<'' then (if w = None then map_option (\<lambda>h. ([], Some h)) (sh_heredoc cs) else None)
      else if sh_plain c then sh_lex False (Some (word_of w @ [c])) cs
      else None)"

function sh_read :: "string list \<Rightarrow> sh_command list option" where
  "sh_read [] = Some []"
| "sh_read (l # ls) =
     (case sh_lex False None l of
        None \<Rightarrow> None
      | Some (ws, None) \<Rightarrow> map_option (\<lambda>cs. (ws, None) # cs) (sh_read ls)
      | Some (ws, Some delim) \<Rightarrow>
          if delim \<in> set ls
          then map_option (\<lambda>cs. (ws, Some (concat (map (\<lambda>x. x @ [nl]) (takeWhile (\<lambda>x. x \<noteq> delim) ls)))) # cs)
                 (sh_read (tl (dropWhile (\<lambda>x. x \<noteq> delim) ls)))
          else None)"
  by pat_completeness auto
termination
proof (relation "measure length")
  fix l and ls :: "string list" and x a b delim
  show "(tl (dropWhile (\<lambda>x. x \<noteq> delim) ls), l # ls) \<in> measure length"
    using length_dropWhile_le [of "\<lambda>x. x \<noteq> delim" ls] by simp
qed auto

definition sh_commands :: "string \<Rightarrow> sh_command list option" where
  "sh_commands body =
     (let ps = split_on nl body in sh_read (if last ps = [] then butlast ps else ps))"

section \<open>The guest's file system\<close>

datatype gent = GFile string "32 word" "32 word" "32 word" | GDir | GLink fspath | GOther

type_synonym gtree = "(fspath, gent) omap"

text \<open>Walking down directories and through symbolic links, whose targets are kept as absolute paths;
  at most forty links are followed.\<close>

function gwalk :: "nat \<Rightarrow> gtree \<Rightarrow> fspath \<Rightarrow> string list \<Rightarrow> fspath option" where
  "gwalk n m cur [] = Some cur"
| "gwalk n m cur (s # ss) =
     (case map_of m (cur @ [s]) of
        Some GDir \<Rightarrow> gwalk n m (cur @ [s]) ss
      | Some (GLink t) \<Rightarrow> (case n of 0 \<Rightarrow> None | Suc k \<Rightarrow> gwalk k m [] (t @ ss))
      | _ \<Rightarrow> None)"
  by pat_completeness auto
termination
  by (relation "measures [\<lambda>(n, _, _, _). n, \<lambda>(_, _, _, ss). length ss]") auto

definition gloc :: "gtree \<Rightarrow> string \<Rightarrow> fspath option" where
  "gloc m p =
     (let segs = fspath_of p in
      if segs = [] then None else map_option (\<lambda>d. d @ [last segs]) (gwalk 40 m [] (butlast segs)))"

definition glstat :: "gtree \<Rightarrow> string \<Rightarrow> gent option" where
  "glstat m p = (case gloc m p of None \<Rightarrow> None | Some q \<Rightarrow> map_of m q)"

fun gfollow :: "nat \<Rightarrow> gtree \<Rightarrow> fspath \<Rightarrow> (fspath \<times> gent) option" where
  "gfollow n m q =
     (case map_of m q of
        None \<Rightarrow> None
      | Some (GLink t) \<Rightarrow>
          (case n of
             0 \<Rightarrow> None
           | Suc k \<Rightarrow>
               if t = [] then Some ([], GDir)
               else case gwalk k m [] (butlast t) of None \<Rightarrow> None | Some d \<Rightarrow> gfollow k m (d @ [last t]))
      | Some e \<Rightarrow> Some (q, e))"

definition gstat :: "gtree \<Rightarrow> string \<Rightarrow> (fspath \<times> gent) option" where
  "gstat m p = (case gloc m p of None \<Rightarrow> None | Some q \<Rightarrow> gfollow 40 m q)"

text \<open>The tests \<open>[ -L ]\<close>, \<open>[ -e ]\<close>, \<open>[ -d ]\<close>, \<open>[ -f ]\<close> and the hash the scripts compare.\<close>

definition test_L :: "gtree \<Rightarrow> string \<Rightarrow> bool" where
  "test_L m p \<longleftrightarrow> (case glstat m p of Some (GLink _) \<Rightarrow> True | _ \<Rightarrow> False)"

definition test_e :: "gtree \<Rightarrow> string \<Rightarrow> bool" where
  "test_e m p \<longleftrightarrow> gstat m p \<noteq> None"

definition test_d :: "gtree \<Rightarrow> string \<Rightarrow> bool" where
  "test_d m p \<longleftrightarrow> (case gstat m p of Some (_, GDir) \<Rightarrow> True | _ \<Rightarrow> False)"

definition file_bytes :: "gtree \<Rightarrow> string \<Rightarrow> string option" where
  "file_bytes m p = (case gstat m p of Some (_, GFile c _ _ _) \<Rightarrow> Some c | _ \<Rightarrow> None)"

definition test_f :: "gtree \<Rightarrow> string \<Rightarrow> bool" where
  "test_f m p \<longleftrightarrow> file_bytes m p \<noteq> None"

definition sh_h :: "gf_libs \<Rightarrow> gtree \<Rightarrow> string \<Rightarrow> string" where
  "sh_h G m p = (case file_bytes m p of Some c \<Rightarrow> gf_sha G c | None \<Rightarrow> [])"

text \<open>\<open>rm -f\<close> of a file, a link or nothing; \<open>mv -f\<close>, which moves into a target that is a directory.\<close>

definition grm :: "gtree \<Rightarrow> string \<Rightarrow> gtree" where
  "grm m p = (case gloc m p of None \<Rightarrow> m | Some q \<Rightarrow> if map_of m q = Some GDir then m else odel q m)"

definition gmv :: "gtree \<Rightarrow> string \<Rightarrow> string \<Rightarrow> gtree option" where
  "gmv m src dst =
     (case gloc m src of
        None \<Rightarrow> None
      | Some q \<Rightarrow>
          (case map_of m q of
             None \<Rightarrow> None
           | Some n \<Rightarrow>
               (case gstat m dst of
                  Some (d, GDir) \<Rightarrow>
                    let r = d @ [last q] in
                    if map_of m r = Some GDir then None else Some (oput r n (odel q m))
                | _ \<Rightarrow> (case gloc m dst of None \<Rightarrow> None | Some r \<Rightarrow> Some (oput r n (odel q m))))))"

section \<open>The shell functions\<close>

datatype gop = OpStat | OpMkdir | OpDecode | OpOwn | OpMove | OpRm

definition sh_p :: "gf_libs \<Rightarrow> (gop \<Rightarrow> bool) \<Rightarrow> gtree \<Rightarrow> string \<Rightarrow> string list \<times> nat option" where
  "sh_p G fails m p =
     (if test_L m p then ([''L''], None)
      else case gstat m p of
             None \<Rightarrow> ([''M''], None)
           | Some (_, GDir) \<Rightarrow> ([''D''], None)
           | Some (_, GFile c u g md) \<Rightarrow>
               if fails OpStat then ([], Some 91)
               else ([''F '' @ show_nat (unat u) @ '' '' @ show_nat (unat g) @ '' '' @ show_octal (unat md)
                      @ '' '' @ gf_sha G c], None)
           | Some _ \<Rightarrow> ([''O''], None))"

definition sh_d :: "(gop \<Rightarrow> bool) \<Rightarrow> gtree \<Rightarrow> string \<Rightarrow> nat option \<times> gtree" where
  "sh_d fails m d =
     (if test_L m d then (Some 92, m)
      else if test_d m d then (None, m)
      else if test_e m d then (Some 92, m)
      else case gloc m d of
             None \<Rightarrow> (Some 92, m)
           | Some q \<Rightarrow> if fails OpMkdir then (Some 92, m) else (None, oput q GDir m))"

text \<open>What \<open>w\<close> and \<open>rmf\<close> find in the way of their expectation.\<close>

definition unexpected :: "gf_libs \<Rightarrow> gtree \<Rightarrow> string \<Rightarrow> string \<Rightarrow> bool" where
  "unexpected G m p ex \<longleftrightarrow>
     (if ex = ''*'' then False
      else if ex = ''-'' then test_e m p \<or> test_L m p
      else test_L m p \<or> \<not> test_f m p \<or> sh_h G m p \<noteq> ex)"

definition sh_w ::
  "gf_libs \<Rightarrow> (gop \<Rightarrow> bool) \<Rightarrow> gtree \<Rightarrow> string \<Rightarrow> string \<Rightarrow> string \<Rightarrow> string \<Rightarrow> string \<Rightarrow> string \<Rightarrow> string \<Rightarrow> string \<times> gtree" where
  "sh_w G fails m i p temp ex md ow body =
     (let m1 = grm m temp in
      case (gloc m1 temp, b64_decode body) of
        (Some q, Some c) \<Rightarrow>
          if fails OpDecode \<or> map_of m1 q \<noteq> None then (i @ '' failed write'', m1)
          else let m2 = oput q (GFile c 0 0 (6 * 64)) m1 in
          (case (parse_owner ow, parse_file_mode md) of
             (Some w, Some b) \<Rightarrow>
               if fails OpOwn then (i @ '' failed owner or mode'', grm m2 temp)
               else let m3 = oput q (GFile c (uid w) (gid w) b) m2 in
                 if unexpected G m3 p ex then (i @ '' changed'', grm m3 temp)
                 else if fails OpMove then (i @ '' failed rename'', grm m3 temp)
                 else (case gmv m3 temp p of
                         None \<Rightarrow> (i @ '' failed rename'', grm m3 temp)
                       | Some m4 \<Rightarrow> (i @ '' done'', m4))
           | _ \<Rightarrow> (i @ '' failed owner or mode'', grm m2 temp))
      | _ \<Rightarrow> (i @ '' failed write'', m1))"

definition sh_rmf :: "gf_libs \<Rightarrow> (gop \<Rightarrow> bool) \<Rightarrow> gtree \<Rightarrow> string \<Rightarrow> string \<Rightarrow> string \<Rightarrow> string \<times> gtree" where
  "sh_rmf G fails m i p sha =
     (if test_L m p then (i @ '' changed'', m)
      else if \<not> test_e m p then (i @ '' done'', m)
      else if \<not> test_f m p \<or> sh_h G m p \<noteq> sha then (i @ '' changed'', m)
      else if fails OpRm then (i @ '' failed removal'', m)
      else (i @ '' done'', grm m p))"

fun run_command :: "gf_libs \<Rightarrow> (gop \<Rightarrow> bool) \<Rightarrow> gtree \<Rightarrow> sh_command \<Rightarrow> string list \<times> nat option \<times> gtree" where
  "run_command G fails m (ws, here) =
     (case ws of
        [] \<Rightarrow> ([], None, m)
      | f # args \<Rightarrow>
          if f = ''p'' \<and> length args = 1 then (case sh_p G fails m (args ! 0) of (out, x) \<Rightarrow> (out, x, m))
          else if f = ''d'' \<and> length args = 1 then (case sh_d fails m (args ! 0) of (x, m') \<Rightarrow> ([], x, m'))
          else if f = ''w'' \<and> length args = 6
          then (case sh_w G fails m (args ! 0) (args ! 1) (args ! 2) (args ! 3) (args ! 4) (args ! 5) (word_of here) of
                  (out, m') \<Rightarrow> ([out], None, m'))
          else if f = ''rmf'' \<and> length args = 3
          then (case sh_rmf G fails m (args ! 0) (args ! 1) (args ! 2) of (out, m') \<Rightarrow> ([out], None, m'))
          else ([], Some 127, m))"

section \<open>Running a script\<close>

datatype fate = Runs | ToolMissing | NotRun anyhow | Killed nat anyhow

record guest =
  g_tree :: gtree
  g_time :: nat
  g_calls :: nat
  g_meddle :: "nat \<Rightarrow> gtree \<Rightarrow> gtree"
  g_fails :: "nat \<Rightarrow> gop \<Rightarrow> bool"
  g_fate :: "nat \<Rightarrow> fate"
  g_noise :: "nat \<Rightarrow> string"
  g_trace :: "(gtree \<times> gtree) list"

record pct_output =
  out_status :: int
  out_stdout :: string
  out_stderr :: string

text \<open>Before a command other processes have had their turn; the tree before and after the command is
  added to the trace, which the scripts do not read.\<close>

definition seen_tree :: "guest \<Rightarrow> gtree" where
  "seen_tree g = g_meddle g (g_time g) (g_tree g)"

definition after_command :: "guest \<Rightarrow> gtree \<Rightarrow> guest" where
  "after_command g m = g\<lparr>g_tree := m, g_time := g_time g + 1, g_trace := g_trace g @ [(seen_tree g, m)]\<rparr>"

fun run_commands :: "gf_libs \<Rightarrow> sh_command list \<Rightarrow> guest \<Rightarrow> (string list \<times> nat option) \<times> guest" where
  "run_commands G [] g = (([], None), g)"
| "run_commands G (c # cs) g =
     (case run_command G (g_fails g (g_time g)) (seen_tree g) c of
        (out, Some x, m) \<Rightarrow> ((out, Some x), after_command g m)
      | (out, None, m) \<Rightarrow>
          (case run_commands G cs (after_command g m) of ((outs, x), g') \<Rightarrow> ((out @ outs, x), g')))"

definition out_lines :: "string list \<Rightarrow> string" where
  "out_lines ls = concat (map (\<lambda>l. l @ [nl]) ls)"

text \<open>A script's text, run: its answer and the exit status, zero when it ends by itself. A text the
  shell cannot read fails with its status for syntax errors. Only the first \<open>k\<close> commands are run.\<close>

definition run_text :: "gf_libs \<Rightarrow> nat option \<Rightarrow> string \<Rightarrow> guest \<Rightarrow> (string \<times> nat) \<times> guest" where
  "run_text G k body g =
     (case sh_commands body of
        None \<Rightarrow> (([], 2), g)
      | Some cs \<Rightarrow>
          (case run_commands G (case k of None \<Rightarrow> cs | Some n \<Rightarrow> take n cs) g of
             ((outs, x), g') \<Rightarrow> ((out_lines outs, unwrap_or 0 x), g')))"

fun run_script :: "gf_libs \<Rightarrow> nat option \<Rightarrow> script \<Rightarrow> guest \<Rightarrow> (string \<times> nat) \<times> guest" where
  "run_script G k (ProbeScript body) g = run_text G k body g"
| "run_script G k (CommitScript body) g = run_text G k body g"
| "run_script G k (ReadScript p n) g =
     (let m = seen_tree g in
      ((if test_L m p then ([], 3)
        else case file_bytes m p of None \<Rightarrow> ([], 3) | Some c \<Rightarrow> (take n c, 0)), after_command g m))"

definition pct_exec :: "gf_libs \<Rightarrow> script \<Rightarrow> guest \<Rightarrow> (anyhow + pct_output) \<times> guest" where
  "pct_exec G sc g0 =
     (let n = g_calls g0; g = g0\<lparr>g_calls := n + 1\<rparr> in
      case g_fate g n of
        NotRun e \<Rightarrow> (Inl e, g)
      | ToolMissing \<Rightarrow> (Inr \<lparr>out_status = 90, out_stdout = [], out_stderr = trim (g_noise g n)\<rparr>, g)
      | Killed k e \<Rightarrow> (Inl e, snd (run_script G (Some k) sc g))
      | Runs \<Rightarrow>
          (case run_script G None sc g of
             ((out, x), g') \<Rightarrow>
               if length out > max_output then (Inl [''pct exec: more output than allowed''], g')
               else (Inr \<lparr>out_status = int x, out_stdout = out, out_stderr = trim (g_noise g n)\<rparr>, g')))"

definition show_status :: "int \<Rightarrow> string" where
  "show_status x = (if x < 0 then ''-'' @ show_nat (nat (- x)) else show_nat (nat x))"

definition exec_ok :: "gf_libs \<Rightarrow> vmid \<Rightarrow> string \<Rightarrow> script \<Rightarrow> guest \<Rightarrow> (anyhow + pct_output) \<times> guest" where
  "exec_ok G v what sc =
     then_do (pct_exec G sc) (\<lambda>out.
     lift_res (andthen (guard_err (out_status out = 0)
         [what @ '' in guest '' @ show_vmid v @ '' failed (exit '' @ show_status (out_status out) @ ''): ''
          @ debug_str (unicode_debug G) (out_stderr out)]) (\<lambda>_. Inr out)))"

section \<open>Reading the answers\<close>

definition stdout_text :: "string \<Rightarrow> string \<Rightarrow> anyhow + string" where
  "stdout_text what out =
     (case utf8_error out of Some m \<Rightarrow> Inl [what @ '' output is not text'', m] | None \<Rightarrow> Inr out)"

definition probe_num :: "gf_libs \<Rightarrow> 32 word option \<Rightarrow> string \<Rightarrow> anyhow + 32 word" where
  "probe_num G n t = ok_or [''bad number '' @ debug_str (unicode_debug G) t] n"

definition is_hex :: "char \<Rightarrow> bool" where
  "is_hex c \<longleftrightarrow> is_digit c \<or> (65 \<le> code c \<and> code c \<le> 70) \<or> (97 \<le> code c \<and> code c \<le> 102)"

definition parse_node_line :: "gf_libs \<Rightarrow> string \<Rightarrow> string \<Rightarrow> anyhow + gnode" where
  "parse_node_line G p row =
     (case split_on CHR '' '' row of
        [k] \<Rightarrow>
          if k = ''L'' then Inr NSymlink
          else if k = ''M'' then Inr NMissing
          else if k = ''O'' then Inr NOther
          else if k = ''D'' then Inr NDir
          else Inl [''probe of '' @ p @ '': unreadable answer '' @ debug_str (unicode_debug G) row]
      | [k, u, g, md, sha] \<Rightarrow>
          if k = ''F'' \<and> length sha = 64 \<and> list_all is_hex sha
          then andthen (probe_num G (parse_u32 u) u) (\<lambda>un.
               andthen (probe_num G (parse_u32 g) g) (\<lambda>gn.
               andthen (probe_num G (parse_octal md) md) (\<lambda>mn.
               Inr (NFile un gn mn (map to_lower sha)))))
          else Inl [''probe of '' @ p @ '': unreadable answer '' @ debug_str (unicode_debug G) row]
      | _ \<Rightarrow> Inl [''probe of '' @ p @ '': unreadable answer '' @ debug_str (unicode_debug G) row])"

definition parse_probe :: "gf_libs \<Rightarrow> string list \<Rightarrow> string \<Rightarrow> anyhow + probe" where
  "parse_probe G ps out =
     andthen (stdout_text ''probe'' out) (\<lambda>t.
     let ls = str_lines t in
     andthen (guard_err (length ls = length ps)
         [''probe answered '' @ show_nat (length ls) @ '' lines for '' @ show_nat (length ps) @ '' paths'']) (\<lambda>_.
     andthen (map_res (\<lambda>(p, row). andthen (parse_node_line G p row) (\<lambda>n. Inr (p, n))) (zip ps ls)) (\<lambda>kvs.
     Inr (bmap_of kvs))))"

datatype outcome = Done | Changed | Failed string

definition parse_outcome :: "gf_libs \<Rightarrow> nat \<Rightarrow> string \<Rightarrow> anyhow + outcome" where
  "parse_outcome G i row =
     (case strip_prefix (show_nat i @ '' '') row of
        Some r \<Rightarrow>
          if r = ''done'' then Inr Done
          else if r = ''changed'' then Inr Changed
          else if prefix ''failed '' r then Inr (Failed (drop 7 r))
          else Inl [''commit: unreadable answer '' @ debug_str (unicode_debug G) row]
      | None \<Rightarrow> Inl [''commit: unreadable answer '' @ debug_str (unicode_debug G) row])"

definition parse_commit :: "gf_libs \<Rightarrow> nat \<Rightarrow> string \<Rightarrow> anyhow + outcome list" where
  "parse_commit G n out =
     andthen (stdout_text ''commit'' out) (\<lambda>t.
     andthen (map_res (\<lambda>(i, row). parse_outcome G i row) (enumerate 0 (str_lines t))) (\<lambda>os.
     andthen (guard_err (length os = n)
         [''commit answered '' @ show_nat (length os) @ '' of '' @ show_nat n @ '' operations'']) (\<lambda>_.
     Inr os)))"

section \<open>The guest over \<open>pct exec\<close>\<close>

definition pct_probe :: "gf_libs \<Rightarrow> vmid \<Rightarrow> string list \<Rightarrow> guest \<Rightarrow> (anyhow + probe) \<times> guest" where
  "pct_probe G v ps =
     then_do (exec_ok G v ''probe'' (probe_script ps)) (\<lambda>out. lift_res (parse_probe G ps (out_stdout out)))"

definition pct_read :: "gf_libs \<Rightarrow> vmid \<Rightarrow> string \<Rightarrow> nat \<Rightarrow> guest \<Rightarrow> (anyhow + string option) \<times> guest" where
  "pct_read G v p mx =
     then_do (pct_exec G (ReadScript p (mx + 1))) (\<lambda>out. lift_res
       (if out_status out = 0
        then if length (out_stdout out) > mx
             then Inl [p @ '' in guest '' @ show_vmid v @ '' is above '' @ show_nat mx @ '' bytes'']
             else Inr (Some (out_stdout out))
        else if out_status out = 3 then Inr None
        else Inl [''reading '' @ p @ '' in guest '' @ show_vmid v @ '' failed (exit '' @ show_status (out_status out)
             @ ''): '' @ debug_str (unicode_debug G) (out_stderr out)]))"

definition pct_commit :: "gf_libs \<Rightarrow> vmid \<Rightarrow> string list \<Rightarrow> fop list \<Rightarrow> guest \<Rightarrow> (anyhow + outcome list) \<times> guest" where
  "pct_commit G v ds ops =
     then_do (exec_ok G v ''commit'' (commit_script ds ops)) (\<lambda>out. lift_res (parse_commit G (length ops) (out_stdout out)))"

end
