(* ===== verification/Gf_Scripts.thy ===== *)
theory Gf_Scripts
  imports Gf_Pct
begin

text \<open>
  The text of the scripts: what the shell reads from it is what was planned, whatever the file content,
  as long as paths and hashes have no quote and no line feed. Paths of entries and records and hashes
  from the probe have none.
\<close>

section \<open>Words\<close>

definition shell_safe :: "string \<Rightarrow> bool" where
  "shell_safe s \<longleftrightarrow> CHR 0x27 \<notin> set s \<and> nl \<notin> set s"

definition sh_token :: "string \<Rightarrow> string \<Rightarrow> bool" where
  "sh_token t x \<longleftrightarrow> sh_lex False None t = Some ([x], None) \<and>
     (\<forall>rest. sh_lex False None (t @ CHR '' '' # rest) = map_option (\<lambda>(ws, h). (x # ws, h)) (sh_lex False None rest))"

lemma word_of_simps [simp]: "word_of None = []" "word_of (Some x) = x" "words_of None = []" "words_of (Some x) = [x]"
  by (simp_all add: word_of_def words_of_def)

lemma lex_quoted: "CHR 0x27 \<notin> set s \<Longrightarrow> sh_lex True (Some x) (s @ CHR 0x27 # rest) = sh_lex False (Some (x @ s)) rest"
  by (induction s arbitrary: x) auto

lemma sh_plain_ordinary: "sh_plain c \<Longrightarrow> c \<noteq> CHR 0x27 \<and> c \<noteq> CHR '' '' \<and> c \<noteq> CHR ''<'' \<and> c \<noteq> nl"
  by (auto simp: sh_plain_def ascii_class_defs)

lemma lex_plain: "list_all sh_plain s \<Longrightarrow> sh_lex False (Some x) (s @ rest) = sh_lex False (Some (x @ s)) rest"
  by (induction s arbitrary: x) (auto dest: sh_plain_ordinary)

lemma lex_plain_start: "list_all sh_plain s \<Longrightarrow> s \<noteq> [] \<Longrightarrow> sh_lex False None (s @ rest) = sh_lex False (Some s) rest"
  using lex_plain [of "tl s" "[hd s]" rest] by (cases s) (auto dest: sh_plain_ordinary)

lemma token_quoted: "CHR 0x27 \<notin> set s \<Longrightarrow> sh_token (sh_quote s) s"
  using lex_quoted [of s "[]"] by (simp add: sh_token_def sh_quote_def)

lemma token_plain: "list_all sh_plain s \<Longrightarrow> s \<noteq> [] \<Longrightarrow> sh_token s s"
  using lex_plain_start [of s "[]"] lex_plain_start [of s "CHR '' '' # rest" for rest] by (auto simp: sh_token_def)

lemma lex_tokens:
  assumes "list_all2 sh_token ts xs" "ts \<noteq> []"
  shows "sh_lex False None (join '' '' ts) = Some (xs, None)"
    "sh_lex False None (join '' '' ts @ CHR '' '' # rest) = map_option (\<lambda>(ws, h). (xs @ ws, h)) (sh_lex False None rest)"
  using assms
proof (induction ts arbitrary: xs rule: induct_list012)
  case (2 t)
  {
    case 1
    then show ?case by (auto simp: sh_token_def list_all2_Cons1)
  next
    case 2
    then show ?case by (auto simp: sh_token_def list_all2_Cons1)
  }
next
  case (3 t u ts)
  {
    case 1
    then obtain x ys where xs: "xs = x # ys" "sh_token t x" "list_all2 sh_token (u # ts) ys"
      by (auto simp: list_all2_Cons1)
    from "3.IH"(3) [OF xs(3)] have "sh_lex False None (join '' '' (u # ts)) = Some (ys, None)" by simp
    with xs(1) xs(2) [unfolded sh_token_def] show ?case by simp
  next
    case 2
    then obtain x ys where xs: "xs = x # ys" "sh_token t x" "list_all2 sh_token (u # ts) ys"
      by (auto simp: list_all2_Cons1)
    from "3.IH"(4) [OF xs(3)]
    have "sh_lex False None (join '' '' (u # ts) @ CHR '' '' # rest) = map_option (\<lambda>(ws, h). (ys @ ws, h)) (sh_lex False None rest)"
      by simp
    with xs(1) xs(2) [unfolded sh_token_def] show ?case by (cases "sh_lex False None rest") auto
  }
qed simp_all

lemma lex_heredoc: "CHR 0x27 \<notin> set mark \<Longrightarrow> sh_lex False None (''<<'' @ sh_quote mark) = Some ([], Some mark)"
  by (simp add: sh_heredoc_def sh_quote_def strip_prefix_def)

section \<open>Lines\<close>

definition unlines :: "string list \<Rightarrow> string" where
  "unlines ls = concat (map (\<lambda>l. l @ [nl]) ls)"

lemma unlines_simps [simp]: "unlines [] = []" "unlines (l # ls) = l @ nl # unlines ls" "unlines (a @ b) = unlines a @ unlines b"
  by (simp_all add: unlines_def)

lemma split_unlines: "\<forall>l \<in> set ls. nl \<notin> set l \<Longrightarrow> split_on nl (unlines ls) = ls @ [[]]"
proof (induction ls)
  case Nil
  then show ?case by (simp add: split_on_def)
next
  case (Cons l ls)
  have "split_on nl (l @ nl # unlines ls) = l # split_on nl (unlines ls)"
    unfolding split_on_def using Cons.prems by (intro split_by_append) auto
  with Cons show ?case by simp
qed

lemma sh_commands_unlines: "\<forall>l \<in> set ls. nl \<notin> set l \<Longrightarrow> sh_commands (unlines ls) = sh_read ls"
  by (simp add: sh_commands_def split_unlines)

lemma unlines_split: "unlines (split_on nl s) = s @ [nl]"
proof -
  have "unlines ls = join [nl] ls @ [nl]" if "ls \<noteq> []" for ls
    using that by (induction ls rule: induct_list012) simp_all
  then show ?thesis by (simp add: join_split_on)
qed

section \<open>The commands of an operation\<close>

fun op_command :: "nat \<times> fop \<Rightarrow> sh_command" where
  "op_command (i, Place p c md ow ex) =
     ([''w'', show_nat i, p, temp_for p, expect_arg ex, mode_text md, show_owner ow], Some (base64 c @ [nl]))"
| "op_command (i, Remove p sha) = ([''rmf'', show_nat i, p, sha], None)"

definition dir_command :: "string \<Rightarrow> sh_command" where
  "dir_command d = ([''d'', d], None)"

definition probe_command :: "string \<Rightarrow> sh_command" where
  "probe_command p = ([''p'', p], None)"

fun op_safe :: "fop \<Rightarrow> bool" where
  "op_safe (Place p c md ow ex) \<longleftrightarrow> shell_safe p \<and> shell_safe (expect_arg ex)"
| "op_safe (Remove p sha) \<longleftrightarrow> shell_safe p \<and> shell_safe sha"

fun op_tokens :: "nat \<times> fop \<Rightarrow> string list" where
  "op_tokens (i, Place p c md ow ex) =
     [''w'', show_nat i, sh_quote p, sh_quote (temp_for p), sh_quote (expect_arg ex), mode_text md, show_owner ow]"
| "op_tokens (i, Remove p sha) = [''rmf'', show_nat i, sh_quote p, sh_quote sha]"

fun op_rows :: "nat \<times> fop \<Rightarrow> string list" where
  "op_rows (i, Place p c md ow ex) =
     (join '' '' (op_tokens (i, Place p c md ow ex)) @ '' <<'' @ sh_quote eof_mark) # split_on nl (base64 c) @ [eof_mark]"
| "op_rows (i, Remove p sha) = [join '' '' (op_tokens (i, Remove p sha))]"

lemma op_text_rows: "op_text_lines i oper = unlines (op_rows (i, oper))"
  by (cases oper) (simp_all add: unlines_split)

lemma digits_plain: "list_all is_digit s \<Longrightarrow> list_all sh_plain s"
  by (auto simp: list_all_iff sh_plain_def is_alnum_def)

lemma octal_plain: "list_all is_octal s \<Longrightarrow> list_all sh_plain s"
  by (auto simp: list_all_iff sh_plain_def is_alnum_def is_digit_def is_octal_def)

lemma sh_plain_zero: "sh_plain CHR ''0''"
  by (simp add: sh_plain_def is_alnum_def is_digit_def)

lemma mode_text_plain: "list_all sh_plain (mode_text md)" "mode_text md \<noteq> []"
proof -
  show "list_all sh_plain (mode_text md)"
    using octal_plain [OF show_octal_octal [of "unat md"]]
    by (auto simp: mode_text_def zero_pad_def list_all_iff sh_plain_zero)
  have "show_octal n \<noteq> []" for n by (subst show_octal.simps) simp
  then show "mode_text md \<noteq> []" by (simp add: mode_text_def zero_pad_def)
qed

lemma show_owner_plain: "list_all sh_plain (show_owner ow)" "show_owner ow \<noteq> []"
  using digits_plain [OF show_nat_digits] by (simp_all add: show_owner_def sh_plain_def)

lemma temp_for_safe: "shell_safe p \<Longrightarrow> shell_safe (temp_for p)"
proof -
  assume p: "shell_safe p"
  obtain d b where db: "(case rsplit_once CHR ''/'' p of Some r \<Rightarrow> r | None \<Rightarrow> ([], p)) = (d, b)" by fastforce
  then have "set d \<subseteq> set p" "set b \<subseteq> set p"
    by (auto simp: rsplit_once_Some split: option.splits)
  with p db show ?thesis by (auto simp: temp_for_def shell_safe_def temp_mark_def)
qed

lemma sh_plain_names: "list_all sh_plain ''w''" "list_all sh_plain ''rmf''" "list_all sh_plain ''d''" "list_all sh_plain ''p''"
  by (simp_all add: sh_plain_def is_alnum_def is_alpha_def is_lower_def)

lemma sh_plain_w: "sh_plain CHR ''w''"
  using sh_plain_names by simp

lemma show_nat_token: "sh_token (show_nat i) (show_nat i)"
  by (rule token_plain) (simp_all add: digits_plain show_nat_digits)

lemma name_tokens: "sh_token ''w'' ''w''" "sh_token ''rmf'' ''rmf''" "sh_token ''d'' ''d''" "sh_token ''p'' ''p''"
  using sh_plain_names by (auto intro: token_plain)

lemma op_tokens_nonempty: "op_tokens io \<noteq> []"
  by (cases io rule: op_tokens.cases) simp_all

lemma op_tokens_read:
  assumes "op_safe oper"
  shows "list_all2 sh_token (op_tokens (i, oper)) (fst (op_command (i, oper)))"
proof (cases oper)
  case (Place p c md ow ex)
  with assms have "shell_safe p" "shell_safe (temp_for p)" "shell_safe (expect_arg ex)" by (simp_all add: temp_for_safe)
  then show ?thesis
    unfolding Place op_tokens.simps op_command.simps fst_conv
    using name_tokens(1) show_nat_token mode_text_plain show_owner_plain
    by (intro list_all2_Cons [THEN iffD2] conjI list_all2_Nil2 [THEN iffD2] token_quoted token_plain)
      (simp_all add: shell_safe_def sh_plain_w digits_plain show_nat_digits)
next
  case (Remove p sha)
  with assms show ?thesis
    by (simp add: name_tokens show_nat_token token_quoted shell_safe_def)
qed

lemma eof_mark_row: "eof_mark \<notin> set (split_on nl (base64 c))"
proof
  assume "eof_mark \<in> set (split_on nl (base64 c))"
  then have "set eof_mark \<subseteq> set (base64 c)" unfolding split_on_def by (rule split_by_elems)
  then have "CHR ''_'' \<in> set (base64 c)" by (auto simp: eof_mark_def)
  then have "CHR ''_'' \<in> set alphabet" using base64_chars [of "CHR ''_''" c] by auto
  then show False by (simp add: alphabet_def)
qed

lemma takeWhile_until: "y \<notin> set xs \<Longrightarrow> takeWhile (\<lambda>x. x \<noteq> y) (xs @ y # ys) = xs"
  "y \<notin> set xs \<Longrightarrow> dropWhile (\<lambda>x. x \<noteq> y) (xs @ y # ys) = y # ys"
  by (induction xs) auto

lemma sh_read_op:
  assumes "op_safe oper"
  shows "sh_read (op_rows (i, oper) @ ls) = map_option (\<lambda>cs. op_command (i, oper) # cs) (sh_read ls)"
proof (cases oper)
  case (Place p c md ow ex)
  note t = op_tokens_read [OF assms, of i]
  have "CHR 0x27 \<notin> set eof_mark" by (simp add: eof_mark_def)
  from lex_heredoc [OF this] lex_tokens(2) [OF t op_tokens_nonempty, of "''<<'' @ sh_quote eof_mark"]
  have "sh_lex False None (join '' '' (op_tokens (i, oper)) @ '' <<'' @ sh_quote eof_mark) = Some (fst (op_command (i, oper)), Some eof_mark)"
    using Place by simp
  moreover have "concat (map (\<lambda>x. x @ [nl]) (split_on nl (base64 c))) = base64 c @ [nl]"
    using unlines_split by (simp add: unlines_def)
  ultimately show ?thesis
    using Place eof_mark_row [of c] by (simp add: takeWhile_until del: op_tokens.simps)
next
  case (Remove p sha)
  from lex_tokens(1) [OF op_tokens_read [OF assms, of i] op_tokens_nonempty] Remove show ?thesis by (simp del: op_tokens.simps)
qed

section \<open>Whole scripts\<close>

lemma sh_read_ops:
  assumes "list_all op_safe ops"
  shows "sh_read (concat (map op_rows (enumerate k ops)) @ ls)
    = map_option (\<lambda>cs. map op_command (enumerate k ops) @ cs) (sh_read ls)"
  using assms
proof (induction ops arbitrary: k)
  case Nil
  then show ?case by (simp add: option.map_ident)
next
  case (Cons oper ops)
  then show ?case
    by (cases "sh_read ls") (simp_all add: sh_read_op)
qed

lemma lex_simple:
  assumes "sh_token n n" "CHR 0x27 \<notin> set d"
  shows "sh_lex False None (n @ '' '' @ sh_quote d) = Some ([n, d], None)"
  using lex_tokens(1) [of "[n, sh_quote d]" "[n, d]"] assms by (simp add: token_quoted)

lemma sh_read_named:
  assumes "sh_token n n" "list_all shell_safe ds"
  shows "sh_read (map (\<lambda>d. n @ '' '' @ sh_quote d) ds @ ls) = map_option (\<lambda>cs. map (\<lambda>d. ([n, d], None)) ds @ cs) (sh_read ls)"
  using assms(2)
proof (induction ds)
  case Nil
  then show ?case by (simp add: option.map_ident)
next
  case (Cons d ds)
  then have "sh_lex False None (n @ '' '' @ sh_quote d) = Some ([n, d], None)"
    by (intro lex_simple assms(1)) (simp add: shell_safe_def)
  with Cons show ?case by (cases "sh_read ls") simp_all
qed

lemma rows_text: "concat (map (\<lambda>d. f d @ [nl]) ds) = unlines (map f ds)"
  by (simp add: unlines_def comp_def)

lemma plain_no_nl: "list_all sh_plain s \<Longrightarrow> nl \<notin> set s"
  using sh_plain_ordinary by (auto simp: list_all_iff)

lemma join_no_nl: "nl \<notin> set sep \<Longrightarrow> (\<And>t. t \<in> set ts \<Longrightarrow> nl \<notin> set t) \<Longrightarrow> nl \<notin> set (join sep ts)"
  using set_join [of sep ts] by blast

lemma op_tokens_no_nl:
  assumes "op_safe oper" "t \<in> set (op_tokens (i, oper))"
  shows "nl \<notin> set t"
proof (cases oper)
  case (Place p c md ow ex)
  with assms have "shell_safe p" "shell_safe (temp_for p)" "shell_safe (expect_arg ex)" by (simp_all add: temp_for_safe)
  with assms(2) Place show ?thesis
    using plain_no_nl [OF mode_text_plain(1), of md] plain_no_nl [OF show_owner_plain(1), of ow]
      plain_no_nl [OF digits_plain [OF show_nat_digits], of i]
    by (auto simp: sh_quote_def shell_safe_def)
next
  case (Remove p sha)
  with assms show ?thesis
    using plain_no_nl [OF digits_plain [OF show_nat_digits], of i] by (auto simp: sh_quote_def shell_safe_def)
qed

lemma op_rows_no_nl:
  assumes "op_safe oper" "l \<in> set (op_rows (i, oper))"
  shows "nl \<notin> set l"
proof -
  have j: "nl \<notin> set (join '' '' (op_tokens (i, oper)))"
    using op_tokens_no_nl [OF assms(1)] by (intro join_no_nl) auto
  have e: "nl \<notin> set eof_mark" by (simp add: eof_mark_def)
  show ?thesis
  proof (cases oper)
    case (Place p c md ow ex)
    with assms(2) have "l = join '' '' (op_tokens (i, oper)) @ '' <<'' @ sh_quote eof_mark
        \<or> l \<in> set (split_on nl (base64 c)) \<or> l = eof_mark" by (auto simp del: op_tokens.simps)
    with j e show ?thesis using split_on_piece [of l nl] by (elim disjE) (simp_all add: sh_quote_def del: op_tokens.simps)
  next
    case (Remove p sha)
    with assms(2) j show ?thesis by (simp del: op_tokens.simps)
  qed
qed

lemma commit_body_rows:
  "commit_script ds ops = CommitScript (unlines (map (\<lambda>d. ''d '' @ sh_quote d) ds @ concat (map op_rows (enumerate 0 ops))))"
proof -
  have "concat (map (\<lambda>(i, oper). op_text_lines i oper) xs) = unlines (concat (map op_rows xs))" for xs
    by (induction xs) (auto simp: op_text_rows)
  then show ?thesis using rows_text [of "\<lambda>d. ''d '' @ sh_quote d" ds] by (simp add: commit_script_def)
qed

lemma in_enumerate: "(i, x) \<in> set (enumerate k xs) \<Longrightarrow> x \<in> set xs"
  by (auto simp: in_set_enumerate_eq)

lemma commit_script_commands:
  assumes "list_all shell_safe ds" "list_all op_safe ops" "commit_script ds ops = CommitScript body"
  shows "sh_commands body = Some (map dir_command ds @ map op_command (enumerate 0 ops))"
proof -
  let ?d = "map (\<lambda>d. ''d'' @ '' '' @ sh_quote d) ds" and ?o = "concat (map op_rows (enumerate 0 ops))"
  have b: "body = unlines (?d @ ?o)" using assms(3) by (simp add: commit_body_rows)
  have "\<forall>l \<in> set (?d @ ?o). nl \<notin> set l"
    using assms(1,2) op_rows_no_nl in_enumerate
    by (fastforce simp: list_all_iff shell_safe_def sh_quote_def simp del: op_rows.simps)
  then have "sh_commands body = sh_read (?d @ ?o)" unfolding b by (rule sh_commands_unlines)
  also have "\<dots> = Some (map (\<lambda>d. ([''d'', d], None)) ds @ map op_command (enumerate 0 ops))"
    using sh_read_named [OF name_tokens(3) assms(1), of ?o] sh_read_ops [OF assms(2), of 0 "[]"] by simp
  finally show ?thesis by (simp add: dir_command_def)
qed

lemma probe_script_commands:
  assumes "list_all shell_safe ps" "probe_script ps = ProbeScript body"
  shows "sh_commands body = Some (map probe_command ps)"
proof -
  let ?p = "map (\<lambda>d. ''p'' @ '' '' @ sh_quote d) ps"
  have b: "body = unlines ?p"
    using assms(2) rows_text [of "\<lambda>d. ''p '' @ sh_quote d" ps] by (simp add: probe_script_def)
  have "\<forall>l \<in> set ?p. nl \<notin> set l" using assms(1) by (auto simp: list_all_iff shell_safe_def sh_quote_def)
  then have "sh_commands body = sh_read (?p @ [])" unfolding b by (simp add: sh_commands_unlines)
  also have "\<dots> = Some (map (\<lambda>d. ([''p'', d], None)) ps)"
    using sh_read_named [OF name_tokens(4) assms(1), of "[]"] by simp
  finally show ?thesis by (simp add: probe_command_def)
qed

section \<open>What is planned is safe to quote\<close>

definition probe_safe :: "probe \<Rightarrow> bool" where
  "probe_safe pb \<longleftrightarrow> (\<forall>(p, n) \<in> set pb. \<forall>u g md sha. n = NFile u g md sha \<longrightarrow> shell_safe sha \<and> sha \<noteq> ''*'' \<and> sha \<noteq> ''-'')"

lemma seg_byte_safe: "seg_byte b \<Longrightarrow> b \<noteq> CHR 0x27 \<and> b \<noteq> nl"
  by (auto simp: seg_byte_def segment_byte_def ascii_class_defs)

lemma abs_text_safe: "list_all seg_ok segs \<Longrightarrow> shell_safe (abs_text segs)"
proof (induction segs)
  case (Cons s segs)
  then have "\<forall>b \<in> set s. seg_byte b" by (simp add: seg_ok_def list_all_iff)
  then have "CHR 0x27 \<notin> set s \<and> nl \<notin> set s" using seg_byte_safe by blast
  with Cons show ?case by (simp add: shell_safe_def)
qed (simp add: shell_safe_def)

lemma valid_gp_safe: "valid_gp p \<Longrightarrow> shell_safe (gp_str p)"
  using abs_text_safe [of "gp_segs p"] by (simp add: valid_gp_def segs_ok_def)

lemma directories_safe: "valid_gp p \<Longrightarrow> d \<in> set (directories p) \<Longrightarrow> shell_safe d"
proof -
  assume v: "valid_gp p" and "d \<in> set (directories p)"
  then obtain q where d: "d = abs_text q" "strict_prefix q (gp_segs p)" by (auto simp: directories_segs)
  then have "list_all seg_ok q"
    using v by (auto simp: valid_gp_def segs_ok_def strict_prefix_def prefix_def)
  with d show ?thesis by (simp add: abs_text_safe)
qed

lemma guest_root_safe: "shell_safe guest_root" "shell_safe manifest_path" "\<forall>d \<in> set manifest_directories. shell_safe d"
  by (simp_all add: shell_safe_def guest_root_def manifest_path_def manifest_name_def manifest_directories_def)

lemma assess_sha_safe:
  assumes "probe_safe pb" "assess p pb = FPresent sha md ow"
  shows "shell_safe sha" "sha \<noteq> ''*''" "sha \<noteq> ''-''"
proof -
  have "(gp_str p, NFile (uid ow) (gid ow) md sha) \<in> set pb"
    using assess_present(1) [OF assms(2)] by (auto simp: node_of_def dest: map_of_SomeD split: option.splits)
  with assms(1) show "shell_safe sha" "sha \<noteq> ''*''" "sha \<noteq> ''-''" by (auto simp: probe_safe_def)
qed

lemma plan_ops_safe:
  assumes "wf_manifest old" "wf_files G f" "probe_safe pb"
  shows "list_all op_safe (pl_ops (plan_sync f old pb force))"
proof (cases "hold_reason f pb")
  case None
  have "op_safe oper" if o: "oper \<in> set (file_ops old pb force d)" and d: "d \<in> set (wanted_files f)" for oper d
  proof -
    from o obtain ex where op: "oper = Place (gp_str (de_path d)) (de_content d) (en_mode (de_entry d)) (en_owner (de_entry d)) ex"
      and ok: "place_ok f old pb force d ex" by (rule file_ops_place)
    have "valid_gp (de_path d)" using assms(2) d by (simp add: wf_files_def list_all_iff wf_desired_def)
    moreover have "shell_safe (expect_arg ex)"
      using ok assess_sha_safe(1) [OF assms(3)] by (cases ex) (auto simp: place_ok_def shell_safe_def)
    ultimately show ?thesis by (simp add: op valid_gp_safe)
  qed
  moreover have "op_safe oper" if "oper \<in> set (concat (map (record_ops f pb) (records old)))" for oper
  proof -
    from that assms(1) obtain p r where op: "oper = Remove (gp_str p) (rc_sha256 r)" and ok: "remove_ok f old pb p r"
      by (rule record_ops_remove)
    then have "valid_gp p" using assms(1) by (auto simp: remove_ok_def wf_record_def dest: wf_manifest_lookup)
    moreover have "shell_safe (rc_sha256 r)"
      using ok assess_sha_safe(1) [OF assms(3)] by (auto simp: remove_ok_def)
    ultimately show ?thesis by (simp add: op valid_gp_safe)
  qed
  ultimately show ?thesis unfolding plan_sync_closed(1) [OF None] list_all_iff by auto
next
  case (Some why)
  then show ?thesis by (simp add: held_plan_ops)
qed

lemma plan_dirs_safe:
  assumes "wf_files G f"
  shows "list_all shell_safe (pl_dirs (plan_sync f old pb force))"
proof (cases "hold_reason f pb")
  case None
  have "shell_safe d" if "d \<in> set (pl_dirs (plan_sync f old pb force))" for d
    using that assms directories_safe guest_root_safe(1) unfolding plan_sync_closed(4) [OF None]
    by (auto simp: file_dirs_def wf_files_def wf_desired_def list_all_iff split: if_splits)
  then show ?thesis by (simp add: list_all_iff)
next
  case (Some why)
  then show ?thesis by (simp add: held_plan_ops)
qed

section \<open>Properties\<close>

text \<open>C18: The scripts say what was planned, whatever the files hold. The directories and operations of a
  plan made from well-formed files, a well-formed manifest and hashes without quotes have nothing the
  shell could read otherwise: reading the commit script gives one command per directory and per
  operation, in order, with exactly the planned path, temporary path, expectation, mode and owner as its
  words, and the here-document of a write decodes to exactly the planned content.\<close>

theorem commit_script_says_what_was_planned:
  fixes f old pb force
  defines "P \<equiv> plan_sync f old pb force"
  assumes "wf_files G f" "wf_manifest old" "probe_safe pb"
  shows "\<exists>body. commit_script (pl_dirs P) (pl_ops P) = CommitScript body
    \<and> sh_commands body = Some (map dir_command (pl_dirs P) @ map op_command (enumerate 0 (pl_ops P)))
    \<and> (\<forall>i p c md ow ex. b64_decode (the (snd (op_command (i, Place p c md ow ex)))) = Some c)"
proof -
  obtain body where b: "commit_script (pl_dirs P) (pl_ops P) = CommitScript body" by (simp add: commit_script_def)
  have "sh_commands body = Some (map dir_command (pl_dirs P) @ map op_command (enumerate 0 (pl_ops P)))"
    using plan_dirs_safe [OF assms(2)] plan_ops_safe [OF assms(3,2,4)]
    by (intro commit_script_commands b) (simp_all add: P_def)
  moreover have "b64_decode (base64 c @ [nl]) = Some c" for c
    by (simp add: b64_decode_def base64_without_breaks b64_quads_chunks)
  ultimately show ?thesis using b by simp
qed

theorem commit_script_says_what_was_planned_witness:
  "\<exists>body. commit_script [] [Remove ''/etc/pve-meta/a'' ''hello''] = CommitScript body
    \<and> sh_commands body = Some [([''rmf'', ''0'', ''/etc/pve-meta/a'', ''hello''], None)]"
proof -
  let ?P = "plan_sync Nothing sample_manifest (sample_probe ''hello'') False"
  have f: "wf_files sample_gf Nothing" by (simp add: wf_files_def wanted_files_def no_clashes_Nil)
  have s: "probe_safe (sample_probe ''hello'')"
    by (simp add: probe_safe_def sample_probe_def shell_safe_def)
  have p: "pl_ops ?P = [Remove ''/etc/pve-meta/a'' ''hello'']" "pl_dirs ?P = []" by code_simp+
  have c: "map op_command (enumerate 0 [Remove ''/etc/pve-meta/a'' ''hello'']) = [([''rmf'', ''0'', ''/etc/pve-meta/a'', ''hello''], None)]"
    by code_simp
  from commit_script_says_what_was_planned [OF f sample_manifest_wf s, of False] c show ?thesis
    unfolding p by (elim exE conjE) (rule exI, simp only: list.map append_Nil)
qed

end
