(* ===== verification/Gf_Shell.thy ===== *)
theory Gf_Shell
  imports Gf_Scripts
begin

text \<open>
  What one command of a script can do to the guest's tree, whatever the tree looks like at that moment:
  the nodes it may take away and the nodes it may put there. Locations are where the kernel arrives,
  through whatever symbolic links there are, not the paths the script names.
\<close>

section \<open>Locations\<close>

definition is_temp :: "fspath \<Rightarrow> bool" where
  "is_temp q \<longleftrightarrow> q \<noteq> [] \<and> sublist temp_mark (last q)"

lemma gloc_last: "gloc m p = Some q \<Longrightarrow> q \<noteq> [] \<and> last q = last (fspath_of p)"
  by (auto simp: gloc_def Let_def split: if_splits)

lemma last_filter_nonempty: "xs \<noteq> [] \<Longrightarrow> P (last xs) \<Longrightarrow> last (filter P xs) = last xs"
  by (induction xs rule: rev_induct) auto

lemma last_split_append: "c \<notin> set b \<Longrightarrow> last (split_on c (a @ c # b)) = b"
proof (induction a)
  case Nil
  then have "split_by (\<lambda>x. x = c) b = [b]" by (intro split_by_none) auto
  then show ?case by (simp add: split_on_def)
next
  case (Cons x a)
  obtain y ys where "split_by (\<lambda>z. z = c) (a @ c # b) = y # ys" by (meson neq_Nil_conv split_by_nonempty)
  moreover have "ys \<noteq> []"
  proof
    assume "ys = []"
    with calculation have "join [c] [y] = a @ c # b" using join_split_on [of c "a @ c # b"] by (simp add: split_on_def)
    moreover have "c \<notin> set y" using split_by_free [of y "\<lambda>z. z = c" "a @ c # b"] \<open>split_by (\<lambda>z. z = c) (a @ c # b) = y # ys\<close> by auto
    ultimately show False by auto
  qed
  ultimately show ?case using Cons by (auto simp: split_on_def)
qed

lemma temp_for_last_segment:
  obtains b where "last (fspath_of (temp_for p)) = ''.'' @ b @ temp_mark @ ''.tmp''"
proof -
  obtain d b where db: "(case rsplit_once CHR ''/'' p of Some r \<Rightarrow> r | None \<Rightarrow> ([], p)) = (d, b)" by fastforce
  then have nb: "CHR ''/'' \<notin> set b"
    by (auto simp: rsplit_once_def split: option.splits if_splits dest: set_takeWhileD)
  let ?x = "''.'' @ b @ temp_mark @ ''.tmp''"
  have t: "temp_for p = d @ CHR ''/'' # ?x" using db by (simp add: temp_for_def)
  have "CHR ''/'' \<notin> set ?x" using nb by (simp add: temp_mark_def)
  then have l: "last (split_on CHR ''/'' (temp_for p)) = ?x" unfolding t by (rule last_split_append)
  have "last (fspath_of (temp_for p)) = last (split_on CHR ''/'' (temp_for p))"
    unfolding fspath_of_def by (rule last_filter_nonempty) (simp_all add: l)
  with l show thesis by (intro that) simp
qed

lemma temp_location: "gloc m (temp_for p) = Some q \<Longrightarrow> is_temp q"
proof -
  assume "gloc m (temp_for p) = Some q"
  moreover obtain b where "last (fspath_of (temp_for p)) = ''.'' @ b @ temp_mark @ ''.tmp''" by (rule temp_for_last_segment)
  ultimately show ?thesis
    using gloc_last sublist_middle [of temp_mark "''.'' @ b" "''.tmp''"] by (auto simp: is_temp_def)
qed

section \<open>Removing and moving\<close>

lemma grm_other: "\<not> is_temp q \<Longrightarrow> map_of (grm m (temp_for p)) q = map_of m q"
  using temp_location [of m p] by (auto simp: grm_def split: option.splits)

lemma gfollow_at:
  "gfollow n m q = (case map_of m q of Some (GLink t) \<Rightarrow> gfollow n m q | None \<Rightarrow> None | Some e \<Rightarrow> Some (q, e))"
  by (auto split: option.splits gent.splits)

lemma not_link_gstat:
  assumes "\<not> test_L m p" "gloc m p = Some q"
  shows "gstat m p = map_option (\<lambda>e. (q, e)) (map_of m q)"
proof -
  have "\<forall>t. map_of m q \<noteq> Some (GLink t)" using assms by (auto simp: test_L_def glstat_def)
  then show ?thesis using assms(2) by (subst gstat_def) (auto split: option.splits gent.splits)
qed

lemma missing_location:
  assumes "\<not> test_e m p" "\<not> test_L m p" "gloc m p = Some q"
  shows "map_of m q = None"
  using assms(1) not_link_gstat [OF assms(2,3)] by (simp add: test_e_def)

lemma file_location:
  assumes "\<not> test_L m p" "test_f m p" "gloc m p = Some q"
  obtains c u g b where "map_of m q = Some (GFile c u g b)" "sh_h G m p = gf_sha G c" "file_bytes m p = Some c"
proof -
  from assms(2) not_link_gstat [OF assms(1,3)] obtain c u g b where
    "map_of m q = Some (GFile c u g b)" "gstat m p = Some (q, GFile c u g b)"
    by (auto simp: test_f_def file_bytes_def split: option.splits gent.splits prod.splits)
  then show thesis by (intro that) (simp_all add: sh_h_def file_bytes_def)
qed

lemma test_f_location: "test_f m p \<Longrightarrow> \<exists>q. gloc m p = Some q"
  by (auto simp: test_f_def file_bytes_def gstat_def split: option.splits)

section \<open>What a command may change\<close>

text \<open>The nodes an operation may take away: the temporary file apart, a file with the content it expects,
  or, where it expects nothing in particular, what has the name it writes.\<close>

fun may_lose :: "gf_libs \<Rightarrow> fop \<Rightarrow> fspath \<Rightarrow> gent \<Rightarrow> bool" where
  "may_lose G (Place p c md ow ex) q n \<longleftrightarrow>
     (case ex of
        ExMissing \<Rightarrow> False
      | ExSha256 sha \<Rightarrow> (case n of GFile c0 _ _ _ \<Rightarrow> gf_sha G c0 = sha | _ \<Rightarrow> False)
      | ExAny \<Rightarrow> last q = last (fspath_of p))"
| "may_lose G (Remove p sha) q n \<longleftrightarrow> (case n of GFile c0 _ _ _ \<Rightarrow> gf_sha G c0 = sha | _ \<Rightarrow> False)"

text \<open>The nodes it may put in place: the file as planned, under the planned name.\<close>

fun may_gain :: "fop \<Rightarrow> fspath \<Rightarrow> gent \<Rightarrow> bool" where
  "may_gain (Place p c md ow ex) q n \<longleftrightarrow> last q = last (fspath_of p) \<and> n = GFile c (uid ow) (gid ow) md"
| "may_gain (Remove p sha) q n \<longleftrightarrow> False"

definition op_step_ok :: "gf_libs \<Rightarrow> fop \<Rightarrow> gtree \<Rightarrow> gtree \<Rightarrow> bool" where
  "op_step_ok G oper m m' \<longleftrightarrow>
     (\<forall>q. map_of m' q \<noteq> map_of m q \<longrightarrow> is_temp q \<or>
        ((\<forall>n. map_of m q = Some n \<longrightarrow> may_lose G oper q n) \<and> (\<forall>n. map_of m' q = Some n \<longrightarrow> may_gain oper q n)))"

definition dir_step_ok :: "gtree \<Rightarrow> gtree \<Rightarrow> bool" where
  "dir_step_ok m m' \<longleftrightarrow> (\<forall>q. map_of m' q \<noteq> map_of m q \<longrightarrow> map_of m q = None \<and> map_of m' q = Some GDir)"

lemma op_step_refl: "op_step_ok G oper m m"
  by (simp add: op_step_ok_def)

lemma op_step_temps: "(\<And>q. \<not> is_temp q \<Longrightarrow> map_of m' q = map_of m q) \<Longrightarrow> op_step_ok G oper m m'"
  by (auto simp: op_step_ok_def)

lemma sh_d_ok: "sh_d fails m d = (x, m') \<Longrightarrow> dir_step_ok m m'"
  using missing_location [of m d] by (auto simp: sh_d_def dir_step_ok_def split: if_splits option.splits)

lemma sh_rmf_ok:
  assumes "sh_rmf G fails m i p sha = (out, m')"
  shows "op_step_ok G (Remove p sha) m m'"
proof (cases "m' = m")
  case True
  then show ?thesis by (simp add: op_step_refl)
next
  case False
  with assms have l: "\<not> test_L m p" "test_f m p" "sh_h G m p = sha" and m': "m' = grm m p"
    by (auto simp: sh_rmf_def split: if_splits)
  obtain q where q: "gloc m p = Some q" using test_f_location [OF l(2)] by blast
  obtain c u g b where n: "map_of m q = Some (GFile c u g b)" "sh_h G m p = gf_sha G c"
    by (rule file_location [OF l(1,2) q])
  have "m' = odel q m" using m' q n by (simp add: grm_def)
  with n l(3) show ?thesis by (auto simp: op_step_ok_def)
qed

lemma gmv_ok:
  assumes mv: "gmv m3 (temp_for p) p = Some m4"
    and q: "gloc m3 (temp_for p) = Some q" "map_of m3 q = Some (GFile c (uid ow) (gid ow) b)"
    and ex: "\<not> unexpected G m3 p (expect_arg ex)" "\<And>sha. ex = ExSha256 sha \<Longrightarrow> sha \<noteq> ''*'' \<and> sha \<noteq> ''-''"
  shows "op_step_ok G (Place p c b ow ex) m3 m4"
proof -
  from mv q consider d where "gstat m3 p = Some (d, GDir)" "m4 = oput (d @ [last q]) (GFile c (uid ow) (gid ow) b) (odel q m3)"
    | r where "gloc m3 p = Some r" "m4 = oput r (GFile c (uid ow) (gid ow) b) (odel q m3)"
    by (auto simp: gmv_def Let_def split: option.splits gent.splits if_splits prod.splits)
  then show ?thesis
  proof cases
    case 1
    have "is_temp q" using q(1) by (rule temp_location)
    then have "is_temp (d @ [last q])" by (auto simp: is_temp_def)
    with \<open>is_temp q\<close> 1 show ?thesis by (intro op_step_temps) auto
  next
    case 2
    have "is_temp q" using q(1) by (rule temp_location)
    have lose: "may_lose G (Place p c b ow ex) r n" if n: "map_of m3 r = Some n" for n
    proof (cases ex)
      case ExMissing
      then have "\<not> test_e m3 p" "\<not> test_L m3 p" using ex(1) by (auto simp: unexpected_def split: if_splits)
      from missing_location [OF this 2(1)] n show ?thesis by simp
    next
      case (ExSha256 sha)
      then have l: "\<not> test_L m3 p" "test_f m3 p" "sh_h G m3 p = sha"
        using ex by (auto simp: unexpected_def split: if_splits)
      obtain c0 u g b0 where "map_of m3 r = Some (GFile c0 u g b0)" "sh_h G m3 p = gf_sha G c0"
        by (rule file_location [OF l(1,2) 2(1)])
      with n l(3) ExSha256 show ?thesis by auto
    next
      case ExAny
      then show ?thesis using gloc_last [OF 2(1)] by simp
    qed
    show ?thesis
      unfolding op_step_ok_def
    proof (intro allI impI)
      fix z assume "map_of m4 z \<noteq> map_of m3 z"
      then have "z = q \<or> z = r" using 2(2) by (auto split: if_splits)
      then show "is_temp z \<or> ((\<forall>n. map_of m3 z = Some n \<longrightarrow> may_lose G (Place p c b ow ex) z n)
          \<and> (\<forall>n. map_of m4 z = Some n \<longrightarrow> may_gain (Place p c b ow ex) z n))"
        using \<open>is_temp q\<close> lose gloc_last [OF 2(1)] 2(2) by auto
    qed
  qed
qed

definition same_but_temps :: "gtree \<Rightarrow> gtree \<Rightarrow> bool" where
  "same_but_temps m m' \<longleftrightarrow> (\<forall>q. \<not> is_temp q \<longrightarrow> map_of m' q = map_of m q)"

lemma same_but_temps_trans: "same_but_temps a b \<Longrightarrow> same_but_temps b c \<Longrightarrow> same_but_temps a c"
  by (simp add: same_but_temps_def)

lemma same_but_temps_grm: "same_but_temps m (grm m (temp_for p))"
  by (simp add: same_but_temps_def grm_other)

lemma same_but_temps_oput: "is_temp q \<Longrightarrow> same_but_temps m (oput q n m)"
  by (auto simp: same_but_temps_def)

lemma same_but_temps_step:
  assumes "same_but_temps a b" "op_step_ok G oper b c"
  shows "op_step_ok G oper a c"
  unfolding op_step_ok_def
proof (intro allI impI)
  fix q assume "map_of c q \<noteq> map_of a q"
  then show "is_temp q \<or> ((\<forall>n. map_of a q = Some n \<longrightarrow> may_lose G oper q n) \<and> (\<forall>n. map_of c q = Some n \<longrightarrow> may_gain oper q n))"
    using assms(1) spec [OF assms(2) [unfolded op_step_ok_def], of q] by (cases "is_temp q") (simp_all add: same_but_temps_def)
qed

lemma same_but_temps_ok: "same_but_temps a b \<Longrightarrow> op_step_ok G oper a b"
  by (auto simp: same_but_temps_def intro: op_step_temps)

text \<open>Nodes that are added do not change where a path that resolved arrives.\<close>

definition extends :: "gtree \<Rightarrow> gtree \<Rightarrow> bool" where
  "extends m m' \<longleftrightarrow> (\<forall>z. map_of m z \<noteq> None \<longrightarrow> map_of m' z = map_of m z)"

lemma extends_Some: "extends m m' \<Longrightarrow> map_of m z = Some n \<Longrightarrow> map_of m' z = Some n"
  by (auto simp: extends_def)

lemma gwalk_extends: "extends m m' \<Longrightarrow> gwalk n m cur ss = Some d \<Longrightarrow> gwalk n m' cur ss = Some d"
proof (induction n m cur ss rule: gwalk.induct)
  case (2 n m cur s ss)
  from 2(4) obtain e where e: "map_of m (cur @ [s]) = Some e" by (cases "map_of m (cur @ [s])") auto
  note e' = extends_Some [OF 2(3) e]
  show ?case
  proof (cases e)
    case GDir
    with 2 e e' show ?thesis by simp
  next
    case (GLink t)
    with 2(4) e obtain k where "n = Suc k" by (cases n) auto
    with 2 e e' GLink show ?thesis by simp
  qed (use 2(4) e in auto)
qed simp

lemma gloc_extends: "extends m m' \<Longrightarrow> gloc m p = Some q \<Longrightarrow> gloc m' p = Some q"
  using gwalk_extends [of m m' 40 "[]"] by (auto simp: gloc_def Let_def split: if_splits)

lemma b64_decode_here: "b64_decode (base64 c @ [nl]) = Some c"
  by (simp add: b64_decode_def base64_without_breaks b64_quads_chunks)

definition placed :: "string \<Rightarrow> owner \<Rightarrow> 32 word \<Rightarrow> fspath \<Rightarrow> gtree \<Rightarrow> gtree" where
  "placed c ow md q m = oput q (GFile c (uid ow) (gid ow) md) (oput q (GFile c 0 0 (6 * 64)) m)"

lemma sh_w_eq:
  assumes "unat md < 512"
  shows "sh_w G fails m i p t ex (mode_text md) (show_owner ow) (base64 c @ [nl]) =
    (case gloc (grm m t) t of
       None \<Rightarrow> (i @ '' failed write'', grm m t)
     | Some q \<Rightarrow>
         if fails OpDecode \<or> map_of (grm m t) q \<noteq> None then (i @ '' failed write'', grm m t)
         else if fails OpOwn then (i @ '' failed owner or mode'', grm (oput q (GFile c 0 0 (6 * 64)) (grm m t)) t)
         else if unexpected G (placed c ow md q (grm m t)) p ex then (i @ '' changed'', grm (placed c ow md q (grm m t)) t)
         else if fails OpMove then (i @ '' failed rename'', grm (placed c ow md q (grm m t)) t)
         else (case gmv (placed c ow md q (grm m t)) t p of
                 None \<Rightarrow> (i @ '' failed rename'', grm (placed c ow md q (grm m t)) t)
               | Some m4 \<Rightarrow> (i @ '' done'', m4)))"
  by (simp add: sh_w_def Let_def b64_decode_here parse_show_owner parse_mode_text [OF assms] placed_def split: option.split)

lemma placed_lookup: "map_of (placed c ow md q m) z = (if z = q then Some (GFile c (uid ow) (gid ow) md) else map_of m z)"
  by (simp add: placed_def)

lemma same_but_temps_placed: "is_temp q \<Longrightarrow> same_but_temps m (placed c ow md q m)"
  by (auto simp: same_but_temps_def placed_lookup)

lemma sh_w_ok:
  assumes w: "sh_w G fails m i p (temp_for p) (expect_arg ex) (mode_text md) (show_owner ow) (base64 c @ [nl]) = (out, m')"
    and md: "unat md < 512" and sha: "\<And>sha. ex = ExSha256 sha \<Longrightarrow> sha \<noteq> ''*'' \<and> sha \<noteq> ''-''"
  shows "op_step_ok G (Place p c md ow ex) m m'"
proof (cases "gloc (grm m (temp_for p)) (temp_for p)")
  case None
  with w have "m' = grm m (temp_for p)" by (simp add: sh_w_eq [OF md])
  then show ?thesis by (simp add: same_but_temps_ok same_but_temps_grm)
next
  case (Some q)
  let ?m1 = "grm m (temp_for p)"
  let ?m3 = "placed c ow md q ?m1"
  note s = same_but_temps_trans [OF same_but_temps_grm]
  have t: "is_temp q" using Some by (rule temp_location)
  from w Some consider "m' = ?m1" | "m' = grm (oput q (GFile c 0 0 (6 * 64)) ?m1) (temp_for p)" | "m' = grm ?m3 (temp_for p)"
    | "\<not> unexpected G ?m3 p (expect_arg ex)" "map_of ?m1 q = None" "gmv ?m3 (temp_for p) p = Some m'"
    by (auto simp: sh_w_eq [OF md] split: if_splits option.splits)
  then show ?thesis
  proof cases
    case 1
    then show ?thesis by (simp add: same_but_temps_ok same_but_temps_grm)
  next
    case 2
    then show ?thesis
      using s [OF same_but_temps_trans [OF same_but_temps_oput [OF t] same_but_temps_grm]] by (simp add: same_but_temps_ok)
  next
    case 3
    then show ?thesis
      using s [OF same_but_temps_trans [OF same_but_temps_placed [OF t] same_but_temps_grm]] by (simp add: same_but_temps_ok)
  next
    case 4
    have "extends ?m1 ?m3" using 4(2) by (auto simp: extends_def placed_lookup)
    then have loc: "gloc ?m3 (temp_for p) = Some q" using Some by (rule gloc_extends)
    have "op_step_ok G (Place p c md ow ex) ?m3 m'"
      using 4(1) sha by (intro gmv_ok [OF 4(3) loc]) (simp_all add: placed_lookup)
    then show ?thesis by (rule same_but_temps_step [OF s [OF same_but_temps_placed [OF t]]])
  qed
qed

section \<open>Whole scripts\<close>

definition op_ok :: "fop \<Rightarrow> bool" where
  "op_ok oper \<longleftrightarrow> op_safe oper \<and>
     (case oper of
        Place p c md ow ex \<Rightarrow> unat md < 512 \<and> (\<forall>sha. ex = ExSha256 sha \<longrightarrow> sha \<noteq> ''*'' \<and> sha \<noteq> ''-'')
      | Remove p sha \<Rightarrow> True)"

lemma run_op_command:
  assumes "op_ok oper" "run_command G fails m (op_command (i, oper)) = (out, x, m')"
  shows "op_step_ok G oper m m'"
proof (cases oper)
  case (Place p c md ow ex)
  from assms(2) Place obtain o' where
    "sh_w G fails m (show_nat i) p (temp_for p) (expect_arg ex) (mode_text md) (show_owner ow) (base64 c @ [nl]) = (o', m')"
    by (auto simp: word_of_def split: prod.splits)
  with assms(1) Place show ?thesis by (auto simp: op_ok_def intro: sh_w_ok)
next
  case (Remove p sha)
  from assms(2) Remove obtain o' where "sh_rmf G fails m (show_nat i) p sha = (o', m')"
    by (auto split: prod.splits)
  with Remove show ?thesis by (auto intro: sh_rmf_ok)
qed

lemma run_dir_command:
  "run_command G fails m (dir_command d) = (out, x, m') \<Longrightarrow> dir_step_ok m m'"
  by (auto simp: dir_command_def intro: sh_d_ok split: prod.splits)

lemma run_probe_command: "run_command G fails m (probe_command p) = (out, x, m') \<Longrightarrow> m' = m"
  by (auto simp: probe_command_def split: prod.splits)

declare run_command.simps [simp del]

text \<open>A step of the trace: a directory made, or one planned operation.\<close>

definition step_ok :: "gf_libs \<Rightarrow> fop list \<Rightarrow> gtree \<times> gtree \<Rightarrow> bool" where
  "step_ok G ops mm \<longleftrightarrow> dir_step_ok (fst mm) (snd mm) \<or> (\<exists>oper \<in> set ops. op_step_ok G oper (fst mm) (snd mm))"

definition steps_in :: "gf_libs \<Rightarrow> (gtree \<times> gtree \<Rightarrow> bool) \<Rightarrow> sh_command \<Rightarrow> bool" where
  "steps_in G P c \<longleftrightarrow> (\<forall>fails m out x m'. run_command G fails m c = (out, x, m') \<longrightarrow> P (m, m'))"

lemma run_commands_trace:
  assumes "list_all (steps_in G P) cs" "run_commands G cs g = (r, g')"
  shows "\<exists>tr. g_trace g' = g_trace g @ tr \<and> (\<forall>mm \<in> set tr. P mm)"
  using assms
proof (induction cs arbitrary: g r)
  case Nil
  then show ?case by auto
next
  case (Cons c cs)
  obtain out x m where c: "run_command G (g_fails g (g_time g)) (seen_tree g) c = (out, x, m)"
    by (metis prod_cases3)
  have p: "P (seen_tree g, m)" using Cons.prems(1) c by (simp add: steps_in_def)
  show ?case
  proof (cases x)
    case None
    obtain r2 where r2: "run_commands G cs (after_command g m) = (r2, g')"
      using Cons.prems(2) c None by (auto split: prod.splits)
    from Cons.IH [OF _ r2] Cons.prems(1) obtain tr where
      "g_trace g' = g_trace (after_command g m) @ tr" "\<forall>mm \<in> set tr. P mm" by auto
    with p show ?thesis by (intro exI [of _ "(seen_tree g, m) # tr"]) (simp add: after_command_def)
  next
    case (Some s)
    with Cons.prems(2) c p show ?thesis
      by (intro exI [of _ "[(seen_tree g, m)]"]) (auto simp: after_command_def)
  qed
qed

lemma commit_command_steps:
  assumes "list_all op_ok ops"
  shows "list_all (steps_in G (step_ok G ops)) (map dir_command ds @ map op_command (enumerate 0 ops))"
proof -
  have "steps_in G (step_ok G ops) (dir_command d)" for d
    using run_dir_command by (fastforce simp: steps_in_def step_ok_def)
  moreover have "steps_in G (step_ok G ops) (op_command (i, oper))" if "oper \<in> set ops" for i oper
    using that assms run_op_command by (fastforce simp: steps_in_def step_ok_def list_all_iff)
  ultimately show ?thesis using in_enumerate by (fastforce simp: list_all_iff)
qed

lemma pct_exec_trace:
  assumes "\<And>k r g'. run_script G k sc (g\<lparr>g_calls := g_calls g + 1\<rparr>) = (r, g') \<Longrightarrow> \<exists>tr. g_trace g' = g_trace g @ tr \<and> Q tr"
    "Q []" "pct_exec G sc g = (r, g')"
  shows "\<exists>tr. g_trace g' = g_trace g @ tr \<and> Q tr"
proof (cases "g_fate g (g_calls g)")
  case Runs
  obtain a g2 where s: "run_script G None sc (g\<lparr>g_calls := g_calls g + 1\<rparr>) = (a, g2)" by fastforce
  moreover have "g' = g2"
    using assms(3) Runs s by (auto simp: pct_exec_def Let_def split: prod.splits if_splits)
  ultimately show ?thesis using assms(1) by blast
next
  case (Killed k e)
  obtain a g2 where s: "run_script G (Some k) sc (g\<lparr>g_calls := g_calls g + 1\<rparr>) = (a, g2)" by fastforce
  moreover have "g' = g2" using assms(3) Killed s by (auto simp: pct_exec_def Let_def)
  ultimately show ?thesis using assms(1) by blast
qed (use assms(2,3) in \<open>auto simp: pct_exec_def Let_def\<close>)

lemma run_text_trace:
  assumes "sh_commands body = Some cs"
    "list_all (steps_in G P) cs"
    "run_text G k body g = (r, g')"
  shows "\<exists>tr. g_trace g' = g_trace g @ tr \<and> (\<forall>mm \<in> set tr. P mm)"
proof -
  define cs' where "cs' = (case k of None \<Rightarrow> cs | Some n \<Rightarrow> take n cs)"
  have sub: "set cs' \<subseteq> set cs" by (auto simp: cs'_def split: option.splits dest: in_set_takeD)
  obtain r2 where "run_commands G cs' g = (r2, g')"
    using assms(1,3) by (auto simp: run_text_def cs'_def split: prod.splits)
  moreover have "list_all (steps_in G P) cs'" using assms(2) sub by (auto simp: list_all_iff)
  ultimately show ?thesis by (rule run_commands_trace [rotated])
qed

definition quiet_steps :: "(gtree \<times> gtree) list \<Rightarrow> bool" where
  "quiet_steps tr \<longleftrightarrow> (\<forall>mm \<in> set tr. fst mm = snd mm)"

lemma exec_ok_state: "snd (exec_ok G v what sc g) = snd (pct_exec G sc g)"
  by (cases "pct_exec G sc g"; cases "fst (pct_exec G sc g)") (auto simp: exec_ok_def then_do_def)

lemma pct_commit_trace:
  assumes "list_all op_ok ops" "list_all shell_safe ds" "pct_commit G v ds ops g = (r, g')"
  shows "\<exists>tr. g_trace g' = g_trace g @ tr \<and> (\<forall>mm \<in> set tr. step_ok G ops mm)"
proof -
  have g': "g' = snd (pct_exec G (commit_script ds ops) g)"
    using assms(3) exec_ok_state [of G v "''commit''" "commit_script ds ops" g]
    by (auto simp: pct_commit_def then_do_def split: prod.splits sum.splits)
  obtain body where b: "commit_script ds ops = CommitScript body" by (simp add: commit_script_def)
  have "list_all op_safe ops" using assms(1) by (auto simp: op_ok_def list_all_iff)
  then have "sh_commands body = Some (map dir_command ds @ map op_command (enumerate 0 ops))"
    by (rule commit_script_commands [OF assms(2) _ b])
  from run_text_trace [OF this commit_command_steps [OF assms(1)]]
  have "\<exists>tr. g_trace h = g_trace g @ tr \<and> (\<forall>mm \<in> set tr. step_ok G ops mm)"
    if "run_script G k (commit_script ds ops) (g\<lparr>g_calls := g_calls g + 1\<rparr>) = (a, h)" for k a h
    using that unfolding b by fastforce
  then show ?thesis by (rule pct_exec_trace) (auto simp: g' intro: prod.collapse [symmetric])
qed

lemma run_probe_quiet: "list_all (steps_in G (\<lambda>mm. fst mm = snd mm)) (map probe_command ps)"
  using run_probe_command by (fastforce simp: list_all_iff steps_in_def)

lemma pct_probe_trace:
  assumes "list_all shell_safe ps" "pct_probe G v ps g = (r, g')"
  shows "\<exists>tr. g_trace g' = g_trace g @ tr \<and> quiet_steps tr"
proof -
  have g': "g' = snd (pct_exec G (probe_script ps) g)"
    using assms(2) exec_ok_state [of G v "''probe''" "probe_script ps" g]
    by (auto simp: pct_probe_def then_do_def split: prod.splits sum.splits)
  obtain body where b: "probe_script ps = ProbeScript body" by (simp add: probe_script_def)
  have "sh_commands body = Some (map probe_command ps)" by (rule probe_script_commands [OF assms(1) b])
  from run_text_trace [OF this run_probe_quiet]
  have "\<exists>tr. g_trace h = g_trace g @ tr \<and> quiet_steps tr"
    if "run_script G k (probe_script ps) (g\<lparr>g_calls := g_calls g + 1\<rparr>) = (a, h)" for k a h
    using that unfolding b quiet_steps_def by fastforce
  then show ?thesis by (rule pct_exec_trace) (auto simp: g' quiet_steps_def intro: prod.collapse [symmetric])
qed

lemma pct_read_trace:
  assumes "pct_read G v p mx g = (r, g')"
  shows "\<exists>tr. g_trace g' = g_trace g @ tr \<and> quiet_steps tr"
proof -
  have g': "g' = snd (pct_exec G (ReadScript p (mx + 1)) g)"
    using assms by (auto simp: pct_read_def then_do_def split: prod.splits sum.splits)
  have "\<exists>tr. g_trace h = g_trace g @ tr \<and> quiet_steps tr"
    if "run_script G k (ReadScript p (mx + 1)) (g\<lparr>g_calls := g_calls g + 1\<rparr>) = (a, h)" for k a h
    using that by (auto simp: Let_def after_command_def seen_tree_def quiet_steps_def)
  then show ?thesis by (rule pct_exec_trace) (auto simp: g' quiet_steps_def intro: prod.collapse [symmetric])
qed

end
