(* ===== verification/Gf_Sync.thy ===== *)
theory Gf_Sync
  imports Gf_Shell
begin

text \<open>
  One sync of a guest (guest.rs): read the manifest, probe, decide, commit, write the manifest. The trait
  \<open>Guest\<close> is a record of its three operations on a state of any type; what a sync relies on is the locale
  \<open>guest_interface\<close>, which the guest over \<open>pct exec\<close> provides.
\<close>

section \<open>The trait and the sync\<close>

record 'g guest_ops =
  go_probe :: "string list \<Rightarrow> 'g \<Rightarrow> (anyhow + probe) \<times> 'g"
  go_read :: "string \<Rightarrow> nat \<Rightarrow> 'g \<Rightarrow> (anyhow + string option) \<times> 'g"
  go_commit :: "string list \<Rightarrow> fop list \<Rightarrow> 'g \<Rightarrow> (anyhow + outcome list) \<times> 'g"

definition pct_ops :: "gf_libs \<Rightarrow> vmid \<Rightarrow> guest guest_ops" where
  "pct_ops G v = \<lparr>go_probe = pct_probe G v, go_read = pct_read G v, go_commit = pct_commit G v\<rparr>"

record inspection =
  ins_plan :: plan
  ins_manifest :: manifest
  ins_warning :: "string option"

definition read_manifest :: "gf_libs \<Rightarrow> string option \<Rightarrow> manifest \<times> string option" where
  "read_manifest G bytes =
     (case bytes of
        None \<Rightarrow> (manifest_default, None)
      | Some b \<Rightarrow>
          (case manifest_parse G b of
             Inr m \<Rightarrow> (m, None)
           | Inl e \<Rightarrow> (manifest_default, Some (manifest_path @ '': '' @ e @ ''; nothing in it is trusted''))))"

definition inspect :: "gf_libs \<Rightarrow> 'g guest_ops \<Rightarrow> guest_files \<Rightarrow> bool \<Rightarrow> 'g \<Rightarrow> (anyhow + inspection) \<times> 'g" where
  "inspect G ops f force =
     then_do (go_read ops manifest_path manifest_max_bytes) (\<lambda>bytes.
     case read_manifest G bytes of (m, warning) \<Rightarrow>
     then_do (if wants_files f \<or> \<not> manifest_is_empty m then go_probe ops (probe_paths f m) else lift_res (Inr [])) (\<lambda>pb.
     lift_res (Inr \<lparr>ins_plan = plan_sync f m pb force, ins_manifest = m, ins_warning = warning\<rparr>)))"

record done_row =
  dn_item :: item
  dn_outcome :: "outcome option"

record report =
  rp_items :: "done_row list"
  rp_warning :: "string option"
  rp_has_records :: bool

fun report_rows :: "item list \<Rightarrow> outcome list \<Rightarrow> done_row list" where
  "report_rows [] os = []"
| "report_rows (i # items) os =
     (if writes (it_action i)
      then (case os of
              [] \<Rightarrow> \<lparr>dn_item = i, dn_outcome = None\<rparr> # report_rows items []
            | x # xs \<Rightarrow> \<lparr>dn_item = i, dn_outcome = Some x\<rparr> # report_rows items xs)
      else \<lparr>dn_item = i, dn_outcome = None\<rparr> # report_rows items os)"

definition manifest_op :: "gf_libs \<Rightarrow> manifest \<Rightarrow> fop" where
  "manifest_op G m = Place manifest_path (manifest_render G m) manifest_mode owner_root ExAny"

definition write_manifest :: "gf_libs \<Rightarrow> 'g guest_ops \<Rightarrow> plan \<Rightarrow> manifest \<Rightarrow> 'g \<Rightarrow> (anyhow + unit) \<times> 'g" where
  "write_manifest G ops P after =
     then_do (go_commit ops (if pl_ops P = [] then pl_dirs P else []) [manifest_op G after]) (\<lambda>os.
     lift_res (case os of
         [Failed why] \<Rightarrow> Inl [''writing '' @ manifest_path @ '': '' @ why]
       | _ \<Rightarrow> Inr ()))"

text \<open>The part of a sync that changes the guest: the outcomes of the operations and the manifest then.\<close>

definition carry_out :: "gf_libs \<Rightarrow> 'g guest_ops \<Rightarrow> inspection \<Rightarrow> 'g \<Rightarrow> (anyhow + outcome list \<times> manifest) \<times> 'g" where
  "carry_out G ops ins =
     (let P = ins_plan ins; old = ins_manifest ins in
      if \<not> changes P old then lift_res (Inr ([], old))
      else
        then_do (if pl_ops P = [] then lift_res (Inr []) else go_commit ops (pl_dirs P) (pl_ops P)) (\<lambda>os.
        let after = manifest_after G P old (map (\<lambda>x. x = Done) os) in
        if after = old then lift_res (Inr (os, old))
        else then_do (write_manifest G ops P after) (\<lambda>_. lift_res (Inr (os, after)))))"

definition sync :: "gf_libs \<Rightarrow> 'g guest_ops \<Rightarrow> guest_files \<Rightarrow> bool \<Rightarrow> 'g \<Rightarrow> (anyhow + report) \<times> 'g" where
  "sync G ops f force =
     then_do (inspect G ops f force) (\<lambda>ins.
     then_do (carry_out G ops ins) (\<lambda>(os, m).
     lift_res (Inr \<lparr>rp_items = report_rows (pl_items (ins_plan ins)) os, rp_warning = ins_warning ins,
                   rp_has_records = (\<not> manifest_is_empty m)\<rparr>)))"

fun outcome_text :: "outcome option \<Rightarrow> string" where
  "outcome_text None = []"
| "outcome_text (Some Done) = '': done''"
| "outcome_text (Some Changed) = '': not done, the file changed during the sync''"
| "outcome_text (Some (Failed why)) = '': failed: '' @ why"

definition describe :: "gf_libs \<Rightarrow> done_row \<Rightarrow> string option" where
  "describe G d =
     (let a = it_action (dn_item d) in
      if a = InSync \<or> a = Forget then None
      else Some (''entry '' @ debug_str (unicode_debug G) (it_entry (dn_item d)) @ '' ''
        @ (case it_path (dn_item d) of Some p \<Rightarrow> gp_str p | None \<Rightarrow> ''-'') @ '': '' @ show_action a
        @ outcome_text (dn_outcome d)))"

section \<open>The interface\<close>

text \<open>What a sync relies on of a guest, over a log of what the operations did to it: reading and probing
  leave silent steps and give hashes that are safe to quote; a commit's steps are those of the operations
  it was given.\<close>

locale guest_interface =
  fixes ops :: "'g guest_ops"
    and log :: "'g \<Rightarrow> 's list"
    and silent :: "'s \<Rightarrow> bool"
    and by_ops :: "fop list \<Rightarrow> 's \<Rightarrow> bool"
  assumes read_log: "go_read ops p mx g = (r, g') \<Longrightarrow> \<exists>tr. log g' = log g @ tr \<and> list_all silent tr"
    and probe_log: "list_all shell_safe ps \<Longrightarrow> go_probe ops ps g = (rp, g') \<Longrightarrow>
      (\<exists>tr. log g' = log g @ tr \<and> list_all silent tr) \<and> (\<forall>pb. rp = Inr pb \<longrightarrow> probe_safe pb)"
    and commit_log: "list_all op_ok os \<Longrightarrow> list_all shell_safe ds \<Longrightarrow> go_commit ops ds os g = (rc, g') \<Longrightarrow>
      \<exists>tr. log g' = log g @ tr \<and> list_all (by_ops os) tr"
begin

definition grows :: "('s \<Rightarrow> bool) \<Rightarrow> 'g \<Rightarrow> 'g \<Rightarrow> bool" where
  "grows P g g' \<longleftrightarrow> (\<exists>tr. log g' = log g @ tr \<and> list_all P tr)"

lemma grows_refl: "grows P g g"
  by (simp add: grows_def)

lemma grows_trans: "grows P g h \<Longrightarrow> grows P h k \<Longrightarrow> grows P g k"
  unfolding grows_def by (elim exE conjE) (rule exI, auto)

lemma grows_mono: "grows P g h \<Longrightarrow> (\<And>s. P s \<Longrightarrow> Q s) \<Longrightarrow> grows Q g h"
  unfolding grows_def by (fastforce simp: list_all_iff)

end

lemma read_manifest_wf: "read_manifest G b = (m, w) \<Longrightarrow> wf_manifest m"
  by (auto simp: read_manifest_def dest: manifest_parse_wf split: option.splits sum.splits)

lemma files_paths_wanted: "set (files_paths f) = de_path ` set (wanted_files f)"
proof -
  have "set (concat (map (\<lambda>r. case r of RFile d \<Rightarrow> [en_path (de_entry d)] | _ \<Rightarrow> []) es)) = de_path ` set (files_of es)" for es
    by (induction es rule: files_of.induct) auto
  then show ?thesis by (auto simp: files_paths_def wanted_files_def split: guest_files.splits)
qed

lemma probe_paths_safe:
  assumes "wf_files G f" "wf_manifest m"
  shows "list_all shell_safe (probe_paths f m)"
proof -
  have "shell_safe x" if "p \<in> set (files_paths f @ map fst (records m))" "x \<in> set (directories p @ [gp_str p])" for p x
  proof -
    have "valid_gp p"
      using that(1) assms by (auto simp: files_paths_wanted wf_files_def wf_desired_def list_all_iff wf_manifest_def wf_record_def)
    with that(2) show ?thesis by (auto intro: directories_safe valid_gp_safe)
  qed
  then show ?thesis using guest_root_safe(3) by (fastforce simp: probe_paths_def list_all_iff)
qed

lemma plan_ops_ok:
  assumes "wf_manifest old" "wf_files G f" "probe_safe pb"
  shows "list_all op_ok (pl_ops (plan_sync f old pb force))"
proof -
  have "op_ok oper" if o: "oper \<in> set (pl_ops (plan_sync f old pb force))" for oper
  proof -
    have safe: "op_safe oper" using plan_ops_safe [OF assms] o by (simp add: list_all_iff)
    show ?thesis
    proof (cases oper)
      case (Place p c md ow ex)
      have h: "hold_reason f pb = None" using o by (cases "hold_reason f pb") (auto simp: held_plan_ops)
      have "oper \<notin> set (concat (map (record_ops f pb) (records old)))"
        using Place by (auto simp: record_ops_def split: if_splits)
      with o obtain d where d: "d \<in> set (wanted_files f)" "oper \<in> set (file_ops old pb force d)"
        by (auto simp: plan_sync_closed(1) [OF h])
      from d(2) obtain ex' where p: "oper = Place (gp_str (de_path d)) (de_content d) (en_mode (de_entry d)) (en_owner (de_entry d)) ex'"
        and ok: "place_ok f old pb force d ex'" by (rule file_ops_place)
      have "unat md < 512" using assms(2) d(1) p Place by (simp add: wf_files_def wf_desired_def list_all_iff)
      moreover have "sha \<noteq> ''*'' \<and> sha \<noteq> ''-''" if "ex = ExSha256 sha" for sha
      proof -
        from ok p Place that obtain md' ow' where "assess (de_path d) pb = FPresent sha md' ow'" by (auto simp: place_ok_def)
        with assess_sha_safe(2,3) [OF assms(3)] show ?thesis by blast
      qed
      ultimately show ?thesis using safe Place by (simp add: op_ok_def)
    next
      case (Remove p sha)
      with safe show ?thesis by (simp add: op_ok_def)
    qed
  qed
  then show ?thesis by (simp add: list_all_iff)
qed

lemma manifest_op_ok: "op_ok (manifest_op G m)"
  using guest_root_safe(2) by (simp add: op_ok_def manifest_op_def manifest_mode_def shell_safe_def)

context guest_interface
begin

lemma inspect_log:
  assumes "wf_files G f" "inspect G ops f force g = (r, g')"
  shows "grows silent g g'"
    "r = Inr ins \<Longrightarrow> wf_manifest (ins_manifest ins) \<and> (\<exists>pb. probe_safe pb \<and> ins_plan ins = plan_sync f (ins_manifest ins) pb force)"
proof -
  obtain b h where rd: "go_read ops manifest_path manifest_max_bytes g = (b, h)" by fastforce
  have gh: "grows silent g h" using read_log [OF rd] by (simp add: grows_def)
  have "grows silent g g' \<and> (\<forall>ins. r = Inr ins \<longrightarrow> wf_manifest (ins_manifest ins)
      \<and> (\<exists>pb. probe_safe pb \<and> ins_plan ins = plan_sync f (ins_manifest ins) pb force))"
  proof (cases b)
    case (Inl e)
    with assms(2) rd gh show ?thesis by (auto simp: inspect_def)
  next
    case (Inr bytes)
    obtain m w where m: "read_manifest G bytes = (m, w)" by fastforce
    have wf: "wf_manifest m" using m by (rule read_manifest_wf)
    show ?thesis
    proof (cases "wants_files f \<or> \<not> manifest_is_empty m")
      case True
      obtain p k where pr: "go_probe ops (probe_paths f m) h = (p, k)" by fastforce
      from probe_log [OF probe_paths_safe [OF assms(1) wf] pr]
      have hk: "grows silent h k" and safe: "\<And>pb. p = Inr pb \<Longrightarrow> probe_safe pb" by (auto simp: grows_def)
      from assms(2) rd Inr m True pr grows_trans [OF gh hk] wf safe show ?thesis
        by (cases p) (auto simp: inspect_def then_do_def)
    next
      case False
      have "probe_safe []" by (simp add: probe_safe_def)
      with assms(2) rd Inr m False gh wf show ?thesis by (auto simp: inspect_def then_do_def)
    qed
  qed
  then show "grows silent g g'"
    "r = Inr ins \<Longrightarrow> wf_manifest (ins_manifest ins) \<and> (\<exists>pb. probe_safe pb \<and> ins_plan ins = plan_sync f (ins_manifest ins) pb force)"
    by blast+
qed

definition sync_step :: "gf_libs \<Rightarrow> plan \<Rightarrow> 's \<Rightarrow> bool" where
  "sync_step G P s \<longleftrightarrow> silent s \<or> by_ops (pl_ops P) s \<or> (\<exists>m. by_ops [manifest_op G m] s)"

lemma write_manifest_log:
  assumes "list_all shell_safe (pl_dirs P)" "write_manifest G ops P after g = (r, g')"
  shows "grows (sync_step G P) g g'"
proof -
  obtain os h where c: "go_commit ops (if pl_ops P = [] then pl_dirs P else []) [manifest_op G after] g = (os, h)" by fastforce
  have "\<exists>tr. log h = log g @ tr \<and> list_all (by_ops [manifest_op G after]) tr"
    using assms(1) by (intro commit_log [OF _ _ c]) (simp_all add: manifest_op_ok)
  then have "grows (by_ops [manifest_op G after]) g h" by (simp add: grows_def)
  then have "grows (sync_step G P) g h" by (rule grows_mono) (auto simp: sync_step_def)
  moreover have "g' = h" using assms(2) c by (cases os) (auto simp: write_manifest_def then_do_def)
  ultimately show ?thesis by simp
qed

lemma carry_out_log:
  assumes "wf_files G f" "wf_manifest (ins_manifest ins)" "probe_safe pb"
    "ins_plan ins = plan_sync f (ins_manifest ins) pb force" "carry_out G ops ins g = (r, g')"
  shows "grows (sync_step G (ins_plan ins)) g g'"
proof (cases "changes (ins_plan ins) (ins_manifest ins)")
  case False
  with assms(5) show ?thesis by (simp add: carry_out_def Let_def grows_refl)
next
  case True
  let ?P = "ins_plan ins"
  have d: "list_all shell_safe (pl_dirs ?P)" using plan_dirs_safe [OF assms(1)] assms(4) by simp
  have o: "list_all op_ok (pl_ops ?P)" using plan_ops_ok [OF assms(2,1,3)] assms(4) by simp
  obtain os h where c: "(if pl_ops ?P = [] then lift_res (Inr []) else go_commit ops (pl_dirs ?P) (pl_ops ?P)) g = (os, h)"
    by fastforce
  have gh: "grows (sync_step G ?P) g h"
  proof (cases "pl_ops ?P = []")
    case True
    with c show ?thesis by (simp add: grows_refl)
  next
    case False
    with c have "go_commit ops (pl_dirs ?P) (pl_ops ?P) g = (os, h)" by simp
    from commit_log [OF o d this] have "grows (by_ops (pl_ops ?P)) g h" by (simp add: grows_def)
    then show ?thesis by (rule grows_mono) (simp add: sync_step_def)
  qed
  show ?thesis
  proof (cases os)
    case (Inl e)
    with assms(5) True c gh show ?thesis by (auto simp: carry_out_def Let_def then_do_def)
  next
    case (Inr os')
    let ?after = "manifest_after G ?P (ins_manifest ins) (map (\<lambda>x. x = Done) os')"
    show ?thesis
    proof (cases "?after = ins_manifest ins")
      case after: True
      with assms(5) True c gh Inr show ?thesis by (auto simp: carry_out_def Let_def then_do_def)
    next
      case after: False
      obtain w k where w: "write_manifest G ops ?P ?after h = (w, k)" by fastforce
      have "g' = k" using assms(5) True c Inr after w by (cases w) (auto simp: carry_out_def Let_def then_do_def)
      with grows_trans [OF gh write_manifest_log [OF d w]] show ?thesis by simp
    qed
  qed
qed

lemma sync_log:
  assumes "wf_files G f" "sync G ops f force g = (r, g')"
  shows "grows silent g g' \<or>
    (\<exists>ins h pb. inspect G ops f force g = (Inr ins, h) \<and> wf_manifest (ins_manifest ins)
       \<and> ins_plan ins = plan_sync f (ins_manifest ins) pb force \<and> grows (sync_step G (ins_plan ins)) g g')"
proof -
  obtain i h where i: "inspect G ops f force g = (i, h)" by fastforce
  note gh = inspect_log(1) [OF assms(1) i]
  show ?thesis
  proof (cases i)
    case (Inl e)
    with assms(2) i gh show ?thesis by (auto simp: sync_def then_do_def)
  next
    case (Inr ins)
    from inspect_log(2) [OF assms(1) i Inr] obtain pb where wf: "wf_manifest (ins_manifest ins)" and pb: "probe_safe pb"
      and p: "ins_plan ins = plan_sync f (ins_manifest ins) pb force" by blast
    obtain c k where c: "carry_out G ops ins h = (c, k)" by fastforce
    have "grows (sync_step G (ins_plan ins)) g h" using gh by (rule grows_mono) (simp add: sync_step_def)
    from grows_trans [OF this carry_out_log [OF assms(1) wf pb p c]]
    have "grows (sync_step G (ins_plan ins)) g k" .
    moreover have "g' = k" using assms(2) i Inr c by (cases c) (auto simp: sync_def then_do_def)
    ultimately show ?thesis using i Inr wf p by (intro disjI2 exI [of _ ins] exI [of _ h] exI [of _ pb]) simp
  qed
qed

end

section \<open>The guest over \<open>pct exec\<close> provides it\<close>

lemma in_set_bmap_of: "(k, v) \<in> set (bmap_of kvs) \<Longrightarrow> (k, v) \<in> set kvs"
proof -
  have "(k, v) \<in> set (foldl (\<lambda>m (k, v). bput k v m) m0 kvs) \<Longrightarrow> (k, v) \<in> set m0 \<union> set kvs" for m0
    by (induction kvs arbitrary: m0) (auto dest: in_set_bput)
  then show "(k, v) \<in> set (bmap_of kvs) \<Longrightarrow> (k, v) \<in> set kvs" by (fastforce simp: bmap_of_def)
qed

lemma hex_lower_safe: "is_hex c \<Longrightarrow> to_lower c \<noteq> CHR 0x27 \<and> to_lower c \<noteq> nl"
proof -
  assume "is_hex c"
  then have "code (to_lower c) \<ge> 48"
    by (auto simp: is_hex_def to_lower_def ascii_class_defs)
  then show ?thesis by auto
qed

lemma parse_node_line_safe:
  assumes "parse_node_line G p row = Inr (NFile u g md sha)"
  shows "shell_safe sha" "length sha = 64"
proof -
  from assms obtain sha0 where s: "length sha0 = 64" "list_all is_hex sha0" "sha = map to_lower sha0"
    by (auto simp: parse_node_line_def andthen_eq_Inr split: list.splits if_splits)
  then show "length sha = 64" by simp
  from s(2) have "\<forall>x \<in> set sha0. to_lower x \<noteq> CHR 0x27 \<and> to_lower x \<noteq> nl"
    using hex_lower_safe by (simp add: list_all_iff)
  with s(3) show "shell_safe sha" by (fastforce simp: shell_safe_def)
qed

lemma list_all2_member: "list_all2 P xs ys \<Longrightarrow> y \<in> set ys \<Longrightarrow> \<exists>x \<in> set xs. P x y"
  by (induction rule: list_all2_induct) auto

lemma parse_probe_safe: "parse_probe G ps out = Inr pb \<Longrightarrow> probe_safe pb"
proof -
  assume "parse_probe G ps out = Inr pb"
  then obtain ls kvs where pb: "pb = bmap_of kvs"
    and k: "list_all2 (\<lambda>x y. (case x of (p, row) \<Rightarrow> andthen (parse_node_line G p row) (\<lambda>n. Inr (p, n))) = Inr y) (zip ps ls) kvs"
    by (auto simp: parse_probe_def Let_def andthen_eq_Inr map_res_Inr)
  have "shell_safe sha \<and> sha \<noteq> ''*'' \<and> sha \<noteq> ''-''" if "(p, NFile u g md sha) \<in> set pb" for p u g md sha
  proof -
    have "(p, NFile u g md sha) \<in> set kvs" using that pb by (simp add: in_set_bmap_of)
    from list_all2_member [OF k this] obtain row where "parse_node_line G p row = Inr (NFile u g md sha)"
      by (auto simp: andthen_eq_Inr)
    from parse_node_line_safe [OF this] show ?thesis by auto
  qed
  then show ?thesis unfolding probe_safe_def by blast
qed

lemma pct_probe_safe: "pct_probe G v ps g = (Inr pb, g') \<Longrightarrow> probe_safe pb"
  by (auto simp: pct_probe_def then_do_Inr simp del: then_do_lift dest: parse_probe_safe)

interpretation pct: guest_interface "pct_ops G v" g_trace "\<lambda>mm. fst mm = snd mm" "step_ok G"
  for G v
proof (unfold_locales, goal_cases)
  case (1 p mx g r g')
  then show ?case using pct_read_trace by (fastforce simp: pct_ops_def quiet_steps_def list_all_iff)
next
  case (2 ps g r g')
  then show ?case using pct_probe_trace [of ps G v g] pct_probe_safe
    by (fastforce simp: pct_ops_def quiet_steps_def list_all_iff)
next
  case (3 os ds g r g')
  then show ?case using pct_commit_trace by (fastforce simp: pct_ops_def list_all_iff)
qed

section \<open>Properties\<close>

lemma step_loses:
  assumes "step_ok G os (m, m')" "map_of m q = Some n" "map_of m' q \<noteq> Some n" "\<not> is_temp q"
  shows "\<exists>oper \<in> set os. may_lose G oper q n"
proof -
  have ch: "map_of m' q \<noteq> map_of m q" using assms(2,3) by simp
  have "\<not> dir_step_ok m m'"
  proof
    assume "dir_step_ok m m'"
    from spec [OF this [unfolded dir_step_ok_def], of q] ch assms(2) show False by simp
  qed
  with assms(1) obtain oper where "oper \<in> set os" "op_step_ok G oper m m'" by (auto simp: step_ok_def)
  moreover from this(2) have "may_lose G oper q n" using ch assms(2,4) unfolding op_step_ok_def by blast
  ultimately show ?thesis by blast
qed

lemma sync_step_loses:
  assumes "pct.sync_step G G P (m, m')" "P = plan_sync f old pb force" "wf_manifest old"
    and q: "map_of m q = Some n" "map_of m' q \<noteq> Some n" "\<not> is_temp q" "last q \<noteq> manifest_name"
  shows "\<exists>c u w b. n = GFile c u w b \<and>
    ((\<exists>d \<in> set (wanted_files f). place_ok f old pb force d (ExSha256 (gf_sha G c)))
     \<or> (\<exists>p rec. rc_sha256 rec = gf_sha G c \<and> remove_ok f old pb p rec))"
proof -
  have ml: "last (fspath_of manifest_path) = manifest_name" by code_simp
  from assms(1) consider "m = m'" | "step_ok G (pl_ops P) (m, m')" | x where "step_ok G [manifest_op G x] (m, m')"
    by (auto simp: pct.sync_step_def)
  then show ?thesis
  proof cases
    case 1
    with q show ?thesis by simp
  next
    case 2
    from step_loses [OF 2 q(1,2,3)] obtain oper where o: "oper \<in> set (pl_ops P)" "may_lose G oper q n" by blast
    from plan_op_cases [OF o(1) [unfolded assms(2)] assms(3)] show ?thesis
    proof (elim conjE disjE bexE exE)
      fix d ex assume d: "d \<in> set (wanted_files f)" and ok: "place_ok f old pb force d ex"
        and "oper = Place (gp_str (de_path d)) (de_content d) (en_mode (de_entry d)) (en_owner (de_entry d)) ex"
      with o(2) obtain c u w b where "n = GFile c u w b" "ex = ExSha256 (gf_sha G c)"
        by (cases ex; cases n) (auto simp: place_ok_def)
      with d ok show ?thesis by blast
    next
      fix p rec assume "oper = Remove (gp_str p) (rc_sha256 rec)" and ok: "remove_ok f old pb p rec"
      with o(2) obtain c u w b where "n = GFile c u w b" "rc_sha256 rec = gf_sha G c" by (cases n) auto
      with ok show ?thesis by blast
    qed
  next
    case 3
    from step_loses [OF 3 q(1,2,3)] q(4) ml show ?thesis by (simp add: manifest_op_def)
  qed
qed

text \<open>A guest for the witnesses: the manifest records the one file there is, nothing goes wrong.\<close>

definition sample_sha :: string where "sample_sha = replicate 64 (CHR ''a'')"

definition sample_records :: manifest where
  "sample_records = \<lparr>records = [(GuestPath ''/etc/pve-meta/a'',
     \<lparr>rc_entry = ''one'', rc_path = GuestPath ''/etc/pve-meta/a'', rc_sha256 = sample_sha, rc_source = ''user/one''\<rparr>)]\<rparr>"

definition sample_lib :: gf_libs where
  "sample_lib = (sample_gf_with sample_records)
     \<lparr>core_libs := (sample_libs (VObj []))\<lparr>sha256_hex := (\<lambda>t. replicate 64 (if t = ''hello'' then CHR ''a'' else CHR ''b''))\<rparr>\<rparr>"

definition sample_guest :: guest where
  "sample_guest = \<lparr>g_tree = [([''etc''], GDir), ([''etc'', ''pve-meta''], GDir),
        ([''etc'', ''pve-meta'', ''.guest-files''], GFile ''m'' 0 0 384), ([''etc'', ''pve-meta'', ''a''], GFile ''hello'' 0 0 292)],
     g_time = 0, g_calls = 0, g_meddle = (\<lambda>_ m. m), g_fails = (\<lambda>_ _. False), g_fate = (\<lambda>_. Runs), g_noise = (\<lambda>_. []), g_trace = []\<rparr>"

definition may_take :: "gf_libs \<Rightarrow> guest_files \<Rightarrow> bool \<Rightarrow> manifest \<Rightarrow> probe \<Rightarrow> gent \<Rightarrow> bool" where
  "may_take G f force old pb n \<longleftrightarrow> (\<exists>c u w b. n = GFile c u w b \<and>
     ((\<exists>d \<in> set (wanted_files f). place_ok f old pb force d (ExSha256 (gf_sha G c)))
      \<or> (\<exists>p rec. rc_sha256 rec = gf_sha G c \<and> remove_ok f old pb p rec)))"



end
