(* ===== verification/Gf_Node.thy ===== *)
theory Gf_Node
  imports Gf_Prelude Views
begin

text \<open>
  The node the daemon runs on (node.rs): the cluster's list of guests, the running containers, and the
  lock in a container's configuration, each read from a file of the host.
\<close>

section \<open>Reading the files\<close>

datatype guest_kind = Lxc | Qemu | OtherKind

record vm_guest =
  vg_node :: string
  vg_kind :: guest_kind

definition vmlist_path :: fspath where "vmlist_path = [''etc'', ''pve'', ''.vmlist'']"

definition kind_of :: "json \<Rightarrow> guest_kind" where
  "kind_of entry =
     (case Option.bind (value_get entry ''type'') as_str of
        Some t \<Rightarrow> if t = ''lxc'' then Lxc else if t = ''qemu'' then Qemu else OtherKind
      | None \<Rightarrow> OtherKind)"

definition add_guest :: "(vmid, vm_guest) bmap \<Rightarrow> string \<times> json \<Rightarrow> (vmid, vm_guest) bmap" where
  "add_guest out ie =
     (case ie of (i, entry) \<Rightarrow>
      case parse_u32 i of
        None \<Rightarrow> out
      | Some v \<Rightarrow> bput v \<lparr>vg_node = unwrap_or [] (Option.bind (value_get entry ''node'') as_str), vg_kind = kind_of entry\<rparr> out)"

definition parse_vmlist :: "gf_libs \<Rightarrow> string \<Rightarrow> anyhow + (vmid, vm_guest) bmap" where
  "parse_vmlist G t =
     andthen (map_err (\<lambda>(m, _). [''the vmlist is not JSON'', m]) (json_from_str (core_libs G) t)) (\<lambda>v.
     andthen (ok_or [''the vmlist has no ids''] (Option.bind (value_get v ''ids'') as_object)) (\<lambda>ids.
     Inr (foldl add_guest [] ids)))"

definition vmlist :: "gf_libs \<Rightarrow> fs \<Rightarrow> anyhow + (vmid, vm_guest) bmap" where
  "vmlist G s =
     andthen (map_err (\<lambda>e. [''cannot read /etc/pve/.vmlist'', io_text e]) (read_to_string vmlist_path s)) (parse_vmlist G)"

definition nodename :: "fs \<Rightarrow> anyhow + string" where
  "nodename s =
     (case symlink_metadata [''etc'', ''pve'', ''local''] s of
        Inl e \<Rightarrow> Inl [''cannot read /etc/pve/local'', io_text e]
      | Inr (Symlink t) \<Rightarrow> if t = [] \<or> last t = [] then Inl [''/etc/pve/local does not name a node''] else Inr (last t)
      | Inr _ \<Rightarrow> Inl [''cannot read /etc/pve/local'', ''Invalid argument (os error 22)''])"

definition socket_vmid :: "string \<Rightarrow> vmid option" where
  "socket_vmid p =
     Option.bind (strip_prefix ''@/var/lib/lxc/'' p) (\<lambda>r. Option.bind (strip_suffix ''/command'' r) parse_u32)"

definition parse_u64 :: "string \<Rightarrow> 64 word option" where
  "parse_u64 s = map_option of_nat (parse_unsigned (2 ^ 64) s)"

definition add_active :: "(vmid, 64 word) bmap \<Rightarrow> string \<Rightarrow> (vmid, 64 word) bmap" where
  "add_active out row =
     (let fs = split_whitespace row in
      if length fs < 2 then out
      else case (socket_vmid (last fs), parse_u64 (last (butlast fs))) of
             (Some v, Some i) \<Rightarrow> if map_of out v = None then bput v i out else out
           | _ \<Rightarrow> out)"

definition parse_active_containers :: "string \<Rightarrow> (vmid, 64 word) bmap" where
  "parse_active_containers t = foldl add_active [] (str_lines t)"

definition active_containers :: "fs \<Rightarrow> anyhow + (vmid, 64 word) bmap" where
  "active_containers s =
     andthen (map_err (\<lambda>e. [''cannot read /proc/net/unix'', io_text e]) (read_to_string [''proc'', ''net'', ''unix''] s))
       (\<lambda>t. Inr (parse_active_containers t))"

definition lock_line :: "string \<Rightarrow> string option" where
  "lock_line l = map_option trim (strip_prefix ''lock:'' l)"

definition parse_lock :: "string \<Rightarrow> string option" where
  "parse_lock t = find_map lock_line (takeWhile (\<lambda>l. \<not> prefix ''['' l) (str_lines t))"

definition container_lock :: "string \<Rightarrow> vmid \<Rightarrow> fs \<Rightarrow> anyhow + string option" where
  "container_lock n v s =
     (let p = [''etc'', ''pve'', ''nodes'', n, ''lxc'', show_vmid v @ ''.conf''] in
      andthen (map_err (\<lambda>e. [''cannot read /etc/pve/nodes/'' @ n @ ''/lxc/'' @ show_vmid v @ ''.conf'', io_text e])
          (read_to_string p s)) (\<lambda>t. Inr (parse_lock t)))"

definition stopped_or_locked :: "string \<Rightarrow> vmid \<Rightarrow> (vmid, 64 word) bmap \<Rightarrow> fs \<Rightarrow> anyhow + string option" where
  "stopped_or_locked n v active s =
     (if map_of active v = None then Inr (Some ''stopped'')
      else andthen (container_lock n v s) (\<lambda>l. Inr (map_option (\<lambda>x. ''locked ('' @ x @ '')'') l)))"

section \<open>Laws\<close>

lemma parse_active_sorted: "bsorted (parse_active_containers t)"
proof -
  have "bsorted m \<Longrightarrow> bsorted (foldl add_active m ls)" for m ls
    by (induction ls arbitrary: m) (auto simp: add_active_def Let_def split: option.splits)
  then show ?thesis by (simp add: parse_active_containers_def)
qed

lemma parse_vmlist_sorted: "parse_vmlist G t = Inr l \<Longrightarrow> bsorted l"
proof -
  have "bsorted m \<Longrightarrow> bsorted (foldl add_guest m ids)" for m ids
    by (induction ids arbitrary: m) (auto simp: add_guest_def split: option.splits)
  then show "parse_vmlist G t = Inr l \<Longrightarrow> bsorted l" by (auto simp: parse_vmlist_def andthen_eq_Inr)
qed

text \<open>Evaluating the parsers: the bounds compared as integers.\<close>

lemma parse_unsigned_via_int:
  "parse_unsigned bnd s =
     (let ds = (case s of c # cs \<Rightarrow> if c = CHR ''+'' then cs else s | [] \<Rightarrow> []) in
      if ds \<noteq> [] \<and> list_all is_digit ds \<and> int (digits_value ds) < int bnd then Some (digits_value ds) else None)"
  by (simp add: parse_unsigned_def Let_def)

lemma parse_u64_code [code]:
  "parse_u64 s =
     (let ds = (case s of c # cs \<Rightarrow> if c = CHR ''+'' then cs else s | [] \<Rightarrow> []) in
      if ds \<noteq> [] \<and> list_all is_digit ds \<and> int (digits_value ds) < 18446744073709551616 then Some (word_of_int (int (digits_value ds))) else None)"
  by (simp add: parse_u64_def parse_unsigned_via_int Let_def)

end
