(* ===== verification/Gf_Daemon.thy ===== *)
theory Gf_Daemon
  imports Gf_Sync Gf_Node
begin

text \<open>
  The daemon (daemon.rs): what it remembers of each container, when a container is due, the log that says
  a state once, one poll and one sync of a due container. Time is in seconds since the daemon started.
  A poll reads the host's files; it acts on containers only through \<^const>\<open>sync\<close>. The hash maps of the
  code are ordered maps here: the one loop over a hash map only fills the queue, which is sorted before
  it is served.
\<close>

section \<open>State\<close>

record timing =
  tm_poll :: nat
  tm_drift :: nat
  tm_retry :: nat

definition timing_default :: timing where
  "timing_default = \<lparr>tm_poll = 10, tm_drift = 600, tm_retry = 60\<rparr>"

datatype reason = RChanged | RStarted | RDrift

fun show_reason :: "reason \<Rightarrow> string" where
  "show_reason RChanged = ''document changed''"
| "show_reason RStarted = ''container started''"
| "show_reason RDrift = ''drift check''"

fun reason_rank :: "reason \<Rightarrow> nat" where
  "reason_rank RChanged = 0"
| "reason_rank RStarted = 1"
| "reason_rank RDrift = 2"

instantiation reason :: linorder
begin

definition less_eq_reason :: "reason \<Rightarrow> reason \<Rightarrow> bool" where
  "less_eq_reason a b \<longleftrightarrow> reason_rank a \<le> reason_rank b"

definition less_reason :: "reason \<Rightarrow> reason \<Rightarrow> bool" where
  "less_reason a b \<longleftrightarrow> reason_rank a < reason_rank b"

instance
proof intro_classes
  fix a b :: reason
  show "a \<le> b \<Longrightarrow> b \<le> a \<Longrightarrow> a = b" by (cases a; cases b) (simp_all add: less_eq_reason_def)
qed (auto simp: less_eq_reason_def less_reason_def)

end

record memo =
  me_digest :: "string option"
  me_inode :: "64 word option"
  me_watched :: bool
  me_next_due :: "nat option"

definition memo_default :: memo where
  "memo_default = \<lparr>me_digest = None, me_inode = None, me_watched = False, me_next_due = None\<rparr>"

definition due :: "memo option \<Rightarrow> 64 word option \<Rightarrow> string option \<Rightarrow> bool \<Rightarrow> nat \<Rightarrow> reason option" where
  "due m inode dg has_key now =
     (if inode = None then None
      else if \<not> has_key \<and> \<not> (case m of Some x \<Rightarrow> me_watched x | None \<Rightarrow> False) then None
      else case m of
             None \<Rightarrow> Some RChanged
           | Some x \<Rightarrow>
               if me_digest x \<noteq> dg then Some RChanged
               else if me_inode x \<noteq> inode then Some RStarted
               else if (case me_next_due x of None \<Rightarrow> True | Some t \<Rightarrow> t \<le> now) then Some RDrift
               else None)"

section \<open>The log\<close>

text \<open>\<open>Log::seen\<close>, and what was written to standard error so far.\<close>

record log_state =
  lg_seen :: "(vmid \<times> string, string) omap"
  lg_err :: "string list"

definition eprintln :: "string \<Rightarrow> log_state \<Rightarrow> log_state" where
  "eprintln l lg = lg\<lparr>lg_err := lg_err lg @ [l]\<rparr>"

definition log_once :: "vmid \<Rightarrow> string \<Rightarrow> string option \<Rightarrow> log_state \<Rightarrow> bool \<times> log_state" where
  "log_once v key row lg =
     (case row of
        Some l \<Rightarrow>
          if map_of (lg_seen lg) (v, key) \<noteq> Some l
          then (True, (eprintln (if v = 0 then l else show_vmid v @ '': '' @ l) lg)\<lparr>lg_seen := oput (v, key) l (lg_seen lg)\<rparr>)
          else (False, lg)
      | None \<Rightarrow> (map_of (lg_seen lg) (v, key) \<noteq> None, lg\<lparr>lg_seen := odel (v, key) (lg_seen lg)\<rparr>))"

definition settle :: "vmid \<Rightarrow> string \<Rightarrow> string list \<Rightarrow> log_state \<Rightarrow> log_state" where
  "settle v pre keep lg =
     lg\<lparr>lg_seen := filter (\<lambda>((w, k), _). w \<noteq> v \<or> \<not> prefix pre k \<or> k \<in> set keep) (lg_seen lg)\<rparr>"

section \<open>The daemon\<close>

record daemon =
  dm_memos :: "(vmid, memo) bmap"
  dm_wanted :: "(vmid, string option \<times> guest_files) bmap"
  dm_log :: log_state

text \<open>The host: its files, the lock of each guest (taken, held by another, or an error) and the containers.\<close>

record host =
  h_fs :: fs
  h_lock :: "vmid \<Rightarrow> anyhow + bool"
  h_guests :: "vmid \<Rightarrow> guest"

definition say :: "vmid \<Rightarrow> string \<Rightarrow> string option \<Rightarrow> daemon \<Rightarrow> daemon" where
  "say v key row d = d\<lparr>dm_log := snd (log_once v key row (dm_log d))\<rparr>"

definition unavailable :: "string \<Rightarrow> daemon \<Rightarrow> daemon" where
  "unavailable why d = say 0 ''unavailable'' (Some (why @ ''; waiting'')) d"

definition memo_of :: "daemon \<Rightarrow> vmid \<Rightarrow> memo" where
  "memo_of d v = (case map_of (dm_memos d) v of Some m \<Rightarrow> m | None \<Rightarrow> memo_default)"

definition put_memo :: "vmid \<Rightarrow> memo \<Rightarrow> daemon \<Rightarrow> daemon" where
  "put_memo v m d = d\<lparr>dm_memos := bput v m (dm_memos d)\<rparr>"

definition debug_path :: "gf_libs \<Rightarrow> guest_path option \<Rightarrow> string" where
  "debug_path G p =
     (case p of None \<Rightarrow> ''None'' | Some q \<Rightarrow> ''Some(GuestPath('' @ debug_str (unicode_debug G) (gp_str q) @ ''))'')"

text \<open>The loop over the rows of a report: what is done is said every time, a state that holds once.\<close>

fun say_rows :: "gf_libs \<Rightarrow> vmid \<Rightarrow> reason \<Rightarrow> done_row list \<Rightarrow> string list \<Rightarrow> daemon \<Rightarrow> string list \<times> daemon" where
  "say_rows G v why [] keys d = (keys, d)"
| "say_rows G v why (x # xs) keys d =
     (case describe G x of
        None \<Rightarrow> say_rows G v why xs keys d
      | Some l \<Rightarrow>
          if dn_outcome x = Some Done \<or> dn_outcome x = Some Changed
          then say_rows G v why xs keys
                 (d\<lparr>dm_log := eprintln (show_vmid v @ '' ('' @ show_reason why @ ''): '' @ l) (dm_log d)\<rparr>)
          else
            let key = ''entry '' @ it_entry (dn_item x) @ '' '' @ debug_path G (it_path (dn_item x)) in
            say_rows G v why xs (keys @ [key]) (say v key (Some l) d))"

definition held_text :: "anyhow + string option \<Rightarrow> string option" where
  "held_text st =
     (case st of Inl e \<Rightarrow> Some (alt_text e) | Inr (Some s) \<Rightarrow> Some (s @ ''; waiting'') | Inr None \<Rightarrow> None)"

definition after_sync :: "gf_libs \<Rightarrow> vmid \<Rightarrow> reason \<Rightarrow> timing \<Rightarrow> nat \<Rightarrow> string option \<times> guest_files \<Rightarrow> anyhow + report \<Rightarrow> daemon \<Rightarrow> daemon" where
  "after_sync G v why tm now w res d0 =
     (let m = (memo_of d0 v)\<lparr>me_digest := fst w\<rparr> in
      case res of
        Inl e \<Rightarrow>
          say v ''sync'' (Some (''sync failed: '' @ alt_text e))
            (put_memo v (m\<lparr>me_watched := (me_watched m \<or> has_guest_files_key (snd w)), me_next_due := Some (now + tm_retry tm)\<rparr>) d0)
      | Inr rep \<Rightarrow>
          let d1 = put_memo v (m\<lparr>me_watched := rp_has_records rep, me_next_due := Some (now + tm_drift tm)\<rparr>) d0;
              d2 = say v ''warning'' (rp_warning rep) (say v ''sync'' None d1)
          in (case say_rows G v why (rp_items rep) [] d2 of
                (keys, d3) \<Rightarrow> d3\<lparr>dm_log := settle v ''entry '' keys (dm_log d3)\<rparr>))"

definition daemon_sync ::
  "gf_libs \<Rightarrow> string \<Rightarrow> vmid \<Rightarrow> (vmid, 64 word) bmap \<Rightarrow> reason \<Rightarrow> timing \<Rightarrow> nat \<Rightarrow> daemon \<times> host \<Rightarrow> bool \<times> daemon \<times> host" where
  "daemon_sync G n v active why tm now dh =
     (case dh of (d, h) \<Rightarrow>
      let held_why = held_text (stopped_or_locked n v active (h_fs h)); d1 = say v ''lock'' held_why d in
      if held_why \<noteq> None then (False, d1, h)
      else case h_lock h v of
             Inl e \<Rightarrow> (False, say v ''lock'' (Some (alt_text e)) d1, h)
           | Inr False \<Rightarrow> (False, d1, h)
           | Inr True \<Rightarrow>
               let w = unwrap_or (None, Nothing) (map_of (dm_wanted d1) v) in
               (case sync G (pct_ops G v) (snd w) False (h_guests h v) of
                  (res, g) \<Rightarrow> (True, after_sync G v why tm now w res d1, h\<lparr>h_guests := (h_guests h)(v := g)\<rparr>)))"

text \<open>Reading every local container's document. The first error ends it with what is left of the cache;
  an entry looked up has been taken out of it.\<close>

fun gather ::
  "gf_libs \<Rightarrow> meta_store \<Rightarrow> fs \<Rightarrow> vmid list \<Rightarrow> (vmid, string option \<times> guest_files) bmap \<Rightarrow>
   (vmid, string option \<times> guest_files) bmap \<Rightarrow>
   (string \<times> (vmid, string option \<times> guest_files) bmap) + (vmid, string option \<times> guest_files) bmap" where
  "gather G M s [] cache out = Inr out"
| "gather G M s (v # vs) cache out =
     (case digest_of (core_libs G) M (Guest v) s of
        Inl e \<Rightarrow> Inl (''the document of '' @ show_vmid v @ '': '' @ error_text e, cache)
      | Inr dg \<Rightarrow>
          (case (case map_of cache v of
                   Some (d, p) \<Rightarrow> if d = dg then Inr p else read_guest_files G M v s
                 | None \<Rightarrow> read_guest_files G M v s) of
             Inl e \<Rightarrow> Inl (alt_text e, odel v cache)
           | Inr p \<Rightarrow> gather G M s vs (odel v cache) (bput v (dg, p) out)))"

definition local_containers :: "string \<Rightarrow> (vmid, vm_guest) bmap \<Rightarrow> vmid list" where
  "local_containers n l = map fst (filter (\<lambda>(_, g). vg_node g = n \<and> vg_kind g = Lxc) l)"

text \<open>What the queue is filled from: the reason of each container that is due; the others note whether
  they run.\<close>

definition due_now :: "(vmid, 64 word) bmap \<Rightarrow> nat \<Rightarrow> daemon \<Rightarrow> vmid \<times> (string option \<times> guest_files) \<Rightarrow> reason option" where
  "due_now active now d vw =
     due (map_of (dm_memos d) (fst vw)) (map_of active (fst vw)) (fst (snd vw)) (has_guest_files_key (snd (snd vw))) now"

definition enqueue :: "(vmid, 64 word) bmap \<Rightarrow> nat \<Rightarrow> (reason \<times> vmid) list \<times> daemon \<Rightarrow> vmid \<times> (string option \<times> guest_files) \<Rightarrow> (reason \<times> vmid) list \<times> daemon" where
  "enqueue active now qd vw =
     (case qd of (q, d) \<Rightarrow>
      case due_now active now d vw of
        Some why \<Rightarrow> (q @ [(why, fst vw)], d)
      | None \<Rightarrow>
          (case map_of (dm_memos d) (fst vw) of
             Some m \<Rightarrow> (q, put_memo (fst vw) (m\<lparr>me_inode := map_of active (fst vw)\<rparr>) d)
           | None \<Rightarrow> (q, d)))"

definition serve :: "gf_libs \<Rightarrow> string \<Rightarrow> (vmid, 64 word) bmap \<Rightarrow> timing \<Rightarrow> nat \<Rightarrow> daemon \<times> host \<Rightarrow> reason \<times> vmid \<Rightarrow> daemon \<times> host" where
  "serve G n active tm now dh rv =
     (case daemon_sync G n (snd rv) active (fst rv) tm now dh of
        (True, d, h) \<Rightarrow> (put_memo (snd rv) ((memo_of d (snd rv))\<lparr>me_inode := map_of active (snd rv)\<rparr>) d, h)
      | (False, d, h) \<Rightarrow> (d, h))"

definition poll_due :: "gf_libs \<Rightarrow> string \<Rightarrow> (vmid, 64 word) bmap \<Rightarrow> timing \<Rightarrow> nat \<Rightarrow> daemon \<times> host \<Rightarrow> daemon \<times> host" where
  "poll_due G n active tm now dh =
     (case dh of (d, h) \<Rightarrow>
      case foldl (enqueue active now) ([], d) (dm_wanted d) of
        (q, d') \<Rightarrow> foldl (serve G n active tm now) (d', h) (sort q))"

definition available :: "daemon \<Rightarrow> daemon" where
  "available d =
     (case log_once 0 ''unavailable'' None (dm_log d) of
        (b, lg) \<Rightarrow> d\<lparr>dm_log := (if b then eprintln ''available again'' lg else lg)\<rparr>)"

definition poll :: "gf_libs \<Rightarrow> meta_store \<Rightarrow> string \<Rightarrow> timing \<Rightarrow> nat \<Rightarrow> daemon \<times> host \<Rightarrow> daemon \<times> host" where
  "poll G M n tm now dh =
     (case dh of (d, h) \<Rightarrow>
      case (vmlist G (h_fs h), active_containers (h_fs h)) of
        (Inr l, Inr active) \<Rightarrow>
          (let locals = local_containers n l in
           case gather G M (h_fs h) locals (dm_wanted d) [] of
             Inl (why, cache) \<Rightarrow> (unavailable why (d\<lparr>dm_wanted := cache\<rparr>), h)
           | Inr out \<Rightarrow>
               (let d1 = available d;
                    d2 = d1\<lparr>dm_wanted := out, dm_memos := filter (\<lambda>(v, _). v \<in> set locals) (dm_memos d1)\<rparr>
                in poll_due G n active tm now (d2, h)))
      | (Inl e, _) \<Rightarrow> (unavailable (alt_text e) d, h)
      | (_, Inl e) \<Rightarrow> (unavailable (alt_text e) d, h))"

definition daemon_default :: daemon where
  "daemon_default = \<lparr>dm_memos = [], dm_wanted = [], dm_log = \<lparr>lg_seen = [], lg_err = []\<rparr>\<rparr>"

text \<open>The polls of \<open>run\<close>: each at its time and on the host as it then is, whatever happened in between.\<close>

definition run_polls :: "gf_libs \<Rightarrow> meta_store \<Rightarrow> string \<Rightarrow> timing \<Rightarrow> (nat \<times> host) list \<Rightarrow> daemon \<Rightarrow> daemon" where
  "run_polls G M n tm ps d = foldl (\<lambda>d (now, h). fst (poll G M n tm now (d, h))) d ps"

section \<open>What is said changes only the log\<close>

lemma say_keeps [simp]: "dm_memos (say v k r d) = dm_memos d" "dm_wanted (say v k r d) = dm_wanted d"
  by (simp_all add: say_def)

lemma put_memo_get [simp]:
  "map_of (dm_memos (put_memo v m d)) u = (if u = v then Some m else map_of (dm_memos d) u)"
  "dm_wanted (put_memo v m d) = dm_wanted d"
  by (simp_all add: put_memo_def)

lemma put_memo_sorted [simp]: "bsorted (dm_memos d) \<Longrightarrow> bsorted (dm_memos (put_memo v m d))"
  by (simp add: put_memo_def)

lemma available_keeps [simp]: "dm_memos (available d) = dm_memos d" "dm_wanted (available d) = dm_wanted d"
  by (simp_all add: available_def split: prod.splits)

lemma say_rows_keeps:
  "say_rows G v why xs keys d = (ks, d') \<Longrightarrow> dm_memos d' = dm_memos d \<and> dm_wanted d' = dm_wanted d"
  by (induction G v why xs keys d rule: say_rows.induct) (auto simp: Let_def split: option.splits if_splits)

section \<open>One container\<close>

text \<open>What a sync that ended leaves in the memo.\<close>

definition memo_after :: "timing \<Rightarrow> nat \<Rightarrow> string option \<times> guest_files \<Rightarrow> anyhow + report \<Rightarrow> memo \<Rightarrow> memo" where
  "memo_after tm now w res m =
     (case res of
        Inl _ \<Rightarrow> m\<lparr>me_digest := fst w, me_watched := (me_watched m \<or> has_guest_files_key (snd w)), me_next_due := Some (now + tm_retry tm)\<rparr>
      | Inr rep \<Rightarrow> m\<lparr>me_digest := fst w, me_watched := rp_has_records rep, me_next_due := Some (now + tm_drift tm)\<rparr>)"

lemma after_sync_memos:
  "dm_memos (after_sync G v why tm now w res d) = bput v (memo_after tm now w res (memo_of d v)) (dm_memos d)"
  "dm_wanted (after_sync G v why tm now w res d) = dm_wanted d"
proof -
  have *: "dm_memos d' = dm_memos d0 \<and> dm_wanted d' = dm_wanted d0"
    if "say_rows G v why xs [] d0 = (ks, d')" for xs ks d0 d'
    using say_rows_keeps [OF that] .
  show "dm_memos (after_sync G v why tm now w res d) = bput v (memo_after tm now w res (memo_of d v)) (dm_memos d)"
    "dm_wanted (after_sync G v why tm now w res d) = dm_wanted d"
    by (auto simp: after_sync_def memo_after_def put_memo_def Let_def split: sum.splits prod.splits dest!: *)
qed

definition sync_ready :: "string \<Rightarrow> (vmid, 64 word) bmap \<Rightarrow> host \<Rightarrow> vmid \<Rightarrow> bool" where
  "sync_ready n active h v \<longleftrightarrow> stopped_or_locked n v active (h_fs h) = Inr None \<and> h_lock h v = Inr True"

lemma held_text_None: "held_text st = None \<longleftrightarrow> st = Inr None"
  by (auto simp: held_text_def split: sum.splits option.splits)

definition sync_of :: "gf_libs \<Rightarrow> (vmid, string option \<times> guest_files) bmap \<Rightarrow> vmid \<Rightarrow> guest \<Rightarrow> (anyhow + report) \<times> guest" where
  "sync_of G ws v g = sync G (pct_ops G v) (snd (unwrap_or (None, Nothing) (map_of ws v))) False g"

definition served_memo :: "gf_libs \<Rightarrow> (vmid, 64 word) bmap \<Rightarrow> timing \<Rightarrow> nat \<Rightarrow> daemon \<Rightarrow> host \<Rightarrow> vmid \<Rightarrow> memo" where
  "served_memo G active tm now d h v =
     (memo_after tm now (unwrap_or (None, Nothing) (map_of (dm_wanted d) v)) (fst (sync_of G (dm_wanted d) v (h_guests h v)))
        (memo_of d v))\<lparr>me_inode := map_of active v\<rparr>"

lemma serve_not_ready:
  assumes "\<not> sync_ready n active h v"
  obtains d' where "serve G n active tm now (d, h) (why, v) = (d', h)" "dm_memos d' = dm_memos d" "dm_wanted d' = dm_wanted d"
proof -
  have "snd (serve G n active tm now (d, h) (why, v)) = h \<and> dm_memos (fst (serve G n active tm now (d, h) (why, v))) = dm_memos d
      \<and> dm_wanted (fst (serve G n active tm now (d, h) (why, v))) = dm_wanted d"
    using assms
    by (auto simp: serve_def daemon_sync_def Let_def sync_ready_def held_text_None split: sum.splits bool.splits prod.splits if_splits)
  then show ?thesis using that by (metis prod.collapse)
qed

lemma serve_ready:
  assumes "sync_ready n active h v"
  obtains d' where
    "serve G n active tm now (d, h) (why, v) =
       (d', h\<lparr>h_guests := (h_guests h)(v := snd (sync_of G (dm_wanted d) v (h_guests h v)))\<rparr>)"
    "\<And>u. map_of (dm_memos d') u = (if u = v then Some (served_memo G active tm now d h v) else map_of (dm_memos d) u)"
    "bsorted (dm_memos d) \<Longrightarrow> bsorted (dm_memos d')"
    "dm_wanted d' = dm_wanted d"
proof -
  define w where "w = unwrap_or (None, Nothing) (map_of (dm_wanted d) v)"
  obtain res g where r: "sync G (pct_ops G v) (snd w) False (h_guests h v) = (res, g)" by fastforce
  have held: "held_text (stopped_or_locked n v active (h_fs h)) = None"
    and lock: "h_lock h v = Inr True" using assms by (simp_all add: sync_ready_def held_text_None)
  define d1 where "d1 = say v ''lock'' None d"
  have e: "daemon_sync G n v active why tm now (d, h) =
      (True, after_sync G v why tm now w res d1, h\<lparr>h_guests := (h_guests h)(v := g)\<rparr>)"
    using held lock r by (simp add: daemon_sync_def Let_def w_def d1_def)
  define d2 where "d2 = after_sync G v why tm now w res d1"
  have m2: "dm_memos d2 = bput v (memo_after tm now w res (memo_of d v)) (dm_memos d)" "dm_wanted d2 = dm_wanted d"
    by (simp_all add: d2_def after_sync_memos d1_def memo_of_def)
  have r': "sync_of G (dm_wanted d) v (h_guests h v) = (res, g)"
    using r by (simp add: sync_of_def w_def)
  have e2: "serve G n active tm now (d, h) (why, v) =
      (put_memo v ((memo_of d2 v)\<lparr>me_inode := map_of active v\<rparr>) d2, h\<lparr>h_guests := (h_guests h)(v := g)\<rparr>)"
    by (simp add: serve_def e d2_def)
  show ?thesis
  proof (rule that)
    show "serve G n active tm now (d, h) (why, v) =
        (put_memo v ((memo_of d2 v)\<lparr>me_inode := map_of active v\<rparr>) d2,
         h\<lparr>h_guests := (h_guests h)(v := snd (sync_of G (dm_wanted d) v (h_guests h v)))\<rparr>)"
      by (simp add: e2 r')
  qed (simp_all add: m2 memo_of_def served_memo_def r' flip: w_def)
qed

section \<open>One poll\<close>

lemma serve_all:
  assumes "foldl (serve G n active tm now) (d, h) q = (d', h')" "distinct (map snd q)"
  shows "(h_fs h' = h_fs h \<and> h_lock h' = h_lock h \<and> dm_wanted d' = dm_wanted d \<and> (bsorted (dm_memos d) \<longrightarrow> bsorted (dm_memos d')))
    \<and> (\<forall>v. h_guests h' v = (if v \<in> snd ` set q \<and> sync_ready n active h v
          then snd (sync_of G (dm_wanted d) v (h_guests h v)) else h_guests h v))
    \<and> (\<forall>v. map_of (dm_memos d') v = (if v \<in> snd ` set q \<and> sync_ready n active h v
          then Some (served_memo G active tm now d h v) else map_of (dm_memos d) v))"
  using assms
proof (induction q arbitrary: d h)
  case (Cons x q)
  obtain why u where x: "x = (why, u)" by (cases x)
  obtain d1 h1 where s: "serve G n active tm now (d, h) (why, u) = (d1, h1)" by (metis prod.collapse)
  have step: "(h_fs h1 = h_fs h \<and> h_lock h1 = h_lock h \<and> dm_wanted d1 = dm_wanted d \<and> (bsorted (dm_memos d) \<longrightarrow> bsorted (dm_memos d1)))
      \<and> (\<forall>v. h_guests h1 v = (if v = u \<and> sync_ready n active h u then snd (sync_of G (dm_wanted d) u (h_guests h u)) else h_guests h v))
      \<and> (\<forall>v. map_of (dm_memos d1) v = (if v = u \<and> sync_ready n active h u then Some (served_memo G active tm now d h u) else map_of (dm_memos d) v))"
  proof (cases "sync_ready n active h u")
    case True
    show ?thesis by (rule serve_ready [OF True, of G tm now d why]) (use s True in auto)
  next
    case False
    show ?thesis by (rule serve_not_ready [OF False, of G tm now d why]) (use s False in auto)
  qed
  then have ready: "sync_ready n active h1 v = sync_ready n active h v" for v by (simp add: sync_ready_def)
  have f: "foldl (serve G n active tm now) (d1, h1) q = (d', h')" "distinct (map snd q)" "u \<notin> snd ` set q"
    using s x Cons.prems by simp_all
  have same: "served_memo G active tm now d1 h1 v = served_memo G active tm now d h v" "h_guests h1 v = h_guests h v"
    "map_of (dm_memos d1) v = map_of (dm_memos d) v" if "v \<noteq> u" for v
    using step that by (simp_all add: served_memo_def memo_of_def)
  have "h_guests h' v = (if v \<in> snd ` set (x # q) \<and> sync_ready n active h v
      then snd (sync_of G (dm_wanted d) v (h_guests h v)) else h_guests h v)" for v
    using Cons.IH [OF f(1,2)] step f(3) by (cases "v = u") (simp_all add: ready x same)
  moreover have "map_of (dm_memos d') v = (if v \<in> snd ` set (x # q) \<and> sync_ready n active h v
      then Some (served_memo G active tm now d h v) else map_of (dm_memos d) v)" for v
    using Cons.IH [OF f(1,2)] step f(3) by (cases "v = u") (simp_all add: ready x same)
  ultimately show ?case using Cons.IH [OF f(1,2)] step by auto
qed simp

definition queue_of :: "(vmid, 64 word) bmap \<Rightarrow> nat \<Rightarrow> daemon \<Rightarrow> (vmid \<times> string option \<times> guest_files) list \<Rightarrow> (reason \<times> vmid) list" where
  "queue_of active now d ws = concat (map (\<lambda>vw. case due_now active now d vw of Some why \<Rightarrow> [(why, fst vw)] | None \<Rightarrow> []) ws)"

lemma queue_of_simps [simp]:
  "queue_of active now d [] = []"
  "queue_of active now d (x # ws) =
     (case due_now active now d x of Some why \<Rightarrow> [(why, fst x)] | None \<Rightarrow> []) @ queue_of active now d ws"
  by (simp_all add: queue_of_def)

lemma enqueue_all:
  assumes "foldl (enqueue active now) (q0, d) ws = (q, d')" "distinct (map fst ws)"
  shows "(q = q0 @ queue_of active now d ws
      \<and> dm_wanted d' = dm_wanted d \<and> (bsorted (dm_memos d) \<longrightarrow> bsorted (dm_memos d')))
    \<and> (\<forall>v. map_of (dm_memos d') v = (if \<exists>w. (v, w) \<in> set ws \<and> due_now active now d (v, w) = None
          then map_option (\<lambda>m. m\<lparr>me_inode := map_of active v\<rparr>) (map_of (dm_memos d) v) else map_of (dm_memos d) v))"
  using assms
proof (induction ws arbitrary: q0 d)
  case (Cons x ws)
  obtain u w where x: "x = (u, w)" by (cases x)
  obtain q1 d1 where s: "enqueue active now (q0, d) x = (q1, d1)" by (metis prod.collapse)
  have step: "q1 = q0 @ (case due_now active now d x of Some why \<Rightarrow> [(why, u)] | None \<Rightarrow> [])" "dm_wanted d1 = dm_wanted d"
    "bsorted (dm_memos d) \<longrightarrow> bsorted (dm_memos d1)"
    "\<And>v. map_of (dm_memos d1) v = (if v = u \<and> due_now active now d x = None
        then map_option (\<lambda>m. m\<lparr>me_inode := map_of active v\<rparr>) (map_of (dm_memos d) v) else map_of (dm_memos d) v)"
    using s by (auto simp: enqueue_def x split: option.splits)
  have r: "foldl (enqueue active now) (q1, d1) ws = (q, d')" "distinct (map fst ws)" "u \<notin> fst ` set ws"
    using Cons.prems s x by simp_all
  have same: "due_now active now d1 y = due_now active now d y" if "y \<in> set ws" for y
    using that r(3) by (auto simp: due_now_def step image_iff)
  have ms: "queue_of active now d1 ws = queue_of active now d ws"
    unfolding queue_of_def by (intro arg_cong [of _ _ concat] map_cong) (auto simp: same)
  have no: "(u, w') \<notin> set ws" for w' using r(3) by (force simp: image_iff)
  have ex: "(\<exists>w. (v, w) \<in> set ws \<and> due_now active now d1 (v, w) = None) \<longleftrightarrow> (\<exists>w. (v, w) \<in> set ws \<and> due_now active now d (v, w) = None)" for v
    using same by metis
  have "map_of (dm_memos d') v = (if \<exists>w. (v, w) \<in> set (x # ws) \<and> due_now active now d (v, w) = None
      then map_option (\<lambda>m. m\<lparr>me_inode := map_of active v\<rparr>) (map_of (dm_memos d) v) else map_of (dm_memos d) v)" for v
    using Cons.IH [OF r(1,2)] no by (cases "v = u") (auto simp: ex step x simp del: split_paired_Ex split_paired_All)
  then show ?case using Cons.IH [OF r(1,2)]
    by (cases "due_now active now d (u, w)") (auto simp: step x ms simp del: split_paired_Ex split_paired_All)
qed simp

text \<open>Reading the documents: the files of a container as a poll sees them, cached under the digest or read.\<close>

definition wanted_now ::
  "gf_libs \<Rightarrow> meta_store \<Rightarrow> fs \<Rightarrow> (vmid, string option \<times> guest_files) bmap \<Rightarrow> vmid \<Rightarrow> string + string option \<times> guest_files" where
  "wanted_now G M s cache v =
     andthen (map_err (\<lambda>e. ''the document of '' @ show_vmid v @ '': '' @ error_text e) (digest_of (core_libs G) M (Guest v) s)) (\<lambda>dg.
     andthen (map_err alt_text
         (case map_of cache v of
            Some (d, p) \<Rightarrow> if d = dg then Inr p else read_guest_files G M v s
          | None \<Rightarrow> read_guest_files G M v s)) (\<lambda>p.
     Inr (dg, p)))"

lemma wanted_now_cong: "map_of c v = map_of c' v \<Longrightarrow> wanted_now G M s c v = wanted_now G M s c' v"
  by (simp add: wanted_now_def)

lemma gather_step:
  "gather G M s (v # vs) cache out =
     (case wanted_now G M s cache v of
        Inl e \<Rightarrow> Inl (e, if isl (digest_of (core_libs G) M (Guest v) s) then cache else odel v cache)
      | Inr w \<Rightarrow> gather G M s vs (odel v cache) (bput v w out))"
  by (simp add: wanted_now_def andthen_def map_err_def split: sum.splits option.splits prod.splits)

declare gather.simps(2) [simp del]

lemma gather_reads:
  assumes "distinct vs" "\<forall>v \<in> set vs. wanted_now G M s cache v = Inr (w v)"
  obtains out' where "gather G M s vs cache out = Inr out'"
    "\<And>v. map_of out' v = (if v \<in> set vs then Some (w v) else map_of out v)" "bsorted out \<Longrightarrow> bsorted out'"
proof -
  have "\<exists>out'. gather G M s vs cache out = Inr out'
      \<and> (\<forall>v. map_of out' v = (if v \<in> set vs then Some (w v) else map_of out v)) \<and> (bsorted out \<longrightarrow> bsorted out')"
    using assms
  proof (induction vs arbitrary: cache out)
    case (Cons u vs)
    have "\<forall>v \<in> set vs. wanted_now G M s (odel u cache) v = Inr (w v)"
    proof
      fix v assume "v \<in> set vs"
      with Cons.prems show "wanted_now G M s (odel u cache) v = Inr (w v)"
        by (subst wanted_now_cong [of _ v cache]) auto
    qed
    with Cons.prems Cons.IH [of "odel u cache" "bput u (w u) out"]
    obtain out' where "gather G M s vs (odel u cache) (bput u (w u) out) = Inr out'"
      "\<forall>v. map_of out' v = (if v \<in> set vs then Some (w v) else map_of (bput u (w u) out) v)"
      "bsorted (bput u (w u) out) \<longrightarrow> bsorted out'" by auto
    with Cons.prems have "gather G M s (u # vs) cache out = Inr out'" by (simp add: gather_step)
    moreover have "\<forall>v. map_of out' v = (if v \<in> set (u # vs) then Some (w v) else map_of out v)"
      using \<open>\<forall>v. map_of out' v = _\<close> Cons.prems(1) by simp
    moreover have "bsorted out \<longrightarrow> bsorted out'" using \<open>bsorted _ \<longrightarrow> _\<close> by simp
    ultimately show ?case by blast
  qed simp
  then show thesis using that by blast
qed

lemma gather_fails:
  assumes "distinct vs" "v \<in> set vs" "wanted_now G M s cache v = Inl e"
  obtains why c where "gather G M s vs cache out = Inl (why, c)"
    "\<exists>u \<in> set vs. wanted_now G M s cache u = Inl why"
proof -
  have "\<exists>why c. gather G M s vs cache out = Inl (why, c) \<and> (\<exists>u \<in> set vs. wanted_now G M s cache u = Inl why)"
    using assms
  proof (induction vs arbitrary: cache out)
    case (Cons u vs)
    show ?case
    proof (cases "wanted_now G M s cache u")
      case (Inl e')
      then show ?thesis by (simp add: gather_step)
    next
      case (Inr w)
      with Cons.prems have v: "v \<in> set vs" "v \<noteq> u" "distinct vs" by auto
      have c: "x \<in> set vs \<Longrightarrow> wanted_now G M s (odel u cache) x = wanted_now G M s cache x" for x
        using Cons.prems(1) by (intro wanted_now_cong) auto
      with Cons.prems(3) v have "wanted_now G M s (odel u cache) v = Inl e" by simp
      from Cons.IH [OF v(3,1) this, of "bput u w out"] c Inr show ?thesis by (auto simp: gather_step)
    qed
  qed simp
  then show thesis using that by blast
qed

lemma local_containers_distinct:
  assumes "vmlist G s = Inr l"
  shows "distinct (local_containers n l)"
proof -
  have "bsorted l" using assms by (auto simp: vmlist_def andthen_eq_Inr dest: parse_vmlist_sorted)
  then have "distinct (map fst l)" by (simp add: bsorted_distinct)
  then show ?thesis unfolding local_containers_def by (rule distinct_map_filter)
qed

definition due_of ::
  "(vmid, 64 word) bmap \<Rightarrow> nat \<Rightarrow> daemon \<Rightarrow> (vmid \<Rightarrow> string option \<times> guest_files) \<Rightarrow> vmid \<Rightarrow> reason option" where
  "due_of active now d w v =
     due (map_of (dm_memos d) v) (map_of active v) (fst (w v)) (has_guest_files_key (snd (w v))) now"

lemma map_of_filter_keys: "map_of (filter (\<lambda>(k, _). k \<in> S) m) v = (if v \<in> S then map_of m v else None)"
  by (induction m) auto

lemma due_queue:
  assumes "bsorted ws" "\<And>v. map_of ws v = (if v \<in> S then Some (w v) else None)"
  shows "distinct (map snd (queue_of active now d ws))"
    and "v \<in> snd ` set (queue_of active now d ws) \<longleftrightarrow> v \<in> S \<and> due_of active now d w v \<noteq> None"
    and "(\<exists>x. (v, x) \<in> set ws \<and> due_now active now d (v, x) = None) \<longleftrightarrow> v \<in> S \<and> due_of active now d w v = None"
proof -
  have q: "u \<in> snd ` set (queue_of active now d xs) \<longleftrightarrow> (\<exists>vw \<in> set xs. fst vw = u \<and> due_now active now d vw \<noteq> None)" for u xs
  proof (induction xs)
    case (Cons x xs)
    then show ?case by (cases "due_now active now d x") auto
  qed simp
  have "distinct (map fst xs) \<Longrightarrow> distinct (map snd (queue_of active now d xs))" for xs
  proof (induction xs)
    case (Cons x xs)
    have "fst x \<notin> fst ` set xs" using Cons.prems by simp
    then have "fst x \<notin> snd ` set (queue_of active now d xs)" unfolding q by (metis image_eqI)
    with Cons show ?case by (cases "due_now active now d x") auto
  qed simp
  then show "distinct (map snd (queue_of active now d ws))" using assms(1) by (simp add: bsorted_distinct)
  have mem: "(v, x) \<in> set ws \<longleftrightarrow> v \<in> S \<and> x = w v" for v x
    using assms by (metis bsorted_distinct map_of_eq_Some_iff option.distinct(1) option.inject)
  have dn: "due_now active now d (v, w v) = due_of active now d w v" for v by (simp add: due_now_def due_of_def)
  show "v \<in> snd ` set (queue_of active now d ws) \<longleftrightarrow> v \<in> S \<and> due_of active now d w v \<noteq> None"
    unfolding q using mem dn by (metis fst_conv prod.collapse)
  show "(\<exists>x. (v, x) \<in> set ws \<and> due_now active now d (v, x) = None) \<longleftrightarrow> v \<in> S \<and> due_of active now d w v = None"
    using mem dn by metis
qed

lemma poll_reads:
  assumes l: "vmlist G (h_fs h) = Inr l" and a: "active_containers (h_fs h) = Inr active"
    and w: "\<forall>v \<in> set (local_containers n l). wanted_now G M (h_fs h) (dm_wanted d) v = Inr (w v)"
    and p: "poll G M n tm now (d, h) = (d', h')"
  shows "h_fs h' = h_fs h"
    and "h_guests h' v =
      (if v \<in> set (local_containers n l) \<and> due_of active now d w v \<noteq> None \<and> sync_ready n active h v
       then snd (sync G (pct_ops G v) (snd (w v)) False (h_guests h v)) else h_guests h v)"
    and "map_of (dm_memos d') v =
      (if v \<notin> set (local_containers n l) then None
       else if due_of active now d w v = None then map_option (\<lambda>m. m\<lparr>me_inode := map_of active v\<rparr>) (map_of (dm_memos d) v)
       else if sync_ready n active h v
       then Some ((memo_after tm now (w v) (fst (sync G (pct_ops G v) (snd (w v)) False (h_guests h v))) (memo_of d v))\<lparr>me_inode := map_of active v\<rparr>)
       else map_of (dm_memos d) v)"
proof -
  let ?S = "set (local_containers n l)"
  obtain out where g: "gather G M (h_fs h) (local_containers n l) (dm_wanted d) [] = Inr out"
    and out: "map_of out v = (if v \<in> ?S then Some (w v) else None)" "bsorted out" for v
    by (rule gather_reads [OF local_containers_distinct [OF l, of n] w, of "[]"]) auto
  define d1 where "d1 = (available d)\<lparr>dm_wanted := out, dm_memos := filter (\<lambda>(v, _). v \<in> ?S) (dm_memos (available d))\<rparr>"
  have m1: "map_of (dm_memos d1) v = (if v \<in> ?S then map_of (dm_memos d) v else None)" for v
    by (simp add: d1_def map_of_filter_keys)
  have due1: "v \<in> ?S \<Longrightarrow> due_of active now d1 w v = due_of active now d w v" for v by (simp add: due_of_def m1)
  obtain q d2 where e: "foldl (enqueue active now) ([], d1) out = (q, d2)" by (metis prod.collapse)
  note q = enqueue_all [OF e bsorted_distinct [OF out(2)]]
  note dq = due_queue [OF out(2,1), where active = active and now = now and d = d1]
  have s: "foldl (serve G n active tm now) (d2, h) (sort q) = (d', h')"
    using p l a g e by (simp add: poll_def poll_due_def Let_def d1_def)
  have "distinct (map snd (sort q))" using q dq(1) by (simp add: distinct_map)
  note sv = serve_all [OF s this]
  have ws: "dm_wanted d2 = out" using q by (simp add: d1_def)
  have so: "v \<in> ?S \<Longrightarrow> sync_of G (dm_wanted d2) v g = sync G (pct_ops G v) (snd (w v)) False g" for v g
    by (simp add: sync_of_def ws out unwrap_or_def)
  have inq: "v \<in> snd ` set q \<longleftrightarrow> v \<in> ?S \<and> due_of active now d w v \<noteq> None" for v
    using q dq(2) [of v] due1 [of v] by auto
  have m2: "map_of (dm_memos d2) v = (if v \<in> ?S \<and> due_of active now d w v = None
      then map_option (\<lambda>m. m\<lparr>me_inode := map_of active v\<rparr>) (map_of (dm_memos d1) v) else map_of (dm_memos d1) v)" for v
    using q dq(3) [of v] due1 [of v] by (auto simp del: split_paired_Ex)
  show "h_fs h' = h_fs h" using sv by simp
  show "h_guests h' v =
      (if v \<in> ?S \<and> due_of active now d w v \<noteq> None \<and> sync_ready n active h v
       then snd (sync G (pct_ops G v) (snd (w v)) False (h_guests h v)) else h_guests h v)"
    using sv so by (auto simp: inq)
  have sm: "served_memo G active tm now d2 h v =
      (memo_after tm now (w v) (fst (sync G (pct_ops G v) (snd (w v)) False (h_guests h v))) (memo_of d v))\<lparr>me_inode := map_of active v\<rparr>"
    if "v \<in> ?S" "due_of active now d w v \<noteq> None"
    using that so [OF that(1)] by (auto simp: served_memo_def memo_of_def m2 m1 ws out unwrap_or_def)
  show "map_of (dm_memos d') v =
      (if v \<notin> ?S then None
       else if due_of active now d w v = None then map_option (\<lambda>m. m\<lparr>me_inode := map_of active v\<rparr>) (map_of (dm_memos d) v)
       else if sync_ready n active h v
       then Some ((memo_after tm now (w v) (fst (sync G (pct_ops G v) (snd (w v)) False (h_guests h v))) (memo_of d v))\<lparr>me_inode := map_of active v\<rparr>)
       else map_of (dm_memos d) v)"
    using sv sm by (simp add: inq m2 m1 del: split_paired_Ex)
qed

lemma poll_unreadable:
  assumes "isl (vmlist G (h_fs h)) \<or> isl (active_containers (h_fs h))
      \<or> (\<exists>l. vmlist G (h_fs h) = Inr l \<and> (\<exists>v \<in> set (local_containers n l). isl (wanted_now G M (h_fs h) (dm_wanted d) v)))"
    and p: "poll G M n tm now (d, h) = (d', h')"
  shows "h' = h \<and> dm_memos d' = dm_memos d
    \<and> (\<exists>why. dm_log d' = snd (log_once 0 ''unavailable'' (Some (why @ ''; waiting'')) (dm_log d)))"
proof (cases "vmlist G (h_fs h)")
  case (Inl e)
  with p show ?thesis by (auto simp: poll_def unavailable_def say_def)
next
  case l: (Inr l)
  show ?thesis
  proof (cases "active_containers (h_fs h)")
    case (Inl e)
    with p l show ?thesis by (auto simp: poll_def unavailable_def say_def)
  next
    case a: (Inr active)
    with assms(1) l obtain v e where v: "v \<in> set (local_containers n l)" "wanted_now G M (h_fs h) (dm_wanted d) v = Inl e"
      by (auto simp: isl_def)
    obtain why c where "gather G M (h_fs h) (local_containers n l) (dm_wanted d) [] = Inl (why, c)"
      by (rule gather_fails [OF local_containers_distinct [OF l] v])
    with p l a show ?thesis by (auto simp: poll_def unavailable_def say_def Let_def)
  qed
qed

text \<open>Every memo has a next time, at most the longer interval after the last poll.\<close>

definition memos_within :: "nat \<Rightarrow> daemon \<Rightarrow> bool" where
  "memos_within T d \<longleftrightarrow> (\<forall>v m. map_of (dm_memos d) v = Some m \<longrightarrow> (\<exists>t. me_next_due m = Some t \<and> t \<le> T))"

lemma poll_memos_within:
  assumes "memos_within (T + max (tm_drift tm) (tm_retry tm)) d" "now \<le> T" "poll G M n tm now (d, h) = (d', h')"
  shows "memos_within (T + max (tm_drift tm) (tm_retry tm)) d'"
proof (cases "isl (vmlist G (h_fs h)) \<or> isl (active_containers (h_fs h))
      \<or> (\<exists>l. vmlist G (h_fs h) = Inr l \<and> (\<exists>v \<in> set (local_containers n l). isl (wanted_now G M (h_fs h) (dm_wanted d) v)))")
  case True
  from poll_unreadable [OF this assms(3)] assms(1) show ?thesis by (simp add: memos_within_def)
next
  case False
  then obtain l active where l: "vmlist G (h_fs h) = Inr l" "active_containers (h_fs h) = Inr active"
    and w: "\<forall>v \<in> set (local_containers n l). wanted_now G M (h_fs h) (dm_wanted d) v = Inr (projr (wanted_now G M (h_fs h) (dm_wanted d) v))"
    by (metis isl_def sum.collapse(2) sum.exhaust)
  have next_time: "\<exists>t. me_next_due (memo_after tm now x r m) = Some t \<and> t \<le> T + max (tm_drift tm) (tm_retry tm)" for x r m
    using assms(2) by (auto simp: memo_after_def split: sum.splits)
  show ?thesis unfolding memos_within_def
  proof (intro allI impI)
    fix v m assume "map_of (dm_memos d') v = Some m"
    with poll_reads(3) [OF l w assms(3), of v]
    show "\<exists>t. me_next_due m = Some t \<and> t \<le> T + max (tm_drift tm) (tm_retry tm)"
      using assms(1) by (cases "map_of (dm_memos d) v") (auto simp: memos_within_def next_time split: if_splits)
  qed
qed

lemma run_polls_within:
  assumes "\<forall>th \<in> set ps. fst th \<le> T" "memos_within (T + max (tm_drift tm) (tm_retry tm)) d"
  shows "memos_within (T + max (tm_drift tm) (tm_retry tm)) (run_polls G M n tm ps d)"
  using assms
proof (induction ps arbitrary: d)
  case (Cons x ps)
  obtain t h where x: "x = (t, h)" by (cases x)
  obtain d1 h1 where p: "poll G M n tm t (d, h) = (d1, h1)" by (metis prod.collapse)
  with Cons.prems x have "memos_within (T + max (tm_drift tm) (tm_retry tm)) d1"
    by (intro poll_memos_within [OF _ _ p]) auto
  from Cons.IH [OF _ this] Cons.prems show ?case by (simp add: run_polls_def x p)
qed (simp add: run_polls_def)

section \<open>Properties\<close>

text \<open>C22: A read error is never taken for an absent document: when the list of guests, the running
  containers or the document of any container of this node cannot be read, the poll touches no guest,
  forgets and changes nothing it remembers of any container, and says that it waits.\<close>

theorem unreadable_poll_touches_nothing:
  assumes "isl (vmlist G (h_fs h)) \<or> isl (active_containers (h_fs h))
      \<or> (\<exists>l v. vmlist G (h_fs h) = Inr l \<and> v \<in> set (local_containers n l)
           \<and> (isl (digest_of (core_libs G) M (Guest v) (h_fs h))
              \<or> (isl (read_guest_files G M v (h_fs h))
                  \<and> (\<forall>dg p. digest_of (core_libs G) M (Guest v) (h_fs h) = Inr dg \<longrightarrow> map_of (dm_wanted d) v \<noteq> Some (dg, p)))))"
    and "poll G M n tm now (d, h) = (d', h')"
  shows "h' = h \<and> dm_memos d' = dm_memos d
    \<and> (\<exists>why. dm_log d' = snd (log_once 0 ''unavailable'' (Some (why @ ''; waiting'')) (dm_log d)))"
proof (rule poll_unreadable [OF _ assms(2)])
  have "isl (wanted_now G M (h_fs h) (dm_wanted d) v)"
    if "isl (digest_of (core_libs G) M (Guest v) (h_fs h))
      \<or> (isl (read_guest_files G M v (h_fs h))
          \<and> (\<forall>dg p. digest_of (core_libs G) M (Guest v) (h_fs h) = Inr dg \<longrightarrow> map_of (dm_wanted d) v \<noteq> Some (dg, p)))" for v
    using that by (auto simp: wanted_now_def andthen_def map_err_def isl_def split: sum.splits option.splits prod.splits)
  with assms(1) show "isl (vmlist G (h_fs h)) \<or> isl (active_containers (h_fs h))
      \<or> (\<exists>l. vmlist G (h_fs h) = Inr l \<and> (\<exists>v \<in> set (local_containers n l). isl (wanted_now G M (h_fs h) (dm_wanted d) v)))"
    by blast
qed

theorem unreadable_poll_touches_nothing_witness:
  "\<exists>d'. poll sample_gf sample_store ''n1'' timing_default 0
      (daemon_default, \<lparr>h_fs = sample_fs [([], Dir)], h_lock = (\<lambda>_. Inr True), h_guests = (\<lambda>_. sample_guest)\<rparr>)
     = (d', \<lparr>h_fs = sample_fs [([], Dir)], h_lock = (\<lambda>_. Inr True), h_guests = (\<lambda>_. sample_guest)\<rparr>) \<and> dm_memos d' = []"
proof -
  let ?h = "\<lparr>h_fs = sample_fs [([], Dir)], h_lock = (\<lambda>_. Inr True), h_guests = (\<lambda>_. sample_guest)\<rparr>"
  have "isl (vmlist sample_gf (sample_fs [([], Dir)]))" by code_simp
  then have "isl (vmlist sample_gf (h_fs ?h))" by simp
  from unreadable_poll_touches_nothing [OF disjI1 [OF this] prod.collapse [symmetric]]
  show ?thesis by (metis daemon.simps(1) daemon_default_def prod.collapse)
qed

text \<open>C10: A poll that can read everything syncs exactly the containers that are due and can be synced:
  a container's guest is changed only by one sync to the files its document has at this poll, and only
  when the container is on this node, due, running, not locked and free of a sync by hand; every other
  guest and every file of the host is as it was. What is remembered follows: the digest and socket the sync
  saw and when to look again, sooner after a failure; a container that was due and skipped is
  remembered as before, so the next poll finds it due again; one that has left the node is forgotten.\<close>

theorem poll_acts_on_exactly_the_due:
  assumes "vmlist G (h_fs h) = Inr l" "active_containers (h_fs h) = Inr active"
    and "\<forall>v \<in> set (local_containers n l). wanted_now G M (h_fs h) (dm_wanted d) v = Inr (w v)"
    and "poll G M n tm now (d, h) = (d', h')"
  shows "h_fs h' = h_fs h \<and>
    h_guests h' v =
      (if v \<in> set (local_containers n l) \<and> due_of active now d w v \<noteq> None \<and> sync_ready n active h v
       then snd (sync G (pct_ops G v) (snd (w v)) False (h_guests h v)) else h_guests h v) \<and>
    map_of (dm_memos d') v =
      (if v \<notin> set (local_containers n l) then None
       else if due_of active now d w v = None then map_option (\<lambda>m. m\<lparr>me_inode := map_of active v\<rparr>) (map_of (dm_memos d) v)
       else if sync_ready n active h v
       then Some (case fst (sync G (pct_ops G v) (snd (w v)) False (h_guests h v)) of
              Inl _ \<Rightarrow> \<lparr>me_digest = fst (w v), me_inode = map_of active v,
                        me_watched = (me_watched (memo_of d v) \<or> has_guest_files_key (snd (w v))), me_next_due = Some (now + tm_retry tm)\<rparr>
            | Inr rep \<Rightarrow> \<lparr>me_digest = fst (w v), me_inode = map_of active v,
                           me_watched = rp_has_records rep, me_next_due = Some (now + tm_drift tm)\<rparr>)
       else map_of (dm_memos d) v)"
  using poll_reads(1) [OF assms] poll_reads(2,3) [OF assms, of v] by (auto simp: memo_after_def split: sum.splits)

text \<open>A host for the witnesses: one running container of this node whose document has guest files.\<close>

definition sample_host_libs :: gf_libs where
  "sample_host_libs = sample_gf\<lparr>core_libs := (sample_libs sample_gf_doc)
     \<lparr>json_from_str := (\<lambda>_. Inr (VObj [(''ids'', VObj [(''105'', VObj [(''node'', VStr ''n1''), (''type'', VStr ''lxc'')])])]))\<rparr>\<rparr>"

definition sample_host :: host where
  "sample_host = \<lparr>h_fs = sample_fs [([], Dir), ([''r''], Dir), ([''r'', ''105.yaml''], File ''old'' 0),
       ([''etc''], Dir), ([''etc'', ''pve''], Dir), ([''etc'', ''pve'', ''.vmlist''], File ''v'' 0),
       ([''etc'', ''pve'', ''nodes''], Dir), ([''etc'', ''pve'', ''nodes'', ''n1''], Dir),
       ([''etc'', ''pve'', ''nodes'', ''n1'', ''lxc''], Dir), ([''etc'', ''pve'', ''nodes'', ''n1'', ''lxc'', ''105.conf''], File ''cores: 2'' 0),
       ([''proc''], Dir), ([''proc'', ''net''], Dir), ([''proc'', ''net'', ''unix''], File ''7 @/var/lib/lxc/105/command'' 0)],
     h_lock = (\<lambda>_. Inr True), h_guests = (\<lambda>_. sample_guest)\<rparr>"

lemma sample_host_reads:
  "vmlist sample_host_libs (h_fs sample_host) = Inr [(105, \<lparr>vg_node = ''n1'', vg_kind = Lxc\<rparr>)]"
  "active_containers (h_fs sample_host) = Inr [(105, 7)]"
  "local_containers ''n1'' [(105, \<lparr>vg_node = ''n1'', vg_kind = Lxc\<rparr>)] = [105]"
  "digest_of (core_libs sample_host_libs) sample_store (Guest 105) (h_fs sample_host) = Inr (Some ''old'')"
  "stopped_or_locked ''n1'' 105 [(105, 7)] (h_fs sample_host) = Inr None"
  by code_simp+

definition sample_files :: guest_files where
  "sample_files = projr (read_guest_files sample_host_libs sample_store 105 (h_fs sample_host))"

lemma sample_wanted:
  "\<forall>v \<in> set (local_containers ''n1'' [(105, \<lparr>vg_node = ''n1'', vg_kind = Lxc\<rparr>)]).
     wanted_now sample_host_libs sample_store (h_fs sample_host) (dm_wanted daemon_default) v = Inr (Some ''old'', sample_files)"
proof -
  have "\<not> isl (read_guest_files sample_host_libs sample_store 105 (h_fs sample_host))" by code_simp
  then have "read_guest_files sample_host_libs sample_store 105 (h_fs sample_host) = Inr sample_files"
    by (simp add: sample_files_def)
  then show ?thesis by (simp add: sample_host_reads wanted_now_def daemon_default_def)
qed

lemma sample_ready: "sync_ready ''n1'' [(105, 7)] sample_host 105" "has_guest_files_key sample_files"
proof -
  show "sync_ready ''n1'' [(105, 7)] sample_host 105"
    using sample_host_reads(5) by (simp add: sync_ready_def) (simp add: sample_host_def)
  show "has_guest_files_key sample_files" by code_simp
qed

theorem poll_acts_on_exactly_the_due_witness:
  "h_guests (snd (poll sample_host_libs sample_store ''n1'' timing_default 0 (daemon_default, sample_host))) 105
     = snd (sync sample_host_libs (pct_ops sample_host_libs 105) sample_files False sample_guest)
   \<and> h_guests (snd (poll sample_host_libs sample_store ''n1'' timing_default 0 (daemon_default, sample_host))) 106 = sample_guest"
proof -
  note p = poll_acts_on_exactly_the_due [OF sample_host_reads(1,2) sample_wanted prod.collapse [symmetric]]
  have "due_of [(105, 7)] 0 daemon_default (\<lambda>_. (Some ''old'', sample_files)) 105 \<noteq> None"
    using sample_ready(2) by (simp add: due_of_def due_def daemon_default_def)
  moreover have "h_guests sample_host v = sample_guest" for v by (simp add: sample_host_def)
  ultimately show ?thesis
    using p [of timing_default 0 105] p [of timing_default 0 106] sample_ready(1) by (simp add: sample_host_reads)
qed



end
