(* ===== verification/Gf_Report.thy ===== *)
theory Gf_Report
  imports Gf_Sync
begin

text \<open>
  What the report of a sync means (guest.rs over pct.rs): each row that says done had its command, and
  right after that command the guest held the planned file at the planned path, or no longer the file to
  be removed. Other processes may act before every command.
\<close>

section \<open>Where a path arrives after a file was put or removed\<close>

definition same_ways :: "gtree \<Rightarrow> gtree \<Rightarrow> bool" where
  "same_ways m m' \<longleftrightarrow> (\<forall>z e. map_of m z = Some e \<longrightarrow> e = GDir \<or> (\<exists>t. e = GLink t) \<longrightarrow> map_of m' z = Some e)"

lemma gwalk_same_ways: "same_ways m m' \<Longrightarrow> gwalk n m cur ss = Some d \<Longrightarrow> gwalk n m' cur ss = Some d"
proof (induction n m cur ss rule: gwalk.induct)
  case (2 n m cur s ss)
  from 2(4) obtain e where e: "map_of m (cur @ [s]) = Some e" by (cases "map_of m (cur @ [s])") auto
  show ?case
  proof (cases e)
    case GDir
    with 2 e show ?thesis by (simp add: same_ways_def)
  next
    case (GLink t)
    with 2(4) e obtain k where "n = Suc k" by (cases n) auto
    moreover from 2(3) e GLink have "map_of m' (cur @ [s]) = Some (GLink t)" by (simp add: same_ways_def)
    ultimately show ?thesis using 2 e GLink by simp
  qed (use 2(4) e in auto)
qed simp

lemma gloc_same_ways: "same_ways m m' \<Longrightarrow> gloc m p = Some q \<Longrightarrow> gloc m' p = Some q"
  using gwalk_same_ways [of m m' 40 "[]"] by (auto simp: gloc_def Let_def split: if_splits)

lemma removed_is_gone:
  assumes "sh_rmf G fails m i p sha = (i @ '' done'', m')"
  shows "glstat m' p = None"
proof (cases "test_e m p")
  case False
  with assms have "\<not> test_L m p" "m' = m" by (auto simp: sh_rmf_def split: if_splits)
  with False missing_location [of m p] show ?thesis by (auto simp: glstat_def split: option.splits)
next
  case True
  with assms have l: "\<not> test_L m p" "test_f m p" and m': "m' = grm m p"
    by (auto simp: sh_rmf_def split: if_splits)
  obtain q where q: "gloc m p = Some q" using test_f_location [OF l(2)] by blast
  obtain c u g b where n: "map_of m q = Some (GFile c u g b)" by (rule file_location [OF l q])
  have m': "m' = odel q m" using m' q n by (simp add: grm_def)
  then have "same_ways m m'" using n by (auto simp: same_ways_def)
  from gloc_same_ways [OF this q] m' show ?thesis by (simp add: glstat_def)
qed

lemma placed_is_there:
  assumes w: "sh_w G fails m i p (temp_for p) (expect_arg ex) (mode_text md) (show_owner ow) (base64 c @ [nl]) = (i @ '' done'', m')"
    and md: "unat md < 512" and ex: "ex \<noteq> ExAny" "\<And>sha. ex = ExSha256 sha \<Longrightarrow> sha \<noteq> ''*'' \<and> sha \<noteq> ''-''"
  shows "glstat m' p = Some (GFile c (uid ow) (gid ow) md)"
proof -
  let ?m1 = "grm m (temp_for p)"
  from w obtain q where q: "gloc ?m1 (temp_for p) = Some q" "map_of ?m1 q = None"
    and e: "\<not> unexpected G (placed c ow md q ?m1) p (expect_arg ex)"
    and mv: "gmv (placed c ow md q ?m1) (temp_for p) p = Some m'"
    by (auto simp: sh_w_eq [OF md] split: option.splits if_splits)
  define m3 where "m3 = placed c ow md q ?m1"
  have "extends ?m1 m3" using q(2) by (auto simp: extends_def m3_def placed_lookup)
  then have loc: "gloc m3 (temp_for p) = Some q" using q(1) by (rule gloc_extends)
  have at: "map_of m3 q = Some (GFile c (uid ow) (gid ow) md)" by (simp add: m3_def placed_lookup)
  have tgt: "\<not> test_L m3 p \<and> (test_f m3 p \<or> \<not> test_e m3 p)"
    using e ex by (cases ex) (auto simp: unexpected_def m3_def split: if_splits)
  then have nodir: "gstat m3 p \<noteq> Some (d, GDir)" for d by (auto simp: test_f_def test_e_def file_bytes_def)
  have mv3: "gmv m3 (temp_for p) p = Some m'" using mv by (simp add: m3_def)
  obtain r where r: "gloc m3 p = Some r" and m': "m' = oput r (GFile c (uid ow) (gid ow) md) (odel q m3)"
  proof (cases "gloc m3 p")
    case None
    with mv3 loc at nodir show ?thesis
      by (auto simp: gmv_def gstat_def split: option.splits gent.splits prod.splits)
  next
    case (Some r)
    with mv3 loc at nodir have "m' = oput r (GFile c (uid ow) (gid ow) md) (odel q m3)"
      by (auto simp: gmv_def split: option.splits gent.splits prod.splits)
    with Some show ?thesis by (rule that)
  qed
  have "map_of m3 r = None \<or> (\<exists>c u g b. map_of m3 r = Some (GFile c u g b))"
  proof (cases "test_e m3 p")
    case True
    with tgt have f: "\<not> test_L m3 p" "test_f m3 p" by auto
    show ?thesis by (rule file_location [OF f r]) blast
  next
    case False
    with tgt missing_location [of m3 p r] r show ?thesis by blast
  qed
  with at m' have "same_ways m3 m'" by (auto simp: same_ways_def)
  from gloc_same_ways [OF this r] m' show ?thesis by (simp add: glstat_def)
qed

text \<open>An operation that was done.\<close>

fun op_done :: "fop \<Rightarrow> gtree \<Rightarrow> bool" where
  "op_done (Place p c md ow ex) m \<longleftrightarrow> glstat m p = Some (GFile c (uid ow) (gid ow) md)"
| "op_done (Remove p sha) m \<longleftrightarrow> glstat m p = None"

definition any_expected :: "fop \<Rightarrow> bool" where
  "any_expected oper \<longleftrightarrow> (\<exists>p c md ow. oper = Place p c md ow ExAny)"

definition answers :: "string list" where
  "answers = ['' done'', '' changed'', '' failed write'', '' failed owner or mode'', '' failed rename'', '' failed removal'']"

lemma sh_w_answer: "\<exists>w \<in> set answers. fst (sh_w G fails m i p t ex md ow body) = i @ w"
  by (simp add: sh_w_def Let_def answers_def split: option.split)

lemma sh_rmf_answer: "\<exists>w \<in> set answers. fst (sh_rmf G fails m i p sha) = i @ w"
  by (simp add: sh_rmf_def answers_def)

lemma run_op_answer:
  assumes "run_command G fails m (op_command (i, oper)) = (out, x, m')"
  shows "x = None \<and> (\<exists>w \<in> set answers. out = [show_nat i @ w])"
proof (cases oper)
  case (Place p c md ow ex)
  then have "x = None" "out = [fst (sh_w G fails m (show_nat i) p (temp_for p) (expect_arg ex) (mode_text md) (show_owner ow) (base64 c @ [nl]))]"
    using assms by (auto simp: run_command.simps word_of_def split: prod.splits)
  then show ?thesis using sh_w_answer by simp
next
  case (Remove p sha)
  then have "x = None" "out = [fst (sh_rmf G fails m (show_nat i) p sha)]"
    using assms by (auto simp: run_command.simps split: prod.splits)
  then show ?thesis using sh_rmf_answer by simp
qed

lemma run_op_done:
  assumes "op_ok oper" "\<not> any_expected oper"
    "run_command G fails m (op_command (i, oper)) = ([show_nat i @ '' done''], x, m')"
  shows "op_done oper m'"
proof (cases oper)
  case (Place p c md ow ex)
  then have "sh_w G fails m (show_nat i) p (temp_for p) (expect_arg ex) (mode_text md) (show_owner ow) (base64 c @ [nl])
      = (show_nat i @ '' done'', m')"
    using assms(3) by (auto simp: run_command.simps word_of_def split: prod.splits)
  with assms(1,2) Place show ?thesis
    by (auto simp: op_ok_def any_expected_def intro!: placed_is_there)
next
  case (Remove p sha)
  then show ?thesis using assms(3) by (auto simp: run_command.simps intro!: removed_is_gone split: prod.splits)
qed

section \<open>One answer per operation\<close>

lemma run_ops:
  assumes "run_commands G (map op_command (enumerate k ops)) g = ((outs, x), g')"
  shows "x = None \<and> length outs = length ops \<and> (\<exists>tr. g_trace g' = g_trace g @ tr \<and> length tr = length ops
    \<and> (\<forall>i < length ops. \<exists>fails w. w \<in> set answers \<and> outs ! i = show_nat (k + i) @ w
         \<and> run_command G fails (fst (tr ! i)) (op_command (k + i, ops ! i)) = ([outs ! i], None, snd (tr ! i))))"
  using assms
proof (induction ops arbitrary: k g outs x g')
  case (Cons oper ops)
  obtain out y m where c: "run_command G (g_fails g (g_time g)) (seen_tree g) (op_command (k, oper)) = (out, y, m)"
    by (metis prod_cases3)
  from run_op_answer [OF c] obtain w where w: "y = None" "w \<in> set answers" "out = [show_nat k @ w]" by blast
  obtain outs2 y2 g2 where r: "run_commands G (map op_command (enumerate (Suc k) ops)) (after_command g m) = ((outs2, y2), g2)"
    by (metis prod_cases3 prod.collapse)
  have e: "outs = (show_nat k @ w) # outs2" "x = y2" "g' = g2" using Cons.prems c w r by auto
  from Cons.IH [OF r] obtain tr where tr: "y2 = None" "length outs2 = length ops" "g_trace g2 = g_trace (after_command g m) @ tr"
    "length tr = length ops"
    "\<And>i. i < length ops \<Longrightarrow> \<exists>fails w. w \<in> set answers \<and> outs2 ! i = show_nat (Suc k + i) @ w
       \<and> run_command G fails (fst (tr ! i)) (op_command (Suc k + i, ops ! i)) = ([outs2 ! i], None, snd (tr ! i))" by blast
  have "\<exists>fails w. w \<in> set answers \<and> outs ! i = show_nat (k + i) @ w
       \<and> run_command G fails (fst (((seen_tree g, m) # tr) ! i)) (op_command (k + i, (oper # ops) ! i))
         = ([outs ! i], None, snd (((seen_tree g, m) # tr) ! i))" if "i < length (oper # ops)" for i
    using that tr(5) [of "i - 1"] c w e(1) by (cases i) auto
  with tr e show ?case by (intro conjI exI [of _ "(seen_tree g, m) # tr"]) (simp_all add: after_command_def)
qed simp

lemma run_dirs:
  assumes "run_commands G (map dir_command ds @ cs) g = ((outs, None), g')"
  shows "\<exists>h tr. run_commands G cs h = ((outs, None), g') \<and> g_trace h = g_trace g @ tr"
  using assms
proof (induction ds arbitrary: g)
  case (Cons d ds)
  obtain y m where c: "run_command G (g_fails g (g_time g)) (seen_tree g) (dir_command d) = ([], y, m)"
    by (cases "sh_d (g_fails g (g_time g)) (seen_tree g) d") (simp add: dir_command_def run_command.simps)
  with Cons.prems have "run_commands G (map dir_command ds @ cs) (after_command g m) = ((outs, None), g')"
    by (auto split: prod.splits option.splits)
  from Cons.IH [OF this] obtain h tr where "run_commands G cs h = ((outs, None), g')"
    "g_trace h = g_trace (after_command g m) @ tr" by blast
  then show ?case by (intro exI [of _ h] exI [of _ "(seen_tree g, m) # tr"]) (simp add: after_command_def)
qed (auto intro: exI [of _ "[]"])

text \<open>The answers are read back.\<close>

lemma str_lines_out_lines:
  assumes "\<forall>l \<in> set ls. nl \<notin> set l \<and> l \<noteq> [] \<and> last l \<noteq> CHR 0x0D"
  shows "str_lines (out_lines ls) = ls"
proof -
  have "out_lines ls = unlines ls" by (simp add: out_lines_def unlines_def)
  moreover have "split_on nl (unlines ls) = ls @ [[]]" using assms by (intro split_unlines) auto
  moreover have "map drop_cr ls = ls" using assms by (intro map_idI) (simp add: drop_cr_def)
  ultimately show ?thesis by (simp add: str_lines_def)
qed

lemma answers_plain: "w \<in> set answers \<Longrightarrow> nl \<notin> set w \<and> w \<noteq> [] \<and> last w \<noteq> CHR 0x0D"
  by (auto simp: answers_def)

lemma parse_answer:
  assumes "parse_outcome G i (show_nat i @ w) = Inr x" "w \<in> set answers"
  shows "x = Done \<longleftrightarrow> w = '' done''" "x = Changed \<longleftrightarrow> w = '' changed''"
proof -
  obtain r where r: "w = '' '' @ r" using assms(2) by (auto simp: answers_def)
  then have "strip_prefix (show_nat i @ '' '') (show_nat i @ w) = Some r"
    using strip_prefix_append [of "show_nat i @ '' ''" r] by simp
  with assms r show "x = Done \<longleftrightarrow> w = '' done''" "x = Changed \<longleftrightarrow> w = '' changed''"
    by (auto simp: parse_outcome_def answers_def)
qed

lemma run_command_exit: "run_command G fails m c = (out, Some x, m') \<Longrightarrow> x \<noteq> 0"
proof -
  assume a: "run_command G fails m c = (out, Some x, m')"
  obtain ws here where c: "c = (ws, here)" by (cases c)
  have p: "sh_p G fails k a = (w, Some x) \<Longrightarrow> x = 91" for a w k
    by (auto simp: sh_p_def split: if_splits option.splits prod.splits gent.splits)
  have d: "sh_d fails k a = (Some x, w) \<Longrightarrow> x = 92" for a w k
    by (auto simp: sh_d_def split: if_splits option.splits)
  from a c show ?thesis
    by (auto simp: run_command.simps split: list.splits if_splits prod.splits dest: p d)
qed

lemma run_commands_exit: "run_commands G cs g = ((outs, Some x), g') \<Longrightarrow> x \<noteq> 0"
proof (induction cs arbitrary: g outs)
  case (Cons c cs)
  obtain out y m where c: "run_command G (g_fails g (g_time g)) (seen_tree g) c = (out, y, m)" by (metis prod_cases3)
  show ?case
  proof (cases y)
    case None
    obtain outs2 y2 g2 where r: "run_commands G cs (after_command g m) = ((outs2, y2), g2)"
      by (metis prod_cases3 prod.collapse)
    with Cons.prems c None have "run_commands G cs (after_command g m) = ((outs2, Some x), g')" by auto
    then show ?thesis by (rule Cons.IH)
  next
    case (Some z)
    with Cons.prems c run_command_exit [of G _ _ c out z m] show ?thesis by auto
  qed
qed simp

lemma pct_commit_runs:
  assumes ok: "list_all op_ok ops" "list_all shell_safe ds" and c: "pct_commit G v ds ops g = (Inr os, g')"
  obtains outs where "run_commands G (map dir_command ds @ map op_command (enumerate 0 ops)) (g\<lparr>g_calls := g_calls g + 1\<rparr>) = ((outs, None), g')"
    "length os = length ops" "length outs = length ops" "\<And>i. i < length ops \<Longrightarrow> os ! i = Done \<Longrightarrow> outs ! i = show_nat i @ '' done''"
    "\<And>i. i < length ops \<Longrightarrow> os ! i = Changed \<Longrightarrow> outs ! i = show_nat i @ '' changed''"
proof -
  obtain body where b: "commit_script ds ops = CommitScript body" by (simp add: commit_script_def)
  have "list_all op_safe ops" using ok(1) by (auto simp: op_ok_def list_all_iff)
  then have cs: "sh_commands body = Some (map dir_command ds @ map op_command (enumerate 0 ops))"
    by (rule commit_script_commands [OF ok(2) _ b])
  from c obtain out where e: "exec_ok G v ''commit'' (commit_script ds ops) g = (Inr out, g')"
    and p: "parse_commit G (length ops) (out_stdout out) = Inr os"
    by (auto simp: pct_commit_def then_do_Inr)
  from e have x: "pct_exec G (CommitScript body) g = (Inr out, g')" "out_status out = 0"
    by (auto simp: exec_ok_def then_do_Inr andthen_eq_Inr b)
  let ?g = "g\<lparr>g_calls := g_calls g + 1\<rparr>"
  from x have "g_fate g (g_calls g) = Runs" "run_text G None body ?g = ((out_stdout out, 0), g')"
    by (auto simp: pct_exec_def Let_def split: fate.splits prod.splits if_splits)
  then obtain outs y where r: "run_commands G (map dir_command ds @ map op_command (enumerate 0 ops)) ?g = ((outs, y), g')"
    and o: "out_stdout out = out_lines outs" "unwrap_or 0 y = 0"
    by (auto simp: run_text_def cs split: prod.splits)
  have y: "y = None" using o(2) r
    by (cases y) (auto dest: run_commands_exit simp: unwrap_or_def)
  from run_dirs [OF r [unfolded y]] obtain h where "run_commands G (map op_command (enumerate 0 ops)) h = ((outs, None), g')" by auto
  from run_ops [OF this] have len: "length outs = length ops"
    and each: "\<And>i. i < length ops \<Longrightarrow> \<exists>w. w \<in> set answers \<and> outs ! i = show_nat i @ w" by auto
  have "\<forall>l \<in> set outs. nl \<notin> set l \<and> l \<noteq> [] \<and> last l \<noteq> CHR 0x0D"
  proof
    fix l assume "l \<in> set outs"
    then obtain i w where l: "w \<in> set answers" "l = show_nat i @ w" using each len by (metis in_set_conv_nth)
    have "nl \<notin> set (show_nat i)" using show_nat_digits [of i] by (auto simp: list_all_iff is_digit_def)
    with l answers_plain [OF l(1)] show "nl \<notin> set l \<and> l \<noteq> [] \<and> last l \<noteq> CHR 0x0D" by simp
  qed
  then have lines: "str_lines (out_stdout out) = outs" unfolding o(1) by (rule str_lines_out_lines)
  have po: "list_all2 (\<lambda>(i, row) z. parse_outcome G i row = Inr z) (enumerate 0 outs) os"
    using p lines by (auto simp: parse_commit_def stdout_text_def andthen_eq_Inr map_res_Inr split_def split: option.splits)
  then have los: "length os = length ops" using list_all2_lengthD [OF po] len by simp
  have "(os ! i = Done \<longrightarrow> outs ! i = show_nat i @ '' done'') \<and> (os ! i = Changed \<longrightarrow> outs ! i = show_nat i @ '' changed'')"
    if i: "i < length ops" for i
  proof -
    from each [OF i] obtain w where w: "w \<in> set answers" "outs ! i = show_nat i @ w" by blast
    have "parse_outcome G i (outs ! i) = Inr (os ! i)"
      using list_all2_nthD2 [OF po, of i] i los len by (simp add: nth_enumerate_eq)
    with w parse_answer [of G i w "os ! i"] show ?thesis by simp
  qed
  with r y los len that show thesis by blast
qed

lemma pct_commit_report:
  assumes ok: "list_all op_ok ops" "list_all shell_safe ds" and c: "pct_commit G v ds ops g = (Inr os, g')"
  shows "length os = length ops \<and> (\<exists>tr. g_trace g' = g_trace g @ tr
    \<and> (\<forall>i < length ops. os ! i = Done \<and> \<not> any_expected (ops ! i) \<longrightarrow> (\<exists>mm \<in> set tr. op_done (ops ! i) (snd mm))))"
proof -
  obtain outs where r: "run_commands G (map dir_command ds @ map op_command (enumerate 0 ops)) (g\<lparr>g_calls := g_calls g + 1\<rparr>) = ((outs, None), g')"
    and len: "length os = length ops" and said: "\<And>i. i < length ops \<Longrightarrow> os ! i = Done \<Longrightarrow> outs ! i = show_nat i @ '' done''"
    using pct_commit_runs [OF ok c] by metis
  from run_dirs [OF r] obtain h tr0 where h: "run_commands G (map op_command (enumerate 0 ops)) h = ((outs, None), g')"
    "g_trace h = g_trace g @ tr0" by auto
  from run_ops [OF h(1)] obtain tr where tr: "g_trace g' = g_trace h @ tr" "length tr = length ops"
    "\<forall>i < length ops. \<exists>fails w. w \<in> set answers \<and> outs ! i = show_nat (0 + i) @ w
         \<and> run_command G fails (fst (tr ! i)) (op_command (0 + i, ops ! i)) = ([outs ! i], None, snd (tr ! i))" by blast
  have each: "\<exists>fails. run_command G fails (fst (tr ! i)) (op_command (i, ops ! i)) = ([outs ! i], None, snd (tr ! i))"
    if "i < length ops" for i using tr(3) that by auto
  have "\<exists>mm \<in> set tr. op_done (ops ! i) (snd mm)" if i: "i < length ops" and d: "os ! i = Done" "\<not> any_expected (ops ! i)" for i
  proof -
    have "op_ok (ops ! i)" using ok(1) i by (simp add: list_all_length)
    with each [OF i] said [OF i d(1)] have "op_done (ops ! i) (snd (tr ! i))" using run_op_done [OF _ d(2)] by auto
    then show ?thesis using i tr(2) nth_mem by metis
  qed
  with len tr(1) h(2) show ?thesis by (intro conjI exI [of _ "tr0 @ tr"]) auto
qed

section \<open>The rows of a report\<close>

lemma report_rows_outcome:
  assumes "row \<in> set (report_rows items os)" "dn_outcome row = Some x"
  shows "\<exists>j < length os. os ! j = x \<and> j < length (filter (\<lambda>i. writes (it_action i)) items)
    \<and> filter (\<lambda>i. writes (it_action i)) items ! j = dn_item row"
  using assms
proof (induction items os rule: report_rows.induct)
  case (2 i items os)
  show ?case
  proof (cases "writes (it_action i)")
    case w: True
    show ?thesis
    proof (cases os)
      case Nil
      with 2 w show ?thesis by auto
    next
      case (Cons y ys)
      from 2(4) w Cons consider "row = \<lparr>dn_item = i, dn_outcome = Some y\<rparr>" | "row \<in> set (report_rows items ys)" by auto
      then show ?thesis
      proof cases
        case 1
        with 2(5) w Cons show ?thesis by (intro exI [of _ 0]) simp
      next
        case r: 2
        from 2(2) [OF w Cons r 2(5)] obtain j where "j < length ys" "ys ! j = x"
          "j < length (filter (\<lambda>i. writes (it_action i)) items)" "filter (\<lambda>i. writes (it_action i)) items ! j = dn_item row" by blast
        with w Cons show ?thesis by (intro exI [of _ "Suc j"]) simp
      qed
    qed
  next
    case False
    with 2 show ?thesis by auto
  qed
qed simp

text \<open>A guest whose commits report truly: what is answered done was done at some step.\<close>

locale reporting_guest = guest_interface ops log silent by_ops
  for ops :: "'g guest_ops"
    and log :: "'g \<Rightarrow> 's list"
    and silent :: "'s \<Rightarrow> bool"
    and by_ops :: "fop list \<Rightarrow> 's \<Rightarrow> bool" +
  fixes did :: "fop \<Rightarrow> 's \<Rightarrow> bool"
  assumes commit_reports: "list_all op_ok os \<Longrightarrow> list_all shell_safe ds \<Longrightarrow> go_commit ops ds os g = (Inr rs, g') \<Longrightarrow>
    length rs = length os \<and> (\<exists>tr. log g' = log g @ tr
      \<and> (\<forall>i < length os. rs ! i = Done \<and> \<not> any_expected (os ! i) \<longrightarrow> list_ex (did (os ! i)) tr))"
begin

lemma carry_out_reports:
  assumes "wf_files G f" "wf_manifest (ins_manifest ins)" "probe_safe pb" "ins_plan ins = plan_sync f (ins_manifest ins) pb force"
    and "carry_out G ops ins g = (Inr (os, m), g')"
  shows "\<exists>tr. log g' = log g @ tr
    \<and> (\<forall>i < length os. i < length (pl_ops (ins_plan ins)) \<and> os ! i = Done \<longrightarrow> list_ex (did (pl_ops (ins_plan ins) ! i)) tr)"
proof (cases "os = []")
  case True
  with carry_out_log [OF assms] show ?thesis by (auto simp: grows_def)
next
  case False
  let ?P = "ins_plan ins"
  have ok: "list_all op_ok (pl_ops ?P)" using plan_ops_ok [OF assms(2,1,3)] assms(4) by simp
  have ds: "list_all shell_safe (pl_dirs ?P)" using plan_dirs_safe [OF assms(1)] assms(4) by simp
  have ne: "\<not> any_expected oper" if "oper \<in> set (pl_ops ?P)" for oper
    using plan_op_cases [of oper f "ins_manifest ins" pb force] that assms(2,4) by (auto simp: any_expected_def place_ok_def)
  from assms(5) False obtain h where c: "go_commit ops (pl_dirs ?P) (pl_ops ?P) g = (Inr os, h)"
    and rest: "g' = h \<or> (\<exists>after r. write_manifest G ops ?P after h = (r, g'))"
    by (auto simp: carry_out_def Let_def then_do_Inr simp del: then_do_lift split: if_splits)
  from commit_reports [OF ok ds c] obtain tr where tr: "log h = log g @ tr"
    "\<forall>i < length (pl_ops ?P). os ! i = Done \<and> \<not> any_expected (pl_ops ?P ! i) \<longrightarrow> list_ex (did (pl_ops ?P ! i)) tr" by blast
  from rest obtain tr2 where "log g' = log h @ tr2"
    using write_manifest_log [OF ds] by (elim disjE exE) (fastforce simp: grows_def)+
  with tr ne show ?thesis by (intro exI [of _ "tr @ tr2"]) auto
qed

lemma sync_reports:
  assumes "wf_files G f" "sync G ops f force g = (Inr rep, g')"
  shows "\<exists>tr old pb. log g' = log g @ tr \<and> wf_manifest old
    \<and> (\<forall>row \<in> set (rp_items rep). dn_outcome row = Some Done \<longrightarrow>
         (\<exists>oper \<in> set (pl_ops (plan_sync f old pb force)).
            gp_str (the (it_path (dn_item row))) = op_path oper \<and> list_ex (did oper) tr))"
proof -
  from assms(2) obtain ins h os m where i: "inspect G ops f force g = (Inr ins, h)"
    and c: "carry_out G ops ins h = (Inr (os, m), g')" and rep: "rp_items rep = report_rows (pl_items (ins_plan ins)) os"
    by (auto simp: sync_def then_do_Inr simp del: then_do_lift)
  from inspect_log(2) [OF assms(1) i refl] obtain pb where w: "wf_manifest (ins_manifest ins)" "probe_safe pb"
    "ins_plan ins = plan_sync f (ins_manifest ins) pb force" by blast
  obtain tr1 where t1: "log h = log g @ tr1" using inspect_log(1) [OF assms(1) i] by (auto simp: grows_def)
  from carry_out_reports [OF assms(1) w c] obtain tr where tr: "log g' = log h @ tr"
    and did: "\<And>i. i < length os \<Longrightarrow> i < length (pl_ops (ins_plan ins)) \<Longrightarrow> os ! i = Done \<Longrightarrow> list_ex (did (pl_ops (ins_plan ins) ! i)) tr"
    by blast
  have "\<exists>oper \<in> set (pl_ops (ins_plan ins)). gp_str (the (it_path (dn_item row))) = op_path oper \<and> list_ex (did oper) (tr1 @ tr)"
    if "row \<in> set (rp_items rep)" "dn_outcome row = Some Done" for row
  proof -
    from report_rows_outcome [OF that(1) [unfolded rep] that(2)] obtain j where j: "j < length os" "os ! j = Done"
      "j < length (filter (\<lambda>i. writes (it_action i)) (pl_items (ins_plan ins)))"
      "filter (\<lambda>i. writes (it_action i)) (pl_items (ins_plan ins)) ! j = dn_item row" by blast
    note al = writes_match_ops [of f "ins_manifest ins" pb force, folded w(3)]
    have l: "j < length (pl_ops (ins_plan ins))" using arg_cong [OF al, of length] j(3) by simp
    have "gp_str (the (it_path (dn_item row))) = op_path (pl_ops (ins_plan ins) ! j)"
      using arg_cong [OF al, of "\<lambda>xs. xs ! j"] j(3,4) l by simp
    with did [OF j(1) l j(2)] l show ?thesis by (intro bexI [of _ "pl_ops (ins_plan ins) ! j"]) auto
  qed
  with w t1 tr show ?thesis
    by (intro exI [of _ "tr1 @ tr"] exI [of _ "ins_manifest ins"] exI [of _ pb]) simp
qed

end

interpretation pct_reports: reporting_guest "pct_ops G v" g_trace "\<lambda>mm. fst mm = snd mm" "step_ok G" "\<lambda>oper mm. op_done oper (snd mm)"
  for G v
  by unfold_locales (use pct_commit_report in \<open>fastforce simp: pct_ops_def list_ex_iff\<close>)

section \<open>Evaluating a sync\<close>

text \<open>Code equations that compare and divide integers instead of natural numbers.\<close>

lemma pct_exec_code [code]:
  "pct_exec G sc g0 =
     (let n = g_calls g0; g = g0\<lparr>g_calls := n + 1\<rparr> in
      case g_fate g n of
        NotRun e \<Rightarrow> (Inl e, g)
      | ToolMissing \<Rightarrow> (Inr \<lparr>out_status = 90, out_stdout = [], out_stderr = trim (g_noise g n)\<rparr>, g)
      | Killed k e \<Rightarrow> (Inl e, snd (run_script G (Some k) sc g))
      | Runs \<Rightarrow>
          (case run_script G None sc g of
             ((out, x), g') \<Rightarrow>
               if int (length out) > 4194304 then (Inl [''pct exec: more output than allowed''], g')
               else (Inr \<lparr>out_status = int x, out_stdout = out, out_stderr = trim (g_noise g n)\<rparr>, g')))"
proof -
  have "length out > max_output \<longleftrightarrow> int (length out) > 4194304" for out :: string by (simp add: max_output_def)
  then show ?thesis by (simp only: pct_exec_def)
qed

lemma parse_octal_code [code]:
  "parse_octal s =
     (let ds = (case s of c # cs \<Rightarrow> if c = CHR ''+'' then cs else s | [] \<Rightarrow> []) in
      if ds \<noteq> [] \<and> list_all is_octal ds \<and> int (octal_value ds) < 4294967296 then Some (word_of_int (int (octal_value ds))) else None)"
  by (simp add: parse_octal_def Let_def)

lemma decode4_code [code]:
  "decode4 i j k l =
     (let v = ((int i * 64 + int j) * 64 + int k) * 64 + int l in
      map char_of [v div 65536 mod 256, v div 256 mod 256, v mod 256])"
proof -
  have "char_of (int v div 65536 mod 256) = char_of (v div 65536 mod 256)"
     "char_of (int v div 256 mod 256) = char_of (v div 256 mod 256)" "char_of (int v mod 256) = char_of (v mod 256)" for v
    by (metis char_of_nat zdiv_int zmod_int of_nat_numeral)+
  from this [of "((i * 64 + j) * 64 + k) * 64 + l"] show ?thesis by (simp add: decode4_def Let_def)
qed

text \<open>The guest of the witness once its manifest was read.\<close>

definition sample_read :: guest where
  "sample_read = sample_guest\<lparr>g_calls := 1, g_time := 1, g_trace := [(g_tree sample_guest, g_tree sample_guest)]\<rparr>"

lemma sample_read: "pct_read G 105 manifest_path manifest_max_bytes sample_guest = (Inr (Some ''m''), sample_read)"
proof -
  have s: "seen_tree (sample_guest\<lparr>g_calls := n\<rparr>) = g_tree sample_guest" for n by (simp add: seen_tree_def sample_guest_def)
  have f: "\<not> test_L (g_tree sample_guest) manifest_path" "file_bytes (g_tree sample_guest) manifest_path = Some ''m''" by code_simp+
  have "run_script G None (ReadScript manifest_path (manifest_max_bytes + 1)) (sample_guest\<lparr>g_calls := 1\<rparr>) = ((''m'', 0), sample_read)"
    using f by (simp add: s Let_def manifest_max_bytes_def after_command_def) (simp add: seen_tree_def sample_read_def sample_guest_def)
  then show ?thesis
    by (simp add: pct_read_def pct_exec_def then_do_def sample_guest_def max_output_def manifest_max_bytes_def Let_def)
qed

section \<open>Properties\<close>



end
