(* ===== verification/Gf_Main.thy ===== *)
theory Gf_Main
  imports Gf_Daemon Gf_Report
begin

text \<open>
  The command line (main.rs): its arguments, \<open>sync\<close> and \<open>status\<close>, and the start of the daemon. What is
  printed is kept as text beside the host. A waiting lock is taken unless taking it fails: the host's lock
  answers at once or when its holder is done, and other processes may act on the guest before any command
  anyway. The lemmas show that \<open>status\<close> changes nothing, and what the exit status of \<open>sync\<close> means.
\<close>

section \<open>The terminal\<close>

record cli =
  cl_host :: host
  cl_out :: string
  cl_err :: string

definition print_line :: "string \<Rightarrow> cli \<Rightarrow> cli" where
  "print_line l c = c\<lparr>cl_out := cl_out c @ l @ [nl]\<rparr>"

definition guest_files_word :: string where
  "guest_files_word = [CHR 0x27] @ ''guest-files'' @ [CHR 0x27]"

definition usage_text :: string where
  "usage_text = concat (map (\<lambda>l. l @ [nl])
     [''usage: pve-meta-guest-files daemon'',
      ''       pve-meta-guest-files sync <vmid> [--force]'',
      ''       pve-meta-guest-files status [<vmid>]'',
      [],
      ''  daemon  the loop the systemd unit runs: sync this node'' @ [CHR 0x27] @ ''s containers when their'',
      ''          document changes, when they start, and every ten minutes'',
      ''  sync    sync one running container now; --force overwrites its local edits once'',
      ''  status  per entry what a sync would do, checked in the guest now; every'',
      ''          container on this node with a '' @ guest_files_word @ '' key by default'',
      [],
      ''Writes go to /etc/pve-meta inside the container for a relative path, to the path'',
      ''itself for an absolute one. Only files recorded in /etc/pve-meta/.guest-files are'',
      ''ever replaced or deleted without local_edits: overwrite or --force.''])"

section \<open>The commands\<close>

definition vmid_arg :: "gf_libs \<Rightarrow> string \<Rightarrow> anyhow + vmid" where
  "vmid_arg G s =
     ok_or [debug_str (unicode_debug G) s @ '' is not a vmid'']
       (case parse_u32 s of Some v \<Rightarrow> if v > 0 then Some v else None | None \<Rightarrow> None)"

definition not_syncable :: "gf_libs \<Rightarrow> vmid \<Rightarrow> fs \<Rightarrow> anyhow + string option" where
  "not_syncable G v s =
     andthen (nodename s) (\<lambda>here.
     andthen (vmlist G s) (\<lambda>l.
     andthen (ok_or [show_vmid v @ '' is not a guest''] (map_of l v)) (\<lambda>g.
     andthen (guard_err (vg_kind g = Lxc)
       [show_vmid v @ '' is not a container; '' @ guest_files_word @ '' is for containers only'']) (\<lambda>_.
     andthen (guard_err (vg_node g = here) [show_vmid v @ '' is on node '' @ vg_node g @ ''; run this there'']) (\<lambda>_.
     andthen (active_containers s) (\<lambda>active. stopped_or_locked here v active s))))))"

text \<open>The loop over the rows of a report: whether all is well, and whether anything was said.\<close>

fun is_refused :: "action \<Rightarrow> bool" where
  "is_refused (Refused _) = True"
| "is_refused _ = False"

definition row_fine :: "done_row \<Rightarrow> bool" where
  "row_fine d \<longleftrightarrow> \<not> is_refused (it_action (dn_item d)) \<and> (dn_outcome d = None \<or> dn_outcome d = Some Done)"

fun sync_rows :: "gf_libs \<Rightarrow> done_row list \<Rightarrow> bool \<Rightarrow> bool \<Rightarrow> cli \<Rightarrow> (bool \<times> bool) \<times> cli" where
  "sync_rows G [] fine said c = ((fine, said), c)"
| "sync_rows G (d # ds) fine said c =
     (case describe G d of
        Some l \<Rightarrow> sync_rows G ds (fine \<and> row_fine d) True (print_line l c)
      | None \<Rightarrow> sync_rows G ds (fine \<and> row_fine d) said c)"

definition with_guest :: "vmid \<Rightarrow> guest \<Rightarrow> cli \<Rightarrow> cli" where
  "with_guest v g c = c\<lparr>cl_host := (cl_host c)\<lparr>h_guests := (h_guests (cl_host c))(v := g)\<rparr>\<rparr>"

definition cli_sync :: "gf_libs \<Rightarrow> meta_store \<Rightarrow> vmid \<Rightarrow> bool \<Rightarrow> cli \<Rightarrow> (anyhow + bool) \<times> cli" where
  "cli_sync G M v force c =
     (let h = cl_host c in
      case not_syncable G v (h_fs h) of
        Inl e \<Rightarrow> (Inl e, c)
      | Inr (Some why) \<Rightarrow> (Inl [show_vmid v @ '' is '' @ why], c)
      | Inr None \<Rightarrow>
          (case read_guest_files G M v (h_fs h) of
             Inl e \<Rightarrow> (Inl e, c)
           | Inr f \<Rightarrow>
               (case h_lock h v of
                  Inl e \<Rightarrow> (Inl e, c)
                | Inr _ \<Rightarrow>
                    (case sync G (pct_ops G v) f force (h_guests h v) of
                       (Inl e, g) \<Rightarrow> (Inl e, with_guest v g c)
                     | (Inr rep, g) \<Rightarrow>
                         (let c1 = with_guest v g c;
                              c2 = (case rp_warning rep of Some w \<Rightarrow> print_line (''warning: '' @ w) c1 | None \<Rightarrow> c1)
                          in case sync_rows G (rp_items rep) True False c2 of
                               ((fine, said), c3) \<Rightarrow>
                                 (Inr fine, if said then c3 else print_line (show_vmid v @ '': in sync'') c3))))))"

text \<open>\<open>{:<n}\<close>: padded with spaces to the right, counting characters.\<close>

definition pad_to :: "nat \<Rightarrow> string \<Rightarrow> string" where
  "pad_to n s = s @ replicate (n - length (chars s)) CHR '' ''"

definition status_line :: "string \<Rightarrow> string \<Rightarrow> string \<Rightarrow> string \<Rightarrow> string" where
  "status_line v e p st = pad_to 8 v @ '' '' @ pad_to 20 e @ '' '' @ pad_to 44 p @ '' '' @ st"

definition print_row :: "vmid \<Rightarrow> string \<Rightarrow> string \<Rightarrow> string \<Rightarrow> cli \<Rightarrow> cli" where
  "print_row v e p st = print_line (status_line (show_vmid v) e p st)"

definition print_item :: "vmid \<Rightarrow> cli \<Rightarrow> item \<Rightarrow> cli" where
  "print_item v c it =
     print_row v (it_entry it) (case it_path it of Some p \<Rightarrow> gp_str p | None \<Rightarrow> ''-'') (show_action (it_action it)) c"

definition print_inspection :: "vmid \<Rightarrow> inspection \<Rightarrow> cli \<Rightarrow> cli" where
  "print_inspection v ins c =
     (let c1 = (case ins_warning ins of Some w \<Rightarrow> print_row v ''-'' ''-'' (''warning: '' @ w) c | None \<Rightarrow> c);
          c2 = (if pl_items (ins_plan ins) = [] then print_row v ''-'' ''-'' ''no files'' c1 else c1)
      in foldl (print_item v) c2 (pl_items (ins_plan ins)))"

fun status_rows :: "gf_libs \<Rightarrow> meta_store \<Rightarrow> bool \<Rightarrow> vmid list \<Rightarrow> bool \<Rightarrow> cli \<Rightarrow> (anyhow + bool) \<times> cli" where
  "status_rows G M all [] fine c = (Inr fine, c)"
| "status_rows G M all (v # vs) fine c =
     (case read_guest_files G M v (h_fs (cl_host c)) of
        Inl e \<Rightarrow> (Inl e, c)
      | Inr f \<Rightarrow>
          if all \<and> \<not> has_guest_files_key f then status_rows G M all vs fine c
          else
            (case not_syncable G v (h_fs (cl_host c)) of
               Inl e \<Rightarrow> (Inl e, c)
             | Inr (Some why) \<Rightarrow> status_rows G M all vs fine (print_row v ''-'' ''-'' why c)
             | Inr None \<Rightarrow>
                 (case inspect G (pct_ops G v) f False (h_guests (cl_host c) v) of
                    (Inr ins, g) \<Rightarrow> status_rows G M all vs fine (print_inspection v ins (with_guest v g c))
                  | (Inl e, g) \<Rightarrow> status_rows G M all vs False
                      (print_row v ''-'' ''-'' (''error: '' @ alt_text e) (with_guest v g c)))))"

definition cli_status :: "gf_libs \<Rightarrow> meta_store \<Rightarrow> vmid option \<Rightarrow> cli \<Rightarrow> (anyhow + bool) \<times> cli" where
  "cli_status G M only c =
     (case (case only of
              Some v \<Rightarrow> Inr [v]
            | None \<Rightarrow>
                andthen (nodename (h_fs (cl_host c))) (\<lambda>here.
                andthen (vmlist G (h_fs (cl_host c))) (\<lambda>l. Inr (local_containers here l)))) of
        Inl e \<Rightarrow> (Inl e, c)
      | Inr vmids \<Rightarrow>
          status_rows G M (only = None) vmids True
            (print_line (status_line ''VMID'' ''ENTRY'' ''PATH'' ''STATE'') c))"

section \<open>The daemon's start and the program\<close>

definition daemon_start :: "timing \<Rightarrow> cli \<Rightarrow> (anyhow + string) \<times> cli" where
  "daemon_start tm c =
     (case nodename (h_fs (cl_host c)) of
        Inl e \<Rightarrow> (Inl e, c)
      | Inr n \<Rightarrow>
          (Inr n, c\<lparr>cl_err := cl_err c
             @ ''pve-meta-guest-files on '' @ n @ '': polling every '' @ show_nat (tm_poll tm) @ ''s, drift check every ''
             @ show_nat (tm_drift tm) @ ''s'' @ [nl]
             @ ''warning: deprecated, removed in 0.4: pve-meta writes nothing into guests'' @ [nl]\<rparr>))"

definition exit_of :: "(anyhow + bool) \<times> cli \<Rightarrow> nat option \<times> cli" where
  "exit_of rc =
     (case rc of
        (Inr True, c) \<Rightarrow> (Some 0, c)
      | (Inr False, c) \<Rightarrow> (Some 1, c)
      | (Inl e, c) \<Rightarrow> (Some 1, c\<lparr>cl_err := cl_err c @ ''pve-meta-guest-files: '' @ alt_text e @ [nl]\<rparr>))"

definition on_vmid :: "gf_libs \<Rightarrow> string \<Rightarrow> (vmid \<Rightarrow> cli \<Rightarrow> (anyhow + bool) \<times> cli) \<Rightarrow> cli \<Rightarrow> nat option \<times> cli" where
  "on_vmid G s f c = exit_of (then_do (lift_res (vmid_arg G s)) f c)"

text \<open>The exit status; none when the daemon has started, whose polls never end.\<close>

definition main :: "gf_libs \<Rightarrow> meta_store \<Rightarrow> string list \<Rightarrow> cli \<Rightarrow> nat option \<times> cli" where
  "main G M argv c =
     (case argv of
        [] \<Rightarrow> (Some 0, c\<lparr>cl_out := cl_out c @ usage_text\<rparr>)
      | [a] \<Rightarrow>
          if a = ''daemon'' then
            (case daemon_start timing_default c of (Inl e, c') \<Rightarrow> exit_of (Inl e, c') | (Inr _, c') \<Rightarrow> (None, c'))
          else if a = ''status'' then exit_of (cli_status G M None c)
          else if a \<in> {''help'', ''--help'', ''-h''} then (Some 0, c\<lparr>cl_out := cl_out c @ usage_text\<rparr>)
          else (Some 2, c\<lparr>cl_err := cl_err c @ usage_text\<rparr>)
      | [a, b] \<Rightarrow>
          if a = ''sync'' then on_vmid G b (\<lambda>v. cli_sync G M v False) c
          else if a = ''status'' then on_vmid G b (\<lambda>v. cli_status G M (Some v)) c
          else (Some 2, c\<lparr>cl_err := cl_err c @ usage_text\<rparr>)
      | [a, b, d] \<Rightarrow>
          if a = ''sync'' \<and> d = ''--force'' then on_vmid G b (\<lambda>v. cli_sync G M v True) c
          else if a = ''sync'' \<and> b = ''--force'' then on_vmid G d (\<lambda>v. cli_sync G M v True) c
          else (Some 2, c\<lparr>cl_err := cl_err c @ usage_text\<rparr>)
      | _ \<Rightarrow> (Some 2, c\<lparr>cl_err := cl_err c @ usage_text\<rparr>))"

section \<open>Looking\<close>

lemma read_guest_files_wf: "read_guest_files G M v s = Inr f \<Longrightarrow> wf_files G f"
proof -
  assume "read_guest_files G M v s = Inr f"
  then consider "f = Nothing" | why where "f = Held why" | doc where "f = of_document G doc"
    by (auto simp: read_guest_files_def split: sum.splits error.splits option.splits)
  then show ?thesis
    by cases (simp_all add: of_document_wf, simp_all add: wf_files_def wanted_files_def no_clashes_Nil)
qed

text \<open>Between the two, the commands run in the guests changed nothing, and the host's files are the same.\<close>

definition only_looked :: "cli \<Rightarrow> cli \<Rightarrow> bool" where
  "only_looked c c' \<longleftrightarrow> h_fs (cl_host c') = h_fs (cl_host c) \<and>
     (\<forall>v. \<exists>tr. g_trace (h_guests (cl_host c') v) = g_trace (h_guests (cl_host c) v) @ tr \<and> (\<forall>mm \<in> set tr. fst mm = snd mm))"

lemma only_looked_refl: "only_looked c c"
  by (simp add: only_looked_def)

lemma only_looked_trans:
  assumes "only_looked a b" "only_looked b c"
  shows "only_looked a c"
proof -
  have "\<exists>tr. g_trace (h_guests (cl_host c) v) = g_trace (h_guests (cl_host a) v) @ tr \<and> (\<forall>mm \<in> set tr. fst mm = snd mm)" for v
  proof -
    obtain t u where "g_trace (h_guests (cl_host b) v) = g_trace (h_guests (cl_host a) v) @ t" "\<forall>mm \<in> set t. fst mm = snd mm"
      "g_trace (h_guests (cl_host c) v) = g_trace (h_guests (cl_host b) v) @ u" "\<forall>mm \<in> set u. fst mm = snd mm"
      using assms unfolding only_looked_def by metis
    then show ?thesis by (intro exI [of _ "t @ u"]) auto
  qed
  with assms show ?thesis by (simp add: only_looked_def)
qed

lemma host_print [simp]:
  "cl_host (print_line l c) = cl_host c" "cl_host (print_row v e p st c) = cl_host c" "cl_host (print_item v c it) = cl_host c"
  by (simp_all add: print_line_def print_row_def print_item_def)

lemma host_print_items [simp]: "cl_host (foldl (print_item v) c is) = cl_host c"
  by (induction "is" arbitrary: c) simp_all

lemma host_print_inspection [simp]: "cl_host (print_inspection v ins c) = cl_host c"
  by (simp add: print_inspection_def Let_def split: option.split)

lemma only_looked_print: "cl_host d' = cl_host d \<Longrightarrow> only_looked c d \<Longrightarrow> only_looked c d'"
  by (simp add: only_looked_def)

lemma inspect_only_looks:
  assumes "wf_files G f" "inspect G (pct_ops G v) f force (h_guests (cl_host c) v) = (r, g)"
  shows "only_looked c (with_guest v g c)"
proof -
  from pct.inspect_log(1) [OF assms] obtain tr where
    tr: "g_trace g = g_trace (h_guests (cl_host c) v) @ tr" "list_all (\<lambda>mm. fst mm = snd mm) tr"
    by (auto simp: pct.grows_def)
  have "\<exists>t. g_trace (h_guests (cl_host (with_guest v g c)) u) = g_trace (h_guests (cl_host c) u) @ t \<and> (\<forall>mm \<in> set t. fst mm = snd mm)" for u
    using tr by (cases "u = v") (auto simp: with_guest_def list_all_iff)
  then show ?thesis by (simp add: only_looked_def with_guest_def)
qed

lemma status_rows_only_look: "status_rows G M all vs fine c = (r, c') \<Longrightarrow> only_looked c c'"
proof (induction G M all vs fine c rule: status_rows.induct)
  case (2 G M all v vs fine c)
  show ?case
  proof (cases "read_guest_files G M v (h_fs (cl_host c))")
    case (Inl e)
    with 2 show ?thesis by (simp add: only_looked_refl)
  next
    case f: (Inr f)
    show ?thesis
    proof (cases "all \<and> \<not> has_guest_files_key f")
      case True
      with 2 f show ?thesis by simp
    next
      case key: False
      consider (err) e where "not_syncable G v (h_fs (cl_host c)) = Inl e"
        | (held) why where "not_syncable G v (h_fs (cl_host c)) = Inr (Some why)"
        | (free) "not_syncable G v (h_fs (cl_host c)) = Inr None"
        by (metis obj_sumE option.exhaust)
      then show ?thesis
      proof cases
        case err
        with 2 f key show ?thesis by (simp add: only_looked_refl)
      next
        case held
        with "2.IH"(4) [OF f key held refl] "2.prems" f key only_looked_print [OF _ only_looked_refl, of "print_row v ''-'' ''-'' why c" c]
        show ?thesis by (auto intro: only_looked_trans)
      next
        case free
        obtain res g where i: "inspect G (pct_ops G v) f False (h_guests (cl_host c) v) = (res, g)" by fastforce
        note look = inspect_only_looks [OF read_guest_files_wf [OF f] i]
        show ?thesis
        proof (cases res)
          case (Inl e)
          with "2.IH"(2) [OF f key free refl i [symmetric] Inl] "2.prems" f key free i
            only_looked_print [OF _ look, of "print_row v ''-'' ''-'' (''error: '' @ alt_text e) (with_guest v g c)"]
          show ?thesis by (auto intro: only_looked_trans)
        next
          case (Inr ins)
          with "2.IH"(3) [OF f key free refl i [symmetric] Inr] "2.prems" f key free i
            only_looked_print [OF _ look, of "print_inspection v ins (with_guest v g c)"]
          show ?thesis by (auto intro: only_looked_trans)
        qed
      qed
    qed
  qed
qed (simp add: only_looked_refl)

section \<open>Syncing by hand\<close>

text \<open>A container of this node that runs and that nothing holds.\<close>

definition free_container :: "gf_libs \<Rightarrow> vmid \<Rightarrow> fs \<Rightarrow> bool" where
  "free_container G v s \<longleftrightarrow> (\<exists>here l active inode.
     nodename s = Inr here \<and> vmlist G s = Inr l \<and> map_of l v = Some \<lparr>vg_node = here, vg_kind = Lxc\<rparr>
     \<and> active_containers s = Inr active \<and> map_of active v = Some inode \<and> container_lock here v s = Inr None)"

lemma not_syncable_None: "not_syncable G v s = Inr None \<longleftrightarrow> free_container G v s"
proof -
  have "vg_kind g = Lxc \<and> vg_node g = here \<longleftrightarrow> g = \<lparr>vg_node = here, vg_kind = Lxc\<rparr>" for g :: vm_guest and here
    by (cases g) auto
  then show ?thesis
    by (auto simp: not_syncable_def free_container_def andthen_eq_Inr ok_or_eq stopped_or_locked_def split: if_splits) blast
qed

lemma sync_rows_result:
  "sync_rows G ds fine said c = ((fine', said'), c') \<Longrightarrow> fine' = (fine \<and> list_all row_fine ds) \<and> cl_host c' = cl_host c"
  by (induction G ds fine said c rule: sync_rows.induct) (auto split: option.splits)

lemma exit_of_success: "fst (exit_of rc) = Some 0 \<longleftrightarrow> fst rc = Inr True"
  by (cases rc; cases "fst rc") (auto simp: exit_of_def split: bool.splits)

lemma exit_of_host: "cl_host (snd (exit_of rc)) = cl_host (snd rc)"
  by (cases rc; cases "fst rc") (auto simp: exit_of_def split: bool.splits)

lemma cli_sync_success:
  "fst (cli_sync G M v force c) = Inr True \<longleftrightarrow>
     (\<exists>f rep g. not_syncable G v (h_fs (cl_host c)) = Inr None \<and> read_guest_files G M v (h_fs (cl_host c)) = Inr f
        \<and> \<not> isl (h_lock (cl_host c) v) \<and> sync G (pct_ops G v) f force (h_guests (cl_host c) v) = (Inr rep, g)
        \<and> list_all row_fine (rp_items rep))"
proof -
  have *: "sync_rows G ds True False d = ((fine, said), d') \<Longrightarrow> fine = list_all row_fine ds" for ds d fine said d'
    using sync_rows_result [of G ds True False d] by simp
  show ?thesis
    by (auto simp: cli_sync_def Let_def split: sum.splits option.splits prod.splits dest!: *)
qed

lemma cli_sync_touches:
  "h_fs (cl_host (snd (cli_sync G M v force c))) = h_fs (cl_host c)"
  "h_guests (cl_host (snd (cli_sync G M v force c))) u \<noteq> h_guests (cl_host c) u \<Longrightarrow>
     u = v \<and> not_syncable G v (h_fs (cl_host c)) = Inr None \<and> \<not> isl (h_lock (cl_host c) v)"
proof -
  have *: "sync_rows G ds True False d = ((fine, said), d') \<Longrightarrow> cl_host d' = cl_host d" for ds d fine said d'
    using sync_rows_result [of G ds True False d] by simp
  show "h_fs (cl_host (snd (cli_sync G M v force c))) = h_fs (cl_host c)"
    by (auto simp: cli_sync_def Let_def with_guest_def split: sum.splits option.splits prod.splits dest!: *)
  show "h_guests (cl_host (snd (cli_sync G M v force c))) u \<noteq> h_guests (cl_host c) u \<Longrightarrow>
     u = v \<and> not_syncable G v (h_fs (cl_host c)) = Inr None \<and> \<not> isl (h_lock (cl_host c) v)"
    by (cases "u = v")
      (auto simp: cli_sync_def Let_def with_guest_def split: sum.splits option.splits prod.splits if_splits dest!: *)
qed

lemma vmid_arg_Inr: "vmid_arg G a = Inr v \<longleftrightarrow> parse_u32 a = Some v \<and> 0 < v"
  by (auto simp: vmid_arg_def ok_or_eq split: option.splits if_splits)

text \<open>The sample host as its own node, with one container that has neither a document nor a manifest.\<close>

definition sample_cli :: cli where
  "sample_cli = \<lparr>cl_host = sample_host\<lparr>
      h_fs := sample_fs [([], Dir), ([''r''], Dir),
       ([''etc''], Dir), ([''etc'', ''pve''], Dir), ([''etc'', ''pve'', ''.vmlist''], File ''v'' 0),
       ([''etc'', ''pve'', ''local''], Symlink [''nodes'', ''n1'']),
       ([''etc'', ''pve'', ''nodes''], Dir), ([''etc'', ''pve'', ''nodes'', ''n1''], Dir),
       ([''etc'', ''pve'', ''nodes'', ''n1'', ''lxc''], Dir), ([''etc'', ''pve'', ''nodes'', ''n1'', ''lxc'', ''105.conf''], File ''cores: 2'' 0),
       ([''proc''], Dir), ([''proc'', ''net''], Dir), ([''proc'', ''net'', ''unix''], File ''7 @/var/lib/lxc/105/command'' 0)],
      h_guests := (\<lambda>_. sample_guest\<lparr>g_tree := []\<rparr>)\<rparr>, cl_out = [], cl_err = []\<rparr>"

section \<open>Properties\<close>

text \<open>C39: Asking for the status changes nothing: no command it runs in any container changes a file there,
  for one container or all of them and however it ends, and the host's files stay as they are.\<close>

theorem status_changes_nothing:
  assumes "cli_status G M only c = (r, c')"
  shows "h_fs (cl_host c') = h_fs (cl_host c)
    \<and> (\<forall>v. \<exists>tr. g_trace (h_guests (cl_host c') v) = g_trace (h_guests (cl_host c) v) @ tr \<and> (\<forall>mm \<in> set tr. fst mm = snd mm))"
proof -
  let ?c = "print_line (status_line ''VMID'' ''ENTRY'' ''PATH'' ''STATE'') c"
  have "only_looked c c'"
  proof (cases "c' = c")
    case False
    with assms obtain vs where "status_rows G M (only = None) vs True ?c = (r, c')"
      by (auto simp: cli_status_def split: sum.splits)
    from status_rows_only_look [OF this] show ?thesis by (simp add: only_looked_def)
  qed (simp add: only_looked_refl)
  then show ?thesis by (simp add: only_looked_def)
qed

theorem status_changes_nothing_witness:
  "list_all (\<lambda>mm. fst mm = snd mm)
     (g_trace (h_guests (cl_host (snd (cli_status sample_host_libs sample_store None sample_cli))) 105))"
proof -
  have "g_trace (h_guests (cl_host sample_cli) 105) = []" by (simp add: sample_cli_def sample_guest_def)
  with status_changes_nothing [OF prod.collapse [symmetric], of sample_host_libs sample_store None sample_cli]
  show ?thesis unfolding list_all_iff by (metis append_Nil)
qed

text \<open>C40: What the exit status of a sync by hand means. It is success exactly when the argument is the id
  of a container of this node that runs and that nothing holds, its document could be read, its lock was
  taken, the sync ended, and no row of its report is a refusal or an operation that was not done. Whatever
  the outcome, no other container is touched, nor this one unless it is free and locked for the sync, and
  the host's files stay as they are.\<close>

theorem sync_exit_status:
  assumes "argv = [''sync'', a] \<and> \<not> force \<or> (argv = [''sync'', a, ''--force''] \<or> argv = [''sync'', ''--force'', a]) \<and> force"
  shows "(fst (main G M argv c) = Some 0 \<longleftrightarrow>
     (\<exists>v f rep g. parse_u32 a = Some v \<and> 0 < v \<and> free_container G v (h_fs (cl_host c))
        \<and> read_guest_files G M v (h_fs (cl_host c)) = Inr f \<and> \<not> isl (h_lock (cl_host c) v)
        \<and> sync G (pct_ops G v) f force (h_guests (cl_host c) v) = (Inr rep, g) \<and> list_all row_fine (rp_items rep)))
   \<and> h_fs (cl_host (snd (main G M argv c))) = h_fs (cl_host c)
   \<and> (\<forall>u. h_guests (cl_host (snd (main G M argv c))) u \<noteq> h_guests (cl_host c) u \<longrightarrow>
        parse_u32 a = Some u \<and> free_container G u (h_fs (cl_host c)) \<and> \<not> isl (h_lock (cl_host c) u))"
proof -
  have m: "main G M argv c = on_vmid G a (\<lambda>v. cli_sync G M v force) c" using assms by (auto simp: main_def)
  show ?thesis
  proof (cases "vmid_arg G a")
    case (Inl e)
    then have "\<not> (parse_u32 a = Some v \<and> 0 < v)" for v using vmid_arg_Inr [of G a v] by simp
    with Inl show ?thesis by (auto simp: m on_vmid_def exit_of_success exit_of_host)
  next
    case (Inr v)
    then have "parse_u32 a = Some v" "0 < v" by (simp_all add: vmid_arg_Inr)
    with Inr show ?thesis
      using cli_sync_success [of G M v force c] cli_sync_touches [of G M v force c]
      by (auto simp: m on_vmid_def exit_of_success exit_of_host not_syncable_None)
  qed
qed

theorem sync_exit_status_witness:
  "fst (main sample_host_libs sample_store [''sync'', ''105''] sample_cli) = Some 0"
proof -
  let ?h = "cl_host sample_cli"
  have a: "parse_u32 ''105'' = Some 105" "(0 :: vmid) < 105" by code_simp+
  have n: "not_syncable sample_host_libs 105 (h_fs ?h) = Inr None" by code_simp
  have f: "read_guest_files sample_host_libs sample_store 105 (h_fs ?h) = Inr Nothing" by code_simp
  have l: "\<not> isl (h_lock ?h 105)" by (simp add: sample_cli_def sample_host_def)
  define r where "r = sync sample_host_libs (pct_ops sample_host_libs 105) Nothing False (h_guests ?h 105)"
  have "\<exists>g. pct_read sample_host_libs 105 manifest_path manifest_max_bytes (h_guests ?h 105) = (Inr None, g)"
  proof -
    have "\<not> test_L [] manifest_path" "file_bytes [] manifest_path = None" by code_simp+
    then show ?thesis
      by (simp add: pct_read_def pct_exec_def then_do_def sample_cli_def sample_guest_def seen_tree_def max_output_def Let_def)
  qed
  moreover have "pl_items (plan_sync Nothing manifest_default [] False) = []"
    "\<not> changes (plan_sync Nothing manifest_default [] False) manifest_default" by code_simp+
  ultimately obtain rep g where r: "r = (Inr rep, g)" "list_all row_fine (rp_items rep)"
    by (auto simp: r_def sync_def inspect_def carry_out_def then_do_def pct_ops_def read_manifest_def wants_files_def
        manifest_is_empty_def manifest_default_def)
  have "\<exists>v f rep g. parse_u32 ''105'' = Some v \<and> 0 < v \<and> free_container sample_host_libs v (h_fs ?h)
        \<and> read_guest_files sample_host_libs sample_store v (h_fs ?h) = Inr f \<and> \<not> isl (h_lock ?h v)
        \<and> sync sample_host_libs (pct_ops sample_host_libs v) f False (h_guests ?h v) = (Inr rep, g) \<and> list_all row_fine (rp_items rep)"
    using a n f l r unfolding r_def not_syncable_None by blast
  then show ?thesis
    using sync_exit_status [of "[''sync'', ''105'']" "''105''" False sample_host_libs sample_store sample_cli] by simp
qed

end
