(* ===== verification/Gf_Settle.thy ===== *)
theory Gf_Settle
  imports Gf_Sync
begin

text \<open>
  A plan that was carried out leaves nothing to do (plan.rs): planning again on what its operations lead to
  gives no operation and the same manifest, so that a sync of a guest that stays as it is settles after one
  round.
\<close>

section \<open>Probes of a guest before and after\<close>

text \<open>Of the paths that are looked at, those below a missing one are missing.\<close>

definition coherent :: "string list \<Rightarrow> probe \<Rightarrow> bool" where
  "coherent ps pb \<longleftrightarrow> (\<forall>d x. d \<in> set ps \<and> d @ CHR ''/'' # x \<in> set ps \<and> node_of pb d = NMissing \<longrightarrow>
     node_of pb (d @ CHR ''/'' # x) = NMissing)"

text \<open>The second probe sees the first with the plan carried out, at every path that is looked at.\<close>

definition carried_out :: "gf_libs \<Rightarrow> plan \<Rightarrow> string list \<Rightarrow> probe \<Rightarrow> probe \<Rightarrow> bool" where
  "carried_out G P ps pb pb' \<longleftrightarrow>
     (\<forall>p c md ow ex. Place p c md ow ex \<in> set (pl_ops P) \<longrightarrow> node_of pb' p = NFile (uid ow) (gid ow) md (gf_sha G c))
   \<and> (\<forall>p sha. Remove p sha \<in> set (pl_ops P) \<longrightarrow> node_of pb' p = NMissing)
   \<and> (\<forall>p \<in> set (pl_dirs P). node_of pb' p = NDir)
   \<and> (\<forall>p \<in> set ps. p \<notin> op_path ` set (pl_ops P) \<and> p \<notin> set (pl_dirs P) \<longrightarrow> node_of pb' p = node_of pb p)"

text \<open>No path that is wanted or recorded is unsafe.\<close>

definition all_safe :: "guest_files \<Rightarrow> manifest \<Rightarrow> probe \<Rightarrow> bool" where
  "all_safe f m pb \<longleftrightarrow>
     (\<forall>p \<in> set (map de_path (wanted_files f) @ map fst (records m)). \<forall>why. assess p pb \<noteq> FUnsafe why)"

lemma dirs_from_below: "x \<in> set (dirs_from cur segs) \<Longrightarrow> \<exists>y. x = cur @ CHR ''/'' # y"
  by (induction segs arbitrary: cur) fastforce+

lemma dirs_from_later: "dirs_from cur segs = a @ e # b \<Longrightarrow> x \<in> set b \<Longrightarrow> \<exists>y. x = e @ CHR ''/'' # y"
proof (induction segs arbitrary: cur a)
  case (Cons s segs)
  then show ?case by (cases a) (auto dest: dirs_from_below)
qed simp

lemma directories_below:
  assumes "valid_gp p" "e \<in> set (directories p)"
  shows "\<exists>y. gp_str p = e @ CHR ''/'' # y"
proof -
  obtain q where q: "e = abs_text q" "strict_prefix q (gp_segs p)" using assms(2) directories_segs [OF assms(1)] by auto
  then obtain r rs where "gp_segs p = q @ r # rs" by (auto simp: strict_prefix_def prefix_def neq_Nil_conv)
  with assms(1) q(1) show ?thesis by (auto simp: valid_gp_def)
qed

text \<open>What a missing file means in a coherent probe: it and its directories are missing or directories.\<close>

lemma assess_missing_nodes:
  assumes "coherent ps pb" "valid_gp p" "assess p pb = FMissing" "x \<in> set (directories p) \<union> {gp_str p}"
    and ps: "set (directories p) \<union> {gp_str p} \<subseteq> set ps"
  shows "node_of pb x = NMissing \<or> node_of pb x = NDir \<and> x \<in> set (directories p)"
proof (cases "assess_dirs pb (directories p)")
  case None
  with assms(3) have "node_of pb (gp_str p) = NMissing" by (auto simp: assess_def split: gnode.splits)
  with assess_dirs_None [OF None] assms(4) show ?thesis by auto
next
  case (Some st)
  with assms(3) have "assess_dirs pb (directories p) = Some FMissing" by (simp add: assess_def)
  from assess_missing_dirs [OF this] obtain a d b where d: "directories p = a @ d # b"
    "\<forall>x \<in> set a. node_of pb x = NDir" "node_of pb d = NMissing" by blast
  have "d \<in> set ps" using d(1) ps by auto
  then have below: "node_of pb (d @ CHR ''/'' # y) = NMissing" if "d @ CHR ''/'' # y \<in> set (directories p) \<union> {gp_str p}" for y
    using assms(1) d(3) that ps unfolding coherent_def by blast
  consider "x \<in> set a" | "x = d" | "x \<in> set b" | "x = gp_str p" using assms(4) d(1) by auto
  then show ?thesis
  proof cases
    case 3
    with dirs_from_later d(1) obtain y where "x = d @ CHR ''/'' # y" unfolding directories_def by metis
    with below assms(4) show ?thesis by auto
  next
    case 4
    with directories_below [OF assms(2), of d] d(1) below show ?thesis by auto
  qed (use d in auto)
qed

section \<open>What was carried out\<close>

lemma gp_str_inj: "gp_str p = gp_str q \<longleftrightarrow> p = q"
  by (cases p; cases q) simp

definition looked_at :: "guest_files \<Rightarrow> manifest \<Rightarrow> guest_path \<Rightarrow> bool" where
  "looked_at f old p \<longleftrightarrow> p \<in> set (map de_path (wanted_files f)) \<union> set (map fst (records old))"

lemma in_probe_paths:
  "looked_at f old p \<Longrightarrow> x \<in> set (directories p) \<union> {gp_str p} \<Longrightarrow> x \<in> set (probe_paths f old)"
  using files_paths_wanted [of f] by (force simp: probe_paths_def looked_at_def)

lemma place_nodes:
  assumes "coherent (probe_paths f old) pb" "wf_files G f" "Place p c md ow ex \<in> set (pl_ops (plan_sync f old pb force))" "wf_manifest old"
  obtains d where "d \<in> set (wanted_files f)" "p = gp_str (de_path d)" "c = de_content d" "md = en_mode (de_entry d)"
    "ow = en_owner (de_entry d)" "place_ok f old pb force d ex" "node_of pb p \<noteq> NDir"
proof -
  from plan_op_cases [OF assms(3,4)] obtain d where d: "d \<in> set (wanted_files f)" "p = gp_str (de_path d)" "c = de_content d"
    "md = en_mode (de_entry d)" "ow = en_owner (de_entry d)" "place_ok f old pb force d ex" by auto
  have v: "valid_gp (de_path d)" using d(1) assms(2) by (auto simp: wf_files_def wf_desired_def list_all_iff)
  have "node_of pb p \<noteq> NDir"
  proof (cases "assess (de_path d) pb")
    case FMissing
    have "gp_str (de_path d) \<notin> set (directories (de_path d))" using directories_below [OF v] by force
    moreover have "looked_at f old (de_path d)" using d(1) by (simp add: looked_at_def)
    ultimately show ?thesis using assess_missing_nodes [OF assms(1) v FMissing, of p] in_probe_paths d(2) by blast
  next
    case (FPresent sha md' ow')
    with assess_present(1) [OF FPresent] d(2) show ?thesis by simp
  next
    case (FUnsafe why)
    with d(6) show ?thesis by (auto simp: place_ok_def split: expect.splits)
  qed
  with d that show thesis by blast
qed

lemma remove_nodes:
  assumes "Remove p sha \<in> set (pl_ops (plan_sync f old pb force))" "wf_manifest old"
  obtains q r where "p = gp_str q" "remove_ok f old pb q r" "sha = rc_sha256 r" "\<exists>u g md. node_of pb p = NFile u g md sha"
proof -
  from plan_op_cases [OF assms] obtain q r where q: "p = gp_str q" "sha = rc_sha256 r" "remove_ok f old pb q r" by auto
  then obtain md ow where "assess q pb = FPresent (rc_sha256 r) md ow" by (auto simp: remove_ok_def)
  from assess_present(1) [OF this] q that show thesis by blast
qed

lemma op_of_path:
  assumes "p \<in> op_path ` set ops"
  obtains c md ow ex where "Place p c md ow ex \<in> set ops" | sha where "Remove p sha \<in> set ops"
  using assms by (auto elim: op_path.elims) (metis op_path.elims)

text \<open>The situation of the two probes.\<close>

definition round_done :: "gf_libs \<Rightarrow> guest_files \<Rightarrow> manifest \<Rightarrow> bool \<Rightarrow> probe \<Rightarrow> probe \<Rightarrow> bool" where
  "round_done G f old force pb pb' \<longleftrightarrow>
     wf_files G f \<and> wf_manifest old \<and> hold_reason f pb = None \<and> coherent (probe_paths f old) pb \<and> all_safe f old pb
     \<and> carried_out G (plan_sync f old pb force) (probe_paths f old) pb pb'"

lemma looked_at_valid: "round_done G f old force pb pb' \<Longrightarrow> looked_at f old p \<Longrightarrow> valid_gp p"
  by (auto simp: round_done_def looked_at_def wf_files_def wf_desired_def list_all_iff wf_manifest_def wf_record_def)

lemma dir_kept:
  assumes r: "round_done G f old force pb pb'" and "looked_at f old q" "x \<in> set (directories q)" "node_of pb x = NDir"
  shows "node_of pb' x = NDir"
proof -
  let ?P = "plan_sync f old pb force"
  have "x \<notin> op_path ` set (pl_ops ?P)"
  proof
    assume "x \<in> op_path ` set (pl_ops ?P)"
    then show False
    proof (cases rule: op_of_path)
      case (1 c md ow ex)
      with r assms(4) show ?thesis by (auto simp: round_done_def elim!: place_nodes)
    next
      case (2 sha)
      with r assms(4) show ?thesis by (auto simp: round_done_def elim!: remove_nodes)
    qed
  qed
  moreover have "x \<in> set (probe_paths f old)" using in_probe_paths assms(2,3) by blast
  ultimately show ?thesis using r assms(4) by (cases "x \<in> set (pl_dirs ?P)") (auto simp: round_done_def carried_out_def)
qed

lemma decision_create: "fst (decision old pb force d) = Create \<Longrightarrow> assess (de_path d) pb = FMissing"
  by (cases "assess (de_path d) pb") (auto simp: decision_def decide_def Let_def split: if_splits)

lemma created_dirs:
  assumes "x \<in> set (pl_dirs (plan_sync f old pb force))" "hold_reason f pb = None"
  shows "x = guest_root \<or> (\<exists>d \<in> set (wanted_files f). assess (de_path d) pb = FMissing \<and> x \<in> set (directories (de_path d)))"
  using assms(1) unfolding plan_sync_closed(4) [OF assms(2)]
  by (auto simp: file_dirs_def dest!: decision_create split: if_splits)

lemma root_not_file: "hold_reason f pb = None \<Longrightarrow> node_of pb guest_root \<noteq> NFile u g md sha"
  by (auto simp: hold_reason_def root_problem_def manifest_directories_def split: guest_files.splits option.splits)

text \<open>A file that is there and that no operation is for stays as it was.\<close>

lemma present_kept:
  assumes r: "round_done G f old force pb pb'" and l: "looked_at f old p" and a: "assess p pb = FPresent sha md ow"
    and n: "gp_str p \<notin> op_path ` set (pl_ops (plan_sync f old pb force))"
  shows "assess p pb' = FPresent sha md ow"
proof -
  let ?P = "plan_sync f old pb force"
  note node = assess_present [OF a]
  have "gp_str p \<notin> set (pl_dirs ?P)"
  proof
    assume "gp_str p \<in> set (pl_dirs ?P)"
    moreover have "gp_str p \<noteq> guest_root" using r node(1) by (auto simp: round_done_def dest: root_not_file)
    ultimately obtain d where d: "d \<in> set (wanted_files f)" "assess (de_path d) pb = FMissing" "gp_str p \<in> set (directories (de_path d))"
      using created_dirs [of "gp_str p" f old pb force] r by (auto simp: round_done_def)
    have "looked_at f old (de_path d)" using d(1) by (simp add: looked_at_def)
    from assess_missing_nodes [OF _ looked_at_valid [OF r this] d(2), of "probe_paths f old" "gp_str p"] in_probe_paths [OF this] d(3) node(1) r
    show False by (auto simp: round_done_def)
  qed
  with r n in_probe_paths [OF l, of "gp_str p"] node(1) have "node_of pb' (gp_str p) = NFile (uid ow) (gid ow) md sha"
    by (auto simp: round_done_def carried_out_def)
  moreover have "assess_dirs pb' ds = None" if "set ds \<subseteq> set (directories p)" for ds
    using that dir_kept [OF r l] node(2) by (induction ds) auto
  ultimately show ?thesis by (simp add: assess_def)
qed

text \<open>A file that was placed is there as it is wanted.\<close>

lemma placed_present:
  assumes r: "round_done G f old force pb pb'" and d: "d \<in> set (wanted_files f)" and w: "snd (decision old pb force d) = Some ex"
  shows "assess (de_path d) pb' = FPresent (de_sha256 d) (en_mode (de_entry d)) (en_owner (de_entry d))"
proof -
  let ?P = "plan_sync f old pb force"
  have l: "looked_at f old (de_path d)" using d by (simp add: looked_at_def)
  have h: "hold_reason f pb = None" using r by (simp add: round_done_def)
  have "Place (gp_str (de_path d)) (de_content d) (en_mode (de_entry d)) (en_owner (de_entry d)) ex \<in> set (file_ops old pb force d)"
    using w by (simp add: file_ops_def)
  with d have "Place (gp_str (de_path d)) (de_content d) (en_mode (de_entry d)) (en_owner (de_entry d)) ex \<in> set (pl_ops ?P)"
    unfolding plan_sync_closed(1) [OF h] set_append set_concat set_map by blast
  then have n: "node_of pb' (gp_str (de_path d)) = NFile (uid (en_owner (de_entry d))) (gid (en_owner (de_entry d))) (en_mode (de_entry d)) (de_sha256 d)"
    using r d by (fastforce simp: round_done_def carried_out_def wf_files_def wf_desired_def list_all_iff)
  have "node_of pb' x = NDir" if x: "x \<in> set (directories (de_path d))" for x
  proof (cases "node_of pb x = NDir")
    case True
    with dir_kept [OF r l x] show ?thesis by simp
  next
    case False
    from w have a: "assess (de_path d) pb = FMissing \<and> fst (decision old pb force d) = Create \<or> (\<exists>sha md ow. assess (de_path d) pb = FPresent sha md ow)"
      by (auto simp: decision_def decide_def Let_def split: if_splits file_state.splits)
    with False x assess_present(2) [of "de_path d" pb] have "fst (decision old pb force d) = Create" by auto
    moreover have "map_of pb x \<noteq> Some NDir" using False by (auto simp: node_of_def)
    ultimately have "x \<in> set (pl_dirs ?P)" using d x by (auto simp: plan_sync_closed(4) [OF h] file_dirs_def)
    with r show ?thesis by (simp add: round_done_def carried_out_def)
  qed
  then have "assess_dirs pb' ds = None" if "set ds \<subseteq> set (directories (de_path d))" for ds
    using that by (induction ds) auto
  with n show ?thesis by (simp add: assess_def)
qed

section \<open>The second plan\<close>

lemma wanted_unique: "no_clashes ds \<Longrightarrow> d \<in> set ds \<Longrightarrow> find (\<lambda>x. de_path x = de_path d) ds = Some d"
proof (induction ds)
  case (Cons x ds)
  then have "distinct (map de_path (x # ds))" by (intro no_clashes_paths)
  with Cons show ?case by (auto simp: no_clashes_def)
qed simp

lemma no_op_for:
  assumes r: "round_done G f old force pb pb'" and d: "d \<in> set (wanted_files f)" and w: "snd (decision old pb force d) = None"
  shows "gp_str (de_path d) \<notin> op_path ` set (pl_ops (plan_sync f old pb force))"
proof
  have h: "hold_reason f pb = None" and m: "wf_manifest old" and nc: "no_clashes (wanted_files f)"
    using r by (simp_all add: round_done_def wf_files_def)
  assume "gp_str (de_path d) \<in> op_path ` set (pl_ops (plan_sync f old pb force))"
  then consider e where "e \<in> set (wanted_files f)" "gp_str (de_path d) \<in> op_path ` set (file_ops old pb force e)"
    | pr where "pr \<in> set (records old)" "gp_str (de_path d) \<in> op_path ` set (record_ops f pb pr)"
    unfolding plan_sync_closed(1) [OF h] by auto
  then show False
  proof cases
    case 1
    then have "de_path e = de_path d" "snd (decision old pb force e) \<noteq> None"
      by (cases "snd (decision old pb force e)"; simp add: file_ops_def gp_str_inj)+
    with wanted_unique [OF nc d] wanted_unique [OF nc 1(1)] w show ?thesis by simp
  next
    case 2
    then have "fst pr = de_path d" "removes f pb pr" by (auto simp: record_ops_def gp_str_inj split: if_splits)
    with d show ?thesis by (simp add: removes_def all_files_wanted)
  qed
qed

lemma stays_no_op:
  assumes r: "round_done G f old force pb pb'" and s: "stays f pb (p, rec)" and m: "(p, rec) \<in> set (records old)"
  shows "gp_str p \<notin> op_path ` set (pl_ops (plan_sync f old pb force))"
proof
  have h: "hold_reason f pb = None" and wm: "distinct (map fst (records old))"
    using r by (simp_all add: round_done_def wf_manifest_def bsorted_distinct)
  assume "gp_str p \<in> op_path ` set (pl_ops (plan_sync f old pb force))"
  then consider e where "e \<in> set (wanted_files f)" "gp_str p \<in> op_path ` set (file_ops old pb force e)"
    | pr where "pr \<in> set (records old)" "gp_str p \<in> op_path ` set (record_ops f pb pr)"
    unfolding plan_sync_closed(1) [OF h] by auto
  then show False
  proof cases
    case 1
    then have "p = de_path e" by (auto simp: file_ops_def gp_str_inj split: option.splits)
    with 1 s show ?thesis by (simp add: stays_def all_files_wanted)
  next
    case 2
    then have "fst pr = p" "removes f pb pr" by (auto simp: record_ops_def gp_str_inj split: if_splits)
    moreover have "pr = (p, rec)" using 2(1) m wm \<open>fst pr = p\<close> by (metis eq_key_imp_eq_value prod.collapse)
    ultimately show ?thesis using s by (auto simp: stays_def removes_def)
  qed
qed

lemma manifest_of_wanted:
  assumes "round_done G f old force pb pb'" "d \<in> set (wanted_files f)"
  shows "map_of (records (pl_manifest (plan_sync f old pb force))) (de_path d) = file_keeps old pb force d"
  using assms plan_manifest_lookup [of f pb old force "de_path d"] wanted_unique [of "wanted_files f" d]
  by (simp add: round_done_def wf_files_def plan_keeps_def)

lemma second_decision:
  assumes r: "round_done G f old force pb pb'" and d: "d \<in> set (wanted_files f)" and fo: "force' \<longrightarrow> force"
  defines "m \<equiv> pl_manifest (plan_sync f old pb force)"
  shows "file_ops m pb' force' d = [] \<and> file_keeps m pb' force' d = map_of (records m) (de_path d)
    \<and> (conflicts old d \<or> fst (decision m pb' force' d) = InSync \<or> fst (decision m pb' force' d) = KeptLocalEdit)"
proof -
  have m: "map_of (records m) (de_path d) = file_keeps old pb force d" unfolding m_def by (rule manifest_of_wanted [OF r d])
  have l: "looked_at f old (de_path d)" using d by (simp add: looked_at_def)
  have s: "assess (de_path d) pb \<noteq> FUnsafe why" for why using r d by (simp add: round_done_def all_safe_def)
  have new: ?thesis if c: "file_keeps old pb force d = Some (new_record d)"
    and a: "assess (de_path d) pb' = FPresent (de_sha256 d) (en_mode (de_entry d)) (en_owner (de_entry d))"
  proof -
    have "\<not> conflicts m d" using c m by (simp add: conflicts_def new_record_def sources_conflict_def)
    with a have "decision m pb' force' d = (InSync, None)" by (simp add: decision_def decide_def)
    with m c show ?thesis by (simp add: file_ops_def file_keeps_def claims_def)
  qed
  show ?thesis
  proof (cases "conflicts old d")
    case True
    then obtain rec where rec: "map_of (records old) (de_path d) = Some rec" by (auto simp: conflicts_def split: option.splits)
    with True have "map_of (records m) (de_path d) = Some rec" by (simp add: m file_keeps_def decision_def claims_def)
    with True rec have "decision m pb' force' d = (Refused (conflict_text (de_entry d) rec), None)"
      by (simp add: decision_def conflicts_def)
    with True show ?thesis by (simp add: file_ops_def file_keeps_def claims_def)
  next
    case nc: False
    show ?thesis
    proof (cases "snd (decision old pb force d)")
      case (Some ex)
      have "claims (fst (decision old pb force d))"
        using Some nc by (auto simp: decision_def decide_def claims_def Let_def split: file_state.splits if_splits)
      then show ?thesis using placed_present [OF r d Some] by (intro new) (simp_all add: file_keeps_def)
    next
      case None
      note no = no_op_for [OF r d None]
      from None nc s obtain sha md ow where a: "assess (de_path d) pb = FPresent sha md ow"
        by (cases "assess (de_path d) pb") (auto simp: decision_def decide_def Let_def)
      from present_kept [OF r l a no] have a': "assess (de_path d) pb' = FPresent sha md ow" .
      show ?thesis
      proof (cases "fst (decision old pb force d) = InSync")
        case True
        with nc a have "sha = de_sha256 d" "md = en_mode (de_entry d)" "ow = en_owner (de_entry d)"
          by (auto simp: decision_def decide_def Let_def split: if_splits)
        with True a' show ?thesis by (intro new) (simp_all add: file_keeps_def claims_def)
      next
        case False
        with None nc a have k: "fst (decision old pb force d) = KeptLocalEdit" "\<not> force"
          by (auto simp: decision_def decide_def Let_def split: if_splits)
        then have keep: "map_of (records m) (de_path d) = map_of (records old) (de_path d)" by (simp add: m file_keeps_def claims_def)
        with nc have nc': "\<not> conflicts m d" by (simp add: conflicts_def)
        have "decision m pb' force' d = decision old pb force d" using nc nc' keep a a' k(2) fo by (simp add: decision_def)
        with None k keep show ?thesis by (simp add: file_ops_def file_keeps_def claims_def)
      qed
    qed
  qed
qed

lemma second_record:
  assumes r: "round_done G f old force pb pb'"
  defines "m \<equiv> pl_manifest (plan_sync f old pb force)"
  assumes p: "(p, rec) \<in> set (records m)" "p \<notin> set (map de_path (wanted_files f))"
  shows "stays f pb' (p, rec) \<and> record_ops f pb' (p, rec) = []"
proof -
  have wo: "wf_manifest old" and h: "hold_reason f pb = None" using r by (simp_all add: round_done_def)
  have "map_of (records m) p = Some rec" using p(1) plan_manifest_sorted [OF wo] by (simp add: m_def bsorted_distinct)
  then have "plan_keeps f old pb force p = Some rec"
    using plan_manifest_lookup [OF h _ wo] r by (simp add: m_def round_done_def wf_files_def)
  moreover have "find (\<lambda>d. de_path d = p) (wanted_files f) = None" using p(2) by (auto simp: find_None_iff)
  ultimately have o: "map_of (records old) p = Some rec" "stays f pb (p, rec)"
    by (auto simp: plan_keeps_def split: option.splits if_splits)
  then have mem: "(p, rec) \<in> set (records old)" by (auto dest: map_of_SomeD)
  then have l: "looked_at f old p" by (force simp: looked_at_def)
  then have "assess p pb \<noteq> FUnsafe why" for why using r by (auto simp: round_done_def all_safe_def looked_at_def)
  with o(2) obtain sha md ow where a: "assess p pb = FPresent sha md ow" by (cases "assess p pb") (auto simp: stays_def)
  from present_kept [OF r l a stays_no_op [OF r o(2) mem]] a o(2) show ?thesis
    by (auto simp: stays_def record_ops_def removes_def)
qed

lemma all_done_manifest: "list_all id dones \<Longrightarrow> manifest_after G P old dones = pl_manifest P"
proof -
  have "foldl (undo_step G old) m zs = m" if "\<forall>(x, d) \<in> set zs. d" for m zs
    using that by (induction zs) (auto simp: undo_step_def)
  moreover assume "list_all id dones"
  then have "\<forall>(x, d) \<in> set (zip (pl_ops P) dones). d" by (auto simp: list_all_iff dest: set_zip_rightD)
  ultimately show ?thesis by (simp add: manifest_after_def)
qed

text \<open>When the operations of a plan were all carried out and nothing else changed, planning again for the same
  document, without force or with the force the first had, plans no operation and the manifest the first left, so
  that nothing is written; every wanted file is then in sync, a local edit that is kept, or at a path recorded for
  another writer.\<close>

lemma settled_plan:
  assumes "round_done G f old force pb pb'" "hold_reason f pb' = None" "force' \<longrightarrow> force" "list_all id dones" "sourced f"
    and "m = manifest_after G (plan_sync f old pb force) old dones"
  shows "pl_ops (plan_sync f m pb' force') = [] \<and> pl_manifest (plan_sync f m pb' force') = m
    \<and> \<not> changes (plan_sync f m pb' force') m
    \<and> (\<forall>d \<in> set (wanted_files f). conflicts old d \<or> fst (decision m pb' force' d) = InSync
         \<or> fst (decision m pb' force' d) = KeptLocalEdit)"
proof -
  have wo: "wf_manifest old" and nc: "no_clashes (wanted_files f)" using assms(1) by (simp_all add: round_done_def wf_files_def)
  have m: "m = pl_manifest (plan_sync f old pb force)"
    unfolding assms(6) by (rule all_done_manifest [OF assms(4)])
  have "wf_files G f" using assms(1) by (simp add: round_done_def)
  from plan_manifest_wf [OF wo this assms(5)] have wm: "wf_manifest m" unfolding m .
  then have sm: "bsorted (records m)" by (simp add: wf_manifest_def)
  note second = second_decision [OF assms(1) _ assms(3), folded m]
  note recs = second_record [OF assms(1), folded m]
  have w: "record_ops f pb' pr = []" if "pr \<in> set (records m)" for pr
    using that recs [of "fst pr" "snd pr"]
    by (cases "fst pr \<in> set (map de_path (wanted_files f))") (auto simp: record_ops_def removes_def all_files_wanted)
  have ops: "pl_ops (plan_sync f m pb' force') = []"
    using second w by (simp add: plan_sync_closed(1) [OF assms(2)])
  have keeps: "plan_keeps f m pb' force' p = map_of (records m) p" for p
  proof (cases "find (\<lambda>d. de_path d = p) (wanted_files f)")
    case (Some d)
    then have "d \<in> set (wanted_files f)" "de_path d = p" by (auto simp: find_Some_iff)
    with second Some show ?thesis by (simp add: plan_keeps_def)
  next
    case None
    then have "p \<notin> set (map de_path (wanted_files f))" by (auto simp: find_None_iff)
    with None recs show ?thesis by (auto simp: plan_keeps_def dest: map_of_SomeD split: option.split)
  qed
  let ?m2 = "records (pl_manifest (plan_sync f m pb' force'))"
  have "map_of ?m2 p = map_of (records m) p" "bsorted ?m2" for p
    using keeps plan_manifest_lookup [OF assms(2) nc wm] plan_manifest_sorted [OF wm] by simp_all
  then have "?m2 = records m" using sm by (intro bmap_ext)
  then have man: "pl_manifest (plan_sync f m pb' force') = m" by (cases m) simp
  show ?thesis using ops man second by (simp add: changes_def)
qed

end
