(* ===== verification/Gf_Quiet.thy ===== *)
theory Gf_Quiet
  imports Gf_Settle Gf_Report
begin

text \<open>
  The scripts in a guest nobody else touches (pct.rs): where no symbolic link is on the way and every node has its
  directory, a path arrives where it says, a command that was answered as done has done exactly what it is for,
  and reading and probing give what the tree has.
\<close>

section \<open>Trees and open ways\<close>

text \<open>Every node is in a directory of the tree or in the root.\<close>

definition tree_ok :: "gtree \<Rightarrow> bool" where
  "tree_ok m \<longleftrightarrow> (\<forall>q n. map_of m q = Some n \<longrightarrow> q \<noteq> [] \<and> (butlast q = [] \<or> map_of m (butlast q) = Some GDir))"

text \<open>The way to a file is open: directories or nothing before it, a regular file or nothing in its place.\<close>

definition no_links :: "gtree \<Rightarrow> fspath \<Rightarrow> bool" where
  "no_links m s \<longleftrightarrow> (\<forall>q t. q \<noteq> [] \<longrightarrow> strict_prefix q s \<longrightarrow> map_of m q \<noteq> Some (GLink t))"

definition open_way :: "gtree \<Rightarrow> fspath \<Rightarrow> bool" where
  "open_way m s \<longleftrightarrow>
     (\<forall>q. q \<noteq> [] \<longrightarrow> strict_prefix q s \<longrightarrow> map_of m q = None \<or> map_of m q = Some GDir)
     \<and> (\<forall>n. map_of m s = Some n \<longrightarrow> (\<exists>c u g b. n = GFile c u g b))"

definition way_there :: "gtree \<Rightarrow> fspath \<Rightarrow> bool" where
  "way_there m s \<longleftrightarrow> (\<forall>q. q \<noteq> [] \<longrightarrow> strict_prefix q s \<longrightarrow> map_of m q = Some GDir)"

lemma open_way_no_links: "open_way m s \<Longrightarrow> no_links m s"
  by (auto simp: open_way_def no_links_def)

lemma strict_prefix_snoc_iff: "strict_prefix q (s @ [x]) \<longleftrightarrow> prefix q s"
  by (simp add: strict_prefix_def prefix_snoc) (auto dest: prefix_length_le)

lemma tree_ok_above:
  assumes "tree_ok m" "map_of m s = Some n"
  shows "way_there m s"
  using assms(2)
proof (induction s arbitrary: n rule: rev_induct)
  case (snoc x s)
  have "s = [] \<or> map_of m s = Some GDir" using assms(1) snoc.prems by (fastforce simp: tree_ok_def)
  with snoc.IH show ?case by (auto simp: way_there_def strict_prefix_snoc_iff) (metis prefix_order.le_less)+
qed (simp add: way_there_def)

lemma gwalk_plain:
  assumes "\<forall>q t. q \<noteq> [] \<longrightarrow> prefix q ss \<longrightarrow> map_of m (cur @ q) \<noteq> Some (GLink t)"
  shows "gwalk n m cur ss = (if \<forall>q. q \<noteq> [] \<longrightarrow> prefix q ss \<longrightarrow> map_of m (cur @ q) = Some GDir then Some (cur @ ss) else None)"
  using assms
proof (induction ss arbitrary: cur)
  case (Cons x ss)
  have nl: "map_of m (cur @ [x]) \<noteq> Some (GLink t)" for t using Cons.prems by simp
  have split: "(\<forall>q. q \<noteq> [] \<longrightarrow> prefix q (x # ss) \<longrightarrow> P (cur @ q)) \<longleftrightarrow>
      P (cur @ [x]) \<and> (\<forall>q. q \<noteq> [] \<longrightarrow> prefix q ss \<longrightarrow> P ((cur @ [x]) @ q))" for P
  proof (intro iffI conjI allI impI)
    fix q assume a: "P (cur @ [x]) \<and> (\<forall>q. q \<noteq> [] \<longrightarrow> prefix q ss \<longrightarrow> P ((cur @ [x]) @ q))" and "q \<noteq> []" "prefix q (x # ss)"
    then obtain q' where q: "q = x # q'" "prefix q' ss" by (auto simp: prefix_Cons)
    with a show "P (cur @ q)" by (cases "q' = []") auto
  qed auto
  have "\<forall>q t. q \<noteq> [] \<longrightarrow> prefix q ss \<longrightarrow> map_of m ((cur @ [x]) @ q) \<noteq> Some (GLink t)"
    using Cons.prems by (auto simp: prefix_Cons)
  note ih = Cons.IH [OF this]
  show ?case unfolding split [of "\<lambda>z. map_of m z = Some GDir"]
    using nl ih by (cases "map_of m (cur @ [x])") (auto split: gent.splits)
qed simp

text \<open>Paths as the scripts have them.\<close>

definition plain_segs :: "string list \<Rightarrow> bool" where
  "plain_segs s \<longleftrightarrow> s \<noteq> [] \<and> slash_free s \<and> [] \<notin> set s"

lemma fspath_of_abs: "plain_segs s \<Longrightarrow> fspath_of (abs_text s) = s"
  using split_abs_text [of "[]" s] by (auto simp: fspath_of_def plain_segs_def filter_id_conv)

lemma gloc_plain:
  assumes "plain_segs s" "no_links m s"
  shows "gloc m (abs_text s) = (if way_there m s then Some s else None)"
proof -
  have s: "s = butlast s @ [last s]" using assms(1) by (simp add: plain_segs_def)
  have pre: "prefix q (butlast s) \<longleftrightarrow> strict_prefix q s" for q by (subst (2) s) (simp add: strict_prefix_snoc_iff)
  have "gwalk 40 m [] (butlast s) = (if way_there m s then Some (butlast s) else None)"
    using gwalk_plain [of "butlast s" m "[]" 40] assms(2) unfolding pre no_links_def way_there_def append_Nil by blast
  with assms(1) show ?thesis by (simp add: gloc_def fspath_of_abs plain_segs_def Let_def)
qed

lemma no_links_there: "way_there m s \<Longrightarrow> no_links m s"
  by (auto simp: way_there_def no_links_def)

lemma glstat_plain: "plain_segs s \<Longrightarrow> no_links m s \<Longrightarrow> tree_ok m \<Longrightarrow> glstat m (abs_text s) = map_of m s"
  using tree_ok_above [of m s] by (cases "map_of m s") (auto simp: glstat_def gloc_plain)

lemma gstat_plain:
  assumes "plain_segs s" "no_links m s" "tree_ok m" "\<And>t. map_of m s \<noteq> Some (GLink t)"
  shows "gstat m (abs_text s) = map_option (\<lambda>n. (s, n)) (map_of m s)" "\<not> test_L m (abs_text s)"
proof -
  show "\<not> test_L m (abs_text s)" using assms by (auto simp: test_L_def glstat_plain split: option.splits gent.splits)
  show "gstat m (abs_text s) = map_option (\<lambda>n. (s, n)) (map_of m s)"
    using assms tree_ok_above [of m s]
    by (cases "map_of m s") (auto simp: gstat_def gloc_plain gfollow_at split: gent.splits)
qed

lemma gstat_there:
  assumes "plain_segs s" "way_there m s" "\<And>t. map_of m s \<noteq> Some (GLink t)"
  shows "gstat m (abs_text s) = map_option (\<lambda>n. (s, n)) (map_of m s)" "gloc m (abs_text s) = Some s"
  using assms gloc_plain [OF assms(1) no_links_there [OF assms(2)]]
  by (auto simp: gstat_def gfollow_at split: option.splits gent.splits)

section \<open>What the commands do\<close>

definition temp_segs :: "fspath \<Rightarrow> fspath" where
  "temp_segs s = butlast s @ [''.'' @ last s @ temp_mark @ ''.tmp'']"

lemma temp_for_abs:
  assumes "plain_segs s"
  shows "temp_for (abs_text s) = abs_text (temp_segs s)" "plain_segs (temp_segs s)" "is_temp (temp_segs s)"
proof -
  have s: "s = butlast s @ [last s]" using assms by (simp add: plain_segs_def)
  then have "CHR ''/'' \<notin> set (last s)" "slash_free (butlast s)" using assms unfolding plain_segs_def by (metis slash_free_simps(2,3))+
  moreover have "abs_text s = abs_text (butlast s) @ CHR ''/'' # last s" by (subst s) simp
  ultimately show "temp_for (abs_text s) = abs_text (temp_segs s)" by (simp add: temp_for_def temp_segs_def rsplit_once_Some [THEN iffD2])
  have "[] \<notin> set (butlast s)" using assms by (auto simp: plain_segs_def dest: in_set_butlastD)
  then show "plain_segs (temp_segs s)"
    using \<open>CHR ''/'' \<notin> set (last s)\<close> \<open>slash_free (butlast s)\<close> by (simp add: plain_segs_def temp_segs_def temp_mark_def)
  show "is_temp (temp_segs s)"
    using sublist_middle [of temp_mark "''.'' @ last s" "''.tmp''"] by (simp add: is_temp_def temp_segs_def)
qed

lemma temp_segs_prefix: "s \<noteq> [] \<Longrightarrow> strict_prefix q (temp_segs s) \<longleftrightarrow> strict_prefix q s"
  using strict_prefix_snoc_iff [of q "butlast s" "last s"] by (simp add: temp_segs_def strict_prefix_snoc_iff)

lemma way_there_upd: "(\<And>q. strict_prefix q s \<Longrightarrow> map_of m' q = map_of m q) \<Longrightarrow> way_there m' s = way_there m s"
  by (auto simp: way_there_def)

lemma not_below_itself: "\<not> strict_prefix s s" "strict_prefix q s \<Longrightarrow> q \<noteq> temp_segs s" "strict_prefix q s \<Longrightarrow> q \<noteq> s"
proof -
  assume "strict_prefix q s"
  then have "length q < length s" by (rule prefix_length_less)
  then show "q \<noteq> temp_segs s" by (auto simp: temp_segs_def)
qed auto

lemma sh_w_done:
  assumes w: "sh_w G fails m i (abs_text s) (temp_for (abs_text s)) (expect_arg ex) (mode_text md) (show_owner ow) (base64 c @ [nl]) = (i @ '' done'', m')"
    and md: "unat md < 512" and s: "plain_segs s" "\<not> is_temp s" and m: "open_way m s"
  shows "map_of m' q = (if q = s then Some (GFile c (uid ow) (gid ow) md) else if q = temp_segs s then None else map_of m q)"
    "way_there m s" "map_of m (temp_segs s) \<noteq> Some GDir"
proof -
  let ?t = "temp_segs s" and ?m1 = "grm m (temp_for (abs_text s))"
  note t = temp_for_abs [OF s(1)]
  have ne: "s \<noteq> []" using s(1) by (simp add: plain_segs_def)
  have nl: "no_links m ?t" using open_way_no_links [OF m] by (simp add: no_links_def temp_segs_prefix [OF ne])
  have wt: "way_there x ?t \<longleftrightarrow> way_there x s" for x by (simp add: way_there_def temp_segs_prefix [OF ne])
  have loc: "gloc m (abs_text ?t) = (if way_there m s then Some ?t else None)" using gloc_plain [OF t(2) nl] wt by simp
  from w obtain q1 where q1: "gloc ?m1 (temp_for (abs_text s)) = Some q1" "map_of ?m1 q1 = None"
    and mv: "gmv (placed c ow md q1 ?m1) (temp_for (abs_text s)) (abs_text s) = Some m'"
    by (auto simp: sh_w_eq [OF md] split: option.splits if_splits)
  show there: "way_there m s"
  proof (rule ccontr)
    assume a: "\<not> way_there m s"
    with loc t(1) have "?m1 = m" by (simp add: grm_def)
    with a loc t(1) q1(1) show False by simp
  qed
  have m1: "?m1 = (if map_of m ?t = Some GDir then m else odel ?t m)" using loc there t(1) by (simp add: grm_def)
  have "way_there ?m1 s"
    using there way_there_upd [of s ?m1 m] not_below_itself(2) by (auto simp: m1 map_of_odel)
  then have "gloc ?m1 (abs_text ?t) = Some ?t" using gloc_plain [OF t(2)] wt no_links_there by metis
  with q1(1) t(1) have q: "q1 = ?t" by simp
  with q1(2) m1 show nd: "map_of m ?t \<noteq> Some GDir" by (auto split: if_splits)
  define m3 where "m3 = placed c ow md ?t (odel ?t m)"
  have m3: "map_of m3 z = (if z = ?t then Some (GFile c (uid ow) (gid ow) md) else map_of m z)" for z
    by (simp add: m3_def placed_lookup map_of_odel)
  have st: "s \<noteq> ?t" using s(2) t(3) by metis
  have there3: "way_there m3 s" using there way_there_upd [of s m3 m] m3 not_below_itself(2) by metis
  have "\<exists>c u g b. n = GFile c u g b" if "map_of m3 s = Some n" for n
    using m that st by (simp add: m3 open_way_def)
  then have tgt: "map_of m3 s \<noteq> Some GDir" "\<And>t. map_of m3 s \<noteq> Some (GLink t)" by (metis gent.distinct(1), metis gent.distinct(3))
  have "gloc m3 (abs_text ?t) = Some ?t" using gloc_plain [OF t(2)] there3 wt no_links_there by metis
  moreover have "gmv m3 (abs_text ?t) (abs_text s) = Some m'" using mv q nd m1 t(1) by (simp add: m3_def)
  ultimately have "m' = oput s (GFile c (uid ow) (gid ow) md) (odel ?t m3)"
    using gstat_there [OF s(1) there3 tgt(2)] tgt(1) m3
    by (auto simp: gmv_def split: option.splits gent.splits)
  then show "map_of m' q = (if q = s then Some (GFile c (uid ow) (gid ow) md) else if q = ?t then None else map_of m q)"
    using m3 by (simp add: map_of_odel)
qed

lemma sh_rmf_done:
  assumes "sh_rmf G fails m i (abs_text s) sha = (i @ '' done'', m')" "plain_segs s" "open_way m s" "tree_ok m"
  shows "map_of m' q = (if q = s then None else map_of m q)"
proof -
  have nl: "map_of m s \<noteq> Some (GLink t)" for t using assms(3) by (auto simp: open_way_def)
  note st = gstat_plain [OF assms(2) open_way_no_links [OF assms(3)] assms(4) nl]
  show ?thesis
  proof (cases "map_of m s")
    case None
    with st assms(1) have "m' = m" by (auto simp: sh_rmf_def test_e_def)
    with None show ?thesis by simp
  next
    case (Some n)
    with st assms(1) have "m' = grm m (abs_text s)" by (auto simp: sh_rmf_def test_e_def split: if_splits)
    moreover have "gloc m (abs_text s) = Some s"
      using gloc_plain [OF assms(2) open_way_no_links [OF assms(3)]] tree_ok_above [OF assms(4) Some] by simp
    moreover have "map_of m s \<noteq> Some GDir" using assms(3) by (auto simp: open_way_def)
    ultimately show ?thesis by (simp add: grm_def map_of_odel)
  qed
qed

lemma sh_d_done:
  assumes "sh_d fails m (abs_text s) = (None, m')" "plain_segs s" "no_links m s" "tree_ok m"
  shows "map_of m' q = (if q = s then Some GDir else map_of m q)" "way_there m s" "map_of m s = None \<or> map_of m s = Some GDir"
proof -
  have nl: "map_of m s \<noteq> Some (GLink t)" for t
    using assms(1) glstat_plain [OF assms(2,3,4)] by (auto simp: sh_d_def test_L_def split: if_splits option.splits)
  note st = gstat_plain [OF assms(2-4) nl]
  have "(map_of m' q = (if q = s then Some GDir else map_of m q)) \<and> way_there m s \<and> (map_of m s = None \<or> map_of m s = Some GDir)"
  proof (cases "map_of m s")
    case None
    with st assms(1) have "gloc m (abs_text s) = Some s" "m' = oput s GDir m"
      using gloc_plain [OF assms(2,3)] by (auto simp: sh_d_def test_d_def test_e_def split: option.splits if_splits)
    with None gloc_plain [OF assms(2,3)] show ?thesis by (auto split: if_splits)
  next
    case (Some n)
    with st assms(1) have "n = GDir" "m' = m" by (auto simp: sh_d_def test_d_def test_e_def split: gent.splits if_splits)
    with Some tree_ok_above [OF assms(4) Some] show ?thesis by simp
  qed
  then show "map_of m' q = (if q = s then Some GDir else map_of m q)" "way_there m s" "map_of m s = None \<or> map_of m s = Some GDir"
    by blast+
qed

lemma tree_ok_put:
  assumes "tree_ok m" "s \<noteq> []" "way_there m s" "n = GDir \<or> map_of m s \<noteq> Some GDir" "\<And>t. t \<in> T \<Longrightarrow> map_of m t \<noteq> Some GDir"
    and m': "\<And>q. map_of m' q = (if q = s then Some n else if q \<in> T then None else map_of m q)"
  shows "tree_ok m'"
  unfolding tree_ok_def
proof (intro allI impI conjI)
  fix q k
  assume q: "map_of m' q = Some k"
  show "q \<noteq> []" using q assms(1,2) m' by (auto simp: tree_ok_def split: if_splits)
  have dir: "butlast q = [] \<or> map_of m (butlast q) = Some GDir"
  proof (cases "q = s")
    case True
    have "strict_prefix (butlast s) s" using assms(2) by (metis append_butlast_last_id strict_prefix_snoc_iff prefix_order.refl)
    with True assms(3) show ?thesis by (auto simp: way_there_def)
  next
    case False
    with q m' have "map_of m q = Some k" by (simp split: if_splits)
    with assms(1) show ?thesis by (simp add: tree_ok_def)
  qed
  then show "butlast q = [] \<or> map_of m' (butlast q) = Some GDir" using assms(4,5) m' by (metis option.inject)
qed

lemma tree_ok_del:
  assumes "tree_ok m" "map_of m s \<noteq> Some GDir" and m': "\<And>q. map_of m' q = (if q = s then None else map_of m q)"
  shows "tree_ok m'"
  unfolding tree_ok_def
proof (intro allI impI)
  fix q n
  assume "map_of m' q = Some n"
  with m' have "map_of m q = Some n" by (simp split: if_splits)
  with assms(1) have "q \<noteq> [] \<and> (butlast q = [] \<or> map_of m (butlast q) = Some GDir)" by (simp add: tree_ok_def)
  with assms(2) m' show "q \<noteq> [] \<and> (butlast q = [] \<or> map_of m' (butlast q) = Some GDir)" by metis
qed

definition temp_free :: "fspath \<Rightarrow> bool" where
  "temp_free s \<longleftrightarrow> (\<forall>q. q \<noteq> [] \<longrightarrow> prefix q s \<longrightarrow> \<not> is_temp q)"

definition op_plain :: "fop \<Rightarrow> fspath \<Rightarrow> bool" where
  "op_plain oper s \<longleftrightarrow> op_path oper = abs_text s \<and> plain_segs s \<and> temp_free s"

fun op_result :: "fop \<Rightarrow> gent option" where
  "op_result (Place p c md ow ex) = Some (GFile c (uid ow) (gid ow) md)"
| "op_result (Remove p sha) = None"

lemma run_op_effect:
  assumes ok: "op_ok oper" "op_plain oper s" and m: "open_way m s" "tree_ok m"
    and r: "run_command G fails m (op_command (i, oper)) = ([show_nat i @ '' done''], x, m')"
  shows "tree_ok m'" "map_of m' s = op_result oper" "q \<noteq> s \<Longrightarrow> \<not> is_temp q \<Longrightarrow> map_of m' q = map_of m q"
proof -
  have s: "plain_segs s" "\<not> is_temp s" "s \<noteq> []" using ok(2) by (auto simp: op_plain_def temp_free_def plain_segs_def)
  have nd: "map_of m s \<noteq> Some GDir" using m(1) by (auto simp: open_way_def)
  have "tree_ok m' \<and> map_of m' s = op_result oper \<and> (\<forall>q. q \<noteq> s \<longrightarrow> \<not> is_temp q \<longrightarrow> map_of m' q = map_of m q)"
  proof (cases oper)
    case (Place p c md ow ex)
    with ok(2) have p: "p = abs_text s" by (simp add: op_plain_def)
    from r Place have "sh_w G fails m (show_nat i) p (temp_for p) (expect_arg ex) (mode_text md) (show_owner ow) (base64 c @ [nl])
        = (show_nat i @ '' done'', m')" by (auto simp: run_command.simps word_of_def split: prod.splits)
    moreover have "unat md < 512" using ok(1) Place by (simp add: op_ok_def)
    ultimately have w: "\<And>q. map_of m' q = (if q = s then Some (GFile c (uid ow) (gid ow) md) else if q \<in> {temp_segs s} then None else map_of m q)"
      "way_there m s" "map_of m (temp_segs s) \<noteq> Some GDir"
      using sh_w_done [OF _ _ s(1,2) m(1)] p by (auto split: if_splits)
    have "tree_ok m'" by (rule tree_ok_put [OF m(2) s(3) w(2) disjI2 [OF nd] _ w(1)]) (use w(3) in simp)
    with w(1) temp_for_abs(3) [OF s(1)] Place show ?thesis by auto
  next
    case (Remove p sha)
    with ok(2) have p: "p = abs_text s" by (simp add: op_plain_def)
    from r Remove have "sh_rmf G fails m (show_nat i) p sha = (show_nat i @ '' done'', m')"
      by (auto simp: run_command.simps split: prod.splits)
    then have w: "map_of m' q = (if q = s then None else map_of m q)" for q using sh_rmf_done [OF _ s(1) m] p by simp
    from tree_ok_del [OF m(2) nd w] w Remove show ?thesis by simp
  qed
  then show "tree_ok m'" "map_of m' s = op_result oper" "q \<noteq> s \<Longrightarrow> \<not> is_temp q \<Longrightarrow> map_of m' q = map_of m q" by blast+
qed

section \<open>Whole scripts in a quiet guest\<close>

definition quiet :: "guest \<Rightarrow> bool" where
  "quiet g \<longleftrightarrow> (\<forall>t m. g_meddle g t m = m)"

lemma quiet_simps [simp]:
  "quiet g \<Longrightarrow> seen_tree g = g_tree g" "quiet (after_command g m) = quiet g" "g_tree (after_command g m) = m"
  "quiet (g\<lparr>g_calls := n\<rparr>) = quiet g"
  by (simp_all add: quiet_def seen_tree_def after_command_def)

lemma open_way_kept:
  assumes "open_way m s" "temp_free s" "s \<noteq> []" "\<not> prefix s1 s" "\<And>q. q \<noteq> s1 \<Longrightarrow> \<not> is_temp q \<Longrightarrow> map_of m' q = map_of m q"
  shows "open_way m' s"
proof -
  have "map_of m' q = map_of m q" if "q \<noteq> []" "prefix q s" for q
    using that assms(2,4) by (intro assms(5)) (auto simp: temp_free_def)
  with assms(1,3) show ?thesis unfolding open_way_def by (metis prefix_order.order_refl prefix_order.less_imp_le)
qed

definition apart :: "fspath list \<Rightarrow> bool" where
  "apart ss \<longleftrightarrow> distinct ss \<and> (\<forall>a \<in> set ss. \<forall>b \<in> set ss. \<not> strict_prefix a b)"

lemma ops_run:
  assumes "run_commands G (map op_command (enumerate k ops)) g = ((map (\<lambda>i. show_nat i @ '' done'') [k..<k + length ops], x), g')"
    and "list_all op_ok ops" "list_all2 op_plain ops ss" "apart ss" "list_all (open_way (g_tree g)) ss" "tree_ok (g_tree g)" "quiet g"
  shows "tree_ok (g_tree g') \<and> quiet g' \<and> (\<forall>(oper, s) \<in> set (zip ops ss). map_of (g_tree g') s = op_result oper)
    \<and> (\<forall>q. q \<notin> set ss \<longrightarrow> \<not> is_temp q \<longrightarrow> map_of (g_tree g') q = map_of (g_tree g) q)"
  using assms
proof (induction ops arbitrary: k g x ss)
  case (Cons oper ops)
  then obtain s rest where ss: "ss = s # rest" and p: "op_plain oper s" "list_all2 op_plain ops rest" by (cases ss) auto
  obtain out y m where c: "run_command G (g_fails g (g_time g)) (seen_tree g) (op_command (k, oper)) = (out, y, m)"
    by (metis prod_cases3)
  from run_op_answer [OF c] obtain w where w: "y = None" "out = [show_nat k @ w]" by blast
  obtain outs2 y2 g2 where r: "run_commands G (map op_command (enumerate (Suc k) ops)) (after_command g m) = ((outs2, y2), g2)"
    by (metis prod_cases3 prod.collapse)
  have upt: "[k..<k + length (oper # ops)] = k # [Suc k..<Suc k + length ops]" by (simp add: upt_conv_Cons del: upt_Suc)
  have e: "show_nat k @ w = show_nat k @ '' done''" "outs2 = map (\<lambda>i. show_nat i @ '' done'') [Suc k..<Suc k + length ops]" "g' = g2"
    using Cons.prems(1) [unfolded upt] c w r by (auto simp del: upt_Suc)
  have c': "run_command G (g_fails g (g_time g)) (g_tree g) (op_command (k, oper)) = ([show_nat k @ '' done''], y, m)"
    using c w e(1) Cons.prems(7) by simp
  have ok: "op_ok oper" "open_way (g_tree g) s" using Cons.prems(2,5) ss by simp_all
  note eff = run_op_effect [OF ok(1) p(1) ok(2) Cons.prems(6) c']
  have rest: "plain_segs b \<and> temp_free b" if "b \<in> set rest" for b
    using p(2) that by (auto simp: list_all2_conv_all_nth in_set_conv_nth op_plain_def)
  have ap: "\<not> prefix s b" if "b \<in> set rest" for b
    using Cons.prems(4) that unfolding ss apart_def by (auto simp: prefix_order.le_less)
  have "open_way m b" if b: "b \<in> set rest" for b
  proof (rule open_way_kept [of "g_tree g" b s])
    show "open_way (g_tree g) b" using Cons.prems(5) b by (simp add: ss list_all_iff)
    show "temp_free b" "b \<noteq> []" using rest [OF b] by (simp_all add: plain_segs_def)
  qed (use ap [OF b] eff(3) in auto)
  moreover have "apart rest" using Cons.prems(4) ss by (simp add: apart_def)
  ultimately have ih: "tree_ok (g_tree g') \<and> quiet g' \<and> (\<forall>(oper, s) \<in> set (zip ops rest). map_of (g_tree g') s = op_result oper)
    \<and> (\<forall>q. q \<notin> set rest \<longrightarrow> \<not> is_temp q \<longrightarrow> map_of (g_tree g') q = map_of m q)"
    using Cons.IH [of "Suc k" "after_command g m" y2 rest] r e(2,3) p(2) eff(1) Cons.prems(2,7) by (simp add: list_all_iff del: upt_Suc)
  have sn: "s \<notin> set rest" "\<not> is_temp s" using Cons.prems(4) p(1) ss by (auto simp: apart_def op_plain_def temp_free_def plain_segs_def)
  show ?case using ih sn eff(2,3) unfolding ss by auto
qed simp

lemma dirs_run:
  assumes "run_commands G (map dir_command (map abs_text dss) @ cs) g = ((outs, None), g')"
    and "list_all plain_segs dss" "list_all (no_links (g_tree g)) dss" "tree_ok (g_tree g)" "quiet g"
  shows "\<exists>h. run_commands G cs h = ((outs, None), g') \<and> tree_ok (g_tree h) \<and> quiet h
    \<and> (\<forall>q. map_of (g_tree h) q = (if q \<in> set dss then Some GDir else map_of (g_tree g) q))"
  using assms
proof (induction dss arbitrary: g)
  case (Cons s dss)
  obtain y m where d: "sh_d (g_fails g (g_time g)) (g_tree g) (abs_text s) = (y, m)" by fastforce
  with Cons.prems(5) have c: "run_command G (g_fails g (g_time g)) (seen_tree g) (dir_command (abs_text s)) = ([], y, m)"
    by (simp add: dir_command_def run_command.simps)
  with Cons.prems(1) have y: "y = None" and r: "run_commands G (map dir_command (map abs_text dss) @ cs) (after_command g m) = ((outs, None), g')"
    by (auto split: prod.splits option.splits)
  have s: "plain_segs s" "no_links (g_tree g) s" using Cons.prems(2,3) by simp_all
  note eff = sh_d_done [OF d [unfolded y] s Cons.prems(4)]
  have "no_links m b" if "no_links (g_tree g) b" for b using that eff(1) by (simp add: no_links_def)
  moreover have "tree_ok m"
    by (rule tree_ok_put [OF Cons.prems(4) _ eff(2), of GDir "{}"]) (use s(1) eff(1) in \<open>auto simp: plain_segs_def\<close>)
  ultimately obtain h where h: "run_commands G cs h = ((outs, None), g')" "tree_ok (g_tree h)" "quiet h"
    "\<And>q. map_of (g_tree h) q = (if q \<in> set dss then Some GDir else map_of m q)"
    using Cons.IH [OF r] Cons.prems(2,3,5) by (auto simp: list_all_iff)
  then show ?case using eff(1) by (intro exI [of _ h]) auto
qed auto

text \<open>A commit that was done in all its parts.\<close>

lemma commit_done:
  assumes c: "pct_commit G v (map abs_text dss) ops g = (Inr os, g')" "list_all (\<lambda>x. x = Done) os"
    and ok: "list_all op_ok ops" "list_all shell_safe (map abs_text dss)"
    and p: "list_all plain_segs dss" "list_all2 op_plain ops ss" "apart ss" "set dss \<inter> set ss = {}"
    and m: "list_all (no_links (g_tree g)) dss" "list_all (open_way (g_tree g)) ss" "tree_ok (g_tree g)" "quiet g"
  shows "tree_ok (g_tree g')" "quiet g'" "\<And>oper s. (oper, s) \<in> set (zip ops ss) \<Longrightarrow> map_of (g_tree g') s = op_result oper"
    "\<And>s. s \<in> set dss \<Longrightarrow> \<not> is_temp s \<Longrightarrow> map_of (g_tree g') s = Some GDir"
    "\<And>q. q \<notin> set ss \<Longrightarrow> q \<notin> set dss \<Longrightarrow> \<not> is_temp q \<Longrightarrow> map_of (g_tree g') q = map_of (g_tree g) q"
proof -
  let ?g = "g\<lparr>g_calls := g_calls g + 1\<rparr>"
  obtain outs where r: "run_commands G (map dir_command (map abs_text dss) @ map op_command (enumerate 0 ops)) ?g = ((outs, None), g')"
    and len: "length os = length ops" "length outs = length ops"
    and said: "\<And>i. i < length ops \<Longrightarrow> os ! i = Done \<Longrightarrow> outs ! i = show_nat i @ '' done''"
    using pct_commit_runs [OF ok c(1)] by metis
  have outs: "outs = map (\<lambda>i. show_nat i @ '' done'') [0..<0 + length ops]"
    using len said c(2) by (intro nth_equalityI) (auto simp: list_all_length)
  have m': "list_all (no_links (g_tree ?g)) dss" "tree_ok (g_tree ?g)" "quiet ?g" using m by simp_all
  from dirs_run [OF r p(1) m'] obtain h where h: "run_commands G (map op_command (enumerate 0 ops)) h = ((outs, None), g')"
    "tree_ok (g_tree h)" "quiet h" "\<And>q. map_of (g_tree h) q = (if q \<in> set dss then Some GDir else map_of (g_tree g) q)" by auto
  have "open_way (g_tree h) s" if "s \<in> set ss" for s
  proof -
    have "open_way (g_tree g) s" "s \<notin> set dss" using m(2) p(4) that by (auto simp: list_all_iff)
    then show ?thesis using h(4) by (auto simp: open_way_def)
  qed
  then have "list_all (open_way (g_tree h)) ss" by (simp add: list_all_iff)
  from ops_run [OF h(1) [unfolded outs] ok(1) p(2,3) this h(2,3)]
  have e: "tree_ok (g_tree g')" "quiet g'" "\<forall>(oper, s) \<in> set (zip ops ss). map_of (g_tree g') s = op_result oper"
    "\<forall>q. q \<notin> set ss \<longrightarrow> \<not> is_temp q \<longrightarrow> map_of (g_tree g') q = map_of (g_tree h) q" by blast+
  show "tree_ok (g_tree g')" "quiet g'" by (fact e)+
  show "map_of (g_tree g') s = op_result oper" if "(oper, s) \<in> set (zip ops ss)" for oper s using e(3) that by auto
  show "map_of (g_tree g') s = Some GDir" if "s \<in> set dss" "\<not> is_temp s" for s using e(4) h(4) that p(4) by auto
  show "map_of (g_tree g') q = map_of (g_tree g) q" if "q \<notin> set ss" "q \<notin> set dss" "\<not> is_temp q" for q
    using e(4) h(4) that by auto
qed

section \<open>Reading and probing a quiet guest\<close>

definition same_guest :: "guest \<Rightarrow> guest \<Rightarrow> bool" where
  "same_guest g g' \<longleftrightarrow> g_tree g' = g_tree g \<and> quiet g'"

definition content_at :: "gtree \<Rightarrow> fspath \<Rightarrow> string option" where
  "content_at m s = (case map_of m s of Some (GFile c _ _ _) \<Rightarrow> Some c | _ \<Rightarrow> None)"

lemma read_quiet:
  assumes "pct_read G v (abs_text s) mx g = (Inr b, g')" "quiet g" "tree_ok (g_tree g)" "open_way (g_tree g) s" "plain_segs s"
  shows "same_guest g g'" "b = content_at (g_tree g) s"
proof -
  let ?m = "g_tree g" and ?g = "g\<lparr>g_calls := g_calls g + 1\<rparr>"
  have nl: "map_of ?m s \<noteq> Some (GLink t)" for t using assms(4) by (auto simp: open_way_def)
  note st = gstat_plain [OF assms(5) open_way_no_links [OF assms(4)] assms(3) nl]
  have bytes: "file_bytes ?m (abs_text s) = content_at ?m s"
    using st(1) by (cases "map_of ?m s") (auto simp: file_bytes_def content_at_def split: gent.splits)
  obtain out where x: "pct_exec G (ReadScript (abs_text s) (mx + 1)) g = (Inr out, g')"
    and b: "out_status out = 0 \<and> length (out_stdout out) \<le> mx \<and> b = Some (out_stdout out) \<or> out_status out = 3 \<and> b = None"
    using assms(1) by (auto simp: pct_read_def then_do_Inr split: if_splits)
  have f: "g_fate g (g_calls g) = Runs" using x b by (auto simp: pct_exec_def Let_def split: fate.splits)
  from x f assms(2) have o: "g' = after_command ?g ?m"
    "out_status out = (case content_at ?m s of None \<Rightarrow> 3 | Some c \<Rightarrow> 0)"
    "out_stdout out = (case content_at ?m s of None \<Rightarrow> [] | Some c \<Rightarrow> take (mx + 1) c)"
    using st(2) bytes by (auto simp: pct_exec_def Let_def split: if_splits option.splits)
  show "same_guest g g'" using o(1) assms(2) by (simp add: same_guest_def)
  show "b = content_at ?m s" using b o(2,3) by (cases "content_at ?m s") auto
qed

text \<open>The node a probe finds.\<close>

definition node_in :: "gf_libs \<Rightarrow> gtree \<Rightarrow> string \<Rightarrow> gnode" where
  "node_in G m p =
     (if test_L m p then NSymlink
      else case gstat m p of
             None \<Rightarrow> NMissing
           | Some (_, GDir) \<Rightarrow> NDir
           | Some (_, GFile c u g md) \<Rightarrow> NFile u g md (gf_sha G c)
           | Some _ \<Rightarrow> NOther)"

definition probe_line :: "gf_libs \<Rightarrow> gtree \<Rightarrow> string \<Rightarrow> string" where
  "probe_line G m p =
     (case node_in G m p of
        NSymlink \<Rightarrow> ''L'' | NMissing \<Rightarrow> ''M'' | NDir \<Rightarrow> ''D'' | NOther \<Rightarrow> ''O''
      | NFile u g md sha \<Rightarrow> ''F '' @ show_nat (unat u) @ '' '' @ show_nat (unat g) @ '' '' @ show_octal (unat md) @ '' '' @ sha)"

lemma sh_p_line: "sh_p G fails m p = (out, x) \<Longrightarrow> x = None \<Longrightarrow> out = [probe_line G m p]"
  by (auto simp: sh_p_def probe_line_def node_in_def split: if_splits option.splits prod.splits gent.splits)

lemma probes_run:
  "run_commands G (map probe_command ps) g = ((outs, None), g') \<Longrightarrow> quiet g \<Longrightarrow>
    outs = map (probe_line G (g_tree g)) ps \<and> same_guest g g'"
proof (induction ps arbitrary: g outs)
  case (Cons p ps)
  obtain out x where o: "sh_p G (g_fails g (g_time g)) (g_tree g) p = (out, x)" by fastforce
  with Cons.prems(2) have c: "run_command G (g_fails g (g_time g)) (seen_tree g) (probe_command p) = (out, x, g_tree g)"
    by (simp add: probe_command_def run_command.simps)
  have x: "x = None" using Cons.prems(1) c by (cases x) auto
  obtain outs2 where r: "run_commands G (map probe_command ps) (after_command g (g_tree g)) = ((outs2, None), g')" "outs = out @ outs2"
    using Cons.prems(1) c x by (auto split: prod.splits)
  from Cons.IH [OF r(1)] Cons.prems(2) have "outs2 = map (probe_line G (g_tree g)) ps" "same_guest g g'"
    by (simp_all add: same_guest_def)
  with r(2) sh_p_line [OF o x] show ?case by simp
qed (simp add: same_guest_def)

text \<open>What a digest looks like: lower case hexadecimal digits.\<close>

definition sha_hex :: "gf_libs \<Rightarrow> bool" where
  "sha_hex G \<longleftrightarrow> (\<forall>c. list_all is_hex (gf_sha G c) \<and> map to_lower (gf_sha G c) = gf_sha G c)"

lemma node_in_sha: "node_in G m p = NFile u g md sha \<Longrightarrow> \<exists>c. sha = gf_sha G c"
  by (auto simp: node_in_def split: if_splits option.splits prod.splits gent.splits)

lemma parse_show_octal: "parse_octal (show_octal (unat md)) = Some md"
proof -
  have "show_octal (unat md) \<noteq> []" by (subst show_octal.simps) simp
  moreover have "CHR ''+'' \<notin> set (show_octal (unat md))"
    using show_octal_octal [of "unat md"] by (auto simp: list_all_iff is_octal_def)
  moreover have "unat md < 2 ^ 32" using unsigned_less [of md, where 'a = nat] by simp
  ultimately have "(case show_octal (unat md) of c # cs \<Rightarrow> if c = CHR ''+'' then cs else show_octal (unat md) | [] \<Rightarrow> []) = show_octal (unat md)"
    "show_octal (unat md) \<noteq> []" "octal_value (show_octal (unat md)) < 2 ^ 32"
    by (auto simp: octal_value_show split: list.splits)
  then show ?thesis using show_octal_octal [of "unat md"] by (simp add: parse_octal_def Let_def octal_value_show)
qed

text \<open>A line is read back as the node it was printed for.\<close>

lemma probe_line_plain:
  assumes "sha_hex G"
  shows "nl \<notin> set (probe_line G m p) \<and> probe_line G m p \<noteq> [] \<and> last (probe_line G m p) \<noteq> CHR 0x0D"
proof -
  have hex: "c \<noteq> nl \<and> c \<noteq> CHR 0x0D \<and> c \<noteq> CHR '' ''" if "is_hex c" for c
    using that by (auto simp: is_hex_def is_digit_def)
  have dig: "nl \<notin> set (show_nat n)" "nl \<notin> set (show_octal n)" for n
    using show_nat_digits [of n] show_octal_octal [of n] by (auto simp: list_all_iff is_digit_def is_octal_def)
  show ?thesis
  proof (cases "node_in G m p")
    case (NFile u g md sha)
    obtain c where "sha = gf_sha G c" using node_in_sha [OF NFile] by blast
    then have "\<forall>x \<in> set sha. is_hex x" using assms by (simp add: sha_hex_def list_all_iff)
    then have sha: "nl \<notin> set sha" "sha = [] \<or> last sha \<noteq> CHR 0x0D" using hex last_in_set by blast+
    with dig NFile show ?thesis by (auto simp: probe_line_def)
  qed (simp_all add: probe_line_def)
qed

lemma line_split:
  assumes "CHR '' '' \<notin> set a" "CHR '' '' \<notin> set b" "CHR '' '' \<notin> set c" "CHR '' '' \<notin> set d"
  shows "split_on CHR '' '' (join '' '' [''F'', a, b, c, d]) = [''F'', a, b, c, d]"
  using assms by (intro split_on_join) auto

lemma parse_probe_line:
  assumes "sha_hex G" "parse_node_line G q (probe_line G m p) = Inr n"
  shows "n = node_in G m p"
proof (cases "node_in G m p")
  case (NFile u g md sha)
  obtain c where c: "sha = gf_sha G c" using node_in_sha [OF NFile] by blast
  have "\<not> is_hex (CHR '' '')" by (simp add: is_hex_def is_digit_def)
  then have "CHR '' '' \<notin> set sha" using assms(1) c by (auto simp: sha_hex_def list_all_iff)
  moreover have "CHR '' '' \<notin> set (show_nat i)" "CHR '' '' \<notin> set (show_octal i)" for i
    using show_nat_digits [of i] show_octal_octal [of i] by (auto simp: list_all_iff is_digit_def is_octal_def)
  moreover have "probe_line G m p = join '' '' [''F'', show_nat (unat u), show_nat (unat g), show_octal (unat md), sha]"
    using NFile by (simp add: probe_line_def)
  ultimately have "split_on CHR '' '' (probe_line G m p) = [''F'', show_nat (unat u), show_nat (unat g), show_octal (unat md), sha]"
    by (metis (no_types, lifting) line_split)
  moreover have "map to_lower sha = sha" using assms(1) c by (simp add: sha_hex_def)
  ultimately show ?thesis using assms(2) NFile parse_show_vmid [unfolded show_vmid_def]
    by (auto simp: parse_node_line_def parse_show_octal probe_num_def ok_or_def andthen_eq_Inr split: if_splits)
qed (use assms(2) in \<open>auto simp: probe_line_def parse_node_line_def split_on_def\<close>)

lemma bmap_of_fun: "map_of (bmap_of (map (\<lambda>p. (p, h p)) ps)) p = (if p \<in> set ps then Some (h p) else None)"
proof -
  have "map_of (foldl (\<lambda>m (k, v). bput k v m) m0 (map (\<lambda>p. (p, h p)) ps)) p = (if p \<in> set ps then Some (h p) else map_of m0 p)" for m0
    by (induction ps arbitrary: m0) auto
  then show ?thesis by (simp add: bmap_of_def)
qed

lemma probe_quiet:
  assumes "pct_probe G v ps g = (Inr pb, g')" "list_all shell_safe ps" "quiet g" "sha_hex G"
  shows "same_guest g g'" "map_of pb p = (if p \<in> set ps then Some (node_in G (g_tree g) p) else None)"
proof -
  obtain body where b: "probe_script ps = ProbeScript body" by (simp add: probe_script_def)
  have cs: "sh_commands body = Some (map probe_command ps)" by (rule probe_script_commands [OF assms(2) b])
  from assms(1) obtain out where e: "exec_ok G v ''probe'' (probe_script ps) g = (Inr out, g')"
    and p: "parse_probe G ps (out_stdout out) = Inr pb" by (auto simp: pct_probe_def then_do_Inr)
  from e have x: "pct_exec G (ProbeScript body) g = (Inr out, g')" "out_status out = 0"
    by (auto simp: exec_ok_def then_do_Inr andthen_eq_Inr b)
  let ?g = "g\<lparr>g_calls := g_calls g + 1\<rparr>"
  from x have "run_text G None body ?g = ((out_stdout out, 0), g')"
    by (auto simp: pct_exec_def Let_def split: fate.splits prod.splits if_splits)
  then obtain outs y where r: "run_commands G (map probe_command ps) ?g = ((outs, y), g')"
    and o: "out_stdout out = out_lines outs" "unwrap_or 0 y = 0" by (auto simp: run_text_def cs split: prod.splits)
  have y: "y = None" using o(2) r by (cases y) (auto dest: run_commands_exit simp: unwrap_or_def)
  have outs: "outs = map (probe_line G (g_tree g)) ps" "same_guest g g'"
    using probes_run [OF r [unfolded y]] assms(3) by (simp_all add: same_guest_def)
  then show "same_guest g g'" by simp
  have lines: "str_lines (out_stdout out) = outs"
    unfolding o(1) using probe_line_plain [OF assms(4)] outs(1) by (intro str_lines_out_lines) auto
  obtain kvs where k: "pb = bmap_of kvs" "list_all2 (\<lambda>x y. \<exists>n. parse_node_line G (fst x) (snd x) = Inr n \<and> (fst x, n) = y) (zip ps outs) kvs"
    using p lines by (auto simp: parse_probe_def stdout_text_def Let_def andthen_eq_Inr map_res_Inr split_def split: option.splits)
  have "kvs = map (\<lambda>p. (p, node_in G (g_tree g) p)) ps"
    using k(2) parse_probe_line [OF assms(4)] unfolding outs(1)
    by (intro nth_equalityI) (fastforce simp: list_all2_conv_all_nth)+
  with k(1) show "map_of pb p = (if p \<in> set ps then Some (node_in G (g_tree g) p) else None)" by (simp add: bmap_of_fun)
qed

text \<open>On an open way a probe finds what the tree has.\<close>

fun node_kind :: "gf_libs \<Rightarrow> gent option \<Rightarrow> gnode" where
  "node_kind G None = NMissing"
| "node_kind G (Some GDir) = NDir"
| "node_kind G (Some (GFile c u g md)) = NFile u g md (gf_sha G c)"
| "node_kind G (Some (GLink t)) = NSymlink"
| "node_kind G (Some GOther) = NOther"

definition on_way :: "gtree \<Rightarrow> fspath \<Rightarrow> bool" where
  "on_way m s \<longleftrightarrow> plain_segs s \<and> temp_free s \<and> no_links m s \<and> (\<forall>t. map_of m s \<noteq> Some (GLink t)) \<and> s \<noteq> manifest_segs"

lemma node_on_way:
  assumes "on_way m s" "tree_ok m"
  shows "node_in G m (abs_text s) = node_kind G (map_of m s)"
proof -
  have s: "plain_segs s" "no_links m s" and nl: "\<And>t. map_of m s \<noteq> Some (GLink t)" using assms(1) by (auto simp: on_way_def)
  show ?thesis using gstat_plain [OF s assms(2) nl] nl
    by (cases "map_of m s") (auto simp: node_in_def split: gent.splits)
qed

end
