(* ===== verification/Gf_Open.thy ===== *)
theory Gf_Open
  imports Gf_Quiet
begin

text \<open>
  A sync of a guest nobody else touches and whose ways to the files are open (plan.rs, guest.rs and pct.rs
  together): the paths of a plan do not get in each other's way, and a sync that reports all it set out to do as
  done has made the tree the one the plan is for.
\<close>

section \<open>The paths of a sync\<close>

lemma prefix_of_plain: "plain_segs s \<Longrightarrow> q \<noteq> [] \<Longrightarrow> prefix q s \<Longrightarrow> plain_segs q"
  by (auto simp: plain_segs_def slash_free_def prefix_def)

lemma temp_free_prefix: "temp_free s \<Longrightarrow> prefix q s \<Longrightarrow> temp_free q"
  unfolding temp_free_def by (meson prefix_order.trans)

lemma valid_gp_plain:
  assumes "valid_gp p"
  shows "plain_segs (gp_segs p)" "temp_free (gp_segs p)" "gp_str p = abs_text (gp_segs p)"
    "\<not> prefix manifest_segs (gp_segs p)" "\<not> prefix (gp_segs p) manifest_segs"
proof -
  have ok: "gp_segs p \<noteq> []" "\<forall>s \<in> set (gp_segs p). seg_ok s" using assms by (auto simp: valid_gp_def segs_ok_def list_all_iff)
  have "CHR ''/'' \<notin> set s" if "seg_ok s" for s
    using that by (auto simp: seg_ok_def seg_byte_def segment_byte_def list_all_iff is_alnum_def ascii_class_defs)
  then show "plain_segs (gp_segs p)" using ok by (auto simp: plain_segs_def slash_free_def seg_ok_def)
  have "\<not> is_temp q" if "q \<noteq> []" "prefix q (gp_segs p)" for q
  proof -
    have "last q \<in> set (gp_segs p)" using that set_mono_prefix by fastforce
    with ok show ?thesis by (auto simp: is_temp_def seg_ok_def)
  qed
  then show "temp_free (gp_segs p)" by (simp add: temp_free_def)
  show "gp_str p = abs_text (gp_segs p)" "\<not> prefix manifest_segs (gp_segs p)" "\<not> prefix (gp_segs p) manifest_segs"
    using assms by (auto simp: valid_gp_def segs_ok_def)
qed

lemma manifest_plain: "plain_segs manifest_segs" "temp_free manifest_segs" "manifest_path = abs_text manifest_segs"
proof -
  show "plain_segs manifest_segs" by (simp add: plain_segs_def manifest_segs_def)
  show "manifest_path = abs_text manifest_segs" by (rule manifest_path_segs)
  have t: "list_all (\<lambda>s. \<not> sublist temp_mark s) manifest_segs" by code_simp
  have "\<not> is_temp q" if "q \<noteq> []" "prefix q manifest_segs" for q
  proof -
    have "last q \<in> set manifest_segs" using that set_mono_prefix by fastforce
    with t show ?thesis by (auto simp: is_temp_def list_all_iff)
  qed
  then show "temp_free manifest_segs" by (simp add: temp_free_def)
qed

definition ways_open :: "gtree \<Rightarrow> guest_files \<Rightarrow> manifest \<Rightarrow> bool" where
  "ways_open m f old \<longleftrightarrow> open_way m manifest_segs \<and> (\<forall>p. looked_at f old p \<longrightarrow> open_way m (gp_segs p))"

lemma on_way_above:
  assumes "open_way m s" "plain_segs s" "temp_free s" "\<not> prefix manifest_segs s \<or> s = manifest_segs" "q \<noteq> []" "strict_prefix q s"
  shows "on_way m q"
proof -
  have "prefix q s" using assms(6) by (rule prefix_order.less_imp_le)
  moreover have "no_links m q" using open_way_no_links [OF assms(1)] assms(6) unfolding no_links_def
    by (meson prefix_order.less_trans)
  moreover have "map_of m q \<noteq> Some (GLink t)" for t using assms(1,5,6) by (auto simp: open_way_def)
  moreover have "q \<noteq> manifest_segs" using assms(4,6) prefix_order.less_imp_le by auto
  ultimately show ?thesis using prefix_of_plain [OF assms(2,5)] temp_free_prefix [OF assms(3)] by (simp add: on_way_def)
qed

lemma open_on_way: "open_way m s \<Longrightarrow> plain_segs s \<Longrightarrow> temp_free s \<Longrightarrow> s \<noteq> manifest_segs \<Longrightarrow> on_way m s"
  using open_way_no_links by (auto simp: on_way_def open_way_def)

lemma looked_valid: "wf_files G f \<Longrightarrow> wf_manifest old \<Longrightarrow> looked_at f old p \<Longrightarrow> valid_gp p"
  by (auto simp: looked_at_def wf_files_def wf_desired_def list_all_iff wf_manifest_def wf_record_def)

lemma looked_on_way:
  assumes "wf_files G f" "wf_manifest old" "ways_open m f old" "looked_at f old p"
  shows "on_way m (gp_segs p)" "open_way m (gp_segs p)" "\<And>q. q \<noteq> [] \<Longrightarrow> strict_prefix q (gp_segs p) \<Longrightarrow> on_way m q"
proof -
  note v = valid_gp_plain [OF looked_valid [OF assms(1,2,4)]]
  show o: "open_way m (gp_segs p)" using assms(3,4) by (simp add: ways_open_def)
  show "on_way m (gp_segs p)" using open_on_way [OF o v(1,2)] v(4) by auto
  show "on_way m q" if "q \<noteq> []" "strict_prefix q (gp_segs p)" for q using on_way_above [OF o v(1,2)] v(4) that by auto
qed

lemma probe_path_way:
  assumes "wf_files G f" "wf_manifest old" "ways_open m f old" "x \<in> set (probe_paths f old)"
  shows "\<exists>s. x = abs_text s \<and> on_way m s"
proof -
  have o: "open_way m manifest_segs" using assms(3) by (simp add: ways_open_def)
  have "strict_prefix [''etc''] manifest_segs" "strict_prefix [''etc'', ''pve-meta''] manifest_segs" by (auto simp: manifest_segs_def)
  then have md: "on_way m [''etc'']" "on_way m [''etc'', ''pve-meta'']" using on_way_above [OF o manifest_plain(1,2)] by auto
  from assms(4) consider "x = ''/etc''" | "x = guest_root" | p where "looked_at f old p" "x \<in> set (directories p) \<union> {gp_str p}"
    by (auto simp: probe_paths_def manifest_directories_def looked_at_def files_paths_wanted)
  then show ?thesis
  proof cases
    case 1
    with md(1) show ?thesis by (intro exI [of _ "[''etc'']"]) simp
  next
    case 2
    with md(2) show ?thesis by (intro exI [of _ "[''etc'', ''pve-meta'']"]) (simp add: guest_root_def)
  next
    case 3
    note v = looked_valid [OF assms(1,2) 3(1)]
    note w = looked_on_way [OF assms(1-3) 3(1)]
    from 3(2) directories_segs [OF v] valid_gp_plain(3) [OF v] w show ?thesis by blast
  qed
qed

section \<open>The probe of an open guest\<close>

definition sees :: "gf_libs \<Rightarrow> gtree \<Rightarrow> string list \<Rightarrow> probe \<Rightarrow> bool" where
  "sees G m ps pb \<longleftrightarrow> (\<forall>p \<in> set ps. map_of pb p = Some (node_in G m p))"

lemma sees_node: "sees G m ps pb \<Longrightarrow> tree_ok m \<Longrightarrow> abs_text s \<in> set ps \<Longrightarrow> on_way m s \<Longrightarrow> node_of pb (abs_text s) = node_kind G (map_of m s)"
  by (simp add: sees_def node_of_def node_on_way)

lemma node_kind_missing: "node_kind G x = NMissing \<longleftrightarrow> x = None"
  by (cases "(G, x)" rule: node_kind.cases) auto

lemma on_way_slash_free: "on_way m s \<Longrightarrow> slash_free s"
  by (simp add: on_way_def plain_segs_def)

lemma sees_coherent:
  assumes "wf_files G f" "wf_manifest old" "ways_open m f old" "tree_ok m" "sees G m (probe_paths f old) pb"
  shows "coherent (probe_paths f old) pb"
  unfolding coherent_def
proof (intro allI impI)
  fix d x
  assume a: "d \<in> set (probe_paths f old) \<and> d @ CHR ''/'' # x \<in> set (probe_paths f old) \<and> node_of pb d = NMissing"
  obtain s where s: "d = abs_text s" "on_way m s" using probe_path_way [OF assms(1-3)] a by blast
  obtain b where b: "d @ CHR ''/'' # x = abs_text b" "on_way m b" using probe_path_way [OF assms(1-3)] a by blast
  have "is_under (abs_text s) (abs_text b)" using s(1) b(1) by (metis is_under_append)
  then have "strict_prefix s b" using is_under_segs on_way_slash_free s(2) b(2) by metis
  moreover have "map_of m s = None" using a sees_node [OF assms(5,4) _ s(2)] s(1) node_kind_missing by metis
  moreover have "s \<noteq> []" using s(2) by (auto simp: on_way_def plain_segs_def)
  ultimately have "map_of m b = None" using tree_ok_above [OF assms(4), of b] by (fastforce simp: way_there_def)
  then show "node_of pb (d @ CHR ''/'' # x) = NMissing" using sees_node [OF assms(5,4) _ b(2)] a b(1) by (simp add: node_kind_missing)
qed

lemma sees_safe:
  assumes "wf_files G f" "wf_manifest old" "ways_open m f old" "tree_ok m" "sees G m (probe_paths f old) pb"
  shows "all_safe f old pb"
proof -
  have "assess p pb \<noteq> FUnsafe why" if l: "looked_at f old p" for p why
  proof -
    note v = looked_valid [OF assms(1,2) l]
    note w = looked_on_way [OF assms(1-3) l]
    have dirs: "node_of pb x = NMissing \<or> node_of pb x = NDir" if x: "x \<in> set (directories p)" for x
    proof -
      obtain q where q: "x = abs_text q" "q \<noteq> []" "strict_prefix q (gp_segs p)" using x unfolding directories_segs [OF v] by blast
      have "map_of m q = None \<or> map_of m q = Some GDir" using w(2) q by (simp add: open_way_def)
      moreover have "x \<in> set (probe_paths f old)" using in_probe_paths [OF l] x by blast
      ultimately show ?thesis using sees_node [OF assms(5,4) _ w(3) [OF q(2,3)]] q(1) by auto
    qed
    have "node_of pb (gp_str p) = NMissing \<or> (\<exists>u g md sha. node_of pb (gp_str p) = NFile u g md sha)"
    proof -
      have "gp_str p \<in> set (probe_paths f old)" using in_probe_paths [OF l] by blast
      then have "node_of pb (gp_str p) = node_kind G (map_of m (gp_segs p))"
        using sees_node [OF assms(5,4) _ w(1)] valid_gp_plain(3) [OF v] by simp
      with w(2) show ?thesis by (cases "map_of m (gp_segs p)") (auto simp: open_way_def)
    qed
    moreover have "assess_dirs pb ds = None \<or> assess_dirs pb ds = Some FMissing" if "set ds \<subseteq> set (directories p)" for ds
      using that dirs by (induction ds) fastforce+
    then have "assess_dirs pb (directories p) = None \<or> assess_dirs pb (directories p) = Some FMissing" by blast
    ultimately show ?thesis by (auto simp: assess_def)
  qed
  then show ?thesis by (auto simp: all_safe_def looked_at_def)
qed

lemma sees_root:
  assumes o: "open_way m manifest_segs" and "tree_ok m" "sees G m (probe_paths f old) pb"
  shows "root_problem pb = None"
proof -
  have "strict_prefix [''etc''] manifest_segs" "strict_prefix [''etc'', ''pve-meta''] manifest_segs" by (auto simp: manifest_segs_def)
  then have sp: "s \<noteq> [] \<and> strict_prefix s manifest_segs" if "s \<in> {[''etc''], [''etc'', ''pve-meta'']}" for s using that by blast
  have w: "on_way m s" "map_of m s = None \<or> map_of m s = Some GDir" if "s \<in> {[''etc''], [''etc'', ''pve-meta'']}" for s
    using on_way_above [OF o manifest_plain(1,2)] o sp [OF that] unfolding open_way_def by blast+
  have "abs_text s \<in> set (probe_paths f old)" if "s \<in> {[''etc''], [''etc'', ''pve-meta'']}" for s
    using that by (auto simp: probe_paths_def manifest_directories_def guest_root_def)
  then have "node_of pb (abs_text s) = NMissing \<or> node_of pb (abs_text s) = NDir" if s: "s \<in> {[''etc''], [''etc'', ''pve-meta'']}" for s
    using sees_node [OF assms(3,2) _ w(1) [OF s]] w(2) [OF s] s by (metis node_kind.simps(1,2))
  from this [of "[''etc'']"] this [of "[''etc'', ''pve-meta'']"] show ?thesis
    by (auto simp: root_problem_def manifest_directories_def guest_root_def)
qed

section \<open>The plan of an open guest\<close>

definition open_round :: "gf_libs \<Rightarrow> gtree \<Rightarrow> guest_files \<Rightarrow> manifest \<Rightarrow> probe \<Rightarrow> bool" where
  "open_round G m f old pb \<longleftrightarrow> wf_files G f \<and> wf_manifest old \<and> ways_open m f old \<and> tree_ok m
     \<and> sees G m (probe_paths f old) pb \<and> hold_reason f pb = None"

lemma open_round_parts:
  assumes "open_round G m f old pb"
  shows "wf_files G f" "wf_manifest old" "ways_open m f old" "tree_ok m" "sees G m (probe_paths f old) pb" "hold_reason f pb = None"
  using assms by (simp_all add: open_round_def)

definition op_at :: "fop \<Rightarrow> fspath" where
  "op_at oper = fspath_of (op_path oper)"

lemma op_looked:
  assumes r: "open_round G m f old pb" and o: "oper \<in> set (pl_ops (plan_sync f old pb force))"
  obtains q where "looked_at f old q" "op_path oper = gp_str q" "op_at oper = gp_segs q" "op_plain oper (gp_segs q)"
    "q \<in> set (map de_path (wanted_files f)) \<or> (\<exists>c u g b. map_of m (gp_segs q) = Some (GFile c u g b))"
proof -
  note R = open_round_parts [OF r]
  obtain q where q: "looked_at f old q" "op_path oper = gp_str q"
    "q \<in> set (map de_path (wanted_files f)) \<or> (\<exists>sha md ow. assess q pb = FPresent sha md ow)"
    using plan_op_cases [OF o R(2)] by (fastforce simp: looked_at_def remove_ok_def dest: map_of_SomeD)
  note v = valid_gp_plain [OF looked_valid [OF R(1,2) q(1)]]
  have "\<exists>c u g b. map_of m (gp_segs q) = Some (GFile c u g b)" if a: "assess q pb = FPresent sha md ow" for sha md ow
  proof -
    have "gp_str q \<in> set (probe_paths f old)" using in_probe_paths [OF q(1)] by blast
    then have "node_kind G (map_of m (gp_segs q)) = NFile (uid ow) (gid ow) md sha"
      using assess_present(1) [OF a] sees_node [OF R(5,4) _ looked_on_way(1) [OF R(1-3) q(1)]] v(3) by simp
    then show ?thesis by (cases "(G, map_of m (gp_segs q))" rule: node_kind.cases) auto
  qed
  moreover have "op_at oper = gp_segs q" using q(2) v(1,3) by (simp add: op_at_def fspath_of_abs)
  moreover have "op_plain oper (gp_segs q)" using q(2) v(1-3) by (simp add: op_plain_def)
  ultimately show thesis using that q by blast
qed

lemma wanted_not_nested:
  assumes "wf_files G f" "d \<in> set (wanted_files f)" "e \<in> set (wanted_files f)"
  shows "\<not> strict_prefix (gp_segs (de_path d)) (gp_segs (de_path e))"
proof
  assume n: "strict_prefix (gp_segs (de_path d)) (gp_segs (de_path e))"
  have v: "valid_gp (de_path d)" "valid_gp (de_path e)" using assms by (auto simp: wf_files_def wf_desired_def list_all_iff)
  have "d \<noteq> e" using n by auto
  moreover have "no_clashes (wanted_files f)" using assms(1) by (simp add: wf_files_def)
  ultimately have "\<not> paths_clash (de_path d) (de_path e) \<or> \<not> paths_clash (de_path e) (de_path d)"
    using assms(2,3) unfolding no_clashes_def by (metis in_set_conv_nth linorder_neqE_nat sorted_wrt_nth_less)
  with n v show False by (auto simp: paths_clash_def nests_with_segs)
qed

text \<open>No two operations of a plan are at the same path, or one below the other.\<close>

lemma looked_not_nested:
  assumes r: "open_round G m f old pb" and p: "looked_at f old p" and q: "looked_at f old q" and n: "strict_prefix (gp_segs p) (gp_segs q)"
    and "p \<in> set (map de_path (wanted_files f)) \<or> (\<exists>c u g b. map_of m (gp_segs p) = Some (GFile c u g b))"
    and "q \<in> set (map de_path (wanted_files f)) \<or> (\<exists>c u g b. map_of m (gp_segs q) = Some (GFile c u g b))"
  shows False
proof -
  note R = open_round_parts [OF r]
  have ne: "gp_segs p \<noteq> []" using valid_gp_plain(1) [OF looked_valid [OF R(1,2) p]] by (simp add: plain_segs_def)
  have o: "open_way m (gp_segs p)" "open_way m (gp_segs q)" using looked_on_way(2) [OF R(1-3)] p q by blast+
  show False
  proof (cases "\<exists>c u g b. map_of m (gp_segs p) = Some (GFile c u g b)")
    case True
    then show False using o(2) n ne by (auto simp: open_way_def)
  next
    case False
    then have pw: "p \<in> set (map de_path (wanted_files f))" using assms(5) by blast
    show False
    proof (cases "\<exists>c u g b. map_of m (gp_segs q) = Some (GFile c u g b)")
      case True
      then have "map_of m (gp_segs p) = Some GDir" using tree_ok_above [OF R(4)] n ne by (auto simp: way_there_def)
      with o(1) show False by (auto simp: open_way_def)
    next
      case False
      then have "q \<in> set (map de_path (wanted_files f))" using assms(6) by blast
      with pw wanted_not_nested [OF R(1)] n show False by auto
    qed
  qed
qed

lemma ops_paths: "map op_path (concat (map (file_ops old pb force) ds)) = map (\<lambda>d. gp_str (de_path d)) (filter (\<lambda>d. snd (decision old pb force d) \<noteq> None) ds)"
  "map op_path (concat (map (record_ops f pb) rs)) = map (\<lambda>pr. gp_str (fst pr)) (filter (removes f pb) rs)"
proof -
  show "map op_path (concat (map (file_ops old pb force) ds)) = map (\<lambda>d. gp_str (de_path d)) (filter (\<lambda>d. snd (decision old pb force d) \<noteq> None) ds)"
    by (induction ds) (auto simp: file_ops_def split: option.splits)
  show "map op_path (concat (map (record_ops f pb) rs)) = map (\<lambda>pr. gp_str (fst pr)) (filter (removes f pb) rs)"
    by (induction rs) (auto simp: record_ops_def)
qed

lemma ops_apart:
  assumes r: "open_round G m f old pb"
  shows "apart (map op_at (pl_ops (plan_sync f old pb force)))"
proof -
  note R = open_round_parts [OF r]
  let ?ops = "pl_ops (plan_sync f old pb force)"
  have inj: "inj gp_str" by (rule injI) (simp add: gp_str_inj)
  let ?ps = "map de_path (filter (\<lambda>d. snd (decision old pb force d) \<noteq> None) (wanted_files f)) @ map fst (filter (removes f pb) (records old))"
  have "distinct (map de_path (wanted_files f))" using R(1) by (simp add: wf_files_def no_clashes_paths)
  then have d1: "distinct (map de_path (filter (\<lambda>d. snd (decision old pb force d) \<noteq> None) (wanted_files f)))" by (rule distinct_map_filter)
  have "distinct (map fst (records old))" using R(2) by (simp add: wf_manifest_def bsorted_distinct)
  then have d2: "distinct (map fst (filter (removes f pb) (records old)))" by (rule distinct_map_filter)
  have "fst ` set (filter (removes f pb) (records old)) \<subseteq> - de_path ` set (wanted_files f)"
    by (rule image_subsetI) (simp add: removes_def all_files_wanted)
  moreover have "de_path ` set (filter (\<lambda>d. snd (decision old pb force d) \<noteq> None) (wanted_files f)) \<subseteq> de_path ` set (wanted_files f)"
    by (rule image_mono) simp
  ultimately have "set (map de_path (filter (\<lambda>d. snd (decision old pb force d) \<noteq> None) (wanted_files f))) \<inter> set (map fst (filter (removes f pb) (records old))) = {}"
    unfolding set_map by (meson disjoint_eq_subset_Compl order.trans Compl_anti_mono disjoint_iff ComplD subsetD)
  then have d: "distinct ?ps" using d1 d2 unfolding distinct_append by blast
  have "map op_path ?ops = map gp_str ?ps"
    by (simp add: plan_sync_closed(1) [OF R(6)] ops_paths comp_def)
  then have dp: "distinct (map op_path ?ops)" using d inj_on_subset [OF inj subset_UNIV] by (simp add: distinct_map del: map_append)
  have same: "op_path a = op_path b" if a: "a \<in> set ?ops" and b: "b \<in> set ?ops" and e: "op_at a = op_at b" for a b
  proof -
    obtain q where "op_path a = gp_str q" "op_at a = gp_segs q" "op_plain a (gp_segs q)" using op_looked [OF r a] by blast
    moreover obtain q' where "op_at b = gp_segs q'" "op_plain b (gp_segs q')" using op_looked [OF r b] by blast
    ultimately show ?thesis using e by (simp add: op_plain_def)
  qed
  have "inj_on op_at (set ?ops)"
  proof (rule inj_onI)
    fix a b assume "a \<in> set ?ops" "b \<in> set ?ops" "op_at a = op_at b"
    moreover from this have "op_path a = op_path b" by (rule same)
    ultimately show "a = b" using dp unfolding distinct_map by (meson inj_onD)
  qed
  then have "distinct (map op_at ?ops)" using dp by (simp add: distinct_map)
  moreover have "\<not> strict_prefix (op_at a) (op_at b)" if a: "a \<in> set ?ops" and b: "b \<in> set ?ops" for a b
  proof
    assume n: "strict_prefix (op_at a) (op_at b)"
    obtain p where p: "looked_at f old p" "op_at a = gp_segs p"
      "p \<in> set (map de_path (wanted_files f)) \<or> (\<exists>c u g b. map_of m (gp_segs p) = Some (GFile c u g b))" by (rule op_looked [OF r a])
    obtain q where q: "looked_at f old q" "op_at b = gp_segs q"
      "q \<in> set (map de_path (wanted_files f)) \<or> (\<exists>c u g b. map_of m (gp_segs q) = Some (GFile c u g b))" by (rule op_looked [OF r b])
    show False by (rule looked_not_nested [OF r p(1) q(1) n [unfolded p(2) q(2)] p(3) q(3)])
  qed
  ultimately show ?thesis by (auto simp: apart_def)
qed

lemma dir_planned:
  assumes r: "open_round G m f old pb" and d: "d \<in> set (pl_dirs (plan_sync f old pb force))"
  obtains s where "d = abs_text s" "on_way m s" "d \<in> set (probe_paths f old)" "s \<notin> set (map op_at (pl_ops (plan_sync f old pb force)))"
proof -
  note R = open_round_parts [OF r]
  have gr: "guest_root = abs_text [''etc'', ''pve-meta'']" by (simp add: guest_root_def)
  have gr_slash: "slash_free [''etc'', ''pve-meta'']" by simp
  have pp: "d \<in> set (probe_paths f old)"
  proof (cases "d = guest_root")
    case True
    then show ?thesis by (simp add: probe_paths_def manifest_directories_def)
  next
    case False
    with created_dirs [OF d R(6)] obtain w where "w \<in> set (wanted_files f)" "d \<in> set (directories (de_path w))" by blast
    then show ?thesis using in_probe_paths [of f old "de_path w" d] by (simp add: looked_at_def)
  qed
  then obtain s where s: "d = abs_text s" "on_way m s" using probe_path_way [OF R(1-3)] by blast
  have "s \<noteq> op_at oper" if o: "oper \<in> set (pl_ops (plan_sync f old pb force))" for oper
  proof
    assume e: "s = op_at oper"
    from o obtain q where q: "looked_at f old q" "op_at oper = gp_segs q"
      "q \<in> set (map de_path (wanted_files f)) \<or> (\<exists>c u g b. map_of m (gp_segs q) = Some (GFile c u g b))" by (rule op_looked [OF r])
    note v = valid_gp_plain [OF looked_valid [OF R(1,2) q(1)]]
    from created_dirs [OF d R(6)] consider "d = guest_root"
      | w where "w \<in> set (wanted_files f)" "d \<in> set (directories (de_path w))" by blast
    then show False
    proof cases
      case 1
      then have "s = [''etc'', ''pve-meta'']" using s gr on_way_slash_free abs_text_inj by (metis gr_slash)
      then have "prefix (gp_segs q) manifest_segs" using e q(2) by (metis append_Cons append_Nil manifest_segs_def prefixI)
      with v(5) show False by simp
    next
      case 2
      then have l: "looked_at f old (de_path w)" by (simp add: looked_at_def)
      from 2(2) obtain z where z: "d = abs_text z" "strict_prefix z (gp_segs (de_path w))"
        unfolding directories_segs [OF looked_valid [OF R(1,2) l]] by blast
      have "slash_free (gp_segs (de_path w))" using valid_gp_plain(1) [OF looked_valid [OF R(1,2) l]] by (simp add: plain_segs_def)
      then have "slash_free z" using z(2) by (auto simp: strict_prefix_def prefix_def)
      then have "s = z" using s z(1) on_way_slash_free abs_text_inj by metis
      with looked_not_nested [OF r q(1) l] z(2) e q(2,3) 2(1) show False by auto
    qed
  qed
  with s pp show thesis by (intro that) auto
qed

text \<open>What a sync has made of the tree when all it reported was done.\<close>

definition tree_done :: "gf_libs \<Rightarrow> plan \<Rightarrow> manifest \<Rightarrow> gtree \<Rightarrow> gtree \<Rightarrow> bool" where
  "tree_done G P old m m' \<longleftrightarrow> tree_ok m'
     \<and> (\<forall>oper \<in> set (pl_ops P). map_of m' (op_at oper) = op_result oper)
     \<and> (\<forall>d \<in> set (pl_dirs P). map_of m' (fspath_of d) = Some GDir)
     \<and> (\<forall>q. \<not> is_temp q \<longrightarrow> q \<noteq> manifest_segs \<longrightarrow> q \<notin> op_at ` set (pl_ops P) \<longrightarrow> q \<notin> fspath_of ` set (pl_dirs P) \<longrightarrow>
          map_of m' q = map_of m q)
     \<and> map_of m' manifest_segs = (if pl_manifest P = old then map_of m manifest_segs else op_result (manifest_op G (pl_manifest P)))"

section \<open>What the commits of a sync do\<close>

lemma planned_dirs:
  fixes force
  assumes r: "open_round G m f old pb"
  defines "dss \<equiv> map fspath_of (pl_dirs (plan_sync f old pb force))"
  shows "map abs_text dss = pl_dirs (plan_sync f old pb force)" "\<And>s. s \<in> set dss \<Longrightarrow> on_way m s"
    "set dss \<inter> set (map op_at (pl_ops (plan_sync f old pb force))) = {}"
proof -
  have each: "abs_text (fspath_of d) = d \<and> on_way m (fspath_of d) \<and> fspath_of d \<notin> set (map op_at (pl_ops (plan_sync f old pb force)))"
    if "d \<in> set (pl_dirs (plan_sync f old pb force))" for d
  proof (rule dir_planned [OF r that])
    fix s
    assume s: "d = abs_text s" "on_way m s" "s \<notin> set (map op_at (pl_ops (plan_sync f old pb force)))"
    then have "fspath_of d = s" by (simp add: fspath_of_abs on_way_def)
    with s show ?thesis by simp
  qed
  show "map abs_text dss = pl_dirs (plan_sync f old pb force)" using each by (simp add: dss_def map_idI)
  show "on_way m s" if "s \<in> set dss" for s using each that by (auto simp: dss_def)
  show "set dss \<inter> set (map op_at (pl_ops (plan_sync f old pb force))) = {}" using each by (auto simp: dss_def)
qed

lemma on_way_parts: "on_way m s \<Longrightarrow> plain_segs s \<and> no_links m s \<and> \<not> is_temp s \<and> s \<noteq> manifest_segs"
  by (auto simp: on_way_def temp_free_def plain_segs_def)

lemma commit_planned:
  assumes r: "open_round G (g_tree g) f old pb" "quiet g" "probe_safe pb" and P: "P = plan_sync f old pb force"
    and c: "pct_commit G v (pl_dirs P) (pl_ops P) g = (Inr os, h)" "list_all (\<lambda>x. x = Done) os"
  shows "tree_ok (g_tree h)" "quiet h" "\<And>oper. oper \<in> set (pl_ops P) \<Longrightarrow> map_of (g_tree h) (op_at oper) = op_result oper"
    "\<And>d. d \<in> set (pl_dirs P) \<Longrightarrow> map_of (g_tree h) (fspath_of d) = Some GDir"
    "\<And>q. \<not> is_temp q \<Longrightarrow> q \<notin> op_at ` set (pl_ops P) \<Longrightarrow> q \<notin> fspath_of ` set (pl_dirs P) \<Longrightarrow>
       map_of (g_tree h) q = map_of (g_tree g) q"
proof -
  note R = open_round_parts [OF r(1)]
  let ?dss = "map fspath_of (pl_dirs P)" and ?ss = "map op_at (pl_ops P)"
  note D = planned_dirs [OF r(1), where force = force, folded P]
  have plain: "list_all plain_segs ?dss" "list_all (no_links (g_tree g)) ?dss" "\<And>s. s \<in> set ?dss \<Longrightarrow> \<not> is_temp s"
    using D(2) on_way_parts by (auto simp: list_all_iff)
  have ops: "op_plain oper (op_at oper) \<and> open_way (g_tree g) (op_at oper)" if "oper \<in> set (pl_ops P)" for oper
  proof (rule op_looked [OF r(1) that [unfolded P]])
    fix q
    assume "looked_at f old q" "op_at oper = gp_segs q" "op_plain oper (gp_segs q)"
    then show ?thesis using looked_on_way(2) [OF R(1-3)] by simp
  qed
  then have o: "list_all2 op_plain (pl_ops P) ?ss" "list_all (open_way (g_tree g)) ?ss"
    by (auto simp: list_all2_map2 list_all_iff list.rel_refl_strong)
  have ok: "list_all op_ok (pl_ops P)" "list_all shell_safe (map abs_text ?dss)"
    using plan_ops_ok [OF R(2,1) r(3)] plan_dirs_safe [OF R(1)] D(1) by (simp_all add: P)
  have c1: "pct_commit G v (map abs_text ?dss) (pl_ops P) g = (Inr os, h)" using c(1) D(1) by simp
  note made = commit_done [OF c1 c(2) ok plain(1) o(1) ops_apart [OF r(1), of force, folded P] D(3) plain(2) o(2) R(4) r(2)]
  show "tree_ok (g_tree h)" "quiet h" by (fact made)+
  show "map_of (g_tree h) (op_at oper) = op_result oper" if "oper \<in> set (pl_ops P)" for oper
    using that by (intro made(3)) (auto simp: in_set_zip in_set_conv_nth)
  show "map_of (g_tree h) (fspath_of d) = Some GDir" if "d \<in> set (pl_dirs P)" for d
    using that by (intro made(4) plain(3)) auto
  show "map_of (g_tree h) q = map_of (g_tree g) q" if "\<not> is_temp q" "q \<notin> op_at ` set (pl_ops P)" "q \<notin> fspath_of ` set (pl_dirs P)" for q
    using that by (intro made(5)) auto
qed

text \<open>The manifest is written whatever is in its place, so that an answer is done or failed.\<close>

lemma manifest_not_changed:
  assumes "list_all shell_safe ds" "pct_commit G v ds [manifest_op G mf] g = (Inr os, g')" "\<forall>why. os \<noteq> [Failed why]"
  shows "os = [Done]"
proof -
  have ok: "list_all op_ok [manifest_op G mf]" by (simp add: manifest_op_ok)
  obtain outs where r: "run_commands G (map dir_command ds @ map op_command (enumerate 0 [manifest_op G mf])) (g\<lparr>g_calls := g_calls g + 1\<rparr>) = ((outs, None), g')"
    and len: "length os = length [manifest_op G mf]" "length outs = length [manifest_op G mf]"
    and said: "\<And>i. i < length [manifest_op G mf] \<Longrightarrow> os ! i = Changed \<Longrightarrow> outs ! i = show_nat i @ '' changed''"
    using pct_commit_runs [OF ok assms(1,2)] by metis
  from run_dirs [OF r] obtain h where h: "run_commands G [op_command (0, manifest_op G mf)] h = ((outs, None), g')"
    by (auto simp: enumerate_eq_zip)
  obtain out x m where c: "run_command G (g_fails h (g_time h)) (seen_tree h) (op_command (0, manifest_op G mf)) = (out, x, m)"
    by (metis prod_cases3)
  have "unat manifest_mode < 512" by (simp add: manifest_mode_def)
  then have "out \<noteq> [show_nat 0 @ '' changed'']"
    using c by (auto simp: run_command.simps word_of_def manifest_op_def sh_w_eq unexpected_def split: prod.splits option.splits if_splits)
  moreover have "outs = out" using h c run_op_answer [OF c] by auto
  ultimately have "os \<noteq> [Changed]" using said [of 0] len(2) by (cases outs) auto
  moreover obtain y where "os = [y]" using len(1) by (cases os) auto
  ultimately show ?thesis using assms(3) by (cases y) auto
qed

lemma write_done:
  assumes w: "write_manifest G (pct_ops G v) P mf g = (Inr u, g')"
    and d: "(if pl_ops P = [] then pl_dirs P else []) = map abs_text dss" "list_all shell_safe (map abs_text dss)" "\<And>s. s \<in> set dss \<Longrightarrow> on_way (g_tree g) s"
    and m: "open_way (g_tree g) manifest_segs" "tree_ok (g_tree g)" "quiet g"
  shows "tree_ok (g_tree g')" "quiet g'" "map_of (g_tree g') manifest_segs = op_result (manifest_op G mf)"
    "\<And>s. s \<in> set dss \<Longrightarrow> map_of (g_tree g') s = Some GDir"
    "\<And>q. q \<noteq> manifest_segs \<Longrightarrow> q \<notin> set dss \<Longrightarrow> \<not> is_temp q \<Longrightarrow> map_of (g_tree g') q = map_of (g_tree g) q"
proof -
  from w d(1) obtain os where c: "pct_commit G v (map abs_text dss) [manifest_op G mf] g = (Inr os, g')"
    and e: "(case os of [Failed why] \<Rightarrow> Inl [''writing '' @ manifest_path @ '': '' @ why] | _ \<Rightarrow> Inr ()) = Inr u"
    by (auto simp: write_manifest_def pct_ops_def then_do_Inr simp del: then_do_lift)
  have f: "\<forall>why. os \<noteq> [Failed why]" using e by auto
  have os: "list_all (\<lambda>x. x = Done) os" using manifest_not_changed [OF d(2) c f] by simp
  have p: "list_all plain_segs dss" "list_all (no_links (g_tree g)) dss" "\<And>s. s \<in> set dss \<Longrightarrow> \<not> is_temp s" "set dss \<inter> set [manifest_segs] = {}"
    using d(3) on_way_parts by (auto simp: list_all_iff)
  have o: "list_all op_ok [manifest_op G mf]" "list_all2 op_plain [manifest_op G mf] [manifest_segs]" "apart [manifest_segs]"
    "list_all (open_way (g_tree g)) [manifest_segs]"
    using manifest_plain m(1) by (simp_all add: manifest_op_ok op_plain_def apart_def) (simp add: manifest_op_def)
  note made = commit_done [OF c os o(1) d(2) p(1) o(2,3) p(4,2) o(4) m(2,3)]
  show "tree_ok (g_tree g')" "quiet g'" by (fact made)+
  show "map_of (g_tree g') manifest_segs = op_result (manifest_op G mf)"
    using made(3) [of "manifest_op G mf" manifest_segs] by simp
  show "map_of (g_tree g') s = Some GDir" if "s \<in> set dss" for s using that by (intro made(4) p(3))
  show "map_of (g_tree g') q = map_of (g_tree g) q" if "q \<noteq> manifest_segs" "q \<notin> set dss" "\<not> is_temp q" for q
    using that by (intro made(5)) auto
qed

text \<open>The commit of the operations leaves the way to the manifest open and the manifest as it was.\<close>

lemma manifest_not_planned:
  assumes r: "open_round G m f old pb" and P: "P = plan_sync f old pb force"
  shows "prefix q manifest_segs \<Longrightarrow> q \<notin> op_at ` set (pl_ops P)" "manifest_segs \<notin> fspath_of ` set (pl_dirs P)" "\<not> is_temp manifest_segs"
proof -
  note R = open_round_parts [OF r]
  show "q \<notin> op_at ` set (pl_ops P)" if q: "prefix q manifest_segs"
  proof
    assume "q \<in> op_at ` set (pl_ops P)"
    then obtain oper where oper: "oper \<in> set (pl_ops P)" "q = op_at oper" by blast
    from op_looked [OF r oper(1) [unfolded P]] obtain p where "looked_at f old p" "op_at oper = gp_segs p" by blast
    with valid_gp_plain(5) [OF looked_valid [OF R(1,2)]] oper(2) q show False by metis
  qed
  show "manifest_segs \<notin> fspath_of ` set (pl_dirs P)"
    using planned_dirs(2) [OF r, where force = force, folded P] on_way_parts by fastforce
  show "\<not> is_temp manifest_segs" using manifest_plain(1,2) by (simp add: temp_free_def plain_segs_def)
qed

lemma manifest_way_kept:
  assumes r: "open_round G m f old pb" and P: "P = plan_sync f old pb force"
    and k: "\<And>d. d \<in> set (pl_dirs P) \<Longrightarrow> map_of m' (fspath_of d) = Some GDir"
      "\<And>q. \<not> is_temp q \<Longrightarrow> q \<noteq> manifest_segs \<Longrightarrow> q \<notin> op_at ` set (pl_ops P) \<Longrightarrow> q \<notin> fspath_of ` set (pl_dirs P) \<Longrightarrow> map_of m' q = map_of m q"
      "\<And>n. map_of m' manifest_segs = Some n \<Longrightarrow> \<exists>c u g b. n = GFile c u g b"
  shows "open_way m' manifest_segs"
proof -
  have o: "open_way m manifest_segs" using open_round_parts(3) [OF r] by (simp add: ways_open_def)
  have "map_of m' q = None \<or> map_of m' q = Some GDir" if q: "q \<noteq> []" "strict_prefix q manifest_segs" for q
  proof (cases "q \<in> fspath_of ` set (pl_dirs P)")
    case True
    with k(1) show ?thesis by auto
  next
    case False
    have "prefix q manifest_segs" using q(2) by (rule prefix_order.less_imp_le)
    moreover from this have "\<not> is_temp q" using manifest_plain(2) q(1) by (simp add: temp_free_def)
    ultimately have "map_of m' q = map_of m q" using False q(2) manifest_not_planned(1) [OF r P] by (intro k(2)) auto
    with o q show ?thesis by (simp add: open_way_def)
  qed
  with k(3) show ?thesis by (simp add: open_way_def)
qed

lemma op_on_way:
  assumes r: "open_round G m f old pb" and o: "oper \<in> set (pl_ops (plan_sync f old pb force))"
  shows "on_way m (op_at oper)"
proof (rule op_looked [OF r o])
  fix q
  assume "looked_at f old q" "op_at oper = gp_segs q"
  then show ?thesis using looked_on_way(1) [OF open_round_parts(1-3) [OF r]] by simp
qed

lemma no_dirs:
  assumes "hold_reason f pb = None" "\<not> changes (plan_sync f old pb force) old"
  shows "pl_dirs (plan_sync f old pb force) = []"
proof -
  have "fst (decision old pb force d) \<noteq> Create" if "d \<in> set (wanted_files f)" for d
  proof
    assume "fst (decision old pb force d) = Create"
    then have "snd (decision old pb force d) \<noteq> None" unfolding decision_writes by (simp add: writes_def)
    then have "file_ops old pb force d \<noteq> []" by (auto simp: file_ops_def)
    with that assms show False by (auto simp: changes_def plan_sync_closed(1))
  qed
  then have "file_dirs old pb force d = []" if "d \<in> set (wanted_files f)" for d using that by (simp add: file_dirs_def)
  then have "set (pl_dirs (plan_sync f old pb force)) = {}" using assms by (simp add: plan_sync_closed(4))
  then show ?thesis by simp
qed

lemma carry_done:
  assumes r: "open_round G (g_tree g) f old pb" "quiet g" "probe_safe pb"
    and i: "ins_plan ins = P" "P = plan_sync f old pb force" "ins_manifest ins = old"
    and c: "carry_out G (pct_ops G v) ins g = (Inr (os, mf), g')" "list_all (\<lambda>x. x = Done) os"
  shows "tree_done G P old (g_tree g) (g_tree g') \<and> quiet g'"
proof (cases "changes P old")
  case False
  then have "g' = g" "pl_ops P = []" "pl_manifest P = old" "pl_dirs P = []"
    using c(1) i no_dirs [OF open_round_parts(6) [OF r(1)], of old force] by (auto simp: carry_out_def Let_def changes_def lift_res_def)
  then show ?thesis using r(2) open_round_parts(4) [OF r(1)] by (simp add: tree_done_def)
next
  case True
  note R = open_round_parts [OF r(1)]
  let ?dss = "map fspath_of (pl_dirs P)"
  note D = planned_dirs [OF r(1), where force = force, folded i(2)]
  from c(1) True i obtain h where c1: "(if pl_ops P = [] then lift_res (Inr []) else pct_commit G v (pl_dirs P) (pl_ops P)) g = (Inr os, h)"
    and c2: "(let after = manifest_after G P old (map (\<lambda>x. x = Done) os) in
        if after = old then lift_res (Inr (os, old))
        else then_do (write_manifest G (pct_ops G v) P after) (\<lambda>_. lift_res (Inr (os, after)))) h = (Inr (os, mf), g')"
    by (auto simp: carry_out_def Let_def pct_ops_def then_do_Inr simp del: then_do_lift split: if_splits)
  have after: "manifest_after G P old (map (\<lambda>x. x = Done) os) = pl_manifest P"
    by (rule all_done_manifest) (use c(2) in \<open>simp add: list_all_iff\<close>)
  have ops: "op_at oper \<noteq> manifest_segs \<and> \<not> is_temp (op_at oper)" if "oper \<in> set (pl_ops P)" for oper
    using op_on_way [OF r(1) that [unfolded i(2)]] on_way_parts by blast
  have dirs: "fspath_of d \<noteq> manifest_segs \<and> \<not> is_temp (fspath_of d)" if "d \<in> set (pl_dirs P)" for d
    using D(2) that on_way_parts by fastforce
  show ?thesis
  proof (cases "pl_ops P = []")
    case no: True
    then have h: "h = g" "pl_manifest P \<noteq> old" using c1 True by (auto simp: changes_def lift_res_def)
    with c2 after obtain u where w: "write_manifest G (pct_ops G v) P (pl_manifest P) g = (Inr u, g')"
      by (auto simp: Let_def then_do_Inr lift_res_def simp del: then_do_lift)
    have "list_all shell_safe (map abs_text ?dss)" using plan_dirs_safe [OF R(1)] D(1) by (simp add: i(2))
    note W = write_done [OF w _ this D(2) _ R(4) r(2)]
    have d: "(if pl_ops P = [] then pl_dirs P else []) = map abs_text ?dss" using no D(1) by simp
    have o: "open_way (g_tree g) manifest_segs" using R(3) by (simp add: ways_open_def)
    show ?thesis using W [OF d _ o] h(2) no by (simp add: tree_done_def)
  next
    case False
    then have "pct_commit G v (pl_dirs P) (pl_ops P) g = (Inr os, h)" using c1 by simp
    note C = commit_planned [OF r i(2) this c(2)]
    have same: "map_of (g_tree h) manifest_segs = map_of (g_tree g) manifest_segs"
      using manifest_not_planned [OF r(1) i(2)] by (intro C(5)) auto
    then have M: "open_way (g_tree h) manifest_segs"
      using R(3) by (intro manifest_way_kept [OF r(1) i(2) C(4,5)]) (simp_all add: ways_open_def open_way_def)
    show ?thesis
    proof (cases "pl_manifest P = old")
      case True
      then have "g' = h" using c2 after by (simp add: lift_res_def)
      with C same True show ?thesis by (simp add: tree_done_def)
    next
      case ne: False
      with c2 after obtain u where w: "write_manifest G (pct_ops G v) P (pl_manifest P) h = (Inr u, g')"
        by (auto simp: Let_def then_do_Inr lift_res_def simp del: then_do_lift)
      have d: "(if pl_ops P = [] then pl_dirs P else []) = map abs_text []" using False by simp
      have "list_all shell_safe (map abs_text [])" "\<And>s. s \<in> set [] \<Longrightarrow> on_way (g_tree h) s" by simp_all
      note W = write_done [OF w d this M C(1,2)]
      have keep: "map_of (g_tree g') q = map_of (g_tree h) q" if "q \<noteq> manifest_segs" "\<not> is_temp q" for q using W(5) that by simp
      show ?thesis unfolding tree_done_def
        using W(1-3) ne ops dirs C(3-5) keep by simp
    qed
  qed
qed

section \<open>What the second probe sees\<close>

lemma on_way_kept:
  assumes t: "tree_done G P old m m'" and o: "open_way m manifest_segs" and s: "on_way m s"
  shows "on_way m' s"
proof -
  have links: "map_of m' q \<noteq> Some (GLink x)" if q: "\<not> is_temp q" "\<And>y. map_of m q \<noteq> Some (GLink y)" for q x
  proof -
    have r: "op_result oper \<noteq> Some (GLink x)" for oper by (cases oper) auto
    have "map_of m' q \<in> insert (Some GDir) (insert (map_of m q) (range op_result))"
      using t q(1) by (cases "q = manifest_segs"; cases "q \<in> op_at ` set (pl_ops P)"; cases "q \<in> fspath_of ` set (pl_dirs P)")
        (auto simp: tree_done_def split: if_splits)
    with q(2) r show ?thesis by auto
  qed
  have "no_links m' s"
    unfolding no_links_def
  proof (intro allI impI)
    fix q x assume q: "q \<noteq> []" "strict_prefix q s"
    then have "\<not> is_temp q" using s by (auto simp: on_way_def temp_free_def dest: prefix_order.less_imp_le)
    moreover have "map_of m q \<noteq> Some (GLink y)" for y using s q by (auto simp: on_way_def no_links_def)
    ultimately show "map_of m' q \<noteq> Some (GLink x)" by (rule links)
  qed
  moreover have "map_of m' s \<noteq> Some (GLink x)" for x
    using on_way_parts [OF s] s by (intro links) (auto simp: on_way_def)
  ultimately show ?thesis using s by (simp add: on_way_def)
qed

lemma done_carried_out:
  assumes r: "open_round G m f old pb" and P: "P = plan_sync f old pb force" and t: "tree_done G P old m m'"
    and s2: "sees G m' (probe_paths f old) pb'"
  shows "carried_out G P (probe_paths f old) pb pb'"
proof -
  note R = open_round_parts [OF r]
  have o: "open_way m manifest_segs" using R(3) by (simp add: ways_open_def)
  have t': "tree_ok m'" using t by (simp add: tree_done_def)
  have node: "node_of pb' (abs_text s) = node_kind G (map_of m' s)" if "abs_text s \<in> set (probe_paths f old)" "on_way m s" for s
    using sees_node [OF s2 t' that(1) on_way_kept [OF t o that(2)]] .
  have ops: "node_of pb' (op_path oper) = node_kind G (op_result oper)" if "oper \<in> set (pl_ops P)" for oper
  proof (rule op_looked [OF r that [unfolded P]])
    fix q
    assume q: "looked_at f old q" "op_path oper = gp_str q" "op_at oper = gp_segs q" "op_plain oper (gp_segs q)"
    have p: "op_path oper = abs_text (op_at oper)" using q(3,4) by (simp add: op_plain_def)
    have "op_path oper \<in> set (probe_paths f old)" using in_probe_paths [OF q(1)] q(2) by simp
    then show ?thesis using node [of "op_at oper"] op_on_way [OF r that [unfolded P]] t that by (simp add: p tree_done_def)
  qed
  note D = planned_dirs [OF r, where force = force, folded P]
  have dirs: "node_of pb' d = NDir" if "d \<in> set (pl_dirs P)" for d
  proof (rule dir_planned [OF r that [unfolded P]])
    fix s
    assume s: "d = abs_text s" "on_way m s" "d \<in> set (probe_paths f old)"
    then have "fspath_of d = s" by (simp add: fspath_of_abs on_way_def)
    with node [of s] s t that show ?thesis by (auto simp: tree_done_def)
  qed
  have keep: "node_of pb' x = node_of pb x" if x: "x \<in> set (probe_paths f old)" "x \<notin> op_path ` set (pl_ops P)" "x \<notin> set (pl_dirs P)" for x
  proof -
    obtain s where s: "x = abs_text s" "on_way m s" using probe_path_way [OF R(1-3) x(1)] by blast
    have "s \<notin> op_at ` set (pl_ops P)"
    proof
      assume "s \<in> op_at ` set (pl_ops P)"
      then obtain oper where oper: "oper \<in> set (pl_ops P)" "s = op_at oper" by blast
      from op_looked [OF r oper(1) [unfolded P]] have "op_path oper = abs_text (op_at oper)" by (metis op_plain_def)
      with x(2) s(1) oper show False by (metis image_eqI)
    qed
    moreover have "s \<notin> fspath_of ` set (pl_dirs P)"
    proof
      assume "s \<in> fspath_of ` set (pl_dirs P)"
      then have "abs_text s \<in> set (map abs_text (map fspath_of (pl_dirs P)))" by auto
      with D(1) x(3) s(1) show False by simp
    qed
    ultimately have "map_of m' s = map_of m s" using t on_way_parts [OF s(2)] by (simp add: tree_done_def)
    then show ?thesis using node [of s] sees_node [OF R(5,4) _ s(2)] x(1) s by simp
  qed
  show ?thesis using ops dirs keep unfolding carried_out_def by fastforce
qed

lemma done_manifest_way:
  assumes r: "open_round G m f old pb" and P: "P = plan_sync f old pb force" and t: "tree_done G P old m m'"
  shows "open_way m' manifest_segs"
proof (rule manifest_way_kept [OF r P])
  show "\<exists>c u g b. n = GFile c u g b" if "map_of m' manifest_segs = Some n" for n
    using open_round_parts(3) [OF r] t that by (auto simp: tree_done_def ways_open_def open_way_def manifest_op_def split: if_splits)
qed (use t in \<open>simp_all add: tree_done_def\<close>)

end
