(* ===== verification/Gf_Twice.thy ===== *)
theory Gf_Twice
  imports Gf_Open
begin

text \<open>
  Two syncs of one guest: where nobody else touches it, the ways to the files are open and the first sync reports
  all it set out to do as done, a second sync of the same document leaves the guest as it is.
\<close>

section \<open>A plan depends on what is looked at\<close>

lemma assess_dirs_cong: "(\<And>x. x \<in> set ds \<Longrightarrow> node_of pb x = node_of pb' x) \<Longrightarrow> assess_dirs pb ds = assess_dirs pb' ds"
  by (induction ds) (auto split: option.split)

lemma assess_cong:
  assumes "\<And>x. x \<in> set (directories p) \<union> {gp_str p} \<Longrightarrow> node_of pb x = node_of pb' x"
  shows "assess p pb = assess p pb'"
proof -
  have "node_of pb (gp_str p) = node_of pb' (gp_str p)" "assess_dirs pb (directories p) = assess_dirs pb' (directories p)"
    using assms by (auto intro: assess_dirs_cong)
  then show ?thesis by (simp only: assess_def)
qed

lemma plan_cong:
  assumes same: "\<And>x. x \<in> set (probe_paths f m) \<Longrightarrow> node_of pb x = node_of pb' x"
    and h: "hold_reason f pb = None" "hold_reason f pb' = None"
  shows "pl_ops (plan_sync f m pb force) = pl_ops (plan_sync f m pb' force)"
    "pl_manifest (plan_sync f m pb force) = pl_manifest (plan_sync f m pb' force)"
proof -
  have a: "assess p pb = assess p pb'" if "looked_at f m p" for p
    using in_probe_paths [OF that] same by (intro assess_cong) blast
  have d: "decision m pb force x = decision m pb' force x" if "x \<in> set (wanted_files f)" for x
    using a [of "de_path x"] that by (simp add: decision_def looked_at_def)
  have r: "removes f pb pr = removes f pb' pr" "stays f pb pr = stays f pb' pr" if "pr \<in> set (records m)" for pr
  proof -
    have "assess (fst pr) pb = assess (fst pr) pb'" using that by (intro a) (simp add: looked_at_def)
    then show "removes f pb pr = removes f pb' pr" "stays f pb pr = stays f pb' pr" by (simp_all add: removes_def stays_def)
  qed
  show "pl_ops (plan_sync f m pb force) = pl_ops (plan_sync f m pb' force)"
    unfolding h [THEN plan_sync_closed(1)] using d r
    by (intro arg_cong2 [of _ _ _ _ "(@)"] arg_cong [of _ _ concat] map_cong refl) (simp_all add: file_ops_def record_ops_def)
  have "records (pl_manifest (plan_sync f m pb force)) = records (pl_manifest (plan_sync f m pb' force))"
    unfolding h [THEN plan_sync_closed(3)] using d r by (intro foldl_cong refl) (simp_all add: file_keeps_def)
  then show "pl_manifest (plan_sync f m pb force) = pl_manifest (plan_sync f m pb' force)" by simp
qed

section \<open>Looking changes nothing\<close>

lemma same_guest_calls: "quiet g \<Longrightarrow> same_guest g (g\<lparr>g_calls := n\<rparr>)"
  by (simp add: same_guest_def quiet_def)

lemma same_guest_trans: "same_guest g h \<Longrightarrow> same_guest h k \<Longrightarrow> same_guest g k"
  by (simp add: same_guest_def)

lemma probes_same: "run_commands G (map probe_command ps) g = (r, g') \<Longrightarrow> quiet g \<Longrightarrow> same_guest g g'"
proof (induction ps arbitrary: g r)
  case (Cons p ps)
  obtain out x where "sh_p G (g_fails g (g_time g)) (g_tree g) p = (out, x)" by fastforce
  with Cons.prems(2) have c: "run_command G (g_fails g (g_time g)) (seen_tree g) (probe_command p) = (out, x, g_tree g)"
    by (simp add: probe_command_def run_command.simps)
  have s: "same_guest g (after_command g (g_tree g))" using Cons.prems(2) by (simp add: same_guest_def)
  show ?case
  proof (cases x)
    case None
    with Cons.prems(1) c obtain r' where "run_commands G (map probe_command ps) (after_command g (g_tree g)) = (r', g')"
      by (auto split: prod.splits)
    with Cons.IH Cons.prems(2) s show ?thesis by (metis quiet_simps(2) same_guest_trans)
  next
    case (Some y)
    with Cons.prems(1) c s show ?thesis by simp
  qed
qed (simp add: same_guest_def)

lemma probe_same:
  assumes "pct_probe G v ps g = (r, g')" "list_all shell_safe ps" "quiet g"
  shows "same_guest g g'"
proof -
  obtain body where b: "probe_script ps = ProbeScript body" by (simp add: probe_script_def)
  have cs: "sh_commands body = Some (map probe_command ps)" by (rule probe_script_commands [OF assms(2) b])
  let ?g = "g\<lparr>g_calls := g_calls g + 1\<rparr>"
  have g: "quiet ?g" "same_guest g ?g" using assms(3) same_guest_calls by simp_all
  have run: "same_guest ?g (snd (run_text G k body ?g))" for k
    using probes_same [of G "case k of None \<Rightarrow> ps | Some n \<Rightarrow> take n ps" ?g] g(1)
    by (cases k) (auto simp: run_text_def cs take_map split: prod.splits)
  obtain x h where e: "pct_exec G (ProbeScript body) g = (x, h)" by fastforce
  have "g' = h"
    using assms(1) e by (cases x) (auto simp: pct_probe_def exec_ok_def then_do_def b lift_res_def split: prod.splits sum.splits)
  moreover have "h = ?g \<or> (\<exists>k. h = snd (run_text G k body ?g))"
    using e by (auto simp: pct_exec_def Let_def split: fate.splits prod.splits if_splits) (metis snd_conv)+
  ultimately show ?thesis using g(2) run same_guest_trans by blast
qed

lemma read_same:
  assumes "pct_read G v p mx g = (r, g')" "quiet g"
  shows "same_guest g g'"
proof -
  let ?g = "g\<lparr>g_calls := g_calls g + 1\<rparr>"
  have g: "quiet ?g" "same_guest g ?g" using assms(2) same_guest_calls by simp_all
  have run: "same_guest ?g (snd (run_script G k (ReadScript p n) ?g))" for k n
    using g(1) by (auto simp: Let_def same_guest_def)
  obtain x h where e: "pct_exec G (ReadScript p (mx + 1)) g = (x, h)" by fastforce
  have "g' = h"
    using assms(1) e by (cases x) (auto simp: pct_read_def then_do_def lift_res_def split: if_splits)
  moreover have "h = ?g \<or> (\<exists>k. h = snd (run_script G k (ReadScript p (mx + 1)) ?g))"
    using e by (auto simp: pct_exec_def Let_def simp del: run_script.simps split: fate.splits prod.splits if_splits) (metis snd_conv)+
  ultimately show ?thesis using g(2) run same_guest_trans by blast
qed

section \<open>The inspection of a quiet guest\<close>

definition manifest_in :: "gf_libs \<Rightarrow> gtree \<Rightarrow> manifest" where
  "manifest_in G m = fst (read_manifest G (content_at m manifest_segs))"

lemma pct_ops_sel: "go_read (pct_ops G v) = pct_read G v" "go_probe (pct_ops G v) = pct_probe G v"
  by (simp_all add: pct_ops_def)

lemma inspect_same:
  assumes "inspect G (pct_ops G v) f force g = (r, h)" "quiet g" "wf_files G f"
  shows "same_guest g h"
proof -
  obtain b k where rd: "pct_read G v manifest_path manifest_max_bytes g = (b, k)" by fastforce
  note k = read_same [OF rd assms(2)]
  show ?thesis
  proof (cases b)
    case (Inl e)
    with assms(1) rd k show ?thesis by (simp add: inspect_def pct_ops_def then_do_def)
  next
    case (Inr bytes)
    obtain m w where m: "read_manifest G bytes = (m, w)" by fastforce
    obtain p j where pr: "(if wants_files f \<or> \<not> manifest_is_empty m then pct_probe G v (probe_paths f m) else lift_res (Inr [])) k = (p, j)" by fastforce
    have "same_guest k j"
      using pr k probe_same [OF _ probe_paths_safe [OF assms(3) read_manifest_wf [OF m]], of G v k]
      by (auto simp: same_guest_def lift_res_def split: if_splits)
    moreover have "h = j"
      using assms(1) rd Inr m pr by (cases p) (auto simp: inspect_def pct_ops_def then_do_def lift_res_def split: if_splits)
    ultimately show ?thesis using k same_guest_trans by blast
  qed
qed

lemma inspect_sees:
  assumes i: "inspect G (pct_ops G v) f force g = (Inr ins, h)"
    and g: "quiet g" "tree_ok (g_tree g)" "open_way (g_tree g) manifest_segs" and G: "sha_hex G" "wf_files G f"
  shows "ins_manifest ins = manifest_in G (g_tree g)" "wf_manifest (ins_manifest ins)"
    "\<exists>pb. ins_plan ins = plan_sync f (ins_manifest ins) pb force \<and> probe_safe pb
       \<and> (wants_files f \<or> records (ins_manifest ins) \<noteq> [] \<longrightarrow> sees G (g_tree g) (probe_paths f (ins_manifest ins)) pb)"
proof -
  from i obtain bytes k where rd: "pct_read G v manifest_path manifest_max_bytes g = (Inr bytes, k)"
    and rest: "(case read_manifest G bytes of (m, warning) \<Rightarrow>
      then_do (if wants_files f \<or> \<not> manifest_is_empty m then pct_probe G v (probe_paths f m) else lift_res (Inr [])) (\<lambda>pb.
      lift_res (Inr \<lparr>ins_plan = plan_sync f m pb force, ins_manifest = m, ins_warning = warning\<rparr>))) k = (Inr ins, h)"
    unfolding inspect_def then_do_Inr pct_ops_sel by blast
  obtain m w where m: "read_manifest G bytes = (m, w)" by fastforce
  from rest m obtain pb where
    pr: "(if wants_files f \<or> \<not> manifest_is_empty m then pct_probe G v (probe_paths f m) else lift_res (Inr [])) k = (Inr pb, h)"
    and ins: "ins = \<lparr>ins_plan = plan_sync f m pb force, ins_manifest = m, ins_warning = w\<rparr>"
    by (auto simp: then_do_Inr lift_res_def simp del: then_do_lift)
  note b = read_quiet [OF rd [unfolded manifest_plain(3)] g manifest_plain(1)]
  show "ins_manifest ins = manifest_in G (g_tree g)" using b(2) m ins by (simp add: manifest_in_def)
  have wf: "wf_manifest m" using m by (rule read_manifest_wf)
  then show "wf_manifest (ins_manifest ins)" by (simp add: ins)
  have "probe_safe pb \<and> (wants_files f \<or> records m \<noteq> [] \<longrightarrow> sees G (g_tree g) (probe_paths f m) pb)"
  proof (cases "wants_files f \<or> records m \<noteq> []")
    case True
    then have p: "pct_probe G v (probe_paths f m) k = (Inr pb, h)" using pr by (simp add: manifest_is_empty_def)
    have k: "quiet k" "g_tree k = g_tree g" using b(1) by (simp_all add: same_guest_def)
    show ?thesis using pct_probe_safe [OF p] probe_quiet(2) [OF p probe_paths_safe [OF G(2) wf] k(1) G(1)] k(2)
      by (simp add: sees_def)
  next
    case False
    then have "pb = []" using pr by (auto simp: manifest_is_empty_def lift_res_def)
    with False show ?thesis by (simp add: probe_safe_def)
  qed
  then show "\<exists>pb. ins_plan ins = plan_sync f (ins_manifest ins) pb force \<and> probe_safe pb
       \<and> (wants_files f \<or> records (ins_manifest ins) \<noteq> [] \<longrightarrow> sees G (g_tree g) (probe_paths f (ins_manifest ins)) pb)"
    by (auto simp: ins)
qed

section \<open>Plans and reports that change nothing\<close>

lemma none_wanted: "\<not> wants_files f \<Longrightarrow> wanted_files f = []"
proof -
  have "\<not> list_ex (\<lambda>r. case r of RFile _ \<Rightarrow> True | _ \<Rightarrow> False) es \<Longrightarrow> files_of es = []" for es
    by (induction es rule: files_of.induct) auto
  then show "\<not> wants_files f \<Longrightarrow> wanted_files f = []" by (auto simp: wants_files_def wanted_files_def split: guest_files.splits)
qed

lemma idle_plan:
  assumes "hold_reason f pb \<noteq> None \<or> \<not> wants_files f \<and> records m = []"
  shows "\<not> changes (plan_sync f m pb force) m"
proof (cases "hold_reason f pb")
  case None
  with assms have "wanted_files f = []" "records m = []" using none_wanted by auto
  with None show ?thesis by (cases m) (simp add: changes_def plan_sync_closed)
next
  case (Some why)
  with held_plan_ops [OF Some] show ?thesis by (simp add: changes_def)
qed

lemma idle_sync:
  assumes "inspect G ops f force g = (Inr ins, h)" "\<not> changes (ins_plan ins) (ins_manifest ins)" "sync G ops f force g = (r, g')"
  shows "g' = h \<and> (\<forall>rep. r = Inr rep \<longrightarrow> (\<forall>row \<in> set (rp_items rep). dn_outcome row = None))"
proof -
  have "dn_outcome row = None" if "row \<in> set (report_rows items [])" for items row
    using that by (induction items) (auto split: if_splits)
  with assms show ?thesis by (auto simp: sync_def carry_out_def then_do_def Let_def lift_res_def)
qed

lemma rows_done:
  "list_all (\<lambda>row. dn_outcome row = None \<or> dn_outcome row = Some Done) (report_rows items os) \<Longrightarrow>
    length os \<le> length (filter (\<lambda>i. writes (it_action i)) items) \<Longrightarrow> list_all (\<lambda>x. x = Done) os"
proof (induction items os rule: report_rows.induct)
  case (2 i items os)
  then show ?case by (cases os) (auto split: if_splits)
qed simp

lemma carry_length:
  assumes "carry_out G (pct_ops G v) ins g = (Inr (os, mf), g')" "list_all op_ok (pl_ops (ins_plan ins))" "list_all shell_safe (pl_dirs (ins_plan ins))"
  shows "length os \<le> length (pl_ops (ins_plan ins))"
proof -
  have "os = [] \<or> (\<exists>h. pct_commit G v (pl_dirs (ins_plan ins)) (pl_ops (ins_plan ins)) g = (Inr os, h))"
    using assms(1) by (auto simp: carry_out_def Let_def pct_ops_def then_do_Inr lift_res_def simp del: then_do_lift split: if_splits)
  then show ?thesis using pct_commit_runs [OF assms(2,3)] by (metis le_refl list.size(3) zero_le)
qed

section \<open>The second plan of an open guest\<close>

lemma hold_kept: "hold_reason f pb = None \<Longrightarrow> root_problem pb' = None \<Longrightarrow> hold_reason f pb' = None"
  by (auto simp: hold_reason_def split: guest_files.splits)

lemma second_plan:
  assumes r: "open_round G m f old pb" and P: "P = plan_sync f old pb force" and t: "tree_done G P old m m'"
    and s: "sees G m' (probe_paths f (pl_manifest P)) pb'" and "sourced f" "force' \<longrightarrow> force"
  shows "\<not> changes (plan_sync f (pl_manifest P) pb' force') (pl_manifest P)"
proof -
  note R = open_round_parts [OF r]
  let ?m = "pl_manifest P"
  define full where "full = map (\<lambda>x. (x, node_in G m' x)) (probe_paths f old @ probe_paths f ?m)"
  have look: "map_of full x = Some (node_in G m' x)" if "x \<in> set (probe_paths f old) \<union> set (probe_paths f ?m)" for x
    using that by (auto simp: full_def map_of_map_restrict restrict_map_def map_add_def split: option.splits)
  then have sees: "sees G m' (probe_paths f old) full" "sees G m' (probe_paths f ?m) full" by (simp_all add: sees_def)
  have w: "open_way m' manifest_segs" "tree_ok m'" using done_manifest_way [OF r P t] t by (simp_all add: tree_done_def)
  have h: "hold_reason f full = None" "hold_reason f pb' = None"
    using hold_kept [OF R(6)] sees_root [OF w sees(1)] sees_root [OF w s] by blast+
  have "round_done G f old force pb full"
    using R sees_coherent [OF R(1-5)] sees_safe [OF R(1-5)] done_carried_out [OF r P t sees(1)] by (simp add: round_done_def P)
  moreover have "?m = manifest_after G (plan_sync f old pb force) old []" using all_done_manifest [of "[]"] by (simp add: P)
  ultimately have "\<not> changes (plan_sync f ?m full force') ?m"
    using settled_plan [of G f old force pb full force' "[]" ?m] h(1) assms(5,6) by simp
  moreover have "node_of full x = node_of pb' x" if "x \<in> set (probe_paths f ?m)" for x
    using sees(2) s that by (simp add: sees_def node_of_def)
  from plan_cong [OF this h] have "pl_ops (plan_sync f ?m full force') = pl_ops (plan_sync f ?m pb' force')"
    "pl_manifest (plan_sync f ?m full force') = pl_manifest (plan_sync f ?m pb' force')" by blast+
  ultimately show ?thesis by (simp add: changes_def)
qed

section \<open>After a sync that did all of it\<close>

text \<open>A guest in which the next plan for a document, whatever it is given to see, is to change nothing.\<close>

definition settled :: "gf_libs \<Rightarrow> guest_files \<Rightarrow> bool \<Rightarrow> guest \<Rightarrow> bool" where
  "settled G f force g \<longleftrightarrow> quiet g \<and> tree_ok (g_tree g) \<and> open_way (g_tree g) manifest_segs
     \<and> (let m = manifest_in G (g_tree g) in
        \<forall>pb. (wants_files f \<or> records m \<noteq> [] \<longrightarrow> sees G (g_tree g) (probe_paths f m) pb) \<longrightarrow> \<not> changes (plan_sync f m pb force) m)"

lemma settled_sync:
  assumes s: "settled G f force g" and G: "sha_hex G" "wf_files G f" and r: "sync G (pct_ops G v) f force g = (r, g')"
  shows "g_tree g' = g_tree g \<and> (\<forall>rep. r = Inr rep \<longrightarrow> (\<forall>row \<in> set (rp_items rep). dn_outcome row = None))"
proof -
  obtain i h where i: "inspect G (pct_ops G v) f force g = (i, h)" by fastforce
  have g: "quiet g" "tree_ok (g_tree g)" "open_way (g_tree g) manifest_segs" using s by (simp_all add: settled_def)
  have h: "g_tree h = g_tree g" using inspect_same [OF i g(1) G(2)] by (simp add: same_guest_def)
  show ?thesis
  proof (cases i)
    case (Inl e)
    with r i h show ?thesis by (auto simp: sync_def then_do_def)
  next
    case (Inr ins)
    note I = inspect_sees [OF i [unfolded Inr] g G]
    from I(3) obtain pb where pb: "ins_plan ins = plan_sync f (ins_manifest ins) pb force"
      "wants_files f \<or> records (ins_manifest ins) \<noteq> [] \<longrightarrow> sees G (g_tree g) (probe_paths f (ins_manifest ins)) pb" by blast
    then have "\<not> changes (ins_plan ins) (ins_manifest ins)" using s I(1) by (simp add: settled_def Let_def)
    from idle_sync [OF i [unfolded Inr] this r] h show ?thesis by auto
  qed
qed

lemma idle_settled:
  assumes g: "quiet g" "tree_ok (g_tree g)" "open_way (g_tree g) manifest_segs"
    and h: "hold_reason f pb \<noteq> None \<or> \<not> wants_files f \<and> records m = []" and m: "m = manifest_in G (g_tree g)"
    and s: "wants_files f \<or> records m \<noteq> [] \<longrightarrow> sees G (g_tree g) (probe_paths f m) pb"
  shows "settled G f force g"
proof -
  have "\<not> changes (plan_sync f m pb' force) m" if "wants_files f \<or> records m \<noteq> [] \<longrightarrow> sees G (g_tree g) (probe_paths f m) pb'" for pb'
  proof (cases "wants_files f \<or> records m \<noteq> []")
    case True
    with h have "hold_reason f pb \<noteq> None" by blast
    moreover have "root_problem pb = None" using sees_root [OF g(3,2)] s True by blast
    ultimately have "hold_reason f pb' \<noteq> None" using hold_kept [of f pb' pb] by metis
    then show ?thesis using idle_plan by blast
  next
    case False
    then show ?thesis using idle_plan by blast
  qed
  then show ?thesis using g by (simp add: settled_def m Let_def)
qed

lemma done_settled:
  assumes r: "open_round G m f old pb" and P: "P = plan_sync f old pb force" and t: "tree_done G P old m (g_tree g')" "quiet g'"
    and o: "old = manifest_in G m" and "sourced f" "force' \<longrightarrow> force" "serde_reads_back G (pl_manifest P)"
  shows "settled G f force' g'"
proof -
  note R = open_round_parts [OF r]
  have "manifest_in G (g_tree g') = pl_manifest P"
  proof (cases "pl_manifest P = old")
    case True
    with t(1) o show ?thesis by (simp add: tree_done_def manifest_in_def content_at_def)
  next
    case False
    with t(1) have "content_at (g_tree g') manifest_segs = Some (manifest_render G (pl_manifest P))"
      by (simp add: tree_done_def content_at_def manifest_op_def)
    moreover have "wf_manifest (pl_manifest P)" unfolding P by (rule plan_manifest_wf [OF R(2,1) assms(6)])
    ultimately show ?thesis using manifest_parse_render [OF assms(8)] by (simp add: manifest_in_def read_manifest_def)
  qed
  moreover have "\<not> changes (plan_sync f (pl_manifest P) pb' force') (pl_manifest P)"
    if "wants_files f \<or> records (pl_manifest P) \<noteq> [] \<longrightarrow> sees G (g_tree g') (probe_paths f (pl_manifest P)) pb'" for pb'
  proof (cases "wants_files f \<or> records (pl_manifest P) \<noteq> []")
    case True
    with that second_plan [OF r P t(1) _ assms(6,7)] show ?thesis by blast
  next
    case False
    then show ?thesis using idle_plan by blast
  qed
  ultimately show ?thesis
    using done_manifest_way [OF r P t(1)] t by (simp add: settled_def Let_def tree_done_def)
qed

section \<open>Properties\<close>

text \<open>The guest of the witnesses, with a reader that tells its manifest from the empty one.\<close>

definition twice_lib :: gf_libs where
  "twice_lib = sample_lib\<lparr>manifest_from_slice := (\<lambda>t. Inr (raw_of_manifest (if t = ''m'' then sample_records else manifest_default))),
     manifest_to_string := (\<lambda>_. ''e'')\<rparr>"

definition twice_sync :: "guest \<Rightarrow> (anyhow + report) \<times> guest" where
  "twice_sync = sync twice_lib (pct_ops twice_lib 105) Nothing False"

lemma sample_guest_open:
  "quiet sample_guest" "tree_ok (g_tree sample_guest)" "manifest_in twice_lib (g_tree sample_guest) = sample_records"
  "ways_open (g_tree sample_guest) Nothing sample_records" "sha_hex twice_lib"
proof -
  let ?m = "g_tree sample_guest"
  show "quiet sample_guest" by (simp add: quiet_def sample_guest_def)
  show "tree_ok ?m" by (auto simp: tree_ok_def sample_guest_def split: if_splits)
  show "manifest_in twice_lib ?m = sample_records" by code_simp
  have at: "open_way ?m [''etc'', ''pve-meta'', x]" if "x = ''.guest-files'' \<or> x = ''a''" for x
    using that by (auto simp: open_way_def sample_guest_def strict_prefix_def prefix_Cons)
  have "gp_segs (GuestPath ''/etc/pve-meta/a'') = [''etc'', ''pve-meta'', ''a'']" by code_simp
  moreover have "manifest_segs = [''etc'', ''pve-meta'', ''.guest-files'']" by (simp add: manifest_segs_def)
  ultimately show "ways_open ?m Nothing sample_records"
    using at [of "''.guest-files''"] at [of "''a''"] by (auto simp: ways_open_def looked_at_def wanted_files_def sample_records_def)
  have "is_hex CHR ''a''" "is_hex CHR ''b''" "to_lower CHR ''a'' = CHR ''a''" "to_lower CHR ''b'' = CHR ''b''" by code_simp+
  then show "sha_hex twice_lib" by (auto simp: sha_hex_def twice_lib_def sample_lib_def list_all_iff)
qed

text \<open>C12: A second sync of a document changes nothing. In a guest nobody else touches, with no symbolic link and no
  file where a directory is needed on the way to the files, let a sync of a document report everything it set out
  to do as done. Another sync of it, without force or with the force the first had, then leaves every file of the
  guest and the manifest as they are, whether it succeeds or fails, and reports no operation at all.\<close>

theorem second_sync_changes_nothing:
  assumes "quiet g" "tree_ok (g_tree g)" "ways_open (g_tree g) f (manifest_in G (g_tree g))"
    and "sha_hex G" "wf_files G f" "sourced f"
    and "inspect G (pct_ops G v) f force g = (Inr ins, h)" "serde_reads_back G (pl_manifest (ins_plan ins))"
    and "sync G (pct_ops G v) f force g = (Inr rep, g1)"
    and "list_all (\<lambda>row. dn_outcome row = None \<or> dn_outcome row = Some Done) (rp_items rep)"
    and "sync G (pct_ops G v) f force' g1 = (r2, g2)" "force' \<longrightarrow> force"
  shows "g_tree g2 = g_tree g1 \<and> (\<forall>rep2. r2 = Inr rep2 \<longrightarrow> (\<forall>row \<in> set (rp_items rep2). dn_outcome row = None))"
proof -
  have o: "open_way (g_tree g) manifest_segs" using assms(3) by (simp add: ways_open_def)
  note I = inspect_sees [OF assms(7,1,2) o assms(4,5)]
  let ?old = "ins_manifest ins" and ?P = "ins_plan ins"
  from I(3) obtain pb where pb: "?P = plan_sync f ?old pb force" "probe_safe pb"
    and sees: "wants_files f \<or> records ?old \<noteq> [] \<longrightarrow> sees G (g_tree g) (probe_paths f ?old) pb" by blast
  have h: "quiet h" "g_tree h = g_tree g" using inspect_same [OF assms(7,1,5)] by (simp_all add: same_guest_def)
  have "settled G f force' g1"
  proof (cases "hold_reason f pb \<noteq> None \<or> \<not> wants_files f \<and> records ?old = []")
    case True
    then have "g1 = h" using idle_sync [OF assms(7) _ assms(9)] idle_plan pb(1) by metis
    with idle_settled [of h f pb ?old G force'] True h o assms(2) I(1) sees show ?thesis by simp
  next
    case False
    with sees I(1,2) assms(2,3,5) h(2) have r: "open_round G (g_tree h) f ?old pb" by (auto simp: open_round_def)
    from assms(7,9) obtain os mf where c: "carry_out G (pct_ops G v) ins h = (Inr (os, mf), g1)" "rp_items rep = report_rows (pl_items ?P) os"
      by (auto simp: sync_def then_do_Inr lift_res_def simp del: then_do_lift)
    have "length os \<le> length (pl_ops ?P)"
      using plan_ops_ok [OF I(2) assms(5) pb(2)] plan_dirs_safe [OF assms(5)] pb(1) by (intro carry_length [OF c(1)]) simp_all
    also have "\<dots> = length (filter (\<lambda>i. writes (it_action i)) (pl_items ?P))"
      using arg_cong [OF writes_match_ops [of f ?old pb force], of length] pb(1) by simp
    finally have "list_all (\<lambda>x. x = Done) os" using rows_done assms(10) c(2) by metis
    from carry_done [OF r h(1) pb(2) refl pb(1) refl c(1) this] have "tree_done G ?P ?old (g_tree h) (g_tree g1)" "quiet g1" by blast+
    from done_settled [OF r pb(1) this _ assms(6,12,8)] I(1) h(2) show ?thesis by simp
  qed
  from settled_sync [OF this assms(4,5,11)] show ?thesis .
qed

theorem second_sync_changes_nothing_witness:
  "g_tree (snd (twice_sync (snd (twice_sync sample_guest)))) = g_tree (snd (twice_sync sample_guest))
     \<and> g_tree (snd (twice_sync sample_guest)) \<noteq> g_tree sample_guest"
proof -
  let ?ops = "pct_ops twice_lib 105"
  define i where "i = inspect twice_lib ?ops Nothing False sample_guest"
  define r where "r = sync twice_lib ?ops Nothing False sample_guest"
  have m: "read_manifest twice_lib (Some ''m'') = (sample_records, None)" "\<not> manifest_is_empty sample_records" by code_simp+
  let ?ins = "\<lambda>pb. \<lparr>ins_plan = plan_sync Nothing sample_records pb False, ins_manifest = sample_records, ins_warning = None\<rparr>"
  let ?then = "\<lambda>ins. then_do (carry_out twice_lib ?ops ins) (\<lambda>(os, m).
         lift_res (Inr \<lparr>rp_items = report_rows (pl_items (ins_plan ins)) os, rp_warning = ins_warning ins,
                        rp_has_records = (\<not> manifest_is_empty m)\<rparr>))"
  have e: "i = then_do (pct_probe twice_lib 105 (probe_paths Nothing sample_records)) (\<lambda>pb. lift_res (Inr (?ins pb))) sample_read"
    by (simp add: i_def inspect_def then_do_def pct_ops_def sample_read m wants_files_def split: prod.split sum.split)
  have er: "r = then_do (pct_probe twice_lib 105 (probe_paths Nothing sample_records)) (\<lambda>pb. ?then (?ins pb)) sample_read"
    by (simp add: r_def sync_def inspect_def then_do_def pct_ops_def sample_read m wants_files_def split: prod.split sum.split)
  have "map_option (\<lambda>ins. pl_manifest (ins_plan ins)) (ok_of (fst i)) = Some manifest_default" unfolding e by code_simp
  then obtain ins where ins: "fst i = Inr ins" "pl_manifest (ins_plan ins) = manifest_default" by (auto simp: ok_of_def split: sum.splits)
  have "(case r of (x, g) \<Rightarrow> (map_option (\<lambda>rep. map dn_outcome (rp_items rep)) (ok_of x), map_of (g_tree g) [''etc'', ''pve-meta'', ''a'']))
      = (Some [Some Done], None)" unfolding er by code_simp
  then obtain rep where rep: "fst r = Inr rep" "map dn_outcome (rp_items rep) = [Some Done]"
    and gone: "map_of (g_tree (snd r)) [''etc'', ''pve-meta'', ''a''] = None" by (cases r) (auto simp: ok_of_def split: sum.splits)
  have ne: "g_tree (snd r) \<noteq> g_tree sample_guest" using gone by (auto simp: sample_guest_def)
  have "wf_files twice_lib Nothing" "sourced Nothing" by (simp_all add: wf_files_def wanted_files_def no_clashes_Nil sourced_def)
  moreover have "serde_reads_back twice_lib (pl_manifest (ins_plan ins))"
    unfolding ins(2) by (simp add: serde_reads_back_def twice_lib_def)
  moreover have "list_all (\<lambda>row. dn_outcome row = None \<or> dn_outcome row = Some Done) (rp_items rep)"
    using rep(2) by (cases "rp_items rep") auto
  ultimately have "g_tree (snd (sync twice_lib ?ops Nothing False (snd r))) = g_tree (snd r)"
    using second_sync_changes_nothing [of sample_guest Nothing twice_lib 105 False ins "snd i" rep "snd r" False
        "fst (sync twice_lib ?ops Nothing False (snd r))" "snd (sync twice_lib ?ops Nothing False (snd r))"]
      sample_guest_open ins(1) rep(1) by (simp add: i_def r_def prod_eq_iff)
  with ne show ?thesis by (simp add: r_def twice_sync_def)
qed

end
