(* ===== verification/Gf_Lock.thy ===== *)
theory Gf_Lock
  imports Gf_Main
begin

text \<open>
  The lock of a guest (lock.rs) and what it is for: the daemon and the syncs run by hand are processes that
  take turns. A sync is cut at its calls of the guest; a step relation interleaves the calls of any number of
  processes, and every history of it is one in which each sync ran alone.

  \<open>flock\<close> of the kernel is a table from lock files to the open file that holds them. A process that is killed
  in the middle of a call is not a step of the relation.
\<close>

section \<open>The lock\<close>

definition lock_dir :: string where "lock_dir = ''/run/lock/pve-meta-guest-files''"

definition lock_path :: "vmid \<Rightarrow> string" where
  "lock_path v = lock_dir @ ''/'' @ show_vmid v @ ''.lock''"

type_synonym lock_table = "string \<Rightarrow> nat option"

datatype errno = EWouldBlock | EOther string

text \<open>The calls of the host that may fail: making the directory, opening the file, and the lock itself for
  a reason of its own (a signal, no memory for locks).\<close>

record lock_env =
  le_mkdir :: "string option"
  le_create :: "string option"
  le_flock :: "string option"
  le_busy_text :: string

datatype flock_answer = Granted | Sleeps | Fails errno

definition flock :: "lock_env \<Rightarrow> lock_table \<Rightarrow> nat \<Rightarrow> string \<Rightarrow> bool \<Rightarrow> flock_answer" where
  "flock E t who p nonblock =
     (case le_flock E of
        Some why \<Rightarrow> Fails (EOther why)
      | None \<Rightarrow> if t p = None \<or> t p = Some who then Granted else if nonblock then Fails EWouldBlock else Sleeps)"

fun errno_text :: "lock_env \<Rightarrow> errno \<Rightarrow> string" where
  "errno_text E EWouldBlock = le_busy_text E"
| "errno_text E (EOther why) = why"

text \<open>What \<open>GuestLock::take\<close> has come to: an error, \<open>None\<close>, the lock, or a caller that is still waiting.\<close>

datatype took = TakeErr anyhow | HeldElsewhere | Took | StillWaits

fun after_flock :: "lock_env \<Rightarrow> lock_table \<Rightarrow> nat \<Rightarrow> vmid \<Rightarrow> bool \<Rightarrow> flock_answer \<Rightarrow> took \<times> lock_table" where
  "after_flock E t who v wait Granted = (Took, t(lock_path v := Some who))"
| "after_flock E t who v wait Sleeps = (StillWaits, t)"
| "after_flock E t who v wait (Fails err) =
     (if err = EWouldBlock \<and> \<not> wait then HeldElsewhere
      else TakeErr [''flock '' @ lock_path v @ '': '' @ errno_text E err], t)"

definition take_lock :: "lock_env \<Rightarrow> lock_table \<Rightarrow> nat \<Rightarrow> vmid \<Rightarrow> bool \<Rightarrow> took \<times> lock_table" where
  "take_lock E t who v wait =
     (case le_mkdir E of
        Some e \<Rightarrow> (TakeErr [''cannot create '' @ lock_dir, e], t)
      | None \<Rightarrow>
          (case le_create E of
             Some e \<Rightarrow> (TakeErr [''cannot open '' @ lock_path v, e], t)
           | None \<Rightarrow> after_flock E t who v wait (flock E t who (lock_path v) (\<not> wait))))"

text \<open>The call that waits, when it is answered.\<close>

definition resume_lock :: "lock_env \<Rightarrow> lock_table \<Rightarrow> nat \<Rightarrow> vmid \<Rightarrow> took \<times> lock_table" where
  "resume_lock E t who v = after_flock E t who v True (flock E t who (lock_path v) False)"

text \<open>Dropping the guard closes its file.\<close>

definition drop_lock :: "lock_table \<Rightarrow> nat \<Rightarrow> lock_table" where
  "drop_lock t who = (\<lambda>p. if t p = Some who then None else t p)"

definition lock_holder :: "lock_table \<Rightarrow> vmid \<Rightarrow> nat option" where
  "lock_holder t v = t (lock_path v)"

lemma resume_is_take: "resume_lock E t who v = take_lock (E\<lparr>le_mkdir := None, le_create := None\<rparr>) t who v True"
proof -
  have "errno_text (E\<lparr>le_mkdir := None, le_create := None\<rparr>) = errno_text E" by (rule ext) (rule errno.induct, simp_all)
  then have "after_flock (E\<lparr>le_mkdir := None, le_create := None\<rparr>) t who v True a = after_flock E t who v True a" for a
    by (cases a) simp_all
  then show ?thesis by (simp add: resume_lock_def take_lock_def flock_def)
qed

lemma lock_path_inj: "lock_path u = lock_path v \<longleftrightarrow> u = v"
  by (simp add: lock_path_def show_vmid_inj)

section \<open>The interface\<close>

text \<open>What the processes rely on of a lock: it is given to a caller only when nobody else has it, it is the
  caller's then, no other lock changes hands, and only its holder gives it up.\<close>

locale exclusive_lock =
  fixes acquire :: "'e \<Rightarrow> 't \<Rightarrow> nat \<Rightarrow> 'v \<Rightarrow> bool \<Rightarrow> took \<times> 't"
    and release :: "'t \<Rightarrow> nat \<Rightarrow> 't"
    and holder :: "'t \<Rightarrow> 'v \<Rightarrow> nat option"
  assumes acquire_granted: "acquire E t who v wait = (Took, t') \<Longrightarrow>
      (holder t v = None \<or> holder t v = Some who) \<and> holder t' v = Some who \<and> (\<forall>u. u \<noteq> v \<longrightarrow> holder t' u = holder t u)"
    and acquire_refused: "acquire E t who v wait = (r, t') \<Longrightarrow> r \<noteq> Took \<Longrightarrow> t' = t"
    and release_holder: "holder (release t who) u = (if holder t u = Some who then None else holder t u)"
begin

text \<open>The processes that are in their turn, and the table that says the same.\<close>

definition agrees :: "(nat \<Rightarrow> 'v option) \<Rightarrow> 't \<Rightarrow> bool" where
  "agrees inside t \<longleftrightarrow> (\<forall>p v. inside p = Some v \<longleftrightarrow> holder t v = Some p)"

lemma agrees_exclusive: "agrees inside t \<Longrightarrow> inside p = Some v \<Longrightarrow> inside q = Some v \<Longrightarrow> p = q"
  by (auto simp: agrees_def)

lemma agrees_acquire:
  assumes "agrees inside t" "inside p = None" "acquire E t p v wait = (r, t')"
  shows "agrees (inside(p := if r = Took then Some v else None)) t'"
proof (cases "r = Took")
  case True
  with assms(3) have g: "(holder t v = None \<or> holder t v = Some p)" "holder t' v = Some p" "\<forall>u. u \<noteq> v \<longrightarrow> holder t' u = holder t u"
    using acquire_granted [of E t p v wait t'] by auto
  have none: "holder t u \<noteq> Some p" for u using assms(1,2) unfolding agrees_def by (metis option.distinct(1))
  with g(1) have "holder t v = None" by blast
  have "(inside(p := Some v)) q = Some u \<longleftrightarrow> holder t' u = Some q" for q u
    using assms(1) g none unfolding agrees_def
    by (cases "u = v"; cases "q = p") auto
  with True show ?thesis by (simp add: agrees_def)
next
  case False
  with assms show ?thesis using acquire_refused [OF assms(3)] by (simp add: agrees_def fun_upd_idem)
qed

lemma agrees_release: "agrees inside t \<Longrightarrow> agrees (inside(p := None)) (release t p)"
  by (auto simp: agrees_def release_holder)

lemma other_turn_refuses:
  "agrees inside t \<Longrightarrow> inside q = Some v \<Longrightarrow> q \<noteq> p \<Longrightarrow> acquire E t p v wait = (r, t') \<Longrightarrow> r \<noteq> Took"
  using acquire_granted by (fastforce simp: agrees_def)

end

interpretation guest_lock: exclusive_lock take_lock drop_lock lock_holder
proof
  fix E t who v wait t'
  assume "take_lock E t who v wait = (Took, t')"
  then show "(lock_holder t v = None \<or> lock_holder t v = Some who) \<and> lock_holder t' v = Some who
    \<and> (\<forall>u. u \<noteq> v \<longrightarrow> lock_holder t' u = lock_holder t u)"
    by (auto simp: take_lock_def flock_def lock_holder_def lock_path_inj split: option.splits if_splits)
next
  fix E t who v wait r t'
  assume "take_lock E t who v wait = (r, t')" "r \<noteq> Took"
  then show "t' = t" by (auto simp: take_lock_def flock_def split: option.splits if_splits)
qed (simp add: lock_holder_def drop_lock_def)

section \<open>A sync, call by call\<close>

datatype phase =
    AtRead
  | AtProbe manifest "string option"
  | AtCommit inspection
  | AtManifest inspection "outcome list" manifest
  | Ended "anyhow + report"

definition ended_with :: "inspection \<Rightarrow> outcome list \<Rightarrow> manifest \<Rightarrow> phase" where
  "ended_with ins os m =
     Ended (Inr \<lparr>rp_items = report_rows (pl_items (ins_plan ins)) os, rp_warning = ins_warning ins,
                 rp_has_records = (\<not> manifest_is_empty m)\<rparr>)"

definition after_commit :: "gf_libs \<Rightarrow> inspection \<Rightarrow> outcome list \<Rightarrow> phase" where
  "after_commit G ins os =
     (let old = ins_manifest ins; after = manifest_after G (ins_plan ins) old (map (\<lambda>x. x = Done) os) in
      if after = old then ended_with ins os old else AtManifest ins os after)"

definition after_probe :: "gf_libs \<Rightarrow> guest_files \<Rightarrow> bool \<Rightarrow> manifest \<Rightarrow> string option \<Rightarrow> probe \<Rightarrow> phase" where
  "after_probe G f force m w pb =
     (let ins = \<lparr>ins_plan = plan_sync f m pb force, ins_manifest = m, ins_warning = w\<rparr> in
      if \<not> changes (ins_plan ins) m then ended_with ins [] m
      else if pl_ops (ins_plan ins) = [] then after_commit G ins []
      else AtCommit ins)"

definition or_ended :: "('a \<Rightarrow> phase) \<Rightarrow> (anyhow + 'a) \<times> 'g \<Rightarrow> phase \<times> 'g" where
  "or_ended k rg = (case rg of (Inl e, g) \<Rightarrow> (Ended (Inl e), g) | (Inr x, g) \<Rightarrow> (k x, g))"

text \<open>One call of the guest and what is decided on its answer.\<close>

fun sync_call :: "gf_libs \<Rightarrow> 'g guest_ops \<Rightarrow> guest_files \<Rightarrow> bool \<Rightarrow> phase \<times> 'g \<Rightarrow> phase \<times> 'g" where
  "sync_call G ops f force (AtRead, g) =
     or_ended (\<lambda>bytes.
         case read_manifest G bytes of (m, w) \<Rightarrow>
           if wants_files f \<or> \<not> manifest_is_empty m then AtProbe m w else after_probe G f force m w [])
       (go_read ops manifest_path manifest_max_bytes g)"
| "sync_call G ops f force (AtProbe m w, g) = or_ended (after_probe G f force m w) (go_probe ops (probe_paths f m) g)"
| "sync_call G ops f force (AtCommit ins, g) =
     or_ended (after_commit G ins) (go_commit ops (pl_dirs (ins_plan ins)) (pl_ops (ins_plan ins)) g)"
| "sync_call G ops f force (AtManifest ins os m, g) =
     or_ended (\<lambda>_. ended_with ins os m) (write_manifest G ops (ins_plan ins) m g)"
| "sync_call G ops f force (Ended r, g) = (Ended r, g)"

definition calls :: "gf_libs \<Rightarrow> 'g guest_ops \<Rightarrow> guest_files \<Rightarrow> bool \<Rightarrow> nat \<Rightarrow> phase \<times> 'g \<Rightarrow> phase \<times> 'g" where
  "calls G ops f force n = (sync_call G ops f force ^^ n)"

lemma calls_Suc: "calls G ops f force (Suc n) x = calls G ops f force n (sync_call G ops f force x)"
  by (simp add: calls_def funpow_swap1)

lemma calls_0 [simp]: "calls G ops f force 0 x = x"
  by (simp add: calls_def)

lemma calls_ended [simp]: "calls G ops f force n (Ended r, g) = (Ended r, g)"
  by (induction n) (simp_all add: calls_Suc)

lemma calls_next: "calls G ops f force (Suc n) x = sync_call G ops f force (calls G ops f force n x)"
  by (simp add: calls_def)

text \<open>The end of a sync in terms of what it carried out.\<close>

definition finish :: "inspection \<Rightarrow> (anyhow + outcome list \<times> manifest) \<times> 'g \<Rightarrow> phase \<times> 'g" where
  "finish ins = or_ended (\<lambda>(os, m). ended_with ins os m)"

lemma finish_simps [simp]:
  "finish ins (Inl e, g) = (Ended (Inl e), g)" "finish ins (Inr (os, m), g) = (ended_with ins os m, g)"
  by (simp_all add: finish_def or_ended_def)

definition commit_rest :: "gf_libs \<Rightarrow> 'g guest_ops \<Rightarrow> inspection \<Rightarrow> outcome list \<Rightarrow> 'g \<Rightarrow> (anyhow + outcome list \<times> manifest) \<times> 'g" where
  "commit_rest G ops ins os =
     (let old = ins_manifest ins; after = manifest_after G (ins_plan ins) old (map (\<lambda>x. x = Done) os) in
      if after = old then lift_res (Inr (os, old))
      else then_do (write_manifest G ops (ins_plan ins) after) (\<lambda>_. lift_res (Inr (os, after))))"

lemma carry_out_rest:
  "carry_out G ops ins g =
    (if \<not> changes (ins_plan ins) (ins_manifest ins) then (Inr ([], ins_manifest ins), g)
     else if pl_ops (ins_plan ins) = [] then commit_rest G ops ins [] g
     else then_do (go_commit ops (pl_dirs (ins_plan ins)) (pl_ops (ins_plan ins))) (commit_rest G ops ins) g)"
  by (simp add: carry_out_def commit_rest_def [abs_def] Let_def lift_res_def then_do_def)

lemma calls_after_commit: "calls G ops f force (Suc n) (after_commit G ins os, g) = finish ins (commit_rest G ops ins os g)"
  by (auto simp: after_commit_def commit_rest_def Let_def lift_res_def ended_with_def then_do_def or_ended_def calls_Suc
      split: prod.splits sum.splits)

lemma calls_after_probe:
  assumes "ins = \<lparr>ins_plan = plan_sync f m pb force, ins_manifest = m, ins_warning = w\<rparr>"
  shows "calls G ops f force (Suc (Suc n)) (after_probe G f force m w pb, g) = finish ins (carry_out G ops ins g)"
proof -
  have "calls G ops f force (Suc (Suc n)) (AtCommit ins, g)
    = finish ins (then_do (go_commit ops (pl_dirs (ins_plan ins)) (pl_ops (ins_plan ins))) (commit_rest G ops ins) g)"
    unfolding calls_Suc [of _ _ _ _ "Suc n"]
    by (auto simp: or_ended_def then_do_def calls_after_commit split: prod.splits sum.splits)
  then show ?thesis
    using assms by (auto simp: after_probe_def Let_def carry_out_rest calls_after_commit ended_with_def)
qed

lemma sync_finish:
  assumes "inspect G ops f force g = (Inr ins, g')" "carry_out G ops ins g' = rg"
  shows "finish ins rg = (Ended (fst (sync G ops f force g)), snd (sync G ops f force g))"
  using assms by (cases rg) (auto simp: sync_def then_do_def lift_res_def ended_with_def finish_def or_ended_def split: sum.splits)

text \<open>At most four calls are a whole sync.\<close>

lemma calls_sync: "calls G ops f force 4 (AtRead, g) = (Ended (fst (sync G ops f force g)), snd (sync G ops f force g))"
proof (cases "go_read ops manifest_path manifest_max_bytes g")
  case (Pair r g1)
  have four: "calls G ops f force 4 x = calls G ops f force (Suc (Suc (Suc 0))) (sync_call G ops f force x)" for x :: "phase \<times> 'a"
    using calls_Suc [of G ops f force 3 x] by (simp add: numeral_3_eq_3 [symmetric])
  show ?thesis
  proof (cases r)
    case (Inl e)
    with Pair show ?thesis by (simp add: four or_ended_def sync_def inspect_def then_do_def)
  next
    case (Inr b)
    obtain m w where m: "read_manifest G b = (m, w)" by fastforce
    let ?ins = "\<lambda>pb. \<lparr>ins_plan = plan_sync f m pb force, ins_manifest = m, ins_warning = w\<rparr>"
    show ?thesis
    proof (cases "wants_files f \<or> \<not> manifest_is_empty m")
      case False
      with Pair Inr m have "inspect G ops f force g = (Inr (?ins []), g1)" by (simp add: inspect_def lift_res_def then_do_def)
      from sync_finish [OF this refl] False Pair Inr m show ?thesis
        by (simp add: four or_ended_def calls_after_probe [OF refl])
    next
      case True
      then show ?thesis
      proof (cases "go_probe ops (probe_paths f m) g1")
        case (Pair rp g2)
        with True \<open>go_read _ _ _ g = _\<close> Inr m have four': "calls G ops f force 4 (AtRead, g)
            = calls G ops f force (Suc (Suc 0)) (or_ended (after_probe G f force m w) (rp, g2))"
          by (simp add: four or_ended_def calls_Suc [of _ _ _ _ "Suc (Suc 0)"])
        show ?thesis
        proof (cases rp)
          case (Inl e)
          with four' Pair True \<open>go_read _ _ _ g = _\<close> Inr m show ?thesis
            by (simp add: or_ended_def sync_def inspect_def then_do_def)
        next
          case rp: (Inr pb)
          with Pair True \<open>go_read _ _ _ g = _\<close> Inr m have "inspect G ops f force g = (Inr (?ins pb), g2)"
            by (simp add: inspect_def lift_res_def then_do_def)
          from sync_finish [OF this refl] four' rp show ?thesis by (simp add: or_ended_def calls_after_probe [OF refl])
        qed
      qed
    qed
  qed
qed

section \<open>Processes\<close>

text \<open>A process that syncs a guest: outside, waiting for the lock, or in its turn with a sync underway.\<close>

datatype proc =
    Outside
  | WaitsFor vmid guest_files bool
  | InTurn vmid guest_files bool phase

record turn =
  tu_files :: guest_files
  tu_force :: bool
  tu_result :: "anyhow + report"

record system =
  sy_guests :: "vmid \<Rightarrow> guest"
  sy_locks :: lock_table
  sy_procs :: "nat \<Rightarrow> proc"
  sy_turns :: "(vmid \<times> turn) list"

text \<open>The callers: a sync run by hand waits for the lock, the daemon does not; with the lock the sync
  begins, without it the process goes on without one.\<close>

definition after_take :: "vmid \<Rightarrow> guest_files \<Rightarrow> bool \<Rightarrow> took \<Rightarrow> proc" where
  "after_take v f force r =
     (case r of Took \<Rightarrow> InTurn v f force AtRead | StillWaits \<Rightarrow> WaitsFor v f force | _ \<Rightarrow> Outside)"

text \<open>Any process may ask, be given or refused the lock it waits for, make the next call of its sync, or end
  and drop the lock, in any order; guests change by themselves as their own schedule says.\<close>

inductive sys_step :: "gf_libs \<Rightarrow> system \<Rightarrow> system \<Rightarrow> bool" for G where
  asks: "sy_procs S p = Outside \<Longrightarrow> take_lock E (sy_locks S) p v wait = (r, t) \<Longrightarrow>
    sys_step G S (S\<lparr>sy_locks := t, sy_procs := (sy_procs S)(p := after_take v f force r)\<rparr>)"
| woken: "sy_procs S p = WaitsFor v f force \<Longrightarrow> resume_lock E (sy_locks S) p v = (r, t) \<Longrightarrow>
    sys_step G S (S\<lparr>sy_locks := t, sy_procs := (sy_procs S)(p := after_take v f force r)\<rparr>)"
| one_call: "sy_procs S p = InTurn v f force ph \<Longrightarrow> sync_call G (pct_ops G v) f force (ph, sy_guests S v) = (ph', g') \<Longrightarrow>
    sys_step G S (S\<lparr>sy_guests := (sy_guests S)(v := g'), sy_procs := (sy_procs S)(p := InTurn v f force ph')\<rparr>)"
| leaves: "sy_procs S p = InTurn v f force (Ended r) \<Longrightarrow>
    sys_step G S (S\<lparr>sy_locks := drop_lock (sy_locks S) p, sy_procs := (sy_procs S)(p := Outside),
      sy_turns := sy_turns S @ [(v, \<lparr>tu_files = f, tu_force = force, tu_result = r\<rparr>)]\<rparr>)"

inductive sys_reach :: "gf_libs \<Rightarrow> system \<Rightarrow> system \<Rightarrow> bool" for G where
  here: "sys_reach G S S"
| further: "sys_reach G S T \<Longrightarrow> sys_step G T U \<Longrightarrow> sys_reach G S U"

inductive_cases sys_step_elim: "sys_step G S T"

definition all_outside :: "(vmid \<Rightarrow> guest) \<Rightarrow> system" where
  "all_outside gs = \<lparr>sy_guests = gs, sy_locks = (\<lambda>_. None), sy_procs = (\<lambda>_. Outside), sy_turns = []\<rparr>"

text \<open>The same turns taken one after the other, each a whole sync: the guest they lead to, if the results are
  the recorded ones.\<close>

fun one_by_one :: "gf_libs \<Rightarrow> vmid \<Rightarrow> turn list \<Rightarrow> guest \<Rightarrow> guest option" where
  "one_by_one G v [] g = Some g"
| "one_by_one G v (t # ts) g =
     (case sync G (pct_ops G v) (tu_files t) (tu_force t) g of
        (r, g') \<Rightarrow> if r = tu_result t then one_by_one G v ts g' else None)"

definition turns_of :: "system \<Rightarrow> vmid \<Rightarrow> turn list" where
  "turns_of S v = map snd (filter (\<lambda>(u, _). u = v) (sy_turns S))"

definition in_turn :: "system \<Rightarrow> nat \<Rightarrow> vmid option" where
  "in_turn S p = (case sy_procs S p of InTurn v _ _ _ \<Rightarrow> Some v | _ \<Rightarrow> None)"

lemma one_by_one_append: "one_by_one G v (ts @ [t]) g =
  Option.bind (one_by_one G v ts g) (one_by_one G v [t])"
  by (induction ts arbitrary: g) (simp_all add: split: prod.splits)

text \<open>The invariant: the table says who is in turn, and a guest is as the ended turns left it, with the calls
  made so far of the sync that is underway.\<close>

definition underway :: "gf_libs \<Rightarrow> system \<Rightarrow> nat \<Rightarrow> guest \<Rightarrow> bool" where
  "underway G S p g \<longleftrightarrow> (\<forall>v f force ph. sy_procs S p = InTurn v f force ph \<longrightarrow>
     (\<exists>n. calls G (pct_ops G v) f force n (AtRead, g) = (ph, sy_guests S v)))"

definition serial :: "gf_libs \<Rightarrow> (vmid \<Rightarrow> guest) \<Rightarrow> system \<Rightarrow> bool" where
  "serial G gs S \<longleftrightarrow> guest_lock.agrees (in_turn S) (sy_locks S)
     \<and> (\<forall>v. \<exists>g. one_by_one G v (turns_of S v) (gs v) = Some g
          \<and> (v \<notin> ran (in_turn S) \<longrightarrow> sy_guests S v = g)
          \<and> (\<forall>p. in_turn S p = Some v \<longrightarrow> underway G S p g))"

lemma in_turn_upd [simp]:
  "in_turn (S\<lparr>sy_locks := t, sy_procs := (sy_procs S)(p := q), sy_turns := ts\<rparr>) = (in_turn S)(p := case q of InTurn v _ _ _ \<Rightarrow> Some v | _ \<Rightarrow> None)"
  "in_turn (S\<lparr>sy_locks := t, sy_procs := (sy_procs S)(p := q)\<rparr>) = (in_turn S)(p := case q of InTurn v _ _ _ \<Rightarrow> Some v | _ \<Rightarrow> None)"
  "in_turn (S\<lparr>sy_guests := gs, sy_procs := (sy_procs S)(p := q)\<rparr>) = (in_turn S)(p := case q of InTurn v _ _ _ \<Rightarrow> Some v | _ \<Rightarrow> None)"
  by (auto simp: in_turn_def fun_eq_iff)

lemma calls_ended_sync:
  assumes "calls G ops f force n (AtRead, g) = (Ended r, g')"
  shows "sync G ops f force g = (r, g')"
proof -
  have "calls G ops f force (4 + n) (AtRead, g) = calls G ops f force n (calls G ops f force 4 (AtRead, g))"
    by (simp add: calls_def add.commute [of 4] funpow_add)
  moreover have "calls G ops f force (4 + n) (AtRead, g) = calls G ops f force 4 (calls G ops f force n (AtRead, g))"
    by (simp add: calls_def funpow_add)
  ultimately show ?thesis using assms by (simp add: calls_sync prod_eq_iff)
qed

lemma serial_take:
  assumes "serial G gs S" "in_turn S p = None" "take_lock E (sy_locks S) p v wait = (r, t)"
  shows "serial G gs (S\<lparr>sy_locks := t, sy_procs := (sy_procs S)(p := after_take v f force r)\<rparr>)" (is "serial G gs ?S")
proof -
  have ag: "guest_lock.agrees (in_turn S) (sy_locks S)" using assms(1) by (simp add: serial_def)
  have it: "in_turn ?S = (in_turn S)(p := if r = Took then Some v else None)"
    by (cases r) (simp_all add: after_take_def)
  have free: "v \<notin> ran (in_turn S)" if "r = Took"
    using guest_lock.other_turn_refuses [OF ag _ _ assms(3)] that assms(2) unfolding ran_def mem_Collect_eq
    by (metis option.distinct(1))
  have "\<exists>g. one_by_one G u (turns_of ?S u) (gs u) = Some g \<and> (u \<notin> ran (in_turn ?S) \<longrightarrow> sy_guests ?S u = g)
          \<and> (\<forall>q. in_turn ?S q = Some u \<longrightarrow> underway G ?S q g)" for u
  proof -
    from assms(1) obtain g where g: "one_by_one G u (turns_of S u) (gs u) = Some g" "u \<notin> ran (in_turn S) \<longrightarrow> sy_guests S u = g"
      "\<forall>q. in_turn S q = Some u \<longrightarrow> underway G S q g" by (auto simp: serial_def)
    have "ran (in_turn S) \<subseteq> ran (in_turn ?S)" unfolding it using assms(2)
      by (cases "r = Took") (auto simp: fun_upd_idem)
    moreover have "underway G ?S q g" if "in_turn ?S q = Some u" for q
    proof (cases "q = p")
      case True
      then have "r = Took" "u = v" using that unfolding it by (simp_all split: if_splits)
      with free g(2) True show ?thesis by (auto simp: underway_def after_take_def intro: exI [of _ 0])
    next
      case False
      with that it g(3) show ?thesis by (simp add: underway_def)
    qed
    ultimately show ?thesis using g by (auto simp: turns_of_def)
  qed
  moreover have "guest_lock.agrees (in_turn ?S) (sy_locks ?S)"
    using guest_lock.agrees_acquire [OF ag assms(2,3)] it by simp
  ultimately show ?thesis by (simp add: serial_def)
qed

lemma serial_call:
  assumes "serial G gs S" "sy_procs S p = InTurn v f force ph" "sync_call G (pct_ops G v) f force (ph, sy_guests S v) = (ph', g')"
  shows "serial G gs (S\<lparr>sy_guests := (sy_guests S)(v := g'), sy_procs := (sy_procs S)(p := InTurn v f force ph')\<rparr>)"
    (is "serial G gs ?S")
proof -
  have ag: "guest_lock.agrees (in_turn S) (sy_locks S)" using assms(1) by (simp add: serial_def)
  have pv: "in_turn S p = Some v" using assms(2) by (simp add: in_turn_def)
  then have it: "in_turn ?S = in_turn S" by (simp add: fun_upd_idem)
  have only: "q = p" if "in_turn S q = Some v" for q using guest_lock.agrees_exclusive [OF ag that pv] .
  have "\<exists>g. one_by_one G u (turns_of ?S u) (gs u) = Some g \<and> (u \<notin> ran (in_turn ?S) \<longrightarrow> sy_guests ?S u = g)
          \<and> (\<forall>q. in_turn ?S q = Some u \<longrightarrow> underway G ?S q g)" for u
  proof -
    from assms(1) obtain g where g: "one_by_one G u (turns_of S u) (gs u) = Some g" "u \<notin> ran (in_turn S) \<longrightarrow> sy_guests S u = g"
      "\<forall>q. in_turn S q = Some u \<longrightarrow> underway G S q g" by (auto simp: serial_def)
    have "underway G ?S q g" if q: "in_turn S q = Some u" for q
    proof (cases "u = v")
      case True
      with q only have "q = p" by simp
      moreover have "underway G S p g" using g(3) q \<open>q = p\<close> by blast
      with assms(2) obtain n where "calls G (pct_ops G v) f force n (AtRead, g) = (ph, sy_guests S v)"
        by (auto simp: underway_def)
      then have "calls G (pct_ops G v) f force (Suc n) (AtRead, g) = (ph', g')" using assms(3) by (simp add: calls_next)
      ultimately show ?thesis by (auto simp: underway_def)
    next
      case False
      with q pv have "q \<noteq> p" by auto
      with g(3) q False show ?thesis by (auto simp: underway_def in_turn_def)
    qed
    moreover have "u \<notin> ran (in_turn S) \<Longrightarrow> u \<noteq> v" using pv by (auto simp: ran_def)
    ultimately show ?thesis using g(1,2) unfolding it by (auto simp: turns_of_def)
  qed
  with ag it show ?thesis by (simp add: serial_def)
qed

lemma serial_leave:
  assumes "serial G gs S" "sy_procs S p = InTurn v f force (Ended r)"
  shows "serial G gs (S\<lparr>sy_locks := drop_lock (sy_locks S) p, sy_procs := (sy_procs S)(p := Outside),
      sy_turns := sy_turns S @ [(v, \<lparr>tu_files = f, tu_force = force, tu_result = r\<rparr>)]\<rparr>)" (is "serial G gs ?S")
proof -
  have ag: "guest_lock.agrees (in_turn S) (sy_locks S)" using assms(1) by (simp add: serial_def)
  have pv: "in_turn S p = Some v" using assms(2) by (simp add: in_turn_def)
  have it: "in_turn ?S = (in_turn S)(p := None)" by simp
  have "\<exists>g. one_by_one G u (turns_of ?S u) (gs u) = Some g \<and> (u \<notin> ran (in_turn ?S) \<longrightarrow> sy_guests ?S u = g)
          \<and> (\<forall>q. in_turn ?S q = Some u \<longrightarrow> underway G ?S q g)" for u
  proof -
    from assms(1) obtain g where g: "one_by_one G u (turns_of S u) (gs u) = Some g" "u \<notin> ran (in_turn S) \<longrightarrow> sy_guests S u = g"
      "\<forall>q. in_turn S q = Some u \<longrightarrow> underway G S q g" by (auto simp: serial_def)
    show ?thesis
    proof (cases "u = v")
      case True
      with g(3) pv assms(2) obtain n where "calls G (pct_ops G v) f force n (AtRead, g) = (Ended r, sy_guests S v)"
        by (fastforce simp: underway_def)
      from calls_ended_sync [OF this] g(1) True have "one_by_one G u (turns_of ?S u) (gs u) = Some (sy_guests S v)"
        by (simp add: turns_of_def one_by_one_append)
      moreover have "in_turn ?S q \<noteq> Some u" for q using guest_lock.agrees_exclusive [OF ag _ pv] True it by auto
      ultimately show ?thesis using True by auto
    next
      case False
      then have "turns_of ?S u = turns_of S u" by (simp add: turns_of_def)
      moreover have "u \<notin> ran (in_turn ?S) \<Longrightarrow> u \<notin> ran (in_turn S)"
        using False pv unfolding it ran_def by (auto split: if_splits) (metis option.inject)
      moreover have "underway G ?S q g" if "in_turn ?S q = Some u" for q
        using that g(3) by (auto simp: underway_def split: if_splits)
      ultimately show ?thesis using g by auto
    qed
  qed
  moreover have "guest_lock.agrees (in_turn ?S) (sy_locks ?S)" using guest_lock.agrees_release [OF ag] it by simp
  ultimately show ?thesis by (simp add: serial_def)
qed

lemma serial_step: "sys_step G S T \<Longrightarrow> serial G gs S \<Longrightarrow> serial G gs T"
  by (cases rule: sys_step.cases, assumption)
    (auto simp: resume_is_take in_turn_def intro: serial_take serial_call serial_leave)

lemma serial_reach: "sys_reach G S T \<Longrightarrow> serial G gs S \<Longrightarrow> serial G gs T"
  by (induction rule: sys_reach.induct) (auto intro: serial_step)

lemma serial_start: "serial G gs (all_outside gs)"
  by (simp add: serial_def all_outside_def in_turn_def [abs_def] turns_of_def guest_lock.agrees_def lock_holder_def)

lemma free_lock: "le_mkdir E = None \<Longrightarrow> le_create E = None \<Longrightarrow> le_flock E = None \<Longrightarrow> lock_holder t v = None \<Longrightarrow>
  take_lock E t p v wait = (Took, t(lock_path v := Some p))"
  by (simp add: take_lock_def flock_def lock_holder_def)

lemma sys_reach_trans: "sys_reach G T U \<Longrightarrow> sys_reach G S T \<Longrightarrow> sys_reach G S U"
  by (induction rule: sys_reach.induct) (auto intro: sys_reach.further)

lemma reach_calls:
  "sy_procs S p = InTurn v f force ph \<Longrightarrow> calls G (pct_ops G v) f force n (ph, sy_guests S v) = (ph', g') \<Longrightarrow>
   sys_reach G S (S\<lparr>sy_guests := (sy_guests S)(v := g'), sy_procs := (sy_procs S)(p := InTurn v f force ph')\<rparr>)"
proof (induction n arbitrary: ph' g')
  case 0
  then have "S\<lparr>sy_guests := (sy_guests S)(v := g'), sy_procs := (sy_procs S)(p := InTurn v f force ph')\<rparr> = S" by (cases S) auto
  then show ?case by (metis sys_reach.here)
next
  case (Suc n)
  obtain ph1 g1 where c: "calls G (pct_ops G v) f force n (ph, sy_guests S v) = (ph1, g1)" by fastforce
  let ?T = "S\<lparr>sy_guests := (sy_guests S)(v := g1), sy_procs := (sy_procs S)(p := InTurn v f force ph1)\<rparr>"
  have "sync_call G (pct_ops G v) f force (ph1, g1) = (ph', g')" using Suc.prems(2) c by (simp add: calls_next)
  then have "sys_step G ?T (?T\<lparr>sy_guests := (sy_guests ?T)(v := g'), sy_procs := (sy_procs ?T)(p := InTurn v f force ph')\<rparr>)"
    by (intro sys_step.one_call [where ph = ph1]) simp_all
  moreover have "?T\<lparr>sy_guests := (sy_guests ?T)(v := g'), sy_procs := (sy_procs ?T)(p := InTurn v f force ph')\<rparr>
    = S\<lparr>sy_guests := (sy_guests S)(v := g'), sy_procs := (sy_procs S)(p := InTurn v f force ph')\<rparr>" by simp
  ultimately show ?case using sys_reach.further [OF Suc.IH [OF Suc.prems(1) c]] by metis
qed

text \<open>A process that finds the lock free can go through its whole turn.\<close>

lemma turn_possible:
  assumes "sy_procs S p = Outside" "lock_holder (sy_locks S) v = None"
  shows "\<exists>T. sys_reach G S T \<and> sy_procs T = sy_procs S \<and> sy_guests T v = snd (sync G (pct_ops G v) f force (sy_guests S v))
    \<and> sy_turns T = sy_turns S @ [(v, \<lparr>tu_files = f, tu_force = force, tu_result = fst (sync G (pct_ops G v) f force (sy_guests S v))\<rparr>)]
    \<and> lock_holder (sy_locks T) v = None"
proof -
  let ?E = "\<lparr>le_mkdir = None, le_create = None, le_flock = None, le_busy_text = []\<rparr>"
  let ?r = "fst (sync G (pct_ops G v) f force (sy_guests S v))" and ?g = "snd (sync G (pct_ops G v) f force (sy_guests S v))"
  let ?A = "S\<lparr>sy_locks := (sy_locks S)(lock_path v := Some p), sy_procs := (sy_procs S)(p := after_take v f force Took)\<rparr>"
  let ?B = "?A\<lparr>sy_guests := (sy_guests ?A)(v := ?g), sy_procs := (sy_procs ?A)(p := InTurn v f force (Ended ?r))\<rparr>"
  let ?C = "?B\<lparr>sy_locks := drop_lock (sy_locks ?B) p, sy_procs := (sy_procs ?B)(p := Outside),
      sy_turns := sy_turns ?B @ [(v, \<lparr>tu_files = f, tu_force = force, tu_result = ?r\<rparr>)]\<rparr>"
  have "sys_step G S ?A" using assms by (intro sys_step.asks [where E = ?E and wait = False] free_lock) simp_all
  moreover have "sys_reach G ?A ?B" using calls_sync by (intro reach_calls [where ph = AtRead]) (simp_all add: after_take_def)
  moreover have "sys_step G ?B ?C" by (intro sys_step.leaves) simp
  ultimately have "sys_reach G S ?C" by (blast intro: sys_reach.intros sys_reach_trans)
  moreover have "lock_holder (drop_lock ((sy_locks S)(lock_path v := Some p)) p) v = None" by (simp add: lock_holder_def drop_lock_def)
  ultimately show ?thesis using assms(1) by (intro exI [of _ ?C]) (simp add: fun_upd_idem)
qed

section \<open>The daemon\<close>

text \<open>The lock as the daemon asks for it, not waiting.\<close>

definition daemon_lock :: "lock_env \<Rightarrow> lock_table \<Rightarrow> nat \<Rightarrow> vmid \<Rightarrow> anyhow + bool" where
  "daemon_lock E t who v =
     (case fst (take_lock E t who v False) of TakeErr e \<Rightarrow> Inl e | Took \<Rightarrow> Inr True | _ \<Rightarrow> Inr False)"

lemma daemon_lock_refused:
  assumes "guest_lock.agrees inside t" "inside q = Some v" "q \<noteq> p" "h_lock h v = daemon_lock E t p v"
  shows "\<exists>d'. daemon_sync G n v active why tm now (d, h) = (False, d', h)"
proof -
  obtain r t' where r: "take_lock E t p v False = (r, t')" by fastforce
  with guest_lock.other_turn_refuses [OF assms(1-3)] have "r \<noteq> Took" by blast
  with r assms(4) have "h_lock h v \<noteq> Inr True" by (auto simp: daemon_lock_def split: took.splits)
  then show ?thesis by (auto simp: daemon_sync_def Let_def split: sum.splits)
qed

section \<open>Properties\<close>

text \<open>C6: The syncs of a guest take turns. Whatever the daemon and any number of syncs run by hand do, and
  however their calls of the guests fall between each other, no two of them are in a sync of the same guest;
  a guest nobody is syncing is exactly as whole syncs one after the other, in the order they ended, make it,
  each with the result its process got; and the daemon leaves a guest alone, without waiting, while another
  process is in its turn.\<close>

theorem syncs_take_turns:
  assumes "sys_reach G (all_outside gs) S"
  shows "(\<forall>v p q. in_turn S p = Some v \<and> in_turn S q = Some v \<longrightarrow> p = q)
    \<and> (\<forall>v. v \<notin> ran (in_turn S) \<longrightarrow> one_by_one G v (turns_of S v) (gs v) = Some (sy_guests S v))
    \<and> (\<forall>v p q E d h n active why tm now. in_turn S q = Some v \<and> q \<noteq> p \<and> h_lock h v = daemon_lock E (sy_locks S) p v \<longrightarrow>
         (\<exists>d'. daemon_sync G n v active why tm now (d, h) = (False, d', h)))"
proof -
  have s: "serial G gs S" using serial_reach [OF assms serial_start] .
  then have ag: "guest_lock.agrees (in_turn S) (sy_locks S)" by (simp add: serial_def)
  have "one_by_one G v (turns_of S v) (gs v) = Some (sy_guests S v)" if "v \<notin> ran (in_turn S)" for v
    using s that by (auto simp: serial_def)
  moreover have "p = q" if "in_turn S p = Some v" "in_turn S q = Some v" for p q v
    using guest_lock.agrees_exclusive [OF ag that] .
  moreover note daemon_lock_refused [OF ag]
  ultimately show ?thesis by (intro conjI allI impI) auto
qed

theorem syncs_take_turns_witness:
  "\<exists>S. length (turns_of S 105) = 2 \<and> one_by_one sample_gf 105 (turns_of S 105) sample_guest = Some (sy_guests S 105)"
proof -
  let ?gs = "\<lambda>_. sample_guest"
  have start: "sy_procs (all_outside ?gs) = (\<lambda>_. Outside)" "lock_holder (sy_locks (all_outside ?gs)) 105 = None"
    "sy_turns (all_outside ?gs) = []" by (simp_all add: all_outside_def lock_holder_def)
  obtain S t where S: "sys_reach sample_gf (all_outside ?gs) S" "sy_procs S = (\<lambda>_. Outside)" "lock_holder (sy_locks S) 105 = None"
    "sy_turns S = [(105, t)]"
    using turn_possible [of "all_outside ?gs" 0 105 sample_gf Nothing False] start by auto
  obtain T u where T: "sys_reach sample_gf S T" "sy_procs T = (\<lambda>_. Outside)" "sy_turns T = [(105, t), (105, u)]"
    using turn_possible [of S 1 105 sample_gf Nothing True] S by auto
  have "105 \<notin> ran (in_turn T)" using T(2) by (simp add: ran_def in_turn_def)
  then have "one_by_one sample_gf 105 (turns_of T 105) sample_guest = Some (sy_guests T 105)"
    using syncs_take_turns [OF sys_reach_trans [OF T(1) S(1)]] by blast
  moreover have "length (turns_of T 105) = 2" using T(3) by (simp add: turns_of_def)
  ultimately show ?thesis by blast
qed

end
