(* ===== verification/Gf_Process.thy ===== *)
theory Gf_Process
  imports Gf_Pct
begin

text \<open>
  Running \<open>pct\<close> (pct.rs: \<open>capped\<close> and \<open>run\<close>): a child process whose output is read by two threads up to a cap
  each, while the caller looks every 20 ms whether a cap was passed, the child has ended or the time is up.
  Times are milliseconds since the start. What the child, its pipes and the clock do is a record of the run;
  a pipe that is never closed is a case of it.
\<close>

section \<open>A child and its pipes\<close>

definition timeout_ms :: nat where "timeout_ms = 120 * 1000"

definition stderr_cap :: nat where "stderr_cap = 64 * 1024"

text \<open>A pipe: what each read of it gives, with the time the reader has it, and when the end or an error is
  read, if ever.\<close>

record pipe =
  pi_chunks :: "(nat \<times> string) list"
  pi_end :: "nat option"

record child =
  ch_spawn :: "string option"
  ch_stdout :: pipe
  ch_stderr :: pipe
  ch_exit :: "(nat \<times> int option) option"
  ch_wait_error :: "nat \<Rightarrow> string option"
  ch_clock :: "nat \<Rightarrow> nat"

text \<open>The loop of the reading thread: the buffer, and whether the cap was passed.\<close>

fun capped :: "nat \<Rightarrow> string list \<Rightarrow> string \<Rightarrow> string \<times> bool" where
  "capped cap [] buf = (buf, False)"
| "capped cap (c # cs) buf = (if length buf + length c > cap then (buf, True) else capped cap cs (buf @ c))"

definition read_by :: "nat \<Rightarrow> pipe \<Rightarrow> string list" where
  "read_by t p = map snd (filter (\<lambda>(s, _). s \<le> t) (pi_chunks p))"

definition passed_by :: "nat \<Rightarrow> nat \<Rightarrow> pipe \<Rightarrow> bool" where
  "passed_by cap t p = snd (capped cap (read_by t p) [])"

text \<open>Joining the thread: it returns when its cap was passed or the pipe has ended, otherwise never.\<close>

definition join_reader :: "nat \<Rightarrow> pipe \<Rightarrow> (string \<times> bool) option" where
  "join_reader cap p =
     (let r = capped cap (map snd (pi_chunks p)) [] in if snd r \<or> pi_end p \<noteq> None then Some r else None)"

definition over_at :: "child \<Rightarrow> nat \<Rightarrow> bool" where
  "over_at c t \<longleftrightarrow> passed_by max_output t (ch_stdout c) \<or> passed_by stderr_cap t (ch_stderr c)"

text \<open>\<open>String::from_utf8_lossy\<close>: every ill-formed part becomes the replacement character.\<close>

definition replacement :: string where "replacement = [CHR 0xEF, CHR 0xBF, CHR 0xBD]"

function from_utf8_lossy :: "string \<Rightarrow> string" where
  "from_utf8_lossy bs =
     (if bs = [] then []
      else case utf8_front bs of
          Good n \<Rightarrow> if n = 0 then [] else take n bs @ from_utf8_lossy (drop n bs)
        | Bad n \<Rightarrow> replacement @ (if n = 0 then [] else from_utf8_lossy (drop n bs))
        | Incomplete \<Rightarrow> replacement)"
  by pat_completeness auto
termination by (relation "measure length") auto

declare from_utf8_lossy.simps [simp del]

section \<open>The supervising loop\<close>

text \<open>What the loop makes of its \<open>i\<close>-th look: nothing yet, or its end, with whether the group was killed.\<close>

definition look :: "child \<Rightarrow> string \<Rightarrow> nat \<Rightarrow> nat \<Rightarrow> (bool \<times> (anyhow + int option)) option" where
  "look c what timeout i =
     (let t = ch_clock c i in
      if over_at c t then Some (True, Inl [what @ '': more output than allowed, killed''])
      else case ch_wait_error c t of
             Some e \<Rightarrow> Some (False, Inl [e])
           | None \<Rightarrow>
               (case ch_exit c of
                  Some (e, st) \<Rightarrow>
                    if e \<le> t then Some (False, Inr st)
                    else if timeout \<le> t then Some (True, Inl [what @ '': no answer after '' @ show_nat (timeout div 1000) @ ''s, killed''])
                    else None
                | None \<Rightarrow>
                    if timeout \<le> t then Some (True, Inl [what @ '': no answer after '' @ show_nat (timeout div 1000) @ ''s, killed''])
                    else None))"

partial_function (option) supervise :: "child \<Rightarrow> string \<Rightarrow> nat \<Rightarrow> nat \<Rightarrow> (bool \<times> (anyhow + int option)) option" where
  "supervise c what timeout i =
     (case look c what timeout i of Some r \<Rightarrow> Some r | None \<Rightarrow> supervise c what timeout (Suc i))"

definition first_or_empty :: "string list \<Rightarrow> string" where
  "first_or_empty xs = (case xs of [] \<Rightarrow> [] | x # _ \<Rightarrow> x)"

definition run_child :: "child \<Rightarrow> string \<Rightarrow> string list \<Rightarrow> nat \<Rightarrow> (bool \<times> (anyhow + pct_output)) option" where
  "run_child c program args timeout =
     (case ch_spawn c of
        Some e \<Rightarrow> Some (False, Inl [''cannot run '' @ program, e])
      | None \<Rightarrow>
          let what = program @ '' '' @ first_or_empty args in
          Option.bind (supervise c what timeout 0) (\<lambda>(killed, r).
          case r of
            Inl e \<Rightarrow> Some (killed, Inl e)
          | Inr st \<Rightarrow>
              Option.bind (join_reader max_output (ch_stdout c)) (\<lambda>(out, over1).
              Option.bind (join_reader stderr_cap (ch_stderr c)) (\<lambda>(err, over2).
              Some (killed,
                if over1 \<or> over2 then Inl [what @ '': more output than allowed'']
                else Inr \<lparr>out_status = unwrap_or (-1) st, out_stdout = out, out_stderr = trim (from_utf8_lossy err)\<rparr>)))))"

section \<open>What comes of a run\<close>

lemma supervise_look:
  "look c what timeout i = Some r \<Longrightarrow> supervise c what timeout i = Some r"
  "look c what timeout i = None \<Longrightarrow> supervise c what timeout i = supervise c what timeout (Suc i)"
  by (subst supervise.simps, simp)+

lemma supervise_skips: "(\<And>j. j < n \<Longrightarrow> look c what timeout j = None) \<Longrightarrow> supervise c what timeout 0 = supervise c what timeout n"
proof (induction n)
  case (Suc n)
  then have "supervise c what timeout 0 = supervise c what timeout n" by simp
  also have "\<dots> = supervise c what timeout (Suc n)" using Suc.prems by (intro supervise_look(2)) simp
  finally show ?case .
qed simp

lemma look_late: "timeout \<le> ch_clock c i \<Longrightarrow> look c what timeout i \<noteq> None"
  by (auto simp: look_def Let_def split: option.splits)

text \<open>The loop ends, with what its last look found.\<close>

lemma supervise_ends:
  assumes "\<And>i. 20 * i \<le> ch_clock c i"
  obtains n r where "n \<le> timeout div 20 + 1" "\<And>j. j < n \<Longrightarrow> look c what timeout j = None"
    "look c what timeout n = Some r" "supervise c what timeout 0 = Some r"
proof -
  let ?stop = "\<lambda>i. look c what timeout i \<noteq> None"
  have "timeout \<le> 20 * (timeout div 20 + 1)" by simp
  also have "\<dots> \<le> ch_clock c (timeout div 20 + 1)" by (rule assms)
  finally have late: "?stop (timeout div 20 + 1)" by (rule look_late)
  define n where "n = (LEAST i. ?stop i)"
  have "?stop n" unfolding n_def using late by (rule LeastI)
  moreover have "n \<le> timeout div 20 + 1" unfolding n_def using late by (rule Least_le)
  moreover have "\<not> ?stop j" if "j < n" for j using that unfolding n_def by (rule not_less_Least)
  ultimately obtain r where n: "look c what timeout n = Some r" "n \<le> timeout div 20 + 1" "\<And>j. j < n \<Longrightarrow> look c what timeout j = None"
    by blast
  show thesis
  proof (rule that)
    show "supervise c what timeout 0 = Some r" using supervise_skips [of n, OF n(3)] supervise_look(1) [OF n(1)] by simp
  qed (use n in auto)
qed

lemma capped_result:
  "length buf \<le> cap \<Longrightarrow>
    (\<not> snd (capped cap cs buf) \<longleftrightarrow> length (buf @ concat cs) \<le> cap)
    \<and> (\<not> snd (capped cap cs buf) \<longrightarrow> fst (capped cap cs buf) = buf @ concat cs) \<and> length (fst (capped cap cs buf)) \<le> cap"
proof (induction cs arbitrary: buf)
  case (Cons c cs)
  show ?case
  proof (cases "length buf + length c > cap")
    case False
    then show ?thesis using Cons.IH [of "buf @ c"] by simp
  qed (use Cons.prems in simp)
qed simp

definition written :: "pipe \<Rightarrow> string" where
  "written p = concat (map snd (pi_chunks p))"

text \<open>A pipe that is held open without anything more coming.\<close>

definition lingers :: "nat \<Rightarrow> pipe \<Rightarrow> bool" where
  "lingers cap p \<longleftrightarrow> pi_end p = None \<and> length (written p) \<le> cap"

lemma join_reader_cases:
  "join_reader cap p = None \<longleftrightarrow> lingers cap p"
  "join_reader cap p = Some (b, False) \<longleftrightarrow> pi_end p \<noteq> None \<and> length (written p) \<le> cap \<and> b = written p"
  using capped_result [of "[]" cap "map snd (pi_chunks p)"]
  by (auto simp: join_reader_def Let_def lingers_def written_def prod_eq_iff)

text \<open>The caller of \<open>pct\<close> has its answer in hand.\<close>

definition exited :: "child \<Rightarrow> string \<Rightarrow> nat \<Rightarrow> int option \<Rightarrow> bool" where
  "exited c what timeout st \<longleftrightarrow> ch_spawn c = None \<and> supervise c what timeout 0 = Some (False, Inr st)"

lemma look_exited: "look c what timeout n = Some (k, Inr st) \<Longrightarrow>
    \<not> k \<and> \<not> over_at c (ch_clock c n) \<and> (\<exists>e. ch_exit c = Some (e, st) \<and> e \<le> ch_clock c n)"
  by (auto simp: look_def Let_def split: if_splits option.splits)

lemma run_child_exited:
  assumes "exited c (program @ '' '' @ first_or_empty args) timeout st"
  shows "run_child c program args timeout =
    (case (join_reader max_output (ch_stdout c), join_reader stderr_cap (ch_stderr c)) of
       (Some (out, False), Some (err, False)) \<Rightarrow>
         Some (False, Inr \<lparr>out_status = unwrap_or (-1) st, out_stdout = out, out_stderr = trim (from_utf8_lossy err)\<rparr>)
     | (Some _, Some _) \<Rightarrow> Some (False, Inl [program @ '' '' @ first_or_empty args @ '': more output than allowed''])
     | _ \<Rightarrow> None)"
  using assms
  by (cases "join_reader max_output (ch_stdout c)"; cases "join_reader stderr_cap (ch_stderr c)")
    (auto simp: run_child_def exited_def Let_def split: bool.splits)

definition complete :: "nat \<Rightarrow> pipe \<Rightarrow> bool" where
  "complete cap p \<longleftrightarrow> pi_end p \<noteq> None \<and> length (written p) \<le> cap"

lemma join_complete:
  "complete cap p \<Longrightarrow> join_reader cap p = Some (written p, False)"
  "\<not> complete cap p \<Longrightarrow> join_reader cap p = None \<or> (\<exists>b. join_reader cap p = Some (b, True))"
  using join_reader_cases(2) [of cap p] by (auto simp: complete_def) (metis (full_types) not_Some_eq surj_pair)+

lemma run_child_output:
  assumes "exited c (program @ '' '' @ first_or_empty args) timeout st"
  shows "run_child c program args timeout = Some (k, Inr out) \<longleftrightarrow>
    \<not> k \<and> complete max_output (ch_stdout c) \<and> complete stderr_cap (ch_stderr c)
    \<and> out_status out = unwrap_or (-1) st \<and> out_stdout out = written (ch_stdout c)
    \<and> out_stderr out = trim (from_utf8_lossy (written (ch_stderr c)))"
proof (cases "complete max_output (ch_stdout c) \<and> complete stderr_cap (ch_stderr c)")
  case True
  then show ?thesis by (cases out) (auto simp: run_child_exited [OF assms] join_complete(1))
next
  case False
  then have "\<not> complete max_output (ch_stdout c) \<or> \<not> complete stderr_cap (ch_stderr c)" by simp
  with join_complete(2) [of max_output "ch_stdout c"] join_complete(2) [of stderr_cap "ch_stderr c"] have "run_child c program args timeout \<noteq> Some (k, Inr out)"
    unfolding run_child_exited [OF assms] by (auto split: option.splits prod.splits bool.splits)
  with False show ?thesis by blast
qed

lemma run_child_not_exited:
  assumes "\<not> (\<exists>st. exited c (program @ '' '' @ first_or_empty args) timeout st)" "\<And>i. 20 * i \<le> ch_clock c i"
  shows "\<exists>k e. run_child c program args timeout = Some (k, Inl e)"
proof (cases "ch_spawn c")
  case None
  obtain n k r where n: "look c (program @ '' '' @ first_or_empty args) timeout n = Some (k, r)"
    "supervise c (program @ '' '' @ first_or_empty args) timeout 0 = Some (k, r)"
    using supervise_ends [OF assms(2)] by (metis surj_pair)
  with None assms(1) have "\<exists>e. r = Inl e" using look_exited by (cases r) (fastforce simp: exited_def)+
  with n None show ?thesis by (auto simp: run_child_def Let_def)
qed (auto simp: run_child_def)

section \<open>Properties\<close>

text \<open>C21: A call of \<open>pct\<close> is bounded. With a clock that moves with the sleeps the supervising loop ends after at
  most one look per 20 ms of the time allowed; the call gives an output exactly when the child was seen to have
  ended by itself and both its pipes ended within their caps, and then the output is all the child wrote, with
  its exit code; and it never returns exactly when the child has ended but something still holds one of the
  pipes open within its cap.\<close>

theorem run_is_bounded:
  assumes "\<And>i. 20 * i \<le> ch_clock c i" and "what = program @ '' '' @ first_or_empty args"
  shows "(\<exists>n r. n \<le> timeout div 20 + 1 \<and> look c what timeout n = Some r \<and> supervise c what timeout 0 = Some r)
    \<and> (\<forall>st. exited c what timeout st \<longrightarrow> (\<exists>t e. ch_exit c = Some (e, st) \<and> e \<le> t \<and> \<not> over_at c t))
    \<and> (\<forall>k out. run_child c program args timeout = Some (k, Inr out) \<longleftrightarrow>
         \<not> k \<and> (\<exists>st. exited c what timeout st \<and> out_status out = unwrap_or (-1) st)
         \<and> pi_end (ch_stdout c) \<noteq> None \<and> length (written (ch_stdout c)) \<le> max_output \<and> out_stdout out = written (ch_stdout c)
         \<and> pi_end (ch_stderr c) \<noteq> None \<and> length (written (ch_stderr c)) \<le> stderr_cap
         \<and> out_stderr out = trim (from_utf8_lossy (written (ch_stderr c))))
    \<and> (run_child c program args timeout = None \<longleftrightarrow>
         (\<exists>st. exited c what timeout st) \<and> (lingers max_output (ch_stdout c) \<or> lingers stderr_cap (ch_stderr c)))"
    (is "?A \<and> ?B \<and> ?C \<and> ?D")
proof (intro conjI)
  show ?A using supervise_ends [OF assms(1)] by metis
  show ?B
  proof (intro allI impI)
    fix st
    assume "exited c what timeout st"
    then have s: "supervise c what timeout 0 = Some (False, Inr st)" by (simp add: exited_def)
    obtain n r where "look c what timeout n = Some r" "supervise c what timeout 0 = Some r" using supervise_ends [OF assms(1)] by metis
    with s look_exited [of c what timeout n False st] show "\<exists>t e. ch_exit c = Some (e, st) \<and> e \<le> t \<and> \<not> over_at c t" by auto
  qed
  show ?C
  proof (cases "\<exists>st. exited c what timeout st")
    case True
    then obtain st where st: "exited c what timeout st" "\<And>st'. exited c what timeout st' \<longleftrightarrow> st' = st" by (auto simp: exited_def)
    show ?thesis unfolding run_child_output [OF st(1) [unfolded assms(2)]] st(2)
      by (auto simp: complete_def)
  next
    case False
    with run_child_not_exited [OF False [unfolded assms(2)] assms(1)] show ?thesis by auto
  qed
  show ?D
  proof (cases "\<exists>st. exited c what timeout st")
    case True
    then obtain st where st: "exited c what timeout st" by blast
    with True show ?thesis unfolding run_child_exited [OF st [unfolded assms(2)]]
      by (auto simp: join_reader_cases(1) [symmetric] split: option.splits prod.splits bool.splits)
  next
    case False
    with run_child_not_exited [OF False [unfolded assms(2)] assms(1)] show ?thesis by auto
  qed
qed

text \<open>A child that ends at once and leaves its standard output with somebody else.\<close>

definition sample_child :: child where
  "sample_child = \<lparr>ch_spawn = None, ch_stdout = \<lparr>pi_chunks = [], pi_end = None\<rparr>, ch_stderr = \<lparr>pi_chunks = [], pi_end = Some 0\<rparr>,
     ch_exit = Some (0, Some 0), ch_wait_error = (\<lambda>_. None), ch_clock = (\<lambda>i. 20 * i)\<rparr>"

theorem run_is_bounded_witness: "run_child sample_child ''pct'' [''exec''] timeout_ms = None"
proof -
  have "supervise sample_child ''pct exec'' timeout_ms 0 = Some (False, Inr (Some 0))"
    by (rule supervise_look(1)) (simp add: look_def sample_child_def over_at_def passed_by_def read_by_def)
  then have "exited sample_child ''pct exec'' timeout_ms (Some 0)" by (simp add: exited_def sample_child_def)
  moreover have "lingers max_output (ch_stdout sample_child)" by (simp add: lingers_def sample_child_def written_def)
  ultimately show ?thesis
    using run_is_bounded [of sample_child "''pct exec''" "''pct''" "[''exec'']" timeout_ms]
    by (simp add: first_or_empty_def sample_child_def) blast
qed

end
