(* ===== verification/Spec2Isabelle.thy ===== *)
theory Spec2Isabelle
  imports Lifecycle Wasm Metaschema Gf_Scripts Gf_Main Gf_Twice Gf_Lock Gf_Process
begin

text \<open>
  \<^bold>\<open>pve-meta\<close> keeps one YAML document of metadata per Proxmox VE guest, and registry files that
  declare which prefixes of a document mean what. This development models the Rust crates
  \<^verbatim>\<open>pve-meta-core\<close> (the store and its API handlers), \<^verbatim>\<open>pve-meta-guest-files\<close> (the daemon
  that writes files out of documents into containers, and its command line), \<^verbatim>\<open>pve-meta-perl\<close> (the hooks
  and entry points Proxmox VE calls) and \<^verbatim>\<open>pve-meta-wasm\<close> (the library of the editor in the browser).
  Paths below are under \<^verbatim>\<open>src/crates/\<close>.

  \<^bold>\<open>How the parts interact.\<close> A request enters an API handler (\<open>Api\<close>), which checks access, reads the
  stored document (\<open>Store\<close>, over the file system of \<open>FileSystem\<close>), plans the new one with the view
  operations (\<open>Views\<close>, on the merge patch of \<open>Patch\<close>), checks it against the lint (\<open>Documents\<close>), the
  shapes (\<open>Shape\<close>) that the prefix files (\<open>Registry\<close>, \<open>Registry_Files\<close>) declare, and writes it back under
  a digest precondition; what happened goes to the log (\<open>Syslog\<close>). \<open>Backup\<close> embeds a document in a
  guest's notes and restores it. Proxmox VE reaches all of this through the Perl package (\<open>Lifecycle\<close>), whose
  hooks follow a guest through snapshots, restores and destruction; the editor asks the same shapes through
  the library in the browser (\<open>Wasm\<close>), on the rows a listing served. On each node the daemon (\<open>Gf_Daemon\<close>) polls the host's files (\<open>Gf_Node\<close>),
  reads the documents of its containers (\<open>Gf_Entry\<close>), and syncs the containers that are due
  (\<open>Gf_Sync\<close>): it reads the manifest inside the guest (\<open>Gf_Manifest\<close>), probes, plans (\<open>Gf_Plan\<close>) and
  commits through shell scripts run by \<^verbatim>\<open>pct exec\<close> (\<open>Gf_Pct\<close>, \<open>Gf_Base64\<close>, \<open>Gf_Process\<close>). The daemon and
  syncs run by hand take turns under a lock per guest (\<open>Gf_Lock\<close>).

  \<^bold>\<open>Theories.\<close>
  \<^item> \<open>Prelude\<close>: results with errors (sums) and their combinators, insertion-ordered maps, the string
    functions of the standard library, UTF-8, numbers and their text. Interfaces: \<open>ordered_map\<close>.
  \<^item> \<open>Core_Types\<close> (error.rs, and the types of format.rs, registry.rs, store.rs), \<open>Paths\<close> (path.rs):
    parsing and printing of dotted paths are inverse on exactly the valid ones.
  \<^item> \<open>Documents\<close> (model.rs): the JSON values, lint and lookup; the lint accepts exactly a declarative
    description. \<open>Tags_Digest\<close> (tags.rs, digest.rs).
  \<^item> \<open>Patch\<close> (patch.rs): the merge patch law key by key, the frame of untouched paths, idempotence,
    preservation of the lint, and that the diff is empty exactly on equal values.
  \<^item> \<open>Formats\<close> (format.rs): the YAML safety scan over parser events, equivalent to a grammar of safe event
    streams. \<open>Views\<close> (view.rs): replace, merge, remove and strip, with their read-back laws.
  \<^item> \<open>Registry\<close>, \<open>Registry_Files\<close> (registry.rs): prefix definitions, the schema dialect, layered directories.
    \<open>Shape\<close> (shape.rs): governing prefixes, schemas, findings. \<open>Metaschema\<close> (metaschema.rs): the format of
    prefix files as a schema; what it says of a file is what the parser does with it.
  \<^item> \<open>FileSystem\<close>: a file system as a map of nodes with faults and torn writes chosen by the environment.
    \<open>Store\<close> (store.rs): reading, atomic writing, digests, snapshots, purge. A write is all or nothing, a
    stale write is refused, an I/O failure is never taken for absence.
  \<^item> \<open>Syslog\<close> and \<open>Api\<close> (lib.rs, api.rs, api/types.rs): the handlers, whole; what a PUT stores, dry runs,
    and that without access there is neither effect nor information.
  \<^item> \<open>Calendar\<close> and \<open>Backup\<close> (backup.rs): the block in the notes, and the time stamp against the Gregorian
    calendar.
  \<^item> \<open>Lifecycle\<close> (pve-meta-perl, and the environment part of registry.rs and store.rs): the hooks and the
    entry points. Metadata does not outlive its guest in any history of events, a restore's marker is taken
    once, and a vmid means the same number in whichever kind of scalar Perl hands it over.
  \<^item> \<open>Wasm\<close> (pve-meta-wasm, and the serializers of a listing's rows): requests, arguments, functions.
    No request panics, the editor's path check agrees with the parser, and on the rows the server lists,
    over the interface \<open>flag_encoding\<close> of the transport, the browser says what the server decides.
  \<^item> \<open>Gf_Prelude\<close>: key-ordered maps (the interfaces \<open>lookup_map\<close> and \<open>sorted_map\<close>), debug texts, lines,
    octal numbers, and the record \<open>gf_libs\<close> of third-party functions.
  \<^item> \<open>Gf_Entry\<close> (entry.rs, lib.rs): which paths, modes and owners are accepted, and that a document's files
    are well formed and free of collisions. \<open>Gf_Manifest\<close> (manifest.rs): the round trip of the manifest.
  \<^item> \<open>Gf_Plan\<close> (plan.rs): the plan, branch by branch; it touches only what it may, and the manifest after
    a partial commit is right. \<open>Gf_Settle\<close>: once a plan was carried out, planning again finds nothing to do.
  \<^item> \<open>Gf_Base64\<close>, \<open>Gf_Pct\<close> (pct.rs): the encoding with a decoder as its specification; the scripts, a
    reader for their shell subset, and their functions on a model of the guest. \<open>Gf_Scripts\<close>: a script is
    read back as exactly what was planned. \<open>Gf_Shell\<close>: what one command may change. \<open>Gf_Process\<close>: the process
    that runs a script, with its capped pipes and its time limit; when a call returns, and what.
  \<^item> \<open>Gf_Sync\<close> (guest.rs): inspect and sync over the interface \<open>guest_interface\<close>, interpreted on the
    guest over \<^verbatim>\<open>pct exec\<close>: with other processes acting between any two commands, a sync takes away only
    what it may. \<open>Gf_Report\<close> extends the interface to \<open>reporting_guest\<close>: what a report says was done was done.
    \<open>Gf_Quiet\<close>, \<open>Gf_Open\<close>, \<open>Gf_Twice\<close>: in a guest nobody else touches and whose ways to the files are open, a
    sync that reports all of it as done has made the tree its plan is for, and a second sync changes nothing.
  \<^item> \<open>Gf_Node\<close> (node.rs), \<open>Gf_Daemon\<close> (daemon.rs): the host's files; polls, what is due, what is
    remembered and said. A readable poll acts on exactly the due containers, every container gets its
    sync, and an unreadable poll touches nothing. \<open>Gf_Main\<close> (main.rs): the command line; \<open>status\<close> changes
    nothing, and what the exit status of \<open>sync\<close> means.
  \<^item> \<open>Gf_Lock\<close> (lock.rs, and its callers in daemon.rs and main.rs): the lock of a guest over the interface
    \<open>exclusive_lock\<close>, a sync cut at its calls of the guest, and a step relation that interleaves the calls of
    any processes. Every reachable state is one that whole syncs, one after the other, lead to.

  \<^bold>\<open>State, errors and bounds.\<close> Fallible operations return a sum with the error on the left; stateful
  ones pass the file system, the world (file system and log), the guest or the daemon explicitly. Guest
  ids, modes and owners are 32-bit words, inodes 64-bit; sizes are natural numbers compared with the
  code's constants. Strings are the bytes of their UTF-8 text. Two definitions have fuel, both for
  symbolic links inside a guest: \<open>gwalk\<close> and \<open>gfollow\<close> stop at 40 links, as the kernel does, so
  running out is what the system call reports. Inside a guest one script command is one step, before which
  other processes may have done anything; a call may be cut after any number of commands.

  \<^bold>\<open>Parameters.\<close> Code that is not in the repository is an argument: the YAML and JSON libraries and
  SHA-256 (record \<open>libs\<close>), serde for the manifest and Unicode escapes of \<open>Debug\<close> (\<open>gf_libs\<close>), serde for a browser request
  (\<open>wasm_libs\<close>), the environment variables and the clock of a Perl call (\<open>perl_env\<close>), the format
  checkers of the caller, the environment (\<open>env\<close>), file-system faults, the behaviour of other processes,
  failing tools and the fate of a \<^verbatim>\<open>pct\<close> call (fields of \<open>guest\<close>), what a child process, its pipes and the
  clock do (\<open>child\<close>), the failures of the calls behind a lock (\<open>lock_env\<close>), and, in a poll, the outcome of
  taking it.

  The supervising loop of \<open>Gf_Process\<close> is a partial function; that it returns is proved from a clock that
  moves with its sleeps. The step relation of \<open>Gf_Lock\<close> has no bound on processes or steps.

  \<^bold>\<open>Not modelled.\<close> In the model of a sync every \<^verbatim>\<open>pct\<close> call returns, with the outcomes \<open>Gf_Process\<close>
  describes; the call that never returns is a case of \<open>Gf_Process\<close> only. A process killed in the middle of
  a call, the sleep of the daemon's loop; the serializers derived by serde but those of a listing's rows,
  findings and answers; allocation and raw pointers of the browser library, the export glue and the version
  of the Perl package; accessors that return a field as it is; the command-line tool, the Perl modules, the
  browser code, packaging and the patches to Proxmox VE, which call the modelled crates.
\<close>

end
